(* ===== verification/RT_Prelude.thy ===== *)
theory RT_Prelude
  imports Main "HOL-Library.Word"
begin

text \<open>
  Prelude of the development: the machine integer types of the 32-bit Cortex-M4
  target, the error codes and constants of \<^verbatim>\<open>include/rtdef.h\<close> that several
  components share, 32-bit arithmetic on naturals with the wrap-around written
  out, and generic lemmas on lists and words.
\<close>

unbundle bit_operations_syntax

section \<open>Machine integers\<close>

type_synonym u8 = "8 word"
type_synonym u16 = "16 word"
type_synonym u32 = "32 word"

text \<open>\<^verbatim>\<open>rt_err_t\<close> is a signed \<^verbatim>\<open>long\<close>; the kernel stores small negative codes in it.\<close>

type_synonym rt_err_t = int

abbreviation (input) RT_EOK :: rt_err_t where "RT_EOK \<equiv> 0"
abbreviation (input) RT_ERROR :: rt_err_t where "RT_ERROR \<equiv> 1"
abbreviation (input) RT_ETIMEOUT :: rt_err_t where "RT_ETIMEOUT \<equiv> 2"
abbreviation (input) RT_EFULL :: rt_err_t where "RT_EFULL \<equiv> 3"
abbreviation (input) RT_EINTR :: rt_err_t where "RT_EINTR \<equiv> 9"

section \<open>32-bit unsigned arithmetic on naturals\<close>

text \<open>
  The heap manager computes with \<^verbatim>\<open>rt_size_t\<close> offsets (32-bit unsigned).  They are
  naturals below \<open>2 ^ 32\<close> here, and every C operation that can wrap is one of the
  following functions.
\<close>

definition wadd :: "nat \<Rightarrow> nat \<Rightarrow> nat" where
  "wadd a b = (a + b) mod 2 ^ 32"

definition wsub :: "nat \<Rightarrow> nat \<Rightarrow> nat" where
  "wsub a b = (a + (2 ^ 32 - b mod 2 ^ 32)) mod 2 ^ 32"

definition wmul :: "nat \<Rightarrow> nat \<Rightarrow> nat" where
  "wmul a b = (a * b) mod 2 ^ 32"

text \<open>\<^verbatim>\<open>RT_ALIGN(size, 4)\<close> and \<^verbatim>\<open>RT_ALIGN_DOWN(size, 4)\<close>: add three with wrap-around and clear the two low bits.\<close>

definition rt_align :: "nat \<Rightarrow> nat" where
  "rt_align sz = wadd sz 3 div 4 * 4"

definition rt_align_down :: "nat \<Rightarrow> nat" where
  "rt_align_down sz = sz div 4 * 4"

named_theorems wrap_simps

lemma wadd_small [wrap_simps]: "a + b < 2 ^ 32 \<Longrightarrow> wadd a b = a + b"
  by (simp add: wadd_def)

lemma wsub_small [wrap_simps]: "b \<le> a \<Longrightarrow> a < 2 ^ 32 \<Longrightarrow> wsub a b = a - b"
proof -
  assume ba: "b \<le> a" and a: "a < 2 ^ 32"
  then have b: "b < 2 ^ 32" by simp
  have "a + (2 ^ 32 - b mod 2 ^ 32) = (a - b) + 2 ^ 32"
    using ba b by simp
  then show ?thesis using a unfolding wsub_def by simp
qed

lemma wmul_small [wrap_simps]: "a * b < 2 ^ 32 \<Longrightarrow> wmul a b = a * b"
  by (simp add: wmul_def)

lemma wadd_less [simp]: "wadd a b < 2 ^ 32"
  by (simp add: wadd_def)

lemma wsub_less [simp]: "wsub a b < 2 ^ 32"
  by (simp add: wsub_def)

lemma rt_align_dvd [simp]: "4 dvd rt_align n"
  by (simp add: rt_align_def)

lemma rt_align_down_dvd [simp]: "4 dvd rt_align_down n"
  by (simp add: rt_align_down_def)

lemma rt_align_ge: "n + 3 < 2 ^ 32 \<Longrightarrow> n \<le> rt_align n"
  by (simp add: rt_align_def wadd_def)

lemma rt_align_less: "n + 3 < 2 ^ 32 \<Longrightarrow> rt_align n < n + 4"
  by (simp add: rt_align_def wadd_def)

lemma rt_align_id: "4 dvd n \<Longrightarrow> n < 2 ^ 32 - 3 \<Longrightarrow> rt_align n = n"
  by (auto simp: rt_align_def wadd_def)

lemma and_not_3_word: "(y :: u32) AND NOT 3 = push_bit 2 (drop_bit 2 y)"
proof -
  have S: "2 \<le> n \<Longrightarrow> Suc (Suc (n - 2)) = n" for n by simp
  have "(3 :: u32) = mask 2" by (simp add: mask_eq_exp_minus_1)
  then have "y AND NOT 3 = y AND NOT (mask 2)" by (rule arg_cong)
  also have "\<dots> = push_bit 2 (drop_bit 2 y)"
    by (rule bit_word_eqI) (auto simp: bit_simps not_less S)
  finally show ?thesis .
qed

lemma rt_align_eq_bits:
  "rt_align (unat x) = unat ((x + 3) AND (NOT 3 :: u32))"
proof -
  have "unat (push_bit 2 (drop_bit 2 y)) = unat y div 4 * 4" for y :: u32
  proof -
    have "unat y div 4 * 4 < 2 ^ 32"
      using unsigned_less [of y, where 'a = nat] by simp
    then show ?thesis
      by (simp add: push_bit_eq_mult drop_bit_eq_div unat_mult_lem [THEN iffD1] unat_div)
  qed
  then have "unat ((x + 3) AND NOT 3) = unat (x + 3) div 4 * 4"
    by (simp only: and_not_3_word)
  then show ?thesis
    by (simp add: rt_align_def wadd_def unat_word_ariths)
qed

section \<open>Lists\<close>

named_theorems list_simps

lemma removeAll_id [simp]: "x \<notin> set xs \<Longrightarrow> removeAll x xs = xs"
  by (induction xs) auto

lemma removeAll_split [list_simps]:
  "distinct (us @ x # vs) \<Longrightarrow> removeAll x (us @ x # vs) = us @ vs"
  by simp

lemma hd_removeAll_hd:
  "distinct (x # xs) \<Longrightarrow> removeAll x (x # xs) = xs"
  by simp

lemma successively_cong_in:
  assumes "\<And>x y. x \<in> set xs \<Longrightarrow> y \<in> set xs \<Longrightarrow> P x y = Q x y"
  shows "successively P xs = successively Q xs"
  using assms by (induction xs rule: induct_list012) auto

section \<open>Words\<close>

lemma bit_mask_word:
  "n < 32 \<Longrightarrow> bit ((push_bit n 1) :: u32) m \<longleftrightarrow> m = n"
  by (auto simp: bit_simps)

lemma word_eq_0_iff_bits: "(w :: u32) = 0 \<longleftrightarrow> (\<forall>n < 32. \<not> bit w n)"
  by (auto intro: bit_word_eqI)

text \<open>Splitting a list in the order of a key at a bound.\<close>

lemma dropWhile_above:
  fixes f :: "'a \<Rightarrow> 'b :: linorder"
  assumes "sorted (map f xs)" "y \<in> set (dropWhile (\<lambda>x. f x \<le> c) xs)"
  shows "c < f y"
  using assms
proof (induction xs)
  case (Cons x xs)
  show ?case
  proof (cases "f x \<le> c")
    case False
    then have "c < f x" by simp
    moreover have "y = x \<or> y \<in> set xs" using Cons.prems(2) False by simp
    moreover have "y \<in> set xs \<Longrightarrow> f x \<le> f y" using Cons.prems(1) by simp
    ultimately show ?thesis by force
  qed (use Cons in simp)
qed simp

lemma takeWhile_below: "x \<in> set (takeWhile (\<lambda>x. f x \<le> c) xs) \<Longrightarrow> f x \<le> c"
  by (drule set_takeWhileD) simp

lemma sorted_split_insert:
  fixes f :: "'a \<Rightarrow> 'b :: linorder"
  assumes "sorted (map f xs)"
  shows "sorted (map f (takeWhile (\<lambda>x. f x \<le> f t) xs @ t # dropWhile (\<lambda>x. f x \<le> f t) xs))"
proof -
  let ?P = "\<lambda>x. f x \<le> f t"
  define as bs where "as = takeWhile ?P xs" and "bs = dropWhile ?P xs"
  have "sorted (map f (as @ bs))" using assms by (simp add: as_def bs_def)
  moreover have "f t \<le> f y" if "y \<in> set bs" for y
    using dropWhile_above [OF assms that [unfolded bs_def]] by simp
  moreover have "f x \<le> f t" if "x \<in> set as" for x using takeWhile_below [OF that [unfolded as_def]] .
  ultimately have "sorted (map f (as @ t # bs))" by (auto simp: sorted_append)
  then show ?thesis by (simp only: as_def bs_def)
qed

end
