(* ===== verification/RT_List.thy ===== *)
theory RT_List
  imports RT_Prelude
begin

text \<open>
  The intrusive doubly linked lists of \<^verbatim>\<open>include/rtservice.h\<close>.  Every kernel queue is
  one of them: a head structure and list nodes embedded in threads, timers and
  objects.  The pointer operations are modelled on an explicit store of \<open>next\<close> and
  \<open>prev\<close> fields, and refined to a functional store that maps every head to the
  list of nodes linked behind it.  The kernel theories use the functional store.
\<close>

section \<open>The pointer level\<close>

text \<open>A list cell is either a list head or a node embedded in a kernel structure.\<close>

datatype ('h, 'n) cell = Head 'h | Node 'n

record ('h, 'n) links =
  nxt :: "('h, 'n) cell \<Rightarrow> ('h, 'n) cell"
  prv :: "('h, 'n) cell \<Rightarrow> ('h, 'n) cell"

definition set_nxt :: "('h, 'n) cell \<Rightarrow> ('h, 'n) cell \<Rightarrow> ('h, 'n) links \<Rightarrow> ('h, 'n) links" where
  "set_nxt c v h = h\<lparr>nxt := (nxt h)(c := v)\<rparr>"

definition set_prv :: "('h, 'n) cell \<Rightarrow> ('h, 'n) cell \<Rightarrow> ('h, 'n) links \<Rightarrow> ('h, 'n) links" where
  "set_prv c v h = h\<lparr>prv := (prv h)(c := v)\<rparr>"

definition rt_list_init :: "('h, 'n) cell \<Rightarrow> ('h, 'n) links \<Rightarrow> ('h, 'n) links" where
  "rt_list_init l h = set_nxt l l (set_prv l l h)"

text \<open>The four assignments of each operation are performed in the order of the source.\<close>

definition rt_list_insert_after ::
  "('h, 'n) cell \<Rightarrow> ('h, 'n) cell \<Rightarrow> ('h, 'n) links \<Rightarrow> ('h, 'n) links" where
  "rt_list_insert_after l n h0 =
     (let h1 = set_prv (nxt h0 l) n h0;
          h2 = set_nxt n (nxt h1 l) h1;
          h3 = set_nxt l n h2
      in set_prv n l h3)"

definition rt_list_insert_before ::
  "('h, 'n) cell \<Rightarrow> ('h, 'n) cell \<Rightarrow> ('h, 'n) links \<Rightarrow> ('h, 'n) links" where
  "rt_list_insert_before l n h0 =
     (let h1 = set_nxt (prv h0 l) n h0;
          h2 = set_prv n (prv h1 l) h1;
          h3 = set_prv l n h2
      in set_nxt n l h3)"

definition rt_list_remove :: "('h, 'n) cell \<Rightarrow> ('h, 'n) links \<Rightarrow> ('h, 'n) links" where
  "rt_list_remove n h0 =
     (let h1 = set_prv (nxt h0 n) (prv h0 n) h0;
          h2 = set_nxt (prv h1 n) (nxt h1 n) h1;
          h3 = set_prv n n h2
      in set_nxt n (prv h3 n) h3)"

definition rt_list_isempty :: "('h, 'n) cell \<Rightarrow> ('h, 'n) links \<Rightarrow> bool" where
  "rt_list_isempty l h \<longleftrightarrow> nxt h l = l"

text \<open>
  \<^verbatim>\<open>rt_list_len\<close> walks the ring until it is back at the head; on a broken ring the
  walk may never end, which is the value \<open>None\<close>.  The counter is an
  \<^verbatim>\<open>unsigned int\<close>.
\<close>

partial_function (option) rt_list_len_loop ::
  "('h, 'n) cell \<Rightarrow> ('h, 'n) cell \<Rightarrow> u32 \<Rightarrow> ('h, 'n) links \<Rightarrow> u32 option" where
  [code]: "rt_list_len_loop l p len h =
     (if nxt h p \<noteq> l then rt_list_len_loop l (nxt h p) (len + 1) h else Some len)"

definition rt_list_len :: "('h, 'n) cell \<Rightarrow> ('h, 'n) links \<Rightarrow> u32 option" where
  "rt_list_len l h = rt_list_len_loop l l 0 h"

section \<open>Rings\<close>

text \<open>
  \<open>segment h ps\<close>: the cells \<open>ps\<close> are linked one after the other, in both
  directions.  A list is a ring through its head.
\<close>

definition linked :: "('h, 'n) links \<Rightarrow> ('h, 'n) cell \<Rightarrow> ('h, 'n) cell \<Rightarrow> bool" where
  "linked h x y \<longleftrightarrow> nxt h x = y \<and> prv h y = x"

abbreviation segment :: "('h, 'n) links \<Rightarrow> ('h, 'n) cell list \<Rightarrow> bool" where
  "segment h \<equiv> successively (linked h)"

definition ring :: "('h, 'n) links \<Rightarrow> ('h, 'n) cell \<Rightarrow> ('h, 'n) cell list \<Rightarrow> bool" where
  "ring h l xs \<longleftrightarrow> segment h (l # xs @ [l]) \<and> distinct (l # xs)"

text \<open>A functional store: the nodes behind every head.\<close>

type_synonym ('h, 'n) store = "'h \<Rightarrow> 'n list"

definition store_ok :: "('h, 'n) store \<Rightarrow> bool" where
  "store_ok S \<longleftrightarrow> (\<forall>k. distinct (S k)) \<and> (\<forall>j k. j \<noteq> k \<longrightarrow> set (S j) \<inter> set (S k) = {})"

definition detached :: "'n \<Rightarrow> ('h, 'n) store \<Rightarrow> bool" where
  "detached n S \<longleftrightarrow> (\<forall>k. n \<notin> set (S k))"

text \<open>
  The pointer store represents the functional store: every head starts a ring of
  its nodes, and a node that is in no list is linked to itself.
\<close>

definition represents :: "('h, 'n) links \<Rightarrow> ('h, 'n) store \<Rightarrow> bool" where
  "represents h S \<longleftrightarrow> store_ok S
     \<and> (\<forall>k. ring h (Head k) (map Node (S k)))
     \<and> (\<forall>n. detached n S \<longrightarrow> nxt h (Node n) = Node n \<and> prv h (Node n) = Node n)"

text \<open>The operations on the functional store.\<close>

definition list_remove :: "'n \<Rightarrow> ('h, 'n) store \<Rightarrow> ('h, 'n) store" where
  "list_remove n S = (\<lambda>k. removeAll n (S k))"

definition list_insert_after :: "'h \<Rightarrow> 'n \<Rightarrow> ('h, 'n) store \<Rightarrow> ('h, 'n) store" where
  "list_insert_after k n S = S(k := n # S k)"

definition list_insert_before :: "'h \<Rightarrow> 'n \<Rightarrow> ('h, 'n) store \<Rightarrow> ('h, 'n) store" where
  "list_insert_before k n S = S(k := S k @ [n])"

fun insert_before_in :: "'n \<Rightarrow> 'n \<Rightarrow> 'n list \<Rightarrow> 'n list" where
  "insert_before_in m n [] = []"
| "insert_before_in m n (x # xs) = (if x = m then n # x # xs else x # insert_before_in m n xs)"

fun insert_after_in :: "'n \<Rightarrow> 'n \<Rightarrow> 'n list \<Rightarrow> 'n list" where
  "insert_after_in m n [] = []"
| "insert_after_in m n (x # xs) = (if x = m then x # n # xs else x # insert_after_in m n xs)"

definition list_insert_before_node :: "'n \<Rightarrow> 'n \<Rightarrow> ('h, 'n) store \<Rightarrow> ('h, 'n) store" where
  "list_insert_before_node m n S = (\<lambda>k. insert_before_in m n (S k))"

definition list_insert_after_node :: "'n \<Rightarrow> 'n \<Rightarrow> ('h, 'n) store \<Rightarrow> ('h, 'n) store" where
  "list_insert_after_node m n S = (\<lambda>k. insert_after_in m n (S k))"

section \<open>Lemmas on segments\<close>

lemma set_nxt_sel [simp]: "nxt (set_nxt c v h) = (nxt h)(c := v)" "prv (set_nxt c v h) = prv h"
  by (simp_all add: set_nxt_def)

lemma set_prv_sel [simp]: "prv (set_prv c v h) = (prv h)(c := v)" "nxt (set_prv c v h) = nxt h"
  by (simp_all add: set_prv_def)

lemma segment_frame:
  assumes "\<forall>c \<in> set (butlast ps). nxt h' c = nxt h c"
    and "\<forall>c \<in> set (tl ps). prv h' c = prv h c"
  shows "segment h' ps = segment h ps"
  using assms
proof (induction ps rule: induct_list012)
  case (3 x y zs)
  then show ?case by (cases zs) (auto simp: linked_def)
qed simp_all

lemma segment_append:
  "xs \<noteq> [] \<Longrightarrow> ys \<noteq> [] \<Longrightarrow>
     segment h (xs @ ys) \<longleftrightarrow> segment h xs \<and> linked h (last xs) (hd ys) \<and> segment h ys"
  by (auto simp: successively_append_iff)

text \<open>Cutting a ring open between two neighbours.\<close>

lemma ring_cut:
  "segment h (l # (us @ vs) @ [l]) \<longleftrightarrow>
     segment h (l # us) \<and> linked h (last (l # us)) (hd (vs @ [l])) \<and> segment h (vs @ [l])"
  using segment_append [of "l # us" "vs @ [l]" h] by simp

lemma last_us_fresh: "distinct (l # us @ vs) \<Longrightarrow> last (l # us) \<notin> set (butlast (l # us)) \<union> set vs"
  by (cases us rule: rev_cases) auto

lemma hd_vs_fresh: "distinct (l # us @ vs) \<Longrightarrow> hd (vs @ [l]) \<notin> set us \<union> set (tl (vs @ [l]))"
  by (cases vs) auto

text \<open>Linking a fresh cell in between, and unlinking a cell.\<close>

lemma ring_splice:
  assumes ring: "ring h l (us @ vs)"
    and fresh: "n \<notin> set (l # us @ vs)"
    and p: "p = last (l # us)" and q: "q = hd (vs @ [l])"
    and nx: "nxt h' = (nxt h)(p := n, n := q)"
    and pv: "prv h' = (prv h)(q := n, n := p)"
  shows "ring h' l (us @ n # vs)"
proof -
  have d: "distinct (l # us @ vs)" and s: "segment h (l # (us @ vs) @ [l])"
    using ring by (simp_all add: ring_def)
  have s1: "segment h (l # us)" and s2: "segment h (vs @ [l])"
    using s unfolding ring_cut by blast+
  have pf: "p \<notin> set (butlast (l # us))" "p \<notin> set vs"
    using last_us_fresh [OF d] by (auto simp: p)
  have qf: "q \<notin> set us" "q \<notin> set (tl (vs @ [l]))"
    using hd_vs_fresh [OF d] by (auto simp: q)
  have pn: "p \<noteq> n" "q \<noteq> n" and mem: "p \<in> set (l # us)"
    using fresh by (auto simp: p q hd_append)
  have b: "c \<in> set (butlast (l # us)) \<Longrightarrow> c \<noteq> n" for c
    using fresh in_set_butlastD [of c "l # us"] by auto
  have t: "c \<in> set (tl (vs @ [l])) \<Longrightarrow> c \<noteq> n" for c
    using fresh by (cases vs) auto
  have "segment h' (l # us)"
    using s1 pf qf b fresh by (subst segment_frame [of _ h' h]) (auto simp: nx pv)
  moreover have "segment h' (vs @ [l])"
    using s2 pf qf t fresh by (subst segment_frame [of _ h' h]) (auto simp: nx pv)
  moreover have "linked h' p n" "linked h' n q"
    using pn by (auto simp: linked_def nx pv)
  ultimately have "segment h' (l # us @ n # vs @ [l])"
    using segment_append [of "l # us" "n # vs @ [l]" h'] segment_append [of "[n]" "vs @ [l]" h']
    by (simp add: p q)
  then show ?thesis using d fresh by (auto simp: ring_def)
qed

lemma ring_unlink:
  assumes ring: "ring h l (us @ n # vs)"
    and p: "p = last (l # us)" and q: "q = hd (vs @ [l])"
    and nx: "nxt h' = (nxt h)(p := q, n := n)"
    and pv: "prv h' = (prv h)(q := p, n := n)"
  shows "ring h' l (us @ vs)"
proof -
  have d: "distinct (l # us @ n # vs)" and s: "segment h (l # us @ (n # vs @ [l]))"
    using ring by (simp_all add: ring_def)
  then have d': "distinct (l # us @ vs)" by auto
  have s1: "segment h (l # us)" and s2: "segment h (vs @ [l])"
    using s segment_append [of "l # us" "n # vs @ [l]" h] segment_append [of "[n]" "vs @ [l]" h]
    by auto
  have pf: "p \<notin> set (butlast (l # us))" "p \<notin> set vs"
    using last_us_fresh [OF d'] by (auto simp: p)
  have qf: "q \<notin> set us" "q \<notin> set (tl (vs @ [l]))"
    using hd_vs_fresh [OF d'] by (auto simp: q)
  have fresh: "n \<notin> set (l # us @ vs)" using d by auto
  have pn: "p \<noteq> n" "q \<noteq> n" using fresh by (auto simp: p q hd_append)
  have b: "c \<in> set (butlast (l # us)) \<Longrightarrow> c \<noteq> n" for c
    using fresh in_set_butlastD [of c "l # us"] by auto
  have t: "c \<in> set (tl (vs @ [l])) \<Longrightarrow> c \<noteq> n" for c
    using fresh by (cases vs) auto
  have "segment h' (l # us)"
    using s1 pf qf b fresh by (subst segment_frame [of _ h' h]) (auto simp: nx pv)
  moreover have "segment h' (vs @ [l])"
    using s2 pf qf t fresh by (subst segment_frame [of _ h' h]) (auto simp: nx pv)
  moreover have "linked h' p q" using pn by (simp add: linked_def nx pv)
  ultimately show ?thesis
    using d' by (simp add: ring_def ring_cut [of h' l us vs, simplified] p q)
qed

section \<open>Refinement of the pointer operations\<close>

lemma ring_frame:
  assumes "ring h l xs" "\<forall>c \<in> set (l # xs). nxt h' c = nxt h c \<and> prv h' c = prv h c"
  shows "ring h' l xs"
proof -
  have "segment h' (l # xs @ [l]) = segment h (l # xs @ [l])"
    by (rule segment_frame) (use assms(2) in \<open>auto simp: butlast_append\<close>)
  then show ?thesis using assms(1) by (simp add: ring_def)
qed

lemma ring_neighbours:
  "ring h l (us @ vs) \<Longrightarrow> linked h (last (l # us)) (hd (vs @ [l]))"
  using ring_cut [of h l us vs] by (simp add: ring_def)

lemma rt_list_insert_after_fields:
  assumes "linked h p q" "p \<noteq> n" "q \<noteq> n"
  shows "nxt (rt_list_insert_after p n h) = (nxt h)(p := n, n := q)"
    and "prv (rt_list_insert_after p n h) = (prv h)(q := n, n := p)"
  using assms by (auto simp: rt_list_insert_after_def Let_def linked_def)

lemma rt_list_insert_before_fields:
  assumes "linked h p q" "p \<noteq> n" "q \<noteq> n"
  shows "nxt (rt_list_insert_before q n h) = (nxt h)(p := n, n := q)"
    and "prv (rt_list_insert_before q n h) = (prv h)(q := n, n := p)"
  using assms by (auto simp: rt_list_insert_before_def Let_def linked_def)

lemma rt_list_remove_fields:
  assumes "linked h p n" "linked h n q" "p \<noteq> n" "q \<noteq> n"
  shows "nxt (rt_list_remove n h) = (nxt h)(p := q, n := n)"
    and "prv (rt_list_remove n h) = (prv h)(q := p, n := n)"
  using assms by (auto simp: rt_list_remove_def Let_def linked_def)

lemma rt_list_remove_detached:
  assumes "nxt h n = n" "prv h n = n"
  shows "nxt (rt_list_remove n h) = nxt h" "prv (rt_list_remove n h) = prv h"
  using assms by (auto simp: rt_list_remove_def Let_def)

lemma representsD:
  assumes "represents h S"
  shows "store_ok S" "ring h (Head k) (map Node (S k))"
    and "detached n S \<Longrightarrow> nxt h (Node n) = Node n \<and> prv h (Node n) = Node n"
  using assms by (auto simp: represents_def)

lemma store_ok_disjoint: "store_ok S \<Longrightarrow> j \<noteq> k \<Longrightarrow> n \<in> set (S j) \<Longrightarrow> n \<notin> set (S k)"
  by (auto simp: store_ok_def)

lemma store_ok_distinct [intro]: "store_ok S \<Longrightarrow> distinct (S k)"
  by (simp add: store_ok_def)

lemma store_ok_insert:
  assumes ok: "store_ok S" and det: "detached n S" and k: "S k = us @ vs"
  shows "store_ok (S(k := us @ n # vs))"
proof -
  have d: "distinct (us @ vs)" and n: "n \<notin> set (us @ vs)"
    using store_ok_distinct [OF ok, of k] det by (simp_all add: detached_def flip: k)
  moreover have "set (us @ n # vs) \<inter> set (S j) = {}" if "j \<noteq> k" for j
  proof -
    have "set (us @ vs) \<inter> set (S j) = {}" "n \<notin> set (S j)"
      using store_ok_disjoint [OF ok that] det by (auto simp: detached_def simp flip: k)
    then show ?thesis by auto
  qed
  ultimately show ?thesis using ok by (auto simp: store_ok_def)
qed

lemma store_ok_remove [simp, intro]: "store_ok S \<Longrightarrow> store_ok (list_remove n S)"
  by (auto simp: store_ok_def list_remove_def distinct_removeAll)

lemma detached_remove [simp]: "detached n (list_remove n S)"
  by (simp add: detached_def list_remove_def)

lemma list_remove_detached [simp]: "detached n S \<Longrightarrow> list_remove n S = S"
  by (auto simp: detached_def list_remove_def fun_eq_iff)

lemma list_remove_other [simp]: "n \<noteq> m \<Longrightarrow> m \<in> set (list_remove n S k) \<longleftrightarrow> m \<in> set (S k)"
  by (auto simp: list_remove_def)

text \<open>The lists an operation does not touch stay as they are.\<close>

lemma represents_frame_ring:
  assumes rep: "represents h S" and "j \<noteq> k" "n \<notin> set (S j)"
    and same: "\<And>c. c \<noteq> Head k \<Longrightarrow> c \<notin> Node ` insert n (set (S k)) \<Longrightarrow>
                 nxt h' c = nxt h c \<and> prv h' c = prv h c"
  shows "ring h' (Head j) (map Node (S j))"
proof (rule ring_frame [OF representsD(2) [OF rep]], rule ballI, rule same)
  fix c
  assume c: "c \<in> set (Head j # map Node (S j))"
  show "c \<noteq> Head k" using c \<open>j \<noteq> k\<close> by auto
  show "c \<notin> Node ` insert n (set (S k))"
    using c assms(2,3) store_ok_disjoint [OF representsD(1) [OF rep], of j k] by auto
qed

text \<open>Splicing a detached node into one of the lists.\<close>

lemma represents_splice:
  assumes rep: "represents h S" and det: "detached n S" and k: "S k = us @ vs"
    and p: "p = last (Head k # map Node us)" and q: "q = hd (map Node vs @ [Head k])"
    and nx: "nxt h' = (nxt h)(p := Node n, Node n := q)"
    and pv: "prv h' = (prv h)(q := Node n, Node n := p)"
  shows "represents h' (S(k := us @ n # vs))"
proof -
  have ok: "store_ok S" by (rule representsD [OF rep])
  have cells: "p \<in> insert (Head k) (Node ` set (S k))" "q \<in> insert (Head k) (Node ` set (S k))"
    by (auto simp: p q k hd_append hd_map last_map)
  have same: "nxt h' c = nxt h c \<and> prv h' c = prv h c"
    if "c \<noteq> Head k" "c \<notin> Node ` insert n (set (S k))" for c
    using that cells by (auto simp: nx pv)
  have n: "n \<notin> set (us @ vs)" using det by (simp add: detached_def flip: k)
  have "ring h (Head k) (map Node us @ map Node vs)" using representsD(2) [OF rep, of k] k by simp
  then have "ring h' (Head k) (map Node us @ Node n # map Node vs)"
    by (rule ring_splice [OF _ _ p q nx pv]) (use n in auto)
  moreover have "ring h' (Head j) (map Node (S j))" if "j \<noteq> k" for j
    by (rule represents_frame_ring [OF rep that _ same]) (use det in \<open>auto simp: detached_def\<close>)
  ultimately have "ring h' (Head j) (map Node ((S(k := us @ n # vs)) j))" for j
    by simp
  moreover have "nxt h' (Node m) = Node m \<and> prv h' (Node m) = Node m"
    if "detached m (S(k := us @ n # vs))" for m
  proof -
    have mj: "m \<notin> set ((S(k := us @ n # vs)) j)" for j using that by (simp add: detached_def)
    have m1: "m \<noteq> n" "m \<notin> set (S k)" using mj [of k] k by simp_all
    have "m \<notin> set (S j)" for j using mj [of j] m1 by (cases "j = k") simp_all
    with m1 have m: "m \<noteq> n" "m \<notin> set (S k)" "detached m S" by (simp_all add: detached_def)
    then show ?thesis using representsD(3) [OF rep m(3)] same [of "Node m"] by auto
  qed
  ultimately show ?thesis using store_ok_insert [OF ok det k] by (auto simp: represents_def)
qed

lemma represents_fields:
  assumes "represents h S" "nxt h' = nxt h" "prv h' = prv h"
  shows "represents h' S"
  using assms by (auto simp: represents_def intro: ring_frame)

lemma represents_insert_after_head:
  assumes rep: "represents h S" and det: "detached n S"
  shows "represents (rt_list_insert_after (Head k) (Node n) h) (list_insert_after k n S)"
proof -
  let ?q = "hd (map Node (S k) @ [Head k])"
  have l: "linked h (Head k) ?q"
    using ring_neighbours [of h "Head k" "[]" "map Node (S k)"] representsD(2) [OF rep, of k] by simp
  have ne: "?q \<noteq> Node n" using det by (cases "S k") (auto simp: detached_def dest: spec [of _ k])
  show ?thesis
    using represents_splice [OF rep det, of k "[]" "S k", OF _ _ _ rt_list_insert_after_fields [OF l _ ne]]
    by (simp add: list_insert_after_def)
qed

lemma represents_insert_before_head:
  assumes rep: "represents h S" and det: "detached n S"
  shows "represents (rt_list_insert_before (Head k) (Node n) h) (list_insert_before k n S)"
proof -
  let ?p = "last (Head k # map Node (S k))"
  have l: "linked h ?p (Head k)"
    using ring_neighbours [of h "Head k" "map Node (S k)" "[]"] representsD(2) [OF rep, of k] by simp
  have ne: "?p \<noteq> Node n"
    using det by (cases "S k" rule: rev_cases) (auto simp: detached_def dest: spec [of _ k])
  show ?thesis
    using represents_splice [OF rep det, of k "S k" "[]", OF _ _ _ rt_list_insert_before_fields [OF l ne]]
    by (simp add: list_insert_before_def)
qed

lemma insert_before_in_absent [simp]: "m \<notin> set xs \<Longrightarrow> insert_before_in m n xs = xs"
  by (induction xs) auto

lemma insert_after_in_absent [simp]: "m \<notin> set xs \<Longrightarrow> insert_after_in m n xs = xs"
  by (induction xs) auto

lemma insert_before_in_split [simp]:
  "m \<notin> set us \<Longrightarrow> insert_before_in m n (us @ m # vs) = us @ n # m # vs"
  by (induction us) auto

lemma insert_after_in_split [simp]:
  "m \<notin> set us \<Longrightarrow> insert_after_in m n (us @ m # vs) = us @ m # n # vs"
  by (induction us) auto

lemma store_split:
  assumes ok: "store_ok S" and m: "m \<in> set (S k)"
  obtains us vs where "S k = us @ m # vs" "m \<notin> set us" "m \<notin> set vs" "\<forall>j. j \<noteq> k \<longrightarrow> m \<notin> set (S j)"
proof -
  obtain us vs where S: "S k = us @ m # vs" using split_list [OF m] by blast
  have "m \<notin> set us" "m \<notin> set vs" using store_ok_distinct [OF ok, of k] by (simp_all add: S)
  moreover have "\<forall>j. j \<noteq> k \<longrightarrow> m \<notin> set (S j)" using store_ok_disjoint [OF ok] m by metis
  ultimately show thesis by (rule that [OF S])
qed

lemma represents_insert_before_node:
  assumes rep: "represents h S" and det: "detached n S" and m: "m \<in> set (S k)"
  shows "represents (rt_list_insert_before (Node m) (Node n) h) (list_insert_before_node m n S)"
proof -
  obtain us vs where S: "S k = us @ m # vs" "m \<notin> set us" "m \<notin> set vs"
      "\<forall>j. j \<noteq> k \<longrightarrow> m \<notin> set (S j)"
    by (rule store_split [OF representsD(1) [OF rep] m])
  let ?p = "last (Head k # map Node us)"
  have l: "linked h ?p (Node m)"
    using ring_neighbours [of h "Head k" "map Node us" "Node m # map Node vs"]
      representsD(2) [OF rep, of k] S(1) by simp
  have n: "n \<notin> set (us @ m # vs)" using det by (simp add: detached_def flip: S(1))
  then have ne: "?p \<noteq> Node n" "Node m \<noteq> Node n" by (auto simp: last_map)
  have "list_insert_before_node m n S = S(k := us @ n # m # vs)"
    using S by (auto simp: list_insert_before_node_def fun_eq_iff)
  then show ?thesis
    using represents_splice [OF rep det S(1) refl _ rt_list_insert_before_fields [OF l ne]] by simp
qed

lemma represents_insert_after_node:
  assumes rep: "represents h S" and det: "detached n S" and m: "m \<in> set (S k)"
  shows "represents (rt_list_insert_after (Node m) (Node n) h) (list_insert_after_node m n S)"
proof -
  obtain us vs where S: "S k = us @ m # vs" "m \<notin> set us" "m \<notin> set vs"
      "\<forall>j. j \<noteq> k \<longrightarrow> m \<notin> set (S j)"
    by (rule store_split [OF representsD(1) [OF rep] m])
  let ?q = "hd (map Node vs @ [Head k])"
  have l: "linked h (Node m) ?q"
    using ring_neighbours [of h "Head k" "map Node us @ [Node m]" "map Node vs"]
      representsD(2) [OF rep, of k] S(1) by simp
  have n: "n \<notin> set (us @ m # vs)" using det by (simp add: detached_def flip: S(1))
  then have ne: "Node m \<noteq> Node n" "?q \<noteq> Node n" by (auto simp: hd_append hd_map)
  have "list_insert_after_node m n S = S(k := (us @ [m]) @ n # vs)"
    using S by (auto simp: list_insert_after_node_def fun_eq_iff)
  moreover have "S k = (us @ [m]) @ vs" using S by simp
  ultimately show ?thesis
    using represents_splice [OF rep det _ _ refl rt_list_insert_after_fields [OF l ne]] by simp
qed

lemma represents_remove:
  assumes rep: "represents h S"
  shows "represents (rt_list_remove (Node n) h) (list_remove n S)"
proof (cases "detached n S")
  case True
  with representsD(3) [OF rep] show ?thesis
    by (simp add: represents_fields [OF rep] rt_list_remove_detached)
next
  case False
  let ?h = "rt_list_remove (Node n) h"
  have ok: "store_ok S" by (rule representsD [OF rep])
  obtain k where nk: "n \<in> set (S k)" using False by (auto simp: detached_def)
  obtain us vs where S: "S k = us @ n # vs" "n \<notin> set us" "n \<notin> set vs"
      "\<forall>j. j \<noteq> k \<longrightarrow> n \<notin> set (S j)"
    by (rule store_split [OF ok nk])
  let ?p = "last (Head k # map Node us)" and ?q = "hd (map Node vs @ [Head k])"
  have r: "ring h (Head k) (map Node us @ Node n # map Node vs)"
    using representsD(2) [OF rep, of k] S(1) by simp
  have l: "linked h ?p (Node n)" "linked h (Node n) ?q"
    using ring_neighbours [OF r] ring_neighbours [of h "Head k" "map Node us @ [Node n]" "map Node vs"] r
    by simp_all
  have ne: "?p \<noteq> Node n" "?q \<noteq> Node n"
    using S by (auto simp: last_map hd_append hd_map)
  note fields = rt_list_remove_fields [OF l ne]
  have cells: "?p \<in> insert (Head k) (Node ` set (S k))" "?q \<in> insert (Head k) (Node ` set (S k))"
    by (auto simp: S(1) hd_append hd_map last_map)
  have same: "nxt ?h c = nxt h c \<and> prv ?h c = prv h c"
    if "c \<noteq> Head k" "c \<notin> Node ` insert n (set (S k))" for c
    using that cells unfolding fields by auto
  have upd: "list_remove n S = S(k := us @ vs)"
    using S by (auto simp: list_remove_def fun_eq_iff)
  have "ring ?h (Head k) (map Node us @ map Node vs)"
    by (rule ring_unlink [OF r refl refl fields])
  moreover have "ring ?h (Head j) (map Node (S j))" if "j \<noteq> k" for j
    by (rule represents_frame_ring [OF rep that _ same]) (use S(4) that in auto)
  ultimately have "ring ?h (Head j) (map Node (list_remove n S j))" for j
    by (simp add: upd)
  moreover have "nxt ?h (Node m) = Node m \<and> prv ?h (Node m) = Node m"
    if "detached m (list_remove n S)" for m
  proof (cases "m = n")
    case True
    then show ?thesis by (simp add: fields)
  next
    case False
    then have "m \<notin> set (S j)" for j
      using that list_remove_other [of n m S j] by (simp add: detached_def)
    then have "detached m S" "m \<notin> set (S k)" by (simp_all add: detached_def)
    then show ?thesis using representsD(3) [OF rep] same [of "Node m"] False by auto
  qed
  ultimately show ?thesis using ok by (simp add: represents_def)
qed

lemma represents_isempty:
  assumes "represents h S"
  shows "rt_list_isempty (Head k) h \<longleftrightarrow> S k = []"
proof -
  have "linked h (Head k) (hd (map Node (S k) @ [Head k]))"
    using ring_neighbours [of h "Head k" "[]" "map Node (S k)"] representsD(2) [OF assms, of k] by simp
  then show ?thesis by (cases "S k") (auto simp: rt_list_isempty_def linked_def)
qed

lemma rt_list_len_loop_segment:
  "segment h (c # xs @ [l]) \<Longrightarrow> l \<notin> set xs \<Longrightarrow>
     rt_list_len_loop l c len h = Some (len + of_nat (length xs))"
proof (induction xs arbitrary: c len)
  case Nil
  then show ?case by (subst rt_list_len_loop.simps) (simp add: linked_def)
next
  case (Cons x xs)
  then have "nxt h c = x" "x \<noteq> l" by (auto simp: linked_def)
  moreover have "rt_list_len_loop l x (len + 1) h = Some (len + 1 + of_nat (length xs))"
    using Cons by simp
  ultimately show ?case by (subst rt_list_len_loop.simps) (simp add: algebra_simps)
qed

lemma represents_len:
  "represents h S \<Longrightarrow> rt_list_len (Head k) h = Some (of_nat (length (S k)))"
  using rt_list_len_loop_segment [of h "Head k" "map Node (S k)" "Head k" 0] representsD(2) [of h S k]
  by (simp add: ring_def rt_list_len_def)

section \<open>The interface of the kernel lists\<close>

text \<open>
  What the kernel relies on when it queues threads, timers and objects.  Both the
  pointer store and the functional store provide it.
\<close>

locale list_store =
  fixes rep :: "'s \<Rightarrow> ('h, 'n) store \<Rightarrow> bool"
    and ins_after :: "'h \<Rightarrow> 'n \<Rightarrow> 's \<Rightarrow> 's"
    and ins_before :: "'h \<Rightarrow> 'n \<Rightarrow> 's \<Rightarrow> 's"
    and rem :: "'n \<Rightarrow> 's \<Rightarrow> 's"
    and empty :: "'h \<Rightarrow> 's \<Rightarrow> bool"
  assumes rep_store_ok: "rep s S \<Longrightarrow> store_ok S"
    and rep_ins_after: "rep s S \<Longrightarrow> detached n S \<Longrightarrow> rep (ins_after k n s) (list_insert_after k n S)"
    and rep_ins_before: "rep s S \<Longrightarrow> detached n S \<Longrightarrow> rep (ins_before k n s) (list_insert_before k n S)"
    and rep_rem: "rep s S \<Longrightarrow> rep (rem n s) (list_remove n S)"
    and rep_empty: "rep s S \<Longrightarrow> empty k s \<longleftrightarrow> S k = []"
begin

text \<open>Moving the first node of a list to its end, as \<^verbatim>\<open>rt_thread_yield\<close> does.\<close>

lemma requeue_first:
  assumes "rep s S" "S k = n # ns"
  shows "rep (ins_before k n (rem n s)) (S(k := ns @ [n]))"
proof -
  have n: "n \<notin> set ns" and other: "\<forall>j. j \<noteq> k \<longrightarrow> n \<notin> set (S j)"
    using store_ok_distinct [OF rep_store_ok [OF assms(1)], of k] assms(2)
      store_ok_disjoint [OF rep_store_ok [OF assms(1)], of k _ n] by auto
  have "list_insert_before k n (list_remove n S) = S(k := ns @ [n])"
    using assms(2) n other by (auto simp: list_insert_before_def list_remove_def fun_eq_iff)
  then show ?thesis
    using rep_ins_before [OF rep_rem [OF assms(1)] detached_remove, where k = k and n = n] by simp
qed

text \<open>Moving a node, from wherever it is, to the end of a list.\<close>

lemma move_to_end:
  assumes "rep s S"
  shows "rep (ins_before k n (rem n s)) (\<lambda>j. if j = k then removeAll n (S j) @ [n] else removeAll n (S j))"
proof -
  have "list_insert_before k n (list_remove n S)
        = (\<lambda>j. if j = k then removeAll n (S j) @ [n] else removeAll n (S j))"
    by (auto simp: list_insert_before_def list_remove_def fun_eq_iff)
  then show ?thesis
    using rep_ins_before [OF rep_rem [OF assms] detached_remove, where k = k and n = n] by simp
qed

lemma not_empty_after_insert:
  "rep s S \<Longrightarrow> detached n S \<Longrightarrow> \<not> empty k (ins_before k n s)"
  using rep_empty [OF rep_ins_before] by (simp add: list_insert_before_def)

end

interpretation ptr: list_store represents
  "\<lambda>k n. rt_list_insert_after (Head k) (Node n)" "\<lambda>k n. rt_list_insert_before (Head k) (Node n)"
  "\<lambda>n. rt_list_remove (Node n)" "\<lambda>k. rt_list_isempty (Head k)"
  by unfold_locales
    (auto intro: represents_insert_after_head represents_insert_before_head represents_remove
      simp: represents_isempty dest: representsD)

lemma store_ok_insert_before [simp, intro]:
  "store_ok S \<Longrightarrow> detached n S \<Longrightarrow> store_ok (list_insert_before k n S)"
  using store_ok_insert [of S n k "S k" "[]"] by (simp add: list_insert_before_def)

lemma store_ok_insert_after [simp, intro]:
  "store_ok S \<Longrightarrow> detached n S \<Longrightarrow> store_ok (list_insert_after k n S)"
  using store_ok_insert [of S n k "[]" "S k"] by (simp add: list_insert_after_def)

interpretation fn: list_store "\<lambda>s S. s = S \<and> store_ok S"
  list_insert_after list_insert_before list_remove "\<lambda>k s. s k = []"
  by unfold_locales auto

section \<open>Sequences of list operations\<close>

datatype ('h, 'n) list_op =
    Insert_after_head 'h 'n
  | Insert_before_head 'h 'n
  | Insert_after_node 'n 'n
  | Insert_before_node 'n 'n
  | Remove 'n

fun ptr_op :: "('h, 'n) list_op \<Rightarrow> ('h, 'n) links \<Rightarrow> ('h, 'n) links" where
  "ptr_op (Insert_after_head k n) h = rt_list_insert_after (Head k) (Node n) h"
| "ptr_op (Insert_before_head k n) h = rt_list_insert_before (Head k) (Node n) h"
| "ptr_op (Insert_after_node m n) h = rt_list_insert_after (Node m) (Node n) h"
| "ptr_op (Insert_before_node m n) h = rt_list_insert_before (Node m) (Node n) h"
| "ptr_op (Remove n) h = rt_list_remove (Node n) h"

fun store_op :: "('h, 'n) list_op \<Rightarrow> ('h, 'n) store \<Rightarrow> ('h, 'n) store" where
  "store_op (Insert_after_head k n) S = list_insert_after k n S"
| "store_op (Insert_before_head k n) S = list_insert_before k n S"
| "store_op (Insert_after_node m n) S = list_insert_after_node m n S"
| "store_op (Insert_before_node m n) S = list_insert_before_node m n S"
| "store_op (Remove n) S = list_remove n S"

text \<open>A node is linked in only while it is in no list, next to a cell that is in a list.\<close>

fun op_allowed :: "('h, 'n) list_op \<Rightarrow> ('h, 'n) store \<Rightarrow> bool" where
  "op_allowed (Insert_after_head k n) S = detached n S"
| "op_allowed (Insert_before_head k n) S = detached n S"
| "op_allowed (Insert_after_node m n) S = (detached n S \<and> \<not> detached m S)"
| "op_allowed (Insert_before_node m n) S = (detached n S \<and> \<not> detached m S)"
| "op_allowed (Remove n) S = True"

fun ops_allowed :: "('h, 'n) list_op list \<Rightarrow> ('h, 'n) store \<Rightarrow> bool" where
  "ops_allowed [] S = True"
| "ops_allowed (x # xs) S = (op_allowed x S \<and> ops_allowed xs (store_op x S))"

lemma represents_op:
  "represents h S \<Longrightarrow> op_allowed x S \<Longrightarrow> represents (ptr_op x h) (store_op x S)"
  by (cases x)
    (auto intro: represents_insert_after_head represents_insert_before_head represents_remove
      represents_insert_after_node represents_insert_before_node simp: detached_def [of _ S])

lemma represents_ops:
  "represents h S \<Longrightarrow> ops_allowed xs S \<Longrightarrow> represents (fold ptr_op xs h) (fold store_op xs S)"
  by (induction xs arbitrary: h S) (auto intro: represents_op)

lemma detached_upd:
  "detached n (S(k := xs)) \<longleftrightarrow> n \<notin> set xs \<and> (\<forall>j. j \<noteq> k \<longrightarrow> n \<notin> set (S j))"
  by (auto simp: detached_def)

lemma represents_init: "represents \<lparr>nxt = \<lambda>c. c, prv = \<lambda>c. c\<rparr> (\<lambda>_. [])"
  by (auto simp: represents_def store_ok_def ring_def linked_def)

text \<open>
  C5.  Any sequence of \<^verbatim>\<open>rt_list_init\<close>-initialised lists' insertions and removals,
  performed on the \<open>next\<close> and \<open>prev\<close> pointers, leaves a pointer structure that
  represents the lists the functional operations compute: every head is on a ring of
  exactly its nodes, in order and in both directions, and removed nodes are linked
  to themselves; the emptiness test and the length walk give the answers for these lists.
\<close>

theorem rt_list_refines:
  assumes "represents h S" "ops_allowed xs S"
  shows "represents (fold ptr_op xs h) (fold store_op xs S)
    \<and> rt_list_isempty (Head k) (fold ptr_op xs h) = (fold store_op xs S k = [])
    \<and> rt_list_len (Head k) (fold ptr_op xs h) = Some (of_nat (length (fold store_op xs S k)))"
  using represents_ops [OF assms] represents_isempty [OF represents_ops [OF assms]]
    represents_len [OF represents_ops [OF assms]] by simp

theorem rt_list_refines_witness:
  "rt_list_len (Head (0::nat)) (fold ptr_op [Insert_before_head 0 (7::nat), Insert_after_head 0 8,
       Insert_before_node 7 9, Remove 8] \<lparr>nxt = \<lambda>c. c, prv = \<lambda>c. c\<rparr>) = Some 2"
proof -
  let ?ops = "[Insert_before_head 0 7, Insert_after_head 0 8, Insert_before_node 7 9, Remove 8]
    :: (nat, nat) list_op list"
  have allowed: "ops_allowed ?ops (\<lambda>_. [])"
    by (simp add: detached_upd list_insert_before_def list_insert_after_def) (simp add: detached_def)
  have "fold store_op ?ops (\<lambda>_. []) 0 = [9, 7]"
    by (simp add: list_insert_before_def list_insert_after_def list_insert_before_node_def list_remove_def)
  then have len: "length (fold store_op ?ops (\<lambda>_. []) 0) = 2" by simp
  show ?thesis
    using rt_list_refines [OF represents_init allowed, of 0] by (simp only: len of_nat_numeral)
qed

end
