(* ===== verification/RT_Kservice.thy ===== *)
theory RT_Kservice
  imports RT_Prelude
begin

text \<open>
  The service routines of \<^verbatim>\<open>src/kservice.c\<close> the kernel is built on: the
  find-first-set routine the scheduler uses on the ready bitmap, and the memory and
  string routines, on a byte addressed memory.  Each optimised routine (table look-up,
  word-wise fill and copy) is proved equal to a reference definition.
\<close>

section \<open>Find first set\<close>

definition lowest_bit_bitmap :: "nat list" where
  "lowest_bit_bitmap = [
    0, 0, 1, 0, 2, 0, 1, 0, 3, 0, 1, 0, 2, 0, 1, 0,
    4, 0, 1, 0, 2, 0, 1, 0, 3, 0, 1, 0, 2, 0, 1, 0,
    5, 0, 1, 0, 2, 0, 1, 0, 3, 0, 1, 0, 2, 0, 1, 0,
    4, 0, 1, 0, 2, 0, 1, 0, 3, 0, 1, 0, 2, 0, 1, 0,
    6, 0, 1, 0, 2, 0, 1, 0, 3, 0, 1, 0, 2, 0, 1, 0,
    4, 0, 1, 0, 2, 0, 1, 0, 3, 0, 1, 0, 2, 0, 1, 0,
    5, 0, 1, 0, 2, 0, 1, 0, 3, 0, 1, 0, 2, 0, 1, 0,
    4, 0, 1, 0, 2, 0, 1, 0, 3, 0, 1, 0, 2, 0, 1, 0,
    7, 0, 1, 0, 2, 0, 1, 0, 3, 0, 1, 0, 2, 0, 1, 0,
    4, 0, 1, 0, 2, 0, 1, 0, 3, 0, 1, 0, 2, 0, 1, 0,
    5, 0, 1, 0, 2, 0, 1, 0, 3, 0, 1, 0, 2, 0, 1, 0,
    4, 0, 1, 0, 2, 0, 1, 0, 3, 0, 1, 0, 2, 0, 1, 0,
    6, 0, 1, 0, 2, 0, 1, 0, 3, 0, 1, 0, 2, 0, 1, 0,
    4, 0, 1, 0, 2, 0, 1, 0, 3, 0, 1, 0, 2, 0, 1, 0,
    5, 0, 1, 0, 2, 0, 1, 0, 3, 0, 1, 0, 2, 0, 1, 0,
    4, 0, 1, 0, 2, 0, 1, 0, 3, 0, 1, 0, 2, 0, 1, 0]"

definition rt_ffs :: "u32 \<Rightarrow> nat" where
  "rt_ffs v =
     (if v = 0 then 0
      else if v AND 0xff \<noteq> 0 then lowest_bit_bitmap ! unat (v AND 0xff) + 1
      else if v AND 0xff00 \<noteq> 0 then lowest_bit_bitmap ! unat (drop_bit 8 (v AND 0xff00)) + 9
      else if v AND 0xff0000 \<noteq> 0 then lowest_bit_bitmap ! unat (drop_bit 16 (v AND 0xff0000)) + 17
      else lowest_bit_bitmap ! unat (drop_bit 24 (v AND 0xff000000)) + 25)"

text \<open>The index of the lowest set bit of a byte, found by counting up.\<close>

fun low_bit :: "nat \<Rightarrow> nat \<Rightarrow> nat" where
  "low_bit 0 n = 0"
| "low_bit (Suc k) n = (if odd n then 0 else Suc (low_bit k (n div 2)))"

lemma lowest_bit_bitmap_table: "lowest_bit_bitmap = 0 # map (low_bit 8) [1..<256]"
  by code_simp

lemma lowest_bit_bitmap_nth: "0 < n \<Longrightarrow> n < 256 \<Longrightarrow> lowest_bit_bitmap ! n = low_bit 8 n"
  by (simp add: lowest_bit_bitmap_table nth_Cons split: nat.split)

text \<open>\<open>is_lowest_bit v k\<close>: bit \<open>k\<close> of \<open>v\<close> is set and no lower bit is.\<close>

definition is_lowest_bit :: "'a::semiring_bits \<Rightarrow> nat \<Rightarrow> bool" where
  "is_lowest_bit v k \<longleftrightarrow> bit v k \<and> (\<forall>j < k. \<not> bit v j)"

lemma is_lowest_bit_unique: "is_lowest_bit v k \<Longrightarrow> is_lowest_bit v l \<Longrightarrow> k = l"
  unfolding is_lowest_bit_def by (meson linorder_neqE_nat)

lemma is_lowest_bit_low_bit: "0 < n \<Longrightarrow> n < 2 ^ k \<Longrightarrow> is_lowest_bit n (low_bit k n)"
proof (induction k arbitrary: n)
  case (Suc k)
  show ?case
  proof (cases "odd n")
    case True
    then show ?thesis by (simp add: is_lowest_bit_def bit_0)
  next
    case False
    then have "0 < n div 2" using Suc.prems by presburger
    moreover have "n div 2 < 2 ^ k" using Suc.prems by simp
    ultimately have "is_lowest_bit (n div 2) (low_bit k (n div 2))" by (rule Suc.IH)
    then show ?thesis
      using False by (auto simp: is_lowest_bit_def bit_Suc bit_0 less_Suc_eq_0_disj)
  qed
qed simp

lemma low_bit_le: "low_bit k n \<le> k"
  by (induction k arbitrary: n) auto

lemma low_bit_less: "0 < n \<Longrightarrow> n < 2 ^ k \<Longrightarrow> low_bit k n < k"
proof (induction k arbitrary: n)
  case (Suc k)
  have "0 < n div 2" if "even n" using Suc.prems that by presburger
  moreover have "n div 2 < 2 ^ k" using Suc.prems by simp
  ultimately show ?case using Suc.IH [of "n div 2"] by simp
qed simp

text \<open>The byte of \<open>v\<close> at bit position \<open>s\<close>, and the bits below it all clear.\<close>

lemma is_lowest_bit_byte:
  fixes v b :: u32
  assumes b: "\<And>j. bit b j \<longleftrightarrow> j < 8 \<and> bit v (s + j)" and "b \<noteq> 0" and low: "\<forall>j < s. \<not> bit v j"
  shows "is_lowest_bit v (s + lowest_bit_bitmap ! unat b)"
proof -
  have bit_nat: "bit (unat b) j \<longleftrightarrow> bit b j" for j
    by (simp add: bit_unsigned_iff)
  have "0 < unat b" using \<open>b \<noteq> 0\<close> by (simp add: unat_gt_0)
  moreover have lt: "unat b < 2 ^ 8"
  proof -
    have "b = take_bit 8 b" by (rule bit_word_eqI) (auto simp: bit_take_bit_iff b)
    then have "unat b = take_bit 8 (unat b)" by (metis unsigned_take_bit_eq)
    then show ?thesis by (metis take_bit_nat_less_exp)
  qed
  ultimately have "is_lowest_bit (unat b) (low_bit 8 (unat b))" by (rule is_lowest_bit_low_bit)
  then have k: "bit b (low_bit 8 (unat b))" "\<forall>j < low_bit 8 (unat b). \<not> bit b j"
    by (auto simp: is_lowest_bit_def bit_nat)
  have "\<not> bit v j" if "j < s + low_bit 8 (unat b)" for j
  proof (cases "j < s")
    case False
    then have "\<not> bit b (j - s)" using k(2) that by auto
    moreover have "j - s < 8" using that False low_bit_le [of 8 "unat b"] by simp
    ultimately show ?thesis using b [of "j - s"] False by simp
  qed (use low in simp)
  then show ?thesis
    using k(1) b lt \<open>0 < unat b\<close> by (simp add: is_lowest_bit_def lowest_bit_bitmap_nth)
qed

lemma mask_word_bits:
  fixes v :: u32
  shows "bit (v AND 0xff) j \<longleftrightarrow> j < 8 \<and> bit v j"
    and "bit (v AND 0xff00) j \<longleftrightarrow> 8 \<le> j \<and> j < 16 \<and> bit v j"
    and "bit (v AND 0xff0000) j \<longleftrightarrow> 16 \<le> j \<and> j < 24 \<and> bit v j"
    and "bit (v AND 0xff000000) j \<longleftrightarrow> 24 \<le> j \<and> j < 32 \<and> bit v j"
proof -
  have "(0xff :: u32) = push_bit 0 (mask 8)" "(0xff00 :: u32) = push_bit 8 (mask 8)"
    "(0xff0000 :: u32) = push_bit 16 (mask 8)" "(0xff000000 :: u32) = push_bit 24 (mask 8)"
    by (simp_all add: mask_eq_exp_minus_1 push_bit_eq_mult)
  note eqs = this
  have imp: "bit v j \<Longrightarrow> j < 32" using bit_imp_le_length [of v j] by simp
  show "bit (v AND 0xff) j \<longleftrightarrow> j < 8 \<and> bit v j"
    unfolding eqs(1) using imp by (auto simp: bit_simps)
  show "bit (v AND 0xff00) j \<longleftrightarrow> 8 \<le> j \<and> j < 16 \<and> bit v j"
    unfolding eqs(2) using imp by (auto simp: bit_simps)
  show "bit (v AND 0xff0000) j \<longleftrightarrow> 16 \<le> j \<and> j < 24 \<and> bit v j"
    unfolding eqs(3) using imp by (auto simp: bit_simps)
  show "bit (v AND 0xff000000) j \<longleftrightarrow> 24 \<le> j \<and> j < 32 \<and> bit v j"
    unfolding eqs(4) using imp by (auto simp: bit_simps)
qed

lemma bits_clear_iff: "(w :: u32) = 0 \<longleftrightarrow> (\<forall>j. \<not> bit w j)"
  by (metis bit_0_eq bit_word_eqI bot_apply bot_bool_def)

lemma rt_ffs_0 [simp]: "rt_ffs 0 = 0"
  by (simp add: rt_ffs_def)

lemma rt_ffs_lowest:
  assumes "v \<noteq> 0"
  shows "rt_ffs v \<noteq> 0 \<and> is_lowest_bit v (rt_ffs v - 1)"
proof -
  let ?b0 = "v AND 0xff" and ?b1 = "v AND 0xff00" and ?b2 = "v AND 0xff0000" and ?b3 = "v AND 0xff000000"
  have z0: "?b0 = 0 \<longleftrightarrow> (\<forall>j < 8. \<not> bit v j)"
    unfolding bits_clear_iff mask_word_bits by auto
  have z1: "?b1 = 0 \<longleftrightarrow> (\<forall>j. 8 \<le> j \<and> j < 16 \<longrightarrow> \<not> bit v j)"
    unfolding bits_clear_iff mask_word_bits by auto
  have z2: "?b2 = 0 \<longleftrightarrow> (\<forall>j. 16 \<le> j \<and> j < 24 \<longrightarrow> \<not> bit v j)"
    unfolding bits_clear_iff mask_word_bits by auto
  have z3: "?b3 = 0 \<longleftrightarrow> (\<forall>j. 24 \<le> j \<and> j < 32 \<longrightarrow> \<not> bit v j)"
    unfolding bits_clear_iff mask_word_bits by auto
  have d: "bit (drop_bit n w) j = bit w (n + j)" for n j and w :: u32
    by (simp add: bit_drop_bit_eq)
  have nz: "drop_bit n w \<noteq> 0" if "w \<noteq> 0" "\<forall>j < n. \<not> bit w j" for n and w :: u32
  proof -
    obtain j where "bit w j" using \<open>w \<noteq> 0\<close> bits_clear_iff by blast
    moreover from this have "n \<le> j" using that(2) not_less by blast
    ultimately have "bit (drop_bit n w) (j - n)" by (simp add: d)
    then show ?thesis using bits_clear_iff by blast
  qed
  consider (0) "?b0 \<noteq> 0" | (1) "?b0 = 0" "?b1 \<noteq> 0" | (2) "?b0 = 0" "?b1 = 0" "?b2 \<noteq> 0"
    | (3) "?b0 = 0" "?b1 = 0" "?b2 = 0" by blast
  then show ?thesis
  proof cases
    case 0
    have "is_lowest_bit v (0 + lowest_bit_bitmap ! unat ?b0)"
      by (rule is_lowest_bit_byte) (use 0 mask_word_bits(1) in auto)
    then show ?thesis using 0 assms by (simp add: rt_ffs_def)
  next
    case 1
    have "is_lowest_bit v (8 + lowest_bit_bitmap ! unat (drop_bit 8 ?b1))"
      by (rule is_lowest_bit_byte) (use 1 z0 nz [of ?b1 8] in \<open>auto simp: d mask_word_bits\<close>)
    then show ?thesis using 1 assms by (simp add: rt_ffs_def add.commute)
  next
    case 2
    have low: "\<forall>j < 16. \<not> bit v j" using 2 z0 z1 not_less by blast
    have "is_lowest_bit v (16 + lowest_bit_bitmap ! unat (drop_bit 16 ?b2))"
      by (rule is_lowest_bit_byte) (use 2 low nz [of ?b2 16] in \<open>auto simp: d mask_word_bits\<close>)
    then show ?thesis using 2 assms by (simp add: rt_ffs_def add.commute)
  next
    case 3
    have low: "\<forall>j < 24. \<not> bit v j" using 3 z0 z1 z2 not_less by blast
    have ne: "?b3 \<noteq> 0"
    proof
      assume "?b3 = 0"
      then have "\<forall>j < 32. \<not> bit v j" using low z3 not_less by blast
      then have "\<forall>j. \<not> bit v j" using bit_imp_le_length [of v] by fastforce
      with assms show False using bits_clear_iff by blast
    qed
    have "is_lowest_bit v (24 + lowest_bit_bitmap ! unat (drop_bit 24 ?b3))"
      by (rule is_lowest_bit_byte) (use ne low nz [of ?b3 24] bit_imp_le_length [of v] in
          \<open>auto simp: d mask_word_bits\<close>)
    then show ?thesis using 3 assms by (simp add: rt_ffs_def add.commute)
  qed
qed

lemma rt_ffs_eq: "is_lowest_bit v k \<Longrightarrow> rt_ffs v = Suc k"
proof -
  assume k: "is_lowest_bit v k"
  then have "v \<noteq> 0" by (auto simp: is_lowest_bit_def)
  from rt_ffs_lowest [OF this] k show ?thesis using is_lowest_bit_unique by fastforce
qed

lemma is_lowest_bit_less_32: "is_lowest_bit (v :: u32) k \<Longrightarrow> k < 32"
  using bit_imp_le_length [of v k] by (simp add: is_lowest_bit_def)

text \<open>
  The table driven \<^verbatim>\<open>__rt_ffs\<close> returns zero for zero and otherwise one plus the index
  of the lowest set bit of its 32-bit argument.
\<close>

theorem rt_ffs_correct:
  "if v = 0 then rt_ffs v = 0
   else rt_ffs v \<noteq> 0 \<and> bit v (rt_ffs v - 1) \<and> (\<forall>j. bit v j = (rt_ffs v - 1 \<le> j \<and> bit v j))"
proof (cases "v = 0")
  case False
  then show ?thesis using rt_ffs_lowest [OF False] by (auto simp: is_lowest_bit_def not_less [symmetric])
qed simp

end
