(* ===== verification/RT_Bytes.thy ===== *)
theory RT_Bytes
  imports RT_Prelude
begin

text \<open>
  The memory and string routines of \<^verbatim>\<open>src/kservice.c\<close> on a byte addressed memory.
  The word-wise fast paths of \<^verbatim>\<open>rt_memset\<close> and \<^verbatim>\<open>rt_memcpy\<close> are modelled as the
  source has them (little-endian 32-bit stores, blocks of four words, then words, then
  bytes) and proved equal to the plain fill and copy.
\<close>

type_synonym memory = "nat \<Rightarrow> u8"

section \<open>Words in memory\<close>

definition load32 :: "nat \<Rightarrow> memory \<Rightarrow> u32" where
  "load32 a m = ucast (m a) OR push_bit 8 (ucast (m (a + 1)))
     OR push_bit 16 (ucast (m (a + 2))) OR push_bit 24 (ucast (m (a + 3)))"

definition store32 :: "nat \<Rightarrow> u32 \<Rightarrow> memory \<Rightarrow> memory" where
  "store32 a w m = m(a := ucast w, a + 1 := ucast (drop_bit 8 w),
     a + 2 := ucast (drop_bit 16 w), a + 3 := ucast (drop_bit 24 w))"

text \<open>The reference fill and the reference copy, which reads everything before it writes.\<close>

definition fill :: "nat \<Rightarrow> nat \<Rightarrow> u8 \<Rightarrow> memory \<Rightarrow> memory" where
  "fill a n d m = (\<lambda>i. if a \<le> i \<and> i < a + n then d else m i)"

definition copy :: "nat \<Rightarrow> nat \<Rightarrow> nat \<Rightarrow> memory \<Rightarrow> memory" where
  "copy dst src n m = (\<lambda>i. if dst \<le> i \<and> i < dst + n then m (src + (i - dst)) else m i)"

section \<open>rt\_memset\<close>

fun memset_bytes :: "u8 \<Rightarrow> nat \<Rightarrow> nat \<Rightarrow> memory \<Rightarrow> memory" where
  "memset_bytes d a 0 m = m"
| "memset_bytes d a (Suc n) m = memset_bytes d (a + 1) n (m(a := d))"

fun memset_words :: "u32 \<Rightarrow> nat \<Rightarrow> nat \<Rightarrow> memory \<Rightarrow> nat \<times> nat \<times> memory" where
  "memset_words buf a n m =
     (if 4 \<le> n then memset_words buf (a + 4) (n - 4) (store32 a buf m) else (a, n, m))"

fun memset_blocks :: "u32 \<Rightarrow> nat \<Rightarrow> nat \<Rightarrow> memory \<Rightarrow> nat \<times> nat \<times> memory" where
  "memset_blocks buf a n m =
     (if 16 \<le> n then memset_blocks buf (a + 16) (n - 16)
          (store32 (a + 12) buf (store32 (a + 8) buf (store32 (a + 4) buf (store32 a buf m))))
      else (a, n, m))"

definition memset_pattern :: "u32 \<Rightarrow> u32" where
  "memset_pattern d = (let buf = push_bit 8 d OR d in buf OR push_bit 16 buf)"

definition rt_memset :: "nat \<Rightarrow> u32 \<Rightarrow> nat \<Rightarrow> memory \<Rightarrow> memory" where
  "rt_memset s c count m =
     (let d = c AND 0xff in
      if \<not> count < 4 \<and> s mod 4 = 0 then
        (case memset_blocks (memset_pattern d) s count m of (a, n, m1) \<Rightarrow>
         (case memset_words (memset_pattern d) a n m1 of (a', n', m2) \<Rightarrow>
            memset_bytes (ucast d) a' n' m2))
      else memset_bytes (ucast d) s count m)"

declare memset_words.simps [simp del] memset_blocks.simps [simp del]

lemma fill_0 [simp]: "fill a 0 d m = m"
  by (auto simp: fill_def fun_eq_iff)

lemma fill_fill: "fill (a + k) n d (fill a k d m) = fill a (k + n) d m"
  by (auto simp: fill_def fun_eq_iff)

lemma fill_Suc: "fill (Suc a) n d (m(a := d)) = fill a (Suc n) d m"
  by (auto simp: fill_def fun_eq_iff)

lemma memset_bytes_fill: "memset_bytes d a n m = fill a n d m"
  by (induction n arbitrary: a m) (simp_all add: fill_Suc)

definition all_bytes :: "u32 \<Rightarrow> u8 \<Rightarrow> bool" where
  "all_bytes w d \<longleftrightarrow> ucast w = d \<and> ucast (drop_bit 8 w) = d \<and> ucast (drop_bit 16 w) = d
     \<and> ucast (drop_bit 24 w) = d"

lemma store32_fill: "all_bytes w d \<Longrightarrow> store32 a w m = fill a 4 d m"
  by (auto simp: all_bytes_def store32_def fill_def fun_eq_iff)

lemma memset_words_fill:
  "all_bytes buf d \<Longrightarrow> memset_words buf a n m = (a + 4 * (n div 4), n mod 4, fill a (4 * (n div 4)) d m)"
proof (induction buf a n m rule: memset_words.induct)
  case (1 buf a n m)
  show ?case
  proof (cases "4 \<le> n")
    case True
    then have "4 * (n div 4) = 4 + 4 * ((n - 4) div 4)" "n mod 4 = (n - 4) mod 4"
      by (simp_all add: le_div_geq le_mod_geq)
    then show ?thesis using True 1
      by (subst memset_words.simps) (simp add: store32_fill fill_fill)
  next
    case False
    then show ?thesis by (subst memset_words.simps) simp
  qed
qed

lemma memset_blocks_fill:
  "all_bytes buf d \<Longrightarrow>
     memset_blocks buf a n m = (a + 16 * (n div 16), n mod 16, fill a (16 * (n div 16)) d m)"
proof (induction buf a n m rule: memset_blocks.induct)
  case (1 buf a n m)
  have four: "fill (a + 12) 4 d (fill (a + 8) 4 d (fill (a + 4) 4 d (fill a 4 d m))) = fill a 16 d m"
    by (simp add: fill_fill [of a 4 4 d m, simplified] fill_fill [of a 8 4 d m, simplified]
        fill_fill [of a 12 4 d m, simplified])
  show ?case
  proof (cases "16 \<le> n")
    case True
    then have "16 * (n div 16) = 16 + 16 * ((n - 16) div 16)" "n mod 16 = (n - 16) mod 16"
      by (simp_all add: le_div_geq le_mod_geq)
    then show ?thesis using True 1
      by (subst memset_blocks.simps) (simp add: store32_fill four fill_fill)
  next
    case False
    then show ?thesis by (subst memset_blocks.simps) simp
  qed
qed

lemma all_bytes_pattern: "all_bytes (memset_pattern (c AND 0xff)) (ucast c)"
proof -
  have ff: "(0xff :: u32) = mask 8" by (simp add: mask_eq_exp_minus_1)
  show ?thesis
    unfolding all_bytes_def memset_pattern_def Let_def ff
    by (intro conjI; rule bit_word_eqI) (auto simp: bit_simps)
qed

lemma ucast_low_byte: "ucast (c AND 0xff :: u32) = (ucast c :: u8)"
proof -
  have ff: "(0xff :: u32) = mask 8" by (simp add: mask_eq_exp_minus_1)
  show ?thesis unfolding ff by (rule bit_word_eqI) (auto simp: bit_simps)
qed

lemma rt_memset_fill: "rt_memset s c count m = fill s count (ucast c) m"
proof -
  let ?q = "16 * (count div 16)" and ?r = "count mod 16"
  have "4 * (?r div 4) + ?r mod 4 = ?r" by simp
  moreover have "?q + ?r = count" by simp
  ultimately have "fill (s + ?q + 4 * (?r div 4)) (?r mod 4) (ucast c)
      (fill (s + ?q) (4 * (?r div 4)) (ucast c) (fill s ?q (ucast c) m)) = fill s count (ucast c) m"
    by (simp add: fill_fill add.assoc) 
  then show ?thesis
    by (simp add: rt_memset_def Let_def memset_bytes_fill ucast_low_byte
        memset_blocks_fill [OF all_bytes_pattern] memset_words_fill [OF all_bytes_pattern])
qed

section \<open>rt\_memcpy and rt\_memmove\<close>

fun memcpy_bytes :: "nat \<Rightarrow> nat \<Rightarrow> nat \<Rightarrow> memory \<Rightarrow> memory" where
  "memcpy_bytes dst src 0 m = m"
| "memcpy_bytes dst src (Suc n) m = memcpy_bytes (dst + 1) (src + 1) n (m(dst := m src))"

definition copy32 :: "nat \<Rightarrow> nat \<Rightarrow> memory \<Rightarrow> memory" where
  "copy32 dst src m = store32 dst (load32 src m) m"

fun memcpy_words :: "nat \<Rightarrow> nat \<Rightarrow> nat \<Rightarrow> memory \<Rightarrow> nat \<times> nat \<times> nat \<times> memory" where
  "memcpy_words dst src n m =
     (if 4 \<le> n then memcpy_words (dst + 4) (src + 4) (n - 4) (copy32 dst src m) else (dst, src, n, m))"

fun memcpy_blocks :: "nat \<Rightarrow> nat \<Rightarrow> nat \<Rightarrow> memory \<Rightarrow> nat \<times> nat \<times> nat \<times> memory" where
  "memcpy_blocks dst src n m =
     (if 16 \<le> n then memcpy_blocks (dst + 16) (src + 16) (n - 16)
          (copy32 (dst + 12) (src + 12) (copy32 (dst + 8) (src + 8)
            (copy32 (dst + 4) (src + 4) (copy32 dst src m))))
      else (dst, src, n, m))"

definition rt_memcpy :: "nat \<Rightarrow> nat \<Rightarrow> nat \<Rightarrow> memory \<Rightarrow> memory" where
  "rt_memcpy dst src count m =
     (if \<not> count < 16 \<and> src mod 4 = 0 \<and> dst mod 4 = 0 then
        (case memcpy_blocks dst src count m of (d, s, n, m1) \<Rightarrow>
         (case memcpy_words d s n m1 of (d', s', n', m2) \<Rightarrow> memcpy_bytes d' s' n' m2))
      else memcpy_bytes dst src count m)"

fun memmove_down :: "nat \<Rightarrow> nat \<Rightarrow> nat \<Rightarrow> memory \<Rightarrow> memory" where
  "memmove_down tmp s 0 m = m"
| "memmove_down tmp s (Suc n) m = memmove_down (tmp - 1) (s - 1) n (m(tmp - 1 := m (s - 1)))"

definition rt_memmove :: "nat \<Rightarrow> nat \<Rightarrow> nat \<Rightarrow> memory \<Rightarrow> memory" where
  "rt_memmove dest src n m =
     (if src < dest \<and> dest < src + n then memmove_down (dest + n) (src + n) n m
      else memcpy_bytes dest src n m)"

declare memcpy_words.simps [simp del] memcpy_blocks.simps [simp del]

text \<open>An ascending copy never reads a byte it has already overwritten.\<close>

definition ascending_ok :: "nat \<Rightarrow> nat \<Rightarrow> nat \<Rightarrow> bool" where
  "ascending_ok dst src n \<longleftrightarrow> dst \<le> src \<or> src + n \<le> dst"

lemma copy_0 [simp]: "copy dst src 0 m = m"
  by (auto simp: copy_def fun_eq_iff)

lemma copy_copy:
  assumes "ascending_ok dst src (k + n)"
  shows "copy (dst + k) (src + k) n (copy dst src k m) = copy dst src (k + n) m"
proof
  fix i
  show "copy (dst + k) (src + k) n (copy dst src k m) i = copy dst src (k + n) m i"
  proof (cases "dst + k \<le> i \<and> i < dst + k + n")
    case True
    then have "src + k + (i - (dst + k)) = src + (i - dst)" by simp
    moreover have "\<not> (dst \<le> src + (i - dst) \<and> src + (i - dst) < dst + k)"
      using True assms by (auto simp: ascending_ok_def)
    ultimately show ?thesis using True unfolding copy_def by (simp only: if_True if_False) auto
  qed (auto simp: copy_def)
qed

lemma copy32_copy: "copy32 dst src m = copy dst src 4 m"
proof -
  have "ucast (load32 src m) = m src" "ucast (drop_bit 8 (load32 src m)) = m (src + 1)"
    "ucast (drop_bit 16 (load32 src m)) = m (src + 2)" "ucast (drop_bit 24 (load32 src m)) = m (src + 3)"
    unfolding load32_def by (rule bit_word_eqI, auto simp: bit_simps dest: bit_imp_le_length)+
  moreover have "i = dst \<or> i = dst + 1 \<or> i = dst + 2 \<or> i = dst + 3" if "dst \<le> i" "i < dst + 4" for i
    using that by linarith
  ultimately show ?thesis
    by (fastforce simp: copy32_def store32_def copy_def fun_eq_iff)
qed

lemma ascending_ok_shift: "ascending_ok dst src (k + n) \<Longrightarrow> ascending_ok (dst + k) (src + k) n"
  by (auto simp: ascending_ok_def)

lemma ascending_ok_le: "ascending_ok dst src n \<Longrightarrow> k \<le> n \<Longrightarrow> ascending_ok dst src k"
  by (auto simp: ascending_ok_def)

lemma memcpy_bytes_copy: "ascending_ok dst src n \<Longrightarrow> memcpy_bytes dst src n m = copy dst src n m"
proof (induction n arbitrary: dst src m)
  case (Suc n)
  have "m(dst := m src) = copy dst src 1 m" by (auto simp: copy_def fun_eq_iff)
  then show ?case
    using Suc.IH ascending_ok_shift [of dst src 1 n] copy_copy [of dst src 1 n m] Suc.prems by simp
qed simp

lemma memcpy_words_copy:
  "ascending_ok dst src n \<Longrightarrow> memcpy_words dst src n m =
     (dst + 4 * (n div 4), src + 4 * (n div 4), n mod 4, copy dst src (4 * (n div 4)) m)"
proof (induction dst src n m rule: memcpy_words.induct)
  case (1 dst src n m)
  show ?case
  proof (cases "4 \<le> n")
    case True
    let ?k = "4 * ((n - 4) div 4)"
    have e: "4 * (n div 4) = 4 + ?k" "n mod 4 = (n - 4) mod 4"
      using True by (simp_all add: le_div_geq le_mod_geq)
    have "ascending_ok dst src (4 + ?k)" using 1(2) ascending_ok_le e(1) by (metis mult.commute div_times_less_eq_dividend)
    moreover have "ascending_ok (dst + 4) (src + 4) (n - 4)"
      using 1(2) True ascending_ok_shift [of dst src 4 "n - 4"] by simp
    ultimately show ?thesis using True 1(1) e copy_copy [of dst src 4 ?k m]
      by (subst memcpy_words.simps) (simp add: copy32_copy)
  next
    case False
    then show ?thesis by (subst memcpy_words.simps) simp
  qed
qed

lemma copy32_four:
  assumes "ascending_ok dst src 16"
  shows "copy32 (dst + 12) (src + 12) (copy32 (dst + 8) (src + 8)
           (copy32 (dst + 4) (src + 4) (copy32 dst src m))) = copy dst src 16 m"
proof -
  have "ascending_ok dst src k" if "k \<le> 16" for k using ascending_ok_le [OF assms that] .
  then show ?thesis
    using copy_copy [of dst src 4 4 m] copy_copy [of dst src 8 4 m] copy_copy [of dst src 12 4 m]
    by (simp add: copy32_copy)
qed

lemma memcpy_blocks_copy:
  "ascending_ok dst src n \<Longrightarrow> memcpy_blocks dst src n m =
     (dst + 16 * (n div 16), src + 16 * (n div 16), n mod 16, copy dst src (16 * (n div 16)) m)"
proof (induction dst src n m rule: memcpy_blocks.induct)
  case (1 dst src n m)
  show ?case
  proof (cases "16 \<le> n")
    case True
    let ?k = "16 * ((n - 16) div 16)"
    have e: "16 * (n div 16) = 16 + ?k" "n mod 16 = (n - 16) mod 16"
      using True by (simp_all add: le_div_geq le_mod_geq)
    have "ascending_ok dst src (16 + ?k)" using 1(2) ascending_ok_le e(1) by (metis mult.commute div_times_less_eq_dividend)
    moreover have "ascending_ok (dst + 16) (src + 16) (n - 16)"
      using 1(2) True ascending_ok_shift [of dst src 16 "n - 16"] by simp
    moreover have "ascending_ok dst src 16" using 1(2) True by (rule ascending_ok_le)
    ultimately show ?thesis using True 1(1) e copy_copy [of dst src 16 ?k m] copy32_four [of dst src m]
      by (subst memcpy_blocks.simps) simp
  next
    case False
    then show ?thesis by (subst memcpy_blocks.simps) simp
  qed
qed

lemma rt_memcpy_copy:
  assumes ok: "ascending_ok dst src n"
  shows "rt_memcpy dst src n m = copy dst src n m"
proof -
  let ?q = "16 * (n div 16)" and ?r = "n mod 16"
  let ?w = "4 * (?r div 4)"
  have n: "?q + ?r = n" "?w + ?r mod 4 = ?r" by simp_all
  then have "?q + ?w \<le> n" by linarith
  then have ok1: "ascending_ok dst src (?q + ?w)" and ok2: "ascending_ok dst src (?q + ?w + ?r mod 4)"
    and ok3: "ascending_ok (dst + ?q) (src + ?q) ?r"
    using ok n ascending_ok_le ascending_ok_shift by (metis, metis add.assoc, metis)
  have ok4: "ascending_ok (dst + ?q + ?w) (src + ?q + ?w) (?r mod 4)"
    using ascending_ok_shift [OF ok2] by (simp add: add.assoc)
  have "copy (dst + ?q + ?w) (src + ?q + ?w) (?r mod 4) (copy (dst + ?q) (src + ?q) ?w (copy dst src ?q m))
        = copy dst src n m"
    using copy_copy [OF ok1] copy_copy [OF ok2, of m] n by (simp add: add.assoc)
  then show ?thesis
    using memcpy_bytes_copy [OF ok] memcpy_bytes_copy [OF ok4]
    by (simp add: rt_memcpy_def memcpy_blocks_copy [OF ok] memcpy_words_copy [OF ok3])
qed

lemma memmove_down_copy:
  "src < dst \<Longrightarrow> memmove_down (dst + n) (src + n) n m = copy dst src n m"
proof (induction n arbitrary: m)
  case (Suc n)
  have "copy dst src n (m(dst + n := m (src + n))) = copy dst src (Suc n) m"
    using Suc.prems by (auto simp: copy_def fun_eq_iff less_Suc_eq)
  then show ?case using Suc by simp
qed simp

lemma rt_memmove_copy: "rt_memmove dst src n m = copy dst src n m"
proof (cases "src < dst \<and> dst < src + n")
  case False
  then have "ascending_ok dst src n" by (auto simp: ascending_ok_def)
  then show ?thesis using False unfolding rt_memmove_def by (simp only: if_False memcpy_bytes_copy)
qed (simp add: rt_memmove_def memmove_down_copy)

section \<open>Comparison and strings\<close>

fun rt_memcmp :: "nat \<Rightarrow> nat \<Rightarrow> nat \<Rightarrow> memory \<Rightarrow> int" where
  "rt_memcmp cs ct 0 m = 0"
| "rt_memcmp cs ct (Suc n) m =
     (let res = uint (m cs) - uint (m ct)
      in if res \<noteq> 0 then res else rt_memcmp (cs + 1) (ct + 1) n m)"

text \<open>A string without terminator is walked for ever: the value \<open>None\<close>.\<close>

partial_function (option) strlen_loop :: "memory \<Rightarrow> nat \<Rightarrow> nat option" where
  [code]: "strlen_loop m sc = (if m sc \<noteq> 0 then strlen_loop m (sc + 1) else Some sc)"

definition rt_strlen :: "nat \<Rightarrow> memory \<Rightarrow> nat option" where
  "rt_strlen s m = map_option (\<lambda>sc. sc - s) (strlen_loop m s)"

fun strnlen_loop :: "memory \<Rightarrow> nat \<Rightarrow> nat \<Rightarrow> nat" where
  "strnlen_loop m sc 0 = sc"
| "strnlen_loop m sc (Suc n) = (if m sc \<noteq> 0 then strnlen_loop m (sc + 1) n else sc)"

definition rt_strnlen :: "nat \<Rightarrow> nat \<Rightarrow> memory \<Rightarrow> nat" where
  "rt_strnlen s maxlen m = strnlen_loop m s maxlen - s"

partial_function (option) rt_strcmp :: "nat \<Rightarrow> nat \<Rightarrow> memory \<Rightarrow> int option" where
  [code]: "rt_strcmp cs ct m =
     (if m cs \<noteq> 0 \<and> m cs = m ct then rt_strcmp (cs + 1) (ct + 1) m
      else Some (uint (m cs) - uint (m ct)))"

text \<open>The difference is kept in a \<^verbatim>\<open>signed char\<close>.\<close>

fun rt_strncmp :: "nat \<Rightarrow> nat \<Rightarrow> nat \<Rightarrow> memory \<Rightarrow> int" where
  "rt_strncmp cs ct 0 m = 0"
| "rt_strncmp cs ct (Suc n) m =
     (let res = sint (m cs - m ct)
      in if res \<noteq> 0 \<or> m cs = 0 then res else rt_strncmp (cs + 1) (ct + 1) n m)"

fun rt_strncpy :: "nat \<Rightarrow> nat \<Rightarrow> nat \<Rightarrow> memory \<Rightarrow> memory" where
  "rt_strncpy dst src 0 m = m"
| "rt_strncpy dst src (Suc n) m =
     (let m' = m(dst := m src)
      in if m src = 0 then memset_bytes 0 (dst + 1) n m' else rt_strncpy (dst + 1) (src + 1) n m')"

fun strstr_loop :: "nat \<Rightarrow> nat \<Rightarrow> nat \<Rightarrow> nat \<Rightarrow> memory \<Rightarrow> nat option" where
  "strstr_loop s1 s2 l1 l2 m =
     (if l2 \<le> l1 \<and> 0 < l2 then
        (if rt_memcmp s1 s2 l2 m = 0 then Some s1 else strstr_loop (s1 + 1) s2 (l1 - 1) l2 m)
      else None)"

definition rt_strstr :: "nat \<Rightarrow> nat \<Rightarrow> memory \<Rightarrow> nat option option" where
  "rt_strstr s1 s2 m =
     (case rt_strlen s2 m of None \<Rightarrow> None
      | Some l2 \<Rightarrow> if l2 = 0 then Some (Some s1)
          else (case rt_strlen s1 m of None \<Rightarrow> None | Some l1 \<Rightarrow> Some (strstr_loop s1 s2 l1 l2 m)))"

definition to_lower :: "nat \<Rightarrow> nat" where
  "to_lower c = (if 65 \<le> c \<and> c \<le> 90 then c + 32 else c)"

partial_function (option) rt_strcasecmp :: "nat \<Rightarrow> nat \<Rightarrow> memory \<Rightarrow> int option" where
  [code]: "rt_strcasecmp a b m =
     (let ca = to_lower (unat (m a)); cb = to_lower (unat (m b))
      in if ca = cb \<and> ca \<noteq> 0 then rt_strcasecmp (a + 1) (b + 1) m
         else Some (int ca - int cb))"

declare strstr_loop.simps [simp del]

text \<open>The bytes of a region, and the string that starts there (at most \<open>n\<close> bytes).\<close>

definition bytes :: "memory \<Rightarrow> nat \<Rightarrow> nat \<Rightarrow> u8 list" where
  "bytes m a n = map m [a..<a + n]"

definition cstr :: "memory \<Rightarrow> nat \<Rightarrow> nat \<Rightarrow> u8 list" where
  "cstr m a n = takeWhile (\<lambda>c. c \<noteq> 0) (bytes m a n)"

lemma bytes_Suc [simp]: "bytes m a (Suc n) = m a # bytes m (Suc a) n"
  by (simp add: bytes_def upt_conv_Cons del: upt_Suc)

lemma bytes_0 [simp]: "bytes m a 0 = []"
  by (simp add: bytes_def)

lemma length_bytes [simp]: "length (bytes m a n) = n"
  by (simp add: bytes_def)

lemma bytes_nth [simp]: "i < n \<Longrightarrow> bytes m a n ! i = m (a + i)"
  by (simp add: bytes_def)

lemma rt_memcmp_eq_0: "rt_memcmp cs ct n m = 0 \<longleftrightarrow> bytes m cs n = bytes m ct n"
  by (induction n arbitrary: cs ct) (auto simp: Let_def word_uint_eq_iff)

lemma rt_memcmp_less: "rt_memcmp cs ct n m < 0 \<longleftrightarrow>
  (\<exists>k < n. bytes m cs k = bytes m ct k \<and> m (cs + k) < m (ct + k))"
proof (induction n arbitrary: cs ct)
  case (Suc n)
  have split: "(\<exists>k < Suc n. bytes m cs k = bytes m ct k \<and> m (cs + k) < m (ct + k)) \<longleftrightarrow>
     m cs < m ct \<or> m cs = m ct \<and> (\<exists>k < n. bytes m (Suc cs) k = bytes m (Suc ct) k
        \<and> m (Suc cs + k) < m (Suc ct + k))"
    unfolding Ex_less_Suc2 by auto
  show ?case unfolding split using Suc.IH [of "Suc cs" "Suc ct"]
    by (auto simp: Let_def word_less_def word_uint_eq_iff)
qed simp

lemma strlen_loop_end:
  "\<forall>j < k. m (s + j) \<noteq> 0 \<Longrightarrow> m (s + k) = 0 \<Longrightarrow> strlen_loop m s = Some (s + k)"
proof (induction k arbitrary: s)
  case 0
  then show ?case by (subst strlen_loop.simps) simp
next
  case (Suc k)
  have "strlen_loop m (s + 1) = Some (s + 1 + k)"
    by (rule Suc.IH) (use Suc.prems in auto)
  moreover have "m s \<noteq> 0" using Suc.prems by force
  ultimately show ?case by (subst strlen_loop.simps) simp
qed

lemma rt_strlen_end: "\<forall>j < k. m (s + j) \<noteq> 0 \<Longrightarrow> m (s + k) = 0 \<Longrightarrow> rt_strlen s m = Some k"
  by (simp add: rt_strlen_def strlen_loop_end)

lemma strnlen_loop_cstr: "strnlen_loop m s n = s + length (cstr m s n)"
  by (induction n arbitrary: s) (auto simp: cstr_def)

lemma rt_strnlen_cstr: "rt_strnlen s n m = length (cstr m s n)"
  by (simp add: rt_strnlen_def strnlen_loop_cstr)

lemma rt_strncmp_eq_0: "rt_strncmp cs ct n m = 0 \<longleftrightarrow> cstr m cs n = cstr m ct n"
  by (induction n arbitrary: cs ct) (auto simp: Let_def cstr_def signed_eq_0_iff)

lemma rt_strcmp_eq:
  "\<forall>j < k. m (cs + j) \<noteq> 0 \<and> m (cs + j) = m (ct + j) \<Longrightarrow> m (cs + k) = 0 \<or> m (cs + k) \<noteq> m (ct + k) \<Longrightarrow>
     rt_strcmp cs ct m = Some (uint (m (cs + k)) - uint (m (ct + k)))"
proof (induction k arbitrary: cs ct)
  case 0
  then show ?case by (subst rt_strcmp.simps) auto
next
  case (Suc k)
  have "rt_strcmp (cs + 1) (ct + 1) m = Some (uint (m (cs + 1 + k)) - uint (m (ct + 1 + k)))"
    by (rule Suc.IH) (use Suc.prems in auto)
  moreover have "m cs \<noteq> 0" "m cs = m ct" using Suc.prems by force+
  ultimately show ?case by (subst rt_strcmp.simps) simp
qed

text \<open>The copied string, padded with zeros to \<open>n\<close> bytes.\<close>

lemma rt_strncpy_bytes:
  assumes "ascending_ok dst src n"
  shows "bytes (rt_strncpy dst src n m) dst n
      = cstr m src n @ replicate (n - length (cstr m src n)) 0
    \<and> (\<forall>i. i < dst \<or> dst + n \<le> i \<longrightarrow> rt_strncpy dst src n m i = m i)"
  using assms
proof (induction n arbitrary: dst src m)
  case (Suc n)
  define m' where "m' = m(dst := m src)"
  have m': "m' dst = m src" "i \<noteq> dst \<Longrightarrow> m' i = m i" for i by (simp_all add: m'_def)
  have frame: "bytes m' (Suc src) n = bytes m (Suc src) n"
    using Suc.prems by (auto simp: bytes_def ascending_ok_def m')
  have ok: "ascending_ok (Suc dst) (Suc src) n"
    using ascending_ok_shift [of dst src 1 n] Suc.prems by simp
  show ?case
  proof (cases "m src = 0")
    case True
    have "bytes (fill (Suc dst) n 0 m') (Suc dst) n = replicate n 0"
      by (rule nth_equalityI) (simp_all add: fill_def)
    moreover have "rt_strncpy dst src (Suc n) m = fill (Suc dst) n 0 m'"
      using True by (simp add: memset_bytes_fill m'_def)
    ultimately show ?thesis
      using True by (simp add: cstr_def m') (simp add: fill_def m')
  next
    case False
    then show ?thesis
      using Suc.IH [OF ok, of m'] frame m' by (simp add: cstr_def flip: m'_def)
  qed
qed (simp add: cstr_def)

section \<open>Properties\<close>

text \<open>
  C6.  The word-wise \<^verbatim>\<open>rt_memset\<close> fills exactly the \<open>n\<close> bytes with the low byte of its
  argument, \<^verbatim>\<open>rt_memmove\<close> copies \<open>n\<close> bytes correctly for every overlap of the two areas,
  and the word-wise \<^verbatim>\<open>rt_memcpy\<close> does so when the destination is not inside the source
  area, for every alignment of the two pointers.
\<close>

theorem memory_routines_correct:
  assumes "dst \<le> src \<or> src + n \<le> dst"
  shows "rt_memcpy dst src n m = copy dst src n m
    \<and> rt_memmove a b k m = copy a b k m
    \<and> rt_memset a c k m = fill a k (ucast c) m"
  using assms rt_memcpy_copy rt_memmove_copy rt_memset_fill by (simp add: ascending_ok_def)

theorem memory_routines_correct_witness:
  "rt_memcpy 0 32 19 (\<lambda>i. of_nat i) 18 = 50 \<and> rt_memcpy 0 32 19 (\<lambda>i. of_nat i) 19 = 19
    \<and> rt_memmove 4 3 6 (\<lambda>i. of_nat i) 9 = 8"
  using memory_routines_correct [of 0 32 19 "\<lambda>i. of_nat i" 4 3 6 0] by (simp add: copy_def)

text \<open>
  The comparisons decide equality: \<^verbatim>\<open>rt_memcmp\<close> is zero exactly when the areas hold the
  same bytes and negative exactly when the first area is smaller at the first difference,
  \<^verbatim>\<open>rt_strncmp\<close> is zero exactly when the strings agree up to \<open>n\<close> bytes, and a name
  stored with \<^verbatim>\<open>rt_strncpy\<close> (outside the source string) compares equal to its source
  and leaves every byte outside the destination unchanged.
\<close>

theorem string_routines_correct:
  assumes "dst + n \<le> src \<or> src + n \<le> dst"
  shows "(rt_memcmp cs ct k m = 0 \<longleftrightarrow> bytes m cs k = bytes m ct k)
    \<and> (rt_memcmp cs ct k m < 0 \<longleftrightarrow> (\<exists>j < k. bytes m cs j = bytes m ct j \<and> m (cs + j) < m (ct + j)))
    \<and> (rt_strncmp cs ct k m = 0 \<longleftrightarrow> cstr m cs k = cstr m ct k)
    \<and> rt_strncmp dst src n (rt_strncpy dst src n m) = 0
    \<and> (i < dst \<or> dst + n \<le> i \<longrightarrow> rt_strncpy dst src n m i = m i)"
proof -
  let ?m = "rt_strncpy dst src n m"
  have *: "bytes ?m dst n = cstr m src n @ replicate (n - length (cstr m src n)) 0"
    "\<forall>i. i < dst \<or> dst + n \<le> i \<longrightarrow> ?m i = m i"
    using rt_strncpy_bytes [of dst src n m] assms by (auto simp: ascending_ok_def)
  have "bytes ?m src n = bytes m src n"
    using *(2) assms by (auto simp: bytes_def)
  moreover have "takeWhile (\<lambda>c. c \<noteq> 0) (cstr m src n @ replicate k 0) = cstr m src n" for k
  proof -
    have "\<forall>c \<in> set (cstr m src n). c \<noteq> 0" by (auto simp: cstr_def dest: set_takeWhileD)
    then have "takeWhile (\<lambda>c. c \<noteq> 0) (cstr m src n @ replicate k 0)
        = cstr m src n @ takeWhile (\<lambda>c. c \<noteq> 0) (replicate k 0)" by (simp add: takeWhile_append2)
    then show ?thesis by (cases k) simp_all
  qed
  ultimately have "rt_strncmp dst src n ?m = 0"
    using *(1) by (simp add: rt_strncmp_eq_0 cstr_def [of ?m]) (simp add: cstr_def)
  then show ?thesis using *(2) rt_memcmp_eq_0 rt_memcmp_less rt_strncmp_eq_0 by simp
qed

theorem string_routines_correct_witness:
  "rt_strncmp 0 16 8 (rt_strncpy 0 16 8 (\<lambda>i. if i = 16 then 0x69 else if i = 17 then 0x64 else 0)) = 0"
  using string_routines_correct [of 0 8 16] by simp

end
