(* ===== verification/RT_Mem.thy ===== *)
theory RT_Mem
  imports RT_Bytes
begin

text \<open>
  The small memory manager of \<^verbatim>\<open>src/mem.c\<close>.  The heap is a chain of blocks, each with a
  header (\<^verbatim>\<open>struct heap_mem\<close>) that holds the offsets of its neighbours.  Headers are a
  function of the block offset, user data a byte memory indexed by the offset in the
  heap; user code is taken not to write over headers.  The heap semaphore serialises the
  callers, so each operation is one step.  A violated \<^verbatim>\<open>RT_ASSERT\<close> stops the processor:
  the operation sets \<open>heap_panic\<close> and does nothing more.
\<close>

section \<open>The heap\<close>

record heap_mem =
  hm_magic :: u16
  hm_used :: u16
  hm_next :: nat
  hm_prev :: nat

record heap =
  heap_ptr :: nat
  hdr :: "nat \<Rightarrow> heap_mem"
  dat :: memory
  heap_end :: nat
  lfree :: nat
  mem_size_aligned :: nat
  used_mem :: nat
  max_mem :: nat
  heap_panic :: bool

abbreviation (input) HEAP_MAGIC :: u16 where "HEAP_MAGIC \<equiv> 0x1ea0"
abbreviation (input) SIZEOF_STRUCT_MEM :: nat where "SIZEOF_STRUCT_MEM \<equiv> 12"
abbreviation (input) MIN_SIZE :: nat where "MIN_SIZE \<equiv> 12"
abbreviation (input) MIN_SIZE_ALIGNED :: nat where "MIN_SIZE_ALIGNED \<equiv> 12"

definition upd_hdr :: "nat \<Rightarrow> (heap_mem \<Rightarrow> heap_mem) \<Rightarrow> heap \<Rightarrow> heap" where
  "upd_hdr p f h = h\<lparr>hdr := (hdr h)(p := f (hdr h p))\<rparr>"

definition panic_heap :: "heap \<Rightarrow> heap" where
  "panic_heap h = h\<lparr>heap_panic := True\<rparr>"

section \<open>Operations\<close>

text \<open>
  Merging block \<open>b\<close>, the successor of \<open>a\<close>, into \<open>a\<close>: the body of both branches of
  \<^verbatim>\<open>plug_holes\<close>.
\<close>

definition merge_next :: "nat \<Rightarrow> nat \<Rightarrow> heap \<Rightarrow> heap" where
  "merge_next a b h =
     (let h1 = (if lfree h = b then h\<lparr>lfree := a\<rparr> else h);
          h2 = upd_hdr a (\<lambda>m. m\<lparr>hm_next := hm_next (hdr h1 b)\<rparr>) h1
      in upd_hdr (hm_next (hdr h2 b)) (\<lambda>m. m\<lparr>hm_prev := a\<rparr>) h2)"

definition plug_holes :: "nat \<Rightarrow> heap \<Rightarrow> heap" where
  "plug_holes m h =
     (if \<not> m < heap_end h \<or> hm_used (hdr h m) \<noteq> 0 then panic_heap h
      else
        (let n = hm_next (hdr h m);
             h1 = (if m \<noteq> n \<and> hm_used (hdr h n) = 0 \<and> n \<noteq> heap_end h then merge_next m n h else h);
             p = hm_prev (hdr h1 m)
         in if p \<noteq> m \<and> hm_used (hdr h1 p) = 0 then merge_next p m h1 else h1))"

definition rt_system_heap_init :: "nat \<Rightarrow> nat \<Rightarrow> heap \<Rightarrow> heap" where
  "rt_system_heap_init begin_addr end_addr h =
     (let begin_align = rt_align begin_addr; end_align = rt_align_down end_addr
      in if end_align > 2 * SIZEOF_STRUCT_MEM \<and> end_align - 2 * SIZEOF_STRUCT_MEM \<ge> begin_align then
           (let sz = end_align - begin_align - 2 * SIZEOF_STRUCT_MEM;
                e = sz + SIZEOF_STRUCT_MEM;
                h1 = upd_hdr 0 (\<lambda>_. \<lparr>hm_magic = HEAP_MAGIC, hm_used = 0, hm_next = e, hm_prev = 0\<rparr>)
                       (h\<lparr>mem_size_aligned := sz, heap_ptr := begin_align\<rparr>);
                h2 = upd_hdr e (\<lambda>_. \<lparr>hm_magic = HEAP_MAGIC, hm_used = 1, hm_next = e, hm_prev = e\<rparr>)
                       (h1\<lparr>heap_end := e\<rparr>)
            in h2\<lparr>lfree := 0\<rparr>)
         else h)"

text \<open>
  The first-fit search of \<^verbatim>\<open>rt_malloc\<close>: \<open>Some (Some p)\<close> is the block found,
  \<open>Some None\<close> the end of the search, \<open>None\<close> a loop that does not end.
\<close>

partial_function (option) malloc_search :: "nat \<Rightarrow> nat \<Rightarrow> heap \<Rightarrow> nat option option" where
  [code]: "malloc_search sz ptr h =
     (if ptr < wsub (mem_size_aligned h) sz then
        (if hm_used (hdr h ptr) = 0
            \<and> wsub (hm_next (hdr h ptr)) (wadd ptr SIZEOF_STRUCT_MEM) \<ge> sz then Some (Some ptr)
         else malloc_search sz (hm_next (hdr h ptr)) h)
      else Some None)"

definition account :: "nat \<Rightarrow> heap \<Rightarrow> heap" where
  "account n h =
     (let u = wadd (used_mem h) n
      in h\<lparr>used_mem := u, max_mem := (if max_mem h < u then u else max_mem h)\<rparr>)"

definition malloc_split :: "nat \<Rightarrow> nat \<Rightarrow> heap \<Rightarrow> heap" where
  "malloc_split ptr sz h =
     (let ptr2 = ptr + SIZEOF_STRUCT_MEM + sz;
          nx = hm_next (hdr h ptr);
          h1 = upd_hdr ptr2 (\<lambda>m. m\<lparr>hm_magic := HEAP_MAGIC, hm_used := 0, hm_next := nx, hm_prev := ptr\<rparr>) h
      in if nx \<noteq> mem_size_aligned h + SIZEOF_STRUCT_MEM
         then upd_hdr nx (\<lambda>m. m\<lparr>hm_prev := ptr2\<rparr>) (upd_hdr ptr (\<lambda>m. m\<lparr>hm_next := ptr2\<rparr>) h1)
         else upd_hdr ptr (\<lambda>m. m\<lparr>hm_next := ptr2\<rparr>) h1)"

definition malloc_take :: "nat \<Rightarrow> nat \<Rightarrow> heap \<Rightarrow> heap" where
  "malloc_take ptr sz h =
     (let room = wsub (hm_next (hdr h ptr)) (wadd ptr SIZEOF_STRUCT_MEM);
          h1 = (if room \<ge> wadd (wadd sz SIZEOF_STRUCT_MEM) MIN_SIZE_ALIGNED
                then account (wadd sz SIZEOF_STRUCT_MEM)
                       (upd_hdr ptr (\<lambda>m. m\<lparr>hm_used := 1\<rparr>) (malloc_split ptr sz h))
                else account (wsub (hm_next (hdr h ptr)) ptr)
                       (upd_hdr ptr (\<lambda>m. m\<lparr>hm_used := 1\<rparr>) h))
      in upd_hdr ptr (\<lambda>m. m\<lparr>hm_magic := HEAP_MAGIC\<rparr>) h1)"

text \<open>Advancing the lowest-free pointer past used blocks.\<close>

partial_function (option) advance_lfree :: "nat \<Rightarrow> heap \<Rightarrow> nat option" where
  [code]: "advance_lfree l h =
     (if hm_used (hdr h l) \<noteq> 0 \<and> l \<noteq> heap_end h then advance_lfree (hm_next (hdr h l)) h else Some l)"

definition malloc_lfree :: "nat \<Rightarrow> heap \<Rightarrow> heap option" where
  "malloc_lfree ptr h =
     (if ptr = lfree h then map_option (\<lambda>l. h\<lparr>lfree := l\<rparr>) (advance_lfree (lfree h) h) else Some h)"

text \<open>The assertions of \<^verbatim>\<open>rt_malloc\<close> on the block it is about to return.\<close>

definition malloc_assert :: "nat \<Rightarrow> nat \<Rightarrow> heap \<Rightarrow> bool" where
  "malloc_assert ptr sz h \<longleftrightarrow> heap_ptr h + ptr + SIZEOF_STRUCT_MEM + sz \<le> heap_ptr h + heap_end h
     \<and> (heap_ptr h + ptr + SIZEOF_STRUCT_MEM) mod 4 = 0 \<and> (heap_ptr h + ptr) mod 4 = 0"

text \<open>
  \<^verbatim>\<open>rt_malloc\<close>: the outer \<open>option\<close> is termination, the inner one the returned pointer
  (\<open>None\<close> is \<^verbatim>\<open>RT_NULL\<close>).
\<close>

definition rt_malloc :: "nat \<Rightarrow> heap \<Rightarrow> (nat option \<times> heap) option" where
  "rt_malloc size0 h =
     (if size0 = 0 then Some (None, h)
      else
        (let sz1 = rt_align size0
         in if sz1 > mem_size_aligned h then Some (None, h)
            else
              (let sz = (if sz1 < MIN_SIZE_ALIGNED then MIN_SIZE_ALIGNED else sz1)
               in case malloc_search sz (lfree h) h of
                    None \<Rightarrow> None
                  | Some None \<Rightarrow> Some (None, h)
                  | Some (Some ptr) \<Rightarrow>
                      (case malloc_lfree ptr (malloc_take ptr sz h) of
                         None \<Rightarrow> None
                       | Some h' \<Rightarrow>
                           if malloc_assert ptr sz h'
                           then Some (Some (heap_ptr h' + ptr + SIZEOF_STRUCT_MEM), h')
                           else Some (None, panic_heap h')))))"

definition rt_free :: "nat option \<Rightarrow> heap \<Rightarrow> heap" where
  "rt_free rmem h =
     (case rmem of
        None \<Rightarrow> h
      | Some r \<Rightarrow>
          if r mod 4 \<noteq> 0 \<or> \<not> (heap_ptr h \<le> r \<and> r < heap_ptr h + heap_end h) then panic_heap h
          else
            (let m = wsub (r - heap_ptr h) SIZEOF_STRUCT_MEM
             in if hm_used (hdr h m) = 0 \<or> hm_magic (hdr h m) \<noteq> HEAP_MAGIC then panic_heap h
                else
                  (let h1 = upd_hdr m (\<lambda>x. x\<lparr>hm_used := 0, hm_magic := HEAP_MAGIC\<rparr>) h;
                       h2 = (if m < lfree h1 then h1\<lparr>lfree := m\<rparr> else h1);
                       h3 = h2\<lparr>used_mem := wsub (used_mem h2) (wsub (hm_next (hdr h2 m)) m)\<rparr>
                   in plug_holes m h3)))"

definition realloc_shrink :: "nat \<Rightarrow> nat \<Rightarrow> nat \<Rightarrow> heap \<Rightarrow> heap" where
  "realloc_shrink ptr sz newsize h =
     (let h1 = h\<lparr>used_mem := wsub (used_mem h) (wsub sz newsize)\<rparr>
      in plug_holes (ptr + SIZEOF_STRUCT_MEM + newsize) (malloc_split ptr newsize h1))"

definition rt_realloc :: "nat option \<Rightarrow> nat \<Rightarrow> heap \<Rightarrow> (nat option \<times> heap) option" where
  "rt_realloc rmem newsize0 h =
     (let newsize = rt_align newsize0
      in if newsize > mem_size_aligned h then Some (None, h)
         else if newsize = 0 then Some (None, rt_free rmem h)
         else
           (case rmem of
              None \<Rightarrow> rt_malloc newsize h
            | Some r \<Rightarrow>
                if r < heap_ptr h \<or> heap_ptr h + heap_end h \<le> r then Some (Some r, h)
                else
                  (let ptr = wsub (r - heap_ptr h) SIZEOF_STRUCT_MEM;
                       sz = wsub (wsub (hm_next (hdr h ptr)) ptr) SIZEOF_STRUCT_MEM
                   in if sz = newsize then Some (Some r, h)
                      else if wadd (wadd newsize SIZEOF_STRUCT_MEM) MIN_SIZE < sz
                      then Some (Some r, realloc_shrink ptr sz newsize h)
                      else
                        (case rt_malloc newsize h of
                           None \<Rightarrow> None
                         | Some (None, h1) \<Rightarrow> Some (None, h1)
                         | Some (Some nm, h1) \<Rightarrow>
                             (let h2 = h1\<lparr>dat := rt_memcpy (nm - heap_ptr h1) (r - heap_ptr h1)
                                          (if sz < newsize then sz else newsize) (dat h1)\<rparr>
                              in Some (Some nm, rt_free (Some r) h2))))))"

definition rt_calloc :: "nat \<Rightarrow> nat \<Rightarrow> heap \<Rightarrow> (nat option \<times> heap) option" where
  "rt_calloc count sz h =
     (case rt_malloc (wmul count sz) h of
        None \<Rightarrow> None
      | Some (None, h1) \<Rightarrow> Some (None, h1)
      | Some (Some p, h1) \<Rightarrow>
          Some (Some p, h1\<lparr>dat := rt_memset (p - heap_ptr h1) 0 (wmul count sz) (dat h1)\<rparr>))"

definition rt_memory_info :: "heap \<Rightarrow> nat \<times> nat \<times> nat" where
  "rt_memory_info h = (mem_size_aligned h, used_mem h, max_mem h)"

end
