(* ===== verification/RT_Heap_Inv.thy ===== *)
theory RT_Heap_Inv
  imports RT_Mem
begin

text \<open>
  The invariant of the small memory manager and what each operation does to it.  A
  well-formed heap is tiled by a list \<open>bs\<close> of block offsets that ends at
  \<open>heap_end\<close>; \<open>live\<close> is the abstract heap, the map from the used blocks to their ends.
\<close>

section \<open>Well-formed heaps\<close>

definition blk_link :: "heap \<Rightarrow> nat \<Rightarrow> nat \<Rightarrow> bool" where
  "blk_link h a b \<longleftrightarrow> hm_next (hdr h a) = b \<and> a + 16 \<le> b \<and> 4 dvd a \<and> hm_magic (hdr h a) = HEAP_MAGIC
     \<and> (b \<noteq> heap_end h \<longrightarrow> hm_prev (hdr h b) = a)"

definition chain :: "heap \<Rightarrow> nat list \<Rightarrow> bool" where
  "chain h bs \<longleftrightarrow> successively (blk_link h) (bs @ [heap_end h])"

abbreviation is_used :: "heap \<Rightarrow> nat \<Rightarrow> bool" where
  "is_used h b \<equiv> hm_used (hdr h b) \<noteq> 0"

text \<open>No two neighbouring blocks are both free.\<close>

definition unmerged :: "heap \<Rightarrow> nat list \<Rightarrow> bool" where
  "unmerged h bs \<longleftrightarrow> successively (\<lambda>a b. is_used h a \<or> is_used h b) bs"

definition live :: "heap \<Rightarrow> nat list \<Rightarrow> nat \<rightharpoonup> nat" where
  "live h bs = (\<lambda>b. if b \<in> set bs \<and> is_used h b then Some (hm_next (hdr h b)) else None)"

definition used_total :: "heap \<Rightarrow> nat list \<Rightarrow> nat" where
  "used_total h bs = (\<Sum>b\<leftarrow>filter (is_used h) bs. hm_next (hdr h b) - b)"

definition heap_frame :: "heap \<Rightarrow> bool" where
  "heap_frame h \<longleftrightarrow> hm_prev (hdr h 0) = 0 \<and> is_used h (heap_end h)
     \<and> mem_size_aligned h + 12 = heap_end h \<and> 4 dvd heap_ptr h \<and> 4 dvd heap_end h
     \<and> heap_ptr h + heap_end h + 12 < 2 ^ 32 \<and> \<not> heap_panic h"

definition lfree_ok :: "heap \<Rightarrow> nat list \<Rightarrow> bool" where
  "lfree_ok h bs \<longleftrightarrow> lfree h = heap_end h \<or> lfree h \<in> set bs \<and> \<not> is_used h (lfree h)"

text \<open>Tiled by \<open>bs\<close>, but possibly with free neighbours.\<close>

definition heap_body :: "heap \<Rightarrow> nat list \<Rightarrow> bool" where
  "heap_body h bs \<longleftrightarrow> bs \<noteq> [] \<and> hd bs = 0 \<and> chain h bs \<and> heap_frame h
     \<and> used_mem h = used_total h bs \<and> used_mem h \<le> max_mem h"

definition heap_tiled :: "heap \<Rightarrow> nat list \<Rightarrow> bool" where
  "heap_tiled h bs \<longleftrightarrow> heap_body h bs \<and> lfree_ok h bs"

definition heap_ok :: "heap \<Rightarrow> nat list \<Rightarrow> bool" where
  "heap_ok h bs \<longleftrightarrow> heap_tiled h bs \<and> unmerged h bs"

text \<open>The lowest-free pointer is below every free block.\<close>

definition lfree_lowest :: "heap \<Rightarrow> nat list \<Rightarrow> bool" where
  "lfree_lowest h bs \<longleftrightarrow> (\<forall>b \<in> set bs. \<not> is_used h b \<longrightarrow> lfree h \<le> b)"

section \<open>Chains\<close>

lemma upd_hdr_sel [simp]:
  "hdr (upd_hdr p f h) = (hdr h)(p := f (hdr h p))" "heap_end (upd_hdr p f h) = heap_end h"
  "heap_ptr (upd_hdr p f h) = heap_ptr h" "lfree (upd_hdr p f h) = lfree h"
  "mem_size_aligned (upd_hdr p f h) = mem_size_aligned h" "used_mem (upd_hdr p f h) = used_mem h"
  "max_mem (upd_hdr p f h) = max_mem h" "dat (upd_hdr p f h) = dat h"
  "heap_panic (upd_hdr p f h) = heap_panic h"
  by (simp_all add: upd_hdr_def)

lemma links_frame:
  assumes "\<forall>a \<in> set (butlast ps). hm_next (hdr h' a) = hm_next (hdr h a) \<and> hm_magic (hdr h' a) = hm_magic (hdr h a)"
    and "\<forall>b \<in> set (tl ps). b \<noteq> heap_end h \<longrightarrow> hm_prev (hdr h' b) = hm_prev (hdr h b)"
    and "heap_end h' = heap_end h"
  shows "successively (blk_link h') ps = successively (blk_link h) ps"
  using assms
proof (induction ps rule: induct_list012)
  case (3 x y zs)
  then show ?case by (cases zs) (auto simp: blk_link_def)
qed simp_all

lemma chain_split:
  "chain h (us @ a # vs) \<longleftrightarrow> successively (blk_link h) (us @ [a])
     \<and> blk_link h a (hd (vs @ [heap_end h])) \<and> successively (blk_link h) (vs @ [heap_end h])"
  by (cases vs) (auto simp: chain_def successively_append_iff)

lemma chain_sorted: "chain h bs \<Longrightarrow> sorted_wrt (<) (bs @ [heap_end h])"
proof -
  assume "chain h bs"
  then have "successively (<) (bs @ [heap_end h])"
    unfolding chain_def by (rule successively_mono) (simp add: blk_link_def)
  then show ?thesis by (simp add: successively_conv_sorted_wrt)
qed

lemma chain_sorted_split:
  assumes "chain h (us @ a # vs)"
  shows "\<forall>u \<in> set us. u < a" "\<forall>v \<in> set vs. a < v" "a < heap_end h" "\<forall>v \<in> set vs. v < heap_end h"
    "a < hd (vs @ [heap_end h])" "distinct (us @ a # vs)" "sorted_wrt (<) (vs @ [heap_end h])"
    "sorted_wrt (<) us" "\<forall>u \<in> set us. \<forall>v \<in> set vs. u < v"
proof -
  have s: "sorted_wrt (<) (us @ a # vs @ [heap_end h])" using chain_sorted [OF assms] by simp
  then show "\<forall>u \<in> set us. u < a" "\<forall>v \<in> set vs. a < v" "a < heap_end h" "\<forall>v \<in> set vs. v < heap_end h"
    "a < hd (vs @ [heap_end h])" "sorted_wrt (<) (vs @ [heap_end h])" "sorted_wrt (<) us"
    "\<forall>u \<in> set us. \<forall>v \<in> set vs. u < v"
    by (auto simp: sorted_wrt_append hd_append)
  show "distinct (us @ a # vs)" using s by (auto simp: strict_sorted_iff)
qed

lemma chain_member_split:
  assumes "b \<in> set bs"
  obtains us vs where "bs = us @ b # vs"
  using split_list [OF assms] by blast

lemma chain_link:
  "chain h (us @ a # vs) \<Longrightarrow> blk_link h a (hd (vs @ [heap_end h]))"
  by (simp add: chain_split)

lemma chain_less_end: "chain h bs \<Longrightarrow> b \<in> set bs \<Longrightarrow> b < heap_end h"
  using chain_sorted by (fastforce simp: sorted_wrt_append)

section \<open>Merging\<close>

lemma merge_next_fields:
  assumes "a \<noteq> b" "a \<noteq> hm_next (hdr h b)" "b \<noteq> hm_next (hdr h b)"
  shows "hdr (merge_next a b h) = (hdr h)(a := (hdr h a)\<lparr>hm_next := hm_next (hdr h b)\<rparr>,
      hm_next (hdr h b) := (hdr h (hm_next (hdr h b)))\<lparr>hm_prev := a\<rparr>)"
    and "heap_end (merge_next a b h) = heap_end h" "heap_ptr (merge_next a b h) = heap_ptr h"
    "mem_size_aligned (merge_next a b h) = mem_size_aligned h" "used_mem (merge_next a b h) = used_mem h"
    "max_mem (merge_next a b h) = max_mem h" "dat (merge_next a b h) = dat h"
    "heap_panic (merge_next a b h) = heap_panic h"
    "lfree (merge_next a b h) = (if lfree h = b then a else lfree h)"
  using assms by (simp_all add: merge_next_def Let_def)

lemma used_total_append: "used_total h (us @ vs) = used_total h us + used_total h vs"
  by (simp add: used_total_def)

lemma used_total_cong:
  assumes "\<And>b. b \<in> set bs \<Longrightarrow> is_used h' b = is_used h b \<and> (is_used h b \<longrightarrow> hm_next (hdr h' b) = hm_next (hdr h b))"
  shows "used_total h' bs = used_total h bs"
proof -
  have "filter (is_used h') bs = filter (is_used h) bs"
    using assms by (auto intro: filter_cong)
  then show ?thesis unfolding used_total_def using assms by (auto intro!: arg_cong [of _ _ sum_list])
qed

lemma live_cong:
  assumes "\<And>b. (b \<in> set bs' \<and> is_used h' b) = (b \<in> set bs \<and> is_used h b)"
    and "\<And>b. b \<in> set bs \<Longrightarrow> is_used h b \<Longrightarrow> hm_next (hdr h' b) = hm_next (hdr h b)"
  shows "live h' bs' = live h bs"
  using assms by (auto simp: live_def fun_eq_iff)

text \<open>
  Merging two free neighbours: the tiling loses the second block, the live blocks and
  the statistics stay.
\<close>

lemma merge_next_tiled:
  assumes t: "heap_tiled h (us @ a # b # vs)" and fr: "\<not> is_used h a" "\<not> is_used h b"
  defines "h' \<equiv> merge_next a b h"
  shows "heap_tiled h' (us @ a # vs)" "live h' (us @ a # vs) = live h (us @ a # b # vs)"
    "\<And>c. is_used h' c = is_used h c" "lfree h' = (if lfree h = b then a else lfree h)"
    "hm_prev (hdr h' a) = hm_prev (hdr h a)" "hm_next (hdr h' a) = hd (vs @ [heap_end h])"
    "heap_end h' = heap_end h" "heap_ptr h' = heap_ptr h" "mem_size_aligned h' = mem_size_aligned h"
    "dat h' = dat h"
proof -
  let ?e = "heap_end h" and ?n = "hd (vs @ [heap_end h])"
  have c: "chain h (us @ a # b # vs)" and hf: "heap_frame h" and lf: "lfree_ok h (us @ a # b # vs)"
    and u: "used_mem h = used_total h (us @ a # b # vs)" "used_mem h \<le> max_mem h"
    and hd: "hd (us @ [a]) = 0"
    using t by (auto simp: heap_tiled_def heap_body_def hd_append)
  note s = chain_sorted_split [OF c]
  have sb: "b < ?n" "\<forall>v \<in> set vs. b < v" "b < ?e"
    using chain_sorted_split [of h "us @ [a]" b vs] c by auto
  have ab: "a < b" using s by simp
  have next_b: "hm_next (hdr h b) = ?n"
    using chain_link [of h "us @ [a]" b vs] c by (simp add: blk_link_def)
  have nn: "a \<noteq> b" "a \<noteq> hm_next (hdr h b)" "b \<noteq> hm_next (hdr h b)" using ab sb next_b by auto
  note f = merge_next_fields [OF nn, folded h'_def, unfolded next_b]
  show used: "is_used h' c = is_used h c" for c using f(1) by simp
  show "lfree h' = (if lfree h = b then a else lfree h)" "heap_end h' = heap_end h"
    "heap_ptr h' = heap_ptr h" "mem_size_aligned h' = mem_size_aligned h" "dat h' = dat h"
    using f by simp_all
  have n_fresh: "?n \<notin> set us" "?n \<noteq> a" "?n \<notin> set (tl (vs @ [?e]))"
    using s sb nn next_b by (auto simp: hd_append) (cases vs; fastforce)+
  show "hm_prev (hdr h' a) = hm_prev (hdr h a)" "hm_next (hdr h' a) = ?n" using f(1) n_fresh by simp_all
  have "successively (blk_link h') (us @ [a]) = successively (blk_link h) (us @ [a])"
    by (rule links_frame) (use f n_fresh s in \<open>auto simp: tl_append split: list.splits\<close>)
  moreover have "successively (blk_link h') (vs @ [?e]) = successively (blk_link h) (vs @ [?e])"
    by (rule links_frame) (use f n_fresh s in \<open>auto dest: in_set_butlastD\<close>)
  moreover have "blk_link h' a ?n"
    using chain_link [OF c] sb s n_fresh unfolding blk_link_def by (auto simp: f)
  moreover have "successively (blk_link h) (us @ [a])" "successively (blk_link h) (vs @ [?e])"
    using c chain_split [of h us a "b # vs"] chain_split [of h "us @ [a]" b vs] by simp_all
  ultimately have "chain h' (us @ a # vs)" unfolding chain_split f(2) by blast
  moreover have "heap_frame h'" using hf s(1) n_fresh hd f
    by (cases us) (auto simp: heap_frame_def)
  moreover have "lfree_ok h' (us @ a # vs)"
    using lf fr f used unfolding lfree_ok_def by auto
  moreover have "used_total h' (us @ a # vs) = used_total h (us @ a # b # vs)"
  proof -
    have "used_total h' (us @ a # vs) = used_total h (us @ a # vs)"
      by (rule used_total_cong) (use f fr n_fresh s in auto)
    then show ?thesis using fr by (simp add: used_total_def)
  qed
  ultimately show "heap_tiled h' (us @ a # vs)"
    using u hd f by (auto simp: heap_tiled_def heap_body_def hd_append)
  show "live h' (us @ a # vs) = live h (us @ a # b # vs)"
    by (rule live_cong) (use used fr f n_fresh s in auto)
qed

section \<open>plug\_holes\<close>

lemma blk_first_prev: "heap_frame h \<Longrightarrow> hm_prev (hdr h 0) = 0"
  by (simp add: heap_frame_def)

lemma chain_prev:
  assumes "chain h (us @ q # m # vs)"
  shows "hm_prev (hdr h m) = q" "q \<noteq> m"
proof -
  have "blk_link h q m" using chain_link [of h us q "m # vs"] assms by simp
  moreover have "m \<noteq> heap_end h" using chain_sorted_split(3) [of h "us @ [q]" m vs] assms by auto
  ultimately show "hm_prev (hdr h m) = q" "q \<noteq> m" by (auto simp: blk_link_def)
qed

lemma unmerged_split:
  "unmerged h (us @ m # vs) \<longleftrightarrow> unmerged h us \<and> unmerged h vs
     \<and> (us \<noteq> [] \<longrightarrow> is_used h (last us) \<or> is_used h m) \<and> (vs \<noteq> [] \<longrightarrow> is_used h m \<or> is_used h (hd vs))"
  by (cases vs) (auto simp: unmerged_def successively_append_iff)

lemma unmerged_Nil [simp]: "unmerged h []"
  by (simp add: unmerged_def)

lemma unmerged_cong: "(\<And>c. c \<in> set bs \<Longrightarrow> is_used h' c = is_used h c) \<Longrightarrow> unmerged h' bs = unmerged h bs"
  unfolding unmerged_def by (rule successively_cong_in) simp

lemma lfree_lowest_merge:
  assumes low: "lfree_lowest h (us @ a # b # vs)" and "chain h (us @ a # b # vs)"
    and used: "\<And>c. is_used h' c = is_used h c"
    and lf: "lfree h' = (if lfree h = b then a else lfree h)"
  shows "lfree_lowest h' (us @ a # vs)"
proof -
  have "a < b" using chain_sorted_split(2) [of h us a "b # vs"] assms(2) by simp
  then have "lfree h' \<le> lfree h" using lf by simp
  moreover have "lfree h \<le> c" if "c \<in> set (us @ a # vs)" "\<not> is_used h c" for c
    using low that by (auto simp: lfree_lowest_def)
  ultimately show ?thesis unfolding lfree_lowest_def used by (meson order_trans)
qed

text \<open>What \<open>plug_holes m\<close> leaves behind, for a free block \<open>m\<close> whose neighbours are merged apart from \<open>m\<close>.\<close>

definition plugged :: "heap \<Rightarrow> nat list \<Rightarrow> heap \<Rightarrow> nat list \<Rightarrow> bool" where
  "plugged h bs h' bs' \<longleftrightarrow> heap_ok h' bs' \<and> live h' bs' = live h bs \<and> heap_end h' = heap_end h
     \<and> heap_ptr h' = heap_ptr h \<and> mem_size_aligned h' = mem_size_aligned h \<and> dat h' = dat h
     \<and> (lfree_lowest h bs \<longrightarrow> lfree_lowest h' bs')"

lemma plug_backward:
  assumes t: "heap_tiled h (us @ m # vs)" and m: "\<not> is_used h m"
    and un: "unmerged h us" "unmerged h vs" "vs \<noteq> [] \<longrightarrow> is_used h (hd vs)"
  defines "p \<equiv> hm_prev (hdr h m)"
  defines "h' \<equiv> (if p \<noteq> m \<and> hm_used (hdr h p) = 0 then merge_next p m h else h)"
  shows "\<exists>bs'. plugged h (us @ m # vs) h' bs'"
proof (cases us rule: rev_cases)
  case Nil
  then have "p = m" using t by (auto simp: heap_tiled_def heap_body_def p_def heap_frame_def)
  then have "h' = h" by (simp add: h'_def)
  moreover have "unmerged h (us @ m # vs)" using un m Nil unmerged_split [of h "[]" m vs] by simp
  ultimately show ?thesis using t by (auto simp: plugged_def heap_ok_def)
next
  case (snoc ws q)
  have c: "chain h (ws @ q # m # vs)" using t snoc by (simp add: heap_tiled_def heap_body_def)
  have p: "p = q" "q \<noteq> m" using chain_prev [OF c] by (simp_all add: p_def)
  show ?thesis
  proof (cases "is_used h q")
    case True
    then have "h' = h" using p by (simp add: h'_def)
    moreover have "unmerged h (us @ m # vs)" using un True snoc unmerged_split [of h us m vs] by simp
    ultimately show ?thesis using t by (auto simp: plugged_def heap_ok_def)
  next
    case False
    then have h': "h' = merge_next q m h" using p by (simp add: h'_def)
    have t': "heap_tiled h (ws @ q # m # vs)" using t snoc by simp
    note mt = merge_next_tiled [OF t' False m, folded h']
    have "unmerged h ws" "ws \<noteq> [] \<longrightarrow> is_used h (last ws)"
      using un(1) False unfolding snoc by (auto simp: unmerged_split)
    then have "unmerged h' (ws @ q # vs)"
      unfolding unmerged_split using un(2,3) mt(3) unmerged_cong [of ws h' h] unmerged_cong [of vs h' h]
      by simp
    moreover have "lfree_lowest h (us @ m # vs) \<longrightarrow> lfree_lowest h' (ws @ q # vs)"
      using lfree_lowest_merge [OF _ c mt(3,4)] snoc by simp
    ultimately have "plugged h (us @ m # vs) h' (ws @ q # vs)"
      using mt(1,2,7-10) snoc by (simp add: plugged_def heap_ok_def)
    then show ?thesis by blast
  qed
qed

lemma plug_holes_plugged:
  assumes t: "heap_tiled h (us @ m # vs)" and m: "\<not> is_used h m"
    and un: "unmerged h us" "unmerged h vs"
  shows "\<exists>bs'. plugged h (us @ m # vs) (plug_holes m h) bs'"
proof -
  have c: "chain h (us @ m # vs)" and hf: "heap_frame h" using t by (simp_all add: heap_tiled_def heap_body_def)
  have lt: "m < heap_end h" using chain_sorted_split(3) [OF c] .
  have nx: "hm_next (hdr h m) = hd (vs @ [heap_end h])" "m < hd (vs @ [heap_end h])"
    using chain_link [OF c] chain_sorted_split(5) [OF c] by (simp_all add: blk_link_def)
  show ?thesis
  proof (cases "vs \<noteq> [] \<and> \<not> is_used h (hd vs)")
    case False
    have "hm_used (hdr h (hd (vs @ [heap_end h]))) \<noteq> 0"
      using False hf by (cases vs) (auto simp: heap_frame_def)
    then have "plug_holes m h = (if hm_prev (hdr h m) \<noteq> m \<and> hm_used (hdr h (hm_prev (hdr h m))) = 0
        then merge_next (hm_prev (hdr h m)) m h else h)"
      using lt m nx unfolding plug_holes_def Let_def by simp
    then show ?thesis using plug_backward [OF t m un] False by auto
  next
    case True
    then obtain n ws where vs: "vs = n # ws" and n: "\<not> is_used h n" by (cases vs) auto
    have nm: "n \<noteq> heap_end h" using chain_less_end [OF c, of n] vs by simp
    define h1 where "h1 = merge_next m n h"
    note mt = merge_next_tiled [OF t [unfolded vs] m n, folded h1_def]
    have p: "plug_holes m h = (if hm_prev (hdr h1 m) \<noteq> m \<and> hm_used (hdr h1 (hm_prev (hdr h1 m))) = 0
        then merge_next (hm_prev (hdr h1 m)) m h1 else h1)"
      using lt m n nm nx vs unfolding plug_holes_def Let_def by (simp add: h1_def)
    have "unmerged h1 us" "unmerged h1 ws" "ws \<noteq> [] \<longrightarrow> is_used h1 (hd ws)" "\<not> is_used h1 m"
      using un n m mt(3) unmerged_cong [of us h1 h] unmerged_cong [of ws h1 h]
        unmerged_split [of h "[]" n ws] by (simp_all add: vs)
    then obtain bs' where "plugged h1 (us @ m # ws) (plug_holes m h) bs'"
      using plug_backward [OF mt(1)] p by auto
    moreover have "lfree_lowest h (us @ m # vs) \<longrightarrow> lfree_lowest h1 (us @ m # ws)"
      using lfree_lowest_merge [OF _ c [unfolded vs] mt(3,4)] vs by simp
    ultimately have "plugged h (us @ m # vs) (plug_holes m h) bs'"
      using mt(2,7-10) vs by (simp add: plugged_def)
    then show ?thesis by blast
  qed
qed

section \<open>Searching\<close>

text \<open>The block \<^verbatim>\<open>rt_malloc\<close> looks for: free, large enough, and starting before the search limit.\<close>

definition fits :: "heap \<Rightarrow> nat \<Rightarrow> nat \<Rightarrow> bool" where
  "fits h sz b \<longleftrightarrow> b < mem_size_aligned h - sz \<and> \<not> is_used h b \<and> sz \<le> hm_next (hdr h b) - (b + 12)"

lemma frame_small:
  assumes "heap_frame h" shows "heap_end h < 2 ^ 32" "mem_size_aligned h < 2 ^ 32"
  using assms by (auto simp: heap_frame_def)

lemma chain_room:
  assumes c: "chain h (us @ b # vs)" and f: "heap_frame h"
  shows "wsub (hm_next (hdr h b)) (wadd b 12) = hm_next (hdr h b) - (b + 12)"
    "b + 16 \<le> hm_next (hdr h b)" "hm_next (hdr h b) \<le> heap_end h" "4 dvd b" "4 dvd hm_next (hdr h b)"
proof -
  have l: "blk_link h b (hd (vs @ [heap_end h]))" using chain_link [OF c] .
  then show b16: "b + 16 \<le> hm_next (hdr h b)" "4 dvd b" by (simp_all add: blk_link_def)
  show le: "hm_next (hdr h b) \<le> heap_end h"
    using l chain_sorted_split(4) [OF c] by (cases vs) (auto simp: blk_link_def)
  show "4 dvd hm_next (hdr h b)"
  proof (cases vs)
    case Nil
    moreover have "4 dvd heap_end h" using f unfolding heap_frame_def by blast
    ultimately show ?thesis using l by (simp add: blk_link_def)
  next
    case (Cons v ws)
    then have "blk_link h v (hd (ws @ [heap_end h]))" using chain_link [of h "us @ [b]" v ws] c by simp
    then show ?thesis using l Cons by (simp add: blk_link_def)
  qed
  have "wadd b 12 = b + 12" using b16 le frame_small [OF f] by (intro wadd_small) simp
  then show "wsub (hm_next (hdr h b)) (wadd b 12) = hm_next (hdr h b) - (b + 12)"
    using b16 le frame_small [OF f] by (simp add: wsub_small)
qed

lemma malloc_search_find:
  assumes f: "heap_frame h" and sz: "sz \<le> mem_size_aligned h"
  shows "chain h (us @ vs) \<Longrightarrow>
     malloc_search sz (hd (vs @ [heap_end h])) h = Some (find (fits h sz) vs)"
proof (induction vs arbitrary: us)
  case Nil
  have "\<not> heap_end h < wsub (mem_size_aligned h) sz"
    using f sz frame_small [OF f] by (auto simp: wsub_small heap_frame_def)
  then show ?case by (subst malloc_search.simps) simp
next
  case (Cons b vs)
  have bound: "wsub (mem_size_aligned h) sz = mem_size_aligned h - sz"
    using sz frame_small [OF f] by (simp add: wsub_small)
  note room = chain_room [OF Cons.prems f]
  have nx: "hm_next (hdr h b) = hd (vs @ [heap_end h])"
    using chain_link [OF Cons.prems] by (simp add: blk_link_def)
  have IH: "malloc_search sz (hd (vs @ [heap_end h])) h = Some (find (fits h sz) vs)"
    using Cons.IH [of "us @ [b]"] Cons.prems by simp
  show ?case
  proof (cases "b < mem_size_aligned h - sz")
    case True
    then show ?thesis using IH room(1) nx
      by (subst malloc_search.simps) (auto simp: bound fits_def)
  next
    case False
    moreover have "\<not> fits h sz v" if "v \<in> set vs" for v
      using chain_sorted_split(2) [OF Cons.prems] that False by (fastforce simp: fits_def)
    ultimately have "find (fits h sz) (b # vs) = None"
      by (auto simp: find_None_iff fits_def)
    then show ?thesis using False by (subst malloc_search.simps) (simp add: bound)
  qed
qed

lemma advance_lfree_find:
  "chain h (us @ vs) \<Longrightarrow>
     advance_lfree (hd (vs @ [heap_end h])) h
       = Some (case find (\<lambda>b. \<not> is_used h b) vs of Some b \<Rightarrow> b | None \<Rightarrow> heap_end h)"
proof (induction vs arbitrary: us)
  case Nil
  show ?case by (subst advance_lfree.simps) simp
next
  case (Cons b vs)
  have ne: "b \<noteq> heap_end h" using chain_less_end [OF Cons.prems, of b] by simp
  have nx: "hm_next (hdr h b) = hd (vs @ [heap_end h])"
    using chain_link [OF Cons.prems] by (simp add: blk_link_def)
  show ?case using Cons.IH [of "us @ [b]"] Cons.prems ne nx
    by (subst advance_lfree.simps) simp
qed

section \<open>Splitting\<close>

lemma malloc_split_sel [simp]:
  "heap_end (malloc_split p sz h) = heap_end h" "heap_ptr (malloc_split p sz h) = heap_ptr h"
  "lfree (malloc_split p sz h) = lfree h" "mem_size_aligned (malloc_split p sz h) = mem_size_aligned h"
  "used_mem (malloc_split p sz h) = used_mem h" "max_mem (malloc_split p sz h) = max_mem h"
  "dat (malloc_split p sz h) = dat h" "heap_panic (malloc_split p sz h) = heap_panic h"
  by (simp_all add: malloc_split_def Let_def)

lemma malloc_split_hdr:
  assumes "p < p + 12 + sz" "p + 12 + sz < hm_next (hdr h p)"
  shows "hm_next (hdr (malloc_split p sz h) c)
      = (if c = p then p + 12 + sz else if c = p + 12 + sz then hm_next (hdr h p) else hm_next (hdr h c))"
    "hm_used (hdr (malloc_split p sz h) c) = (if c = p + 12 + sz then 0 else hm_used (hdr h c))"
    "hm_magic (hdr (malloc_split p sz h) c) = (if c = p + 12 + sz then HEAP_MAGIC else hm_magic (hdr h c))"
    "hm_prev (hdr (malloc_split p sz h) c) = (if c = p + 12 + sz then p
      else if c = hm_next (hdr h p) \<and> c \<noteq> mem_size_aligned h + 12 then p + 12 + sz else hm_prev (hdr h c))"
  using assms by (auto simp: malloc_split_def Let_def)

text \<open>Cutting a block in two: the tiling gains the free second part.\<close>

lemma malloc_split_chain:
  assumes c: "chain h (us @ p # vs)" and f: "heap_frame h"
    and sz: "4 dvd sz" "4 \<le> sz" "p + 12 + sz + 24 \<le> hm_next (hdr h p)"
  defines "p2 \<equiv> p + 12 + sz"
  shows "chain (malloc_split p sz h) (us @ p # p2 # vs)"
    "p2 \<notin> set (us @ p # vs)" "p2 \<noteq> heap_end h" "p2 < hd (vs @ [heap_end h])"
proof -
  let ?h = "malloc_split p sz h" and ?e = "heap_end h" and ?n = "hd (vs @ [heap_end h])"
  note s = chain_sorted_split [OF c]
  have l: "blk_link h p ?n" using chain_link [OF c] .
  then have n: "hm_next (hdr h p) = ?n" by (simp add: blk_link_def)
  have e: "mem_size_aligned h + 12 = ?e" using f by (simp add: heap_frame_def)
  have lt: "p < p + 12 + sz" "p + 12 + sz < hm_next (hdr h p)" using sz by simp_all
  note hdr = malloc_split_hdr [OF lt, folded p2_def, unfolded n]
  have p2: "p < p2" "p2 < ?n" using lt n by (simp_all add: p2_def)
  then show "p2 < hd (vs @ [?e])" by simp
  have n_le: "?n \<le> v" if "v \<in> set (vs @ [?e])" for v
    using s(7) that by (cases vs) auto
  have p2f: "p2 \<notin> set us" "p2 \<notin> set vs" "p2 \<noteq> p" "p2 \<noteq> ?e"
    using s(1) p2 n_le by force+
  then show "p2 \<notin> set (us @ p # vs)" "p2 \<noteq> ?e" by auto
  have nf: "?n \<notin> set us" "?n \<noteq> p" "?n \<notin> set (tl (vs @ [?e]))"
    using s p2 by (auto simp: hd_append) (cases vs; fastforce)+
  have "successively (blk_link ?h) (us @ [p]) = successively (blk_link h) (us @ [p])"
    by (rule links_frame) (use hdr nf p2f s(1) in \<open>auto simp: tl_append split: list.splits\<close>)
  moreover have "successively (blk_link ?h) (vs @ [?e]) = successively (blk_link h) (vs @ [?e])"
    by (rule links_frame) (use hdr nf p2f s(2) in \<open>auto dest: in_set_butlastD simp: tl_append split: list.splits\<close>)
  moreover have "blk_link ?h p p2"
    using l p2f sz(2) unfolding blk_link_def by (simp add: hdr p2_def)
  moreover have "blk_link ?h p2 ?n"
    using l n p2f p2 nf sz e unfolding blk_link_def by (auto simp: hdr p2_def)
  ultimately have "successively (blk_link ?h) (us @ [p])" "blk_link ?h p p2"
    "successively (blk_link ?h) ((p2 # vs) @ [?e])"
    using c chain_split [of h us p vs] by (cases vs; simp)+
  then show "chain ?h (us @ p # p2 # vs)" by (simp add: chain_split)
qed

section \<open>Taking a block\<close>

lemma used_total_bound:
  "successively (blk_link h) (ws @ [z]) \<Longrightarrow> used_total h ws + hd (ws @ [z]) \<le> z"
proof (induction ws)
  case (Cons w ws)
  have "blk_link h w (hd (ws @ [z]))" using Cons.prems by (cases ws) simp_all
  moreover have "used_total h ws + hd (ws @ [z]) \<le> z" using Cons by (cases ws) simp_all
  ultimately show ?case by (auto simp: used_total_def blk_link_def)
qed (simp add: used_total_def)

lemma used_total_with:
  assumes c: "chain h (us @ p # vs)" and "hd (us @ [p]) = 0"
  shows "used_total h us + used_total h vs + (hm_next (hdr h p) - p) \<le> heap_end h"
proof -
  have "used_total h us + hd (us @ [p]) \<le> p"
    using used_total_bound [of h us p] c by (simp add: chain_split)
  moreover have "used_total h vs + hd (vs @ [heap_end h]) \<le> heap_end h"
    using used_total_bound [of h vs "heap_end h"] c by (simp add: chain_split)
  moreover have "hm_next (hdr h p) = hd (vs @ [heap_end h])" "p < hd (vs @ [heap_end h])"
    using chain_link [OF c] chain_sorted_split(5) [OF c] by (simp_all add: blk_link_def)
  ultimately show ?thesis by linarith
qed

lemma account_sel [simp]:
  "hdr (account n h) = hdr h" "heap_end (account n h) = heap_end h" "heap_ptr (account n h) = heap_ptr h"
  "lfree (account n h) = lfree h" "mem_size_aligned (account n h) = mem_size_aligned h"
  "dat (account n h) = dat h" "heap_panic (account n h) = heap_panic h"
  "used_mem (account n h) = wadd (used_mem h) n"
  by (simp_all add: account_def Let_def)

lemma account_max: "used_mem (account n h) \<le> max_mem (account n h)"
  by (simp add: account_def Let_def)

text \<open>The heap after a block has been taken, before the lowest-free pointer is moved.\<close>

definition taken :: "heap \<Rightarrow> nat list \<Rightarrow> nat \<Rightarrow> nat \<Rightarrow> heap \<Rightarrow> nat list \<Rightarrow> bool" where
  "taken h bs p sz h' bs' \<longleftrightarrow> heap_body h' bs' \<and> unmerged h' bs'
     \<and> live h' bs' = (live h bs)(p \<mapsto> hm_next (hdr h' p)) \<and> p + 12 + sz \<le> hm_next (hdr h' p)
     \<and> (\<forall>c \<in> set bs. c \<noteq> p \<longrightarrow> c \<in> set bs' \<and> is_used h' c = is_used h c)
     \<and> (\<forall>c \<in> set bs'. c \<in> set bs \<or> p < c)
     \<and> lfree h' = lfree h \<and> heap_end h' = heap_end h \<and> heap_ptr h' = heap_ptr h
     \<and> mem_size_aligned h' = mem_size_aligned h \<and> dat h' = dat h"

lemma malloc_take_whole:
  assumes ok: "heap_body h (us @ p # vs)" "unmerged h (us @ p # vs)" and free: "\<not> is_used h p"
    and sz: "sz \<le> hm_next (hdr h p) - (p + 12)"
  defines "h' \<equiv> upd_hdr p (\<lambda>m. m\<lparr>hm_magic := HEAP_MAGIC\<rparr>)
     (account (wsub (hm_next (hdr h p)) p) (upd_hdr p (\<lambda>m. m\<lparr>hm_used := 1\<rparr>) h))"
  shows "taken h (us @ p # vs) p sz h' (us @ p # vs)"
proof -
  let ?bs = "us @ p # vs" and ?n = "hm_next (hdr h p)"
  have c: "chain h ?bs" and f: "heap_frame h" and hd: "hd (us @ [p]) = 0"
    and u: "used_mem h = used_total h ?bs"
    using ok by (auto simp: heap_body_def hd_append)
  note r = chain_room [OF c f] and s = chain_sorted_split [OF c]
  have l: "blk_link h p (hd (vs @ [heap_end h]))" using chain_link [OF c] .
  have hdr: "hm_next (hdr h' x) = hm_next (hdr h x)" "hm_prev (hdr h' x) = hm_prev (hdr h x)"
    "hm_used (hdr h' x) = (if x = p then 1 else hm_used (hdr h x))"
    "hm_magic (hdr h' x) = (if x = p then HEAP_MAGIC else hm_magic (hdr h x))" for x
    by (auto simp: h'_def)
  have c': "chain h' ?bs"
  proof -
    have "hm_magic (hdr h' x) = hm_magic (hdr h x)" for x using l by (simp add: hdr blk_link_def)
    then show ?thesis
      using c links_frame [of "?bs @ [heap_end h]" h' h] hdr by (simp add: chain_def h'_def)
  qed
  have n: "wsub ?n p = ?n - p" using r frame_small [OF f] by (intro wsub_small) auto
  have tot: "used_total h ?bs = used_total h us + used_total h vs"
    using free by (simp add: used_total_def)
  have "used_total h' us = used_total h us" "used_total h' vs = used_total h vs"
    using s(1,2) hdr by (auto intro!: used_total_cong)
  then have tot': "used_total h' ?bs = used_total h us + used_total h vs + (?n - p)"
    using hdr by (simp add: used_total_def)
  have "wadd (used_mem h) (?n - p) = used_total h us + used_total h vs + (?n - p)"
    using used_total_with [OF c hd] frame_small [OF f] tot u by (simp add: wadd_small)
  then have "used_mem h' = used_total h' ?bs" using tot' n unfolding h'_def upd_hdr_sel by simp
  moreover have "used_mem h' \<le> max_mem h'" unfolding h'_def upd_hdr_sel by (rule account_max)
  moreover have "heap_frame h'" using f hdr by (simp add: heap_frame_def h'_def)
  ultimately have "heap_body h' ?bs" using ok(1) c' by (auto simp: heap_body_def)
  moreover have "unmerged h' ?bs"
    using ok(2) hdr unfolding unmerged_def by (auto elim!: successively_mono)
  moreover have "live h' ?bs = (live h ?bs)(p \<mapsto> hm_next (hdr h' p))"
    using hdr by (auto simp: live_def fun_eq_iff)
  moreover have "lfree h' = lfree h" "heap_end h' = heap_end h" "heap_ptr h' = heap_ptr h"
    "mem_size_aligned h' = mem_size_aligned h" "dat h' = dat h" by (simp_all add: h'_def)
  ultimately show ?thesis
    using sz r(2) hdr(1,3) by (auto simp: taken_def)
qed

lemma malloc_take_part:
  assumes ok: "heap_body h (us @ p # vs)" "unmerged h (us @ p # vs)" and free: "\<not> is_used h p"
    and sz: "4 dvd sz" "12 \<le> sz" "p + 12 + sz + 24 \<le> hm_next (hdr h p)"
  defines "h' \<equiv> upd_hdr p (\<lambda>m. m\<lparr>hm_magic := HEAP_MAGIC\<rparr>) (account (wadd sz 12)
     (upd_hdr p (\<lambda>m. m\<lparr>hm_used := 1\<rparr>) (malloc_split p sz h)))"
  shows "taken h (us @ p # vs) p sz h' (us @ p # (p + 12 + sz) # vs)"
proof -
  let ?bs = "us @ p # vs" and ?n = "hm_next (hdr h p)" and ?p2 = "p + 12 + sz"
  let ?bs' = "us @ p # ?p2 # vs" and ?s = "malloc_split p sz h"
  have c: "chain h ?bs" and f: "heap_frame h" and hd: "hd (us @ [p]) = 0"
    and u: "used_mem h = used_total h ?bs"
    using ok by (auto simp: heap_body_def hd_append)
  have sz4: "4 \<le> sz" using sz by simp
  note r = chain_room [OF c f] and s = chain_sorted_split [OF c]
  note sp = malloc_split_chain [OF c f sz(1) sz4 sz(3)]
  have lt: "p < p + 12 + sz" "p + 12 + sz < ?n" using sz by simp_all
  note sh = malloc_split_hdr [OF lt]
  have l: "hm_magic (hdr h p) = HEAP_MAGIC" using chain_link [OF c] by (simp add: blk_link_def)
  have hdr: "hm_next (hdr h' x) = (if x = p then ?p2 else if x = ?p2 then ?n else hm_next (hdr h x))"
    "hm_used (hdr h' x) = (if x = p then 1 else if x = ?p2 then 0 else hm_used (hdr h x))"
    "hm_magic (hdr h' x) = hm_magic (hdr ?s x)" "hm_prev (hdr h' x) = hm_prev (hdr ?s x)" for x
    using l by (auto simp: h'_def sh)
  have c': "chain h' ?bs'"
    using sp(1) links_frame [of "?bs' @ [heap_end h]" h' ?s] hdr(3,4)
    by (simp add: chain_def h'_def)
  have other: "x \<noteq> p" "x \<noteq> ?p2" if "x \<in> set us \<union> set vs" for x
    using s(1,2) sp(2) that by auto
  have "used_total h' us = used_total h us" "used_total h' vs = used_total h vs"
    by (rule used_total_cong; use other hdr(1,2) in simp)+
  then have tot': "used_total h' ?bs' = used_total h us + used_total h vs + (12 + sz)"
    using hdr by (simp add: used_total_def)
  have tot: "used_total h ?bs = used_total h us + used_total h vs"
    using free by (simp add: used_total_def)
  have "used_total h us + used_total h vs + (12 + sz) < 2 ^ 32"
    using used_total_with [OF c hd] frame_small [OF f] lt by linarith
  then have "wadd (used_mem h) (wadd sz 12) = used_total h us + used_total h vs + (12 + sz)"
    using tot u by (simp add: wadd_small)
  then have "used_mem h' = used_total h' ?bs'" using tot' unfolding h'_def upd_hdr_sel by simp
  moreover have "used_mem h' \<le> max_mem h'" unfolding h'_def upd_hdr_sel by (rule account_max)
  moreover have "heap_frame h'"
  proof -
    have "hm_prev (hdr h' 0) = hm_prev (hdr h 0)" using lt by (simp add: hdr(4) sh(4))
    moreover have "is_used h' (heap_end h)" using f sp(3) by (simp add: hdr(2) heap_frame_def)
    ultimately show ?thesis using f by (simp add: heap_frame_def h'_def)
  qed
  ultimately have "heap_body h' ?bs'" using ok(1) c' by (auto simp: heap_body_def hd_append)
  moreover have "unmerged h' ?bs'"
  proof -
    have "unmerged h us" "unmerged h vs" "vs \<noteq> [] \<longrightarrow> is_used h (hd vs)"
      using ok(2) free unfolding unmerged_split by auto
    moreover have "is_used h' x = is_used h x" if "x \<in> set us \<union> set vs" for x
      using other [OF that] hdr(2) by simp
    ultimately have "unmerged h' us" "unmerged h' (?p2 # vs)" "is_used h' p"
      using unmerged_cong [of us h' h] unmerged_cong [of vs h' h] hdr(2)
        unmerged_split [of h' "[]" ?p2 vs] by auto
    then show ?thesis by (simp add: unmerged_split)
  qed
  moreover have "live h' ?bs' = (live h ?bs)(p \<mapsto> hm_next (hdr h' p))"
    using hdr sp(2) by (auto simp: live_def fun_eq_iff)
  moreover have "lfree h' = lfree h" "heap_end h' = heap_end h" "heap_ptr h' = heap_ptr h"
    "mem_size_aligned h' = mem_size_aligned h" "dat h' = dat h" by (simp_all add: h'_def)
  ultimately show ?thesis
    using sz sp(2) hdr(1,2) by (auto simp: taken_def)
qed

lemma malloc_take_taken:
  assumes ok: "heap_ok h (us @ p # vs)" and free: "\<not> is_used h p"
    and sz: "4 dvd sz" "12 \<le> sz" "sz \<le> hm_next (hdr h p) - (p + 12)"
  shows "\<exists>vs'. taken h (us @ p # vs) p sz (malloc_take p sz h) (us @ p # vs')"
proof -
  have b: "heap_body h (us @ p # vs)" "unmerged h (us @ p # vs)" and c: "chain h (us @ p # vs)"
    and f: "heap_frame h"
    using ok by (auto simp: heap_ok_def heap_tiled_def heap_body_def)
  note r = chain_room [OF c f]
  have le: "sz + 24 < 2 ^ 32" if "sz + 24 \<le> hm_next (hdr h p) - (p + 12)"
    using that r frame_small [OF f] by linarith
  have w: "wadd (wadd sz 12) 12 = sz + 24"
  proof -
    have "heap_end h + 12 < 2 ^ 32" using f by (auto simp: heap_frame_def)
    then have "sz + 24 < 2 ^ 32" using r sz by linarith
    then show ?thesis by (simp add: wadd_small)
  qed
  show ?thesis
  proof (cases "sz + 24 \<le> hm_next (hdr h p) - (p + 12)")
    case True
    then have "p + 12 + sz + 24 \<le> hm_next (hdr h p)" using r by linarith
    from malloc_take_part [OF b free sz(1,2) this] True show ?thesis
      by (auto simp: malloc_take_def Let_def r(1) w)
  next
    case False
    with malloc_take_whole [OF b free sz(3)] show ?thesis
      by (auto simp: malloc_take_def Let_def r(1) w)
  qed
qed

section \<open>rt\_malloc\<close>

lemma find_sorted_le:
  "sorted_wrt (<) xs \<Longrightarrow> c \<in> set xs \<Longrightarrow> P c \<Longrightarrow> \<exists>l. find P xs = Some l \<and> l \<le> (c::nat)"
  by (induction xs) auto

lemma find_in_set: "find P xs = Some x \<Longrightarrow> x \<in> set xs \<and> P x"
  by (induction xs) (auto split: if_splits)

lemma lfree_position:
  assumes "lfree_ok h bs"
  obtains us vs where "bs = us @ vs" "lfree h = hd (vs @ [heap_end h])"
proof (cases "lfree h = heap_end h")
  case True
  then show ?thesis using that [of bs "[]"] by simp
next
  case False
  then have "lfree h \<in> set bs" using assms by (simp add: lfree_ok_def)
  then obtain us vs where "bs = us @ lfree h # vs" using split_list by fast
  then show ?thesis using that [of us "lfree h # vs"] by simp
qed

text \<open>A successful allocation: one more live block, everything else as it was.\<close>

definition allocated :: "heap \<Rightarrow> nat list \<Rightarrow> nat \<Rightarrow> nat \<Rightarrow> heap \<Rightarrow> nat list \<Rightarrow> bool" where
  "allocated h bs p sz h' bs' \<longleftrightarrow> heap_ok h' bs' \<and> p \<in> set bs \<and> p \<in> set bs' \<and> live h bs p = None
     \<and> live h' bs' = (live h bs)(p \<mapsto> hm_next (hdr h' p)) \<and> p + 12 + sz \<le> hm_next (hdr h' p)
     \<and> heap_end h' = heap_end h \<and> heap_ptr h' = heap_ptr h
     \<and> mem_size_aligned h' = mem_size_aligned h \<and> dat h' = dat h
     \<and> (lfree_lowest h bs \<longrightarrow> lfree_lowest h' bs')"

lemma heap_body_lfree: "heap_body (h\<lparr>lfree := l\<rparr>) bs = heap_body h bs"
  by (simp add: heap_body_def chain_def blk_link_def [abs_def] heap_frame_def used_total_def)

lemma lfree_irrelevant [simp]:
  "live (h\<lparr>lfree := l\<rparr>) bs = live h bs" "unmerged (h\<lparr>lfree := l\<rparr>) bs = unmerged h bs"
  "heap_body (h\<lparr>lfree := l\<rparr>) bs = heap_body h bs"
  by (simp_all add: live_def unmerged_def heap_body_lfree cong: if_cong)

lemma malloc_lfree_allocated:
  assumes ok: "heap_ok h (us @ p # vs)" and free: "\<not> is_used h p" and ge: "lfree h \<le> p"
    and t: "taken h (us @ p # vs) p sz h1 (us @ p # ws)"
  shows "\<exists>h'. malloc_lfree p h1 = Some h' \<and> allocated h (us @ p # vs) p sz h' (us @ p # ws)
     \<and> hdr h' = hdr h1"
proof -
  let ?bs = "us @ p # vs" and ?bs' = "us @ p # ws"
  have lf: "lfree_ok h ?bs" using ok by (simp add: heap_ok_def heap_tiled_def)
  have b1: "heap_body h1 ?bs'" "unmerged h1 ?bs'" and c1: "chain h1 ?bs'" and l1: "lfree h1 = lfree h"
    and e1: "heap_end h1 = heap_end h"
    using t by (auto simp: taken_def heap_body_def)
  have "live h1 ?bs' p = Some (hm_next (hdr h1 p))" using t by (simp add: taken_def)
  then have up: "is_used h1 p" by (simp add: live_def split: if_splits)
  have old: "c \<in> set ?bs'" "is_used h1 c = is_used h c" if "c \<in> set ?bs" "c \<noteq> p" for c
    using t that by (auto simp: taken_def)
  have dead: "live h ?bs p = None" using free by (simp add: live_def)
  have alloc: "allocated h ?bs p sz (h1\<lparr>lfree := l\<rparr>) ?bs'"
    if "lfree_ok (h1\<lparr>lfree := l\<rparr>) ?bs'" "lfree_lowest h ?bs \<longrightarrow> lfree_lowest (h1\<lparr>lfree := l\<rparr>) ?bs'" for l
    using t that dead by (simp add: allocated_def taken_def heap_ok_def heap_tiled_def)
  show ?thesis
  proof (cases "p = lfree h")
    case False
    have "lfree_ok (h1\<lparr>lfree := lfree h1\<rparr>) ?bs'"
      using lf False old [of "lfree h"] l1 e1 by (auto simp: lfree_ok_def)
    moreover have "lfree_lowest (h1\<lparr>lfree := lfree h1\<rparr>) ?bs'" if low: "lfree_lowest h ?bs"
      unfolding lfree_lowest_def
    proof (intro ballI impI)
      fix c assume c: "c \<in> set ?bs'" "\<not> is_used (h1\<lparr>lfree := lfree h1\<rparr>) c"
      then have "c \<noteq> p" using up by auto
      moreover have "c \<in> set ?bs \<or> p < c" using t c(1) by (auto simp: taken_def)
      ultimately show "lfree (h1\<lparr>lfree := lfree h1\<rparr>) \<le> c"
        using low old [of c] c(2) ge l1 by (auto simp: lfree_lowest_def)
    qed
    ultimately have "allocated h ?bs p sz (h1\<lparr>lfree := lfree h1\<rparr>) ?bs'" using alloc by blast
    then have "allocated h ?bs p sz h1 ?bs'" by simp
    then show ?thesis using False l1 by (simp add: malloc_lfree_def)
  next
    case True
    define l where "l = (case find (\<lambda>b. \<not> is_used h1 b) (p # ws) of Some b \<Rightarrow> b | None \<Rightarrow> heap_end h1)"
    have "advance_lfree p h1 = Some l"
      using advance_lfree_find [OF c1] by (simp add: l_def)
    then have m: "malloc_lfree p h1 = Some (h1\<lparr>lfree := l\<rparr>)"
      using True l1 by (simp add: malloc_lfree_def)
    have "lfree_ok (h1\<lparr>lfree := l\<rparr>) ?bs'"
      using find_in_set [of "\<lambda>b. \<not> is_used h1 b" "p # ws"]
      by (auto simp: lfree_ok_def l_def simp del: find.simps split: option.splits)
    moreover have "lfree_lowest (h1\<lparr>lfree := l\<rparr>) ?bs'" if low: "lfree_lowest h ?bs"
      unfolding lfree_lowest_def
    proof (intro ballI impI)
      fix c assume c: "c \<in> set ?bs'" "\<not> is_used (h1\<lparr>lfree := l\<rparr>) c"
      have "c \<noteq> p" using c(2) up by auto
      moreover have "c \<notin> set us"
      proof
        assume "c \<in> set us"
        then have "c < p" "c \<in> set ?bs" using chain_sorted_split(1) [OF c1] by auto
        then show False using low old [of c] c(2) True by (auto simp: lfree_lowest_def)
      qed
      ultimately have cw: "c \<in> set ws" using c(1) by simp
      have "sorted_wrt (<) ws" using chain_sorted_split(7) [OF c1] by (simp add: sorted_wrt_append)
      then obtain l' where "find (\<lambda>b. \<not> is_used h1 b) ws = Some l'" "l' \<le> c"
        using find_sorted_le [of ws c "\<lambda>b. \<not> is_used h1 b"] cw c(2) by auto
      then have "l \<le> c" using up by (simp add: l_def)
      then show "lfree (h1\<lparr>lfree := l\<rparr>) \<le> c" by simp
    qed
    ultimately show ?thesis using alloc m by auto
  qed
qed

text \<open>The size \<^verbatim>\<open>rt_malloc\<close> looks for.\<close>

definition request :: "nat \<Rightarrow> nat" where
  "request n = (if rt_align n < 12 then 12 else rt_align n)"

lemma request_dvd: "4 dvd request n"
  by (simp add: request_def)

lemma request_ge: "12 \<le> request n" "n + 3 < 2 ^ 32 \<Longrightarrow> n \<le> request n"
  using rt_align_ge [of n] by (auto simp: request_def)

lemma heap_okD:
  assumes "heap_ok h bs"
  shows "chain h bs" "heap_frame h" "lfree_ok h bs" "unmerged h bs" "bs \<noteq> []" "hd bs = 0"
    "used_mem h = used_total h bs" "used_mem h \<le> max_mem h"
  using assms by (auto simp: heap_ok_def heap_tiled_def heap_body_def)

text \<open>
  \<^verbatim>\<open>rt_malloc\<close> always returns.  It returns a block exactly when some free block at or
  above \<open>lfree\<close>, below the search limit, is large enough.
\<close>

lemma rt_malloc_spec:
  assumes ok: "heap_ok h bs" and size: "0 < n" and sz: "request n \<le> mem_size_aligned h"
  shows "case find (\<lambda>b. lfree h \<le> b \<and> fits h (request n) b) bs of
      None \<Rightarrow> rt_malloc n h = Some (None, h)
    | Some p \<Rightarrow> \<exists>h' bs'. rt_malloc n h = Some (Some (heap_ptr h + p + 12), h')
        \<and> allocated h bs p (request n) h' bs'"
proof -
  note D = heap_okD [OF ok]
  obtain us0 vs0 where bs: "bs = us0 @ vs0" "lfree h = hd (vs0 @ [heap_end h])"
    by (rule lfree_position [OF D(3)])
  have s: "sorted_wrt (<) (us0 @ vs0 @ [heap_end h])" using chain_sorted [OF D(1)] bs by simp
  have lt: "u < lfree h" if "u \<in> set us0" for u
    using s that bs(2) by (cases vs0) (auto simp: sorted_wrt_append)
  have ge: "lfree h \<le> v" if "v \<in> set vs0" for v
    using s that bs(2) by (cases vs0) (auto simp: sorted_wrt_append)
  have found: "find (\<lambda>b. lfree h \<le> b \<and> fits h (request n) b) bs = find (fits h (request n)) vs0"
  proof -
    have "find (\<lambda>b. lfree h \<le> b \<and> fits h (request n) b) us0 = None"
      using lt by (fastforce simp: find_None_iff)
    moreover have "find (\<lambda>b. lfree h \<le> b \<and> fits h (request n) b) vs0 = find (fits h (request n)) vs0"
      by (rule find_cong) (use ge in auto)
    moreover have "find P (xs @ ys) = (case find P xs of None \<Rightarrow> find P ys | Some x \<Rightarrow> Some x)" for P and xs ys :: "nat list"
      by (induction xs) auto
    ultimately show ?thesis by (simp add: bs(1))
  qed
  have search: "malloc_search (request n) (lfree h) h = Some (find (fits h (request n)) vs0)"
    using malloc_search_find [OF D(2) sz, of us0 vs0] D(1) bs by simp
  have al: "\<not> mem_size_aligned h < rt_align n" using sz by (simp add: request_def split: if_splits)
  show ?thesis
  proof (cases "find (fits h (request n)) vs0")
    case None
    then have "rt_malloc n h = Some (None, h)"
      using size al search by (simp add: rt_malloc_def Let_def flip: request_def)
    then show ?thesis using None found by simp
  next
    case (Some p)
    then have p: "p \<in> set vs0" "fits h (request n) p" using find_in_set by metis+
    then obtain us vs where b: "bs = us @ p # vs" using bs split_list by (metis in_set_conv_decomp append_assoc)
    have free: "\<not> is_used h p" and room: "request n \<le> hm_next (hdr h p) - (p + 12)"
      using p(2) by (auto simp: fits_def)
    obtain ws where t: "taken h (us @ p # vs) p (request n) (malloc_take p (request n) h) (us @ p # ws)"
      using malloc_take_taken [OF ok [unfolded b] free request_dvd request_ge(1) room] by blast
    obtain h' where m: "malloc_lfree p (malloc_take p (request n) h) = Some h'"
      and a: "allocated h bs p (request n) h' (us @ p # ws)"
      using malloc_lfree_allocated [OF ok [unfolded b] free ge [OF p(1)] t] b by auto
    have c': "chain h' (us @ p # ws)" and f': "heap_frame h'" and ptr: "heap_ptr h' = heap_ptr h"
      using a heap_okD by (auto simp: allocated_def)
    have "hm_next (hdr h' p) \<le> heap_end h'" "4 dvd p" using chain_room [OF c' f'] by auto
    moreover have "p + 12 + request n \<le> hm_next (hdr h' p)" using a by (simp add: allocated_def)
    moreover have "4 dvd heap_ptr h'" using f' by (simp add: heap_frame_def)
    ultimately have "malloc_assert p (request n) h'"
      by (auto simp: malloc_assert_def)
    then have "rt_malloc n h = Some (Some (heap_ptr h + p + 12), h')"
      using size al search Some m ptr by (simp add: rt_malloc_def Let_def flip: request_def)
    then show ?thesis using a Some found by auto
  qed
qed

section \<open>rt\_free and rt\_realloc\<close>

lemma live_SomeD:
  assumes "live h bs p = Some e"
  shows "p \<in> set bs" "is_used h p" "hm_next (hdr h p) = e"
  using assms by (auto simp: live_def split: if_splits)

text \<open>Giving a block back: one live block fewer, everything else as it was.\<close>

definition released :: "heap \<Rightarrow> nat list \<Rightarrow> nat \<Rightarrow> heap \<Rightarrow> nat list \<Rightarrow> bool" where
  "released h bs p h' bs' \<longleftrightarrow> heap_ok h' bs' \<and> live h' bs' = (live h bs)(p := None)
     \<and> heap_end h' = heap_end h \<and> heap_ptr h' = heap_ptr h
     \<and> mem_size_aligned h' = mem_size_aligned h \<and> dat h' = dat h
     \<and> (lfree_lowest h bs \<longrightarrow> lfree_lowest h' bs')"

lemma rt_free_released:
  assumes ok: "heap_ok h bs" and p: "live h bs p = Some e"
  shows "\<exists>bs'. released h bs p (rt_free (Some (heap_ptr h + p + 12)) h) bs'"
proof -
  note D = heap_okD [OF ok]
  note P = live_SomeD [OF p]
  obtain us vs where bs: "bs = us @ p # vs" using chain_member_split [OF P(1)] .
  have c: "chain h (us @ p # vs)" using D(1) bs by simp
  note r = chain_room [OF c D(2)] and s = chain_sorted_split [OF c]
  have l: "hm_magic (hdr h p) = HEAP_MAGIC" using chain_link [OF c] by (simp add: blk_link_def)
  define h1 where "h1 = upd_hdr p (\<lambda>x. x\<lparr>hm_used := 0, hm_magic := HEAP_MAGIC\<rparr>) h"
  define h2 where "h2 = (if p < lfree h1 then h1\<lparr>lfree := p\<rparr> else h1)"
  define h3 where "h3 = h2\<lparr>used_mem := wsub (used_mem h2) (wsub (hm_next (hdr h2 p)) p)\<rparr>"
  have free: "rt_free (Some (heap_ptr h + p + 12)) h = plug_holes p h3"
  proof -
    have "4 dvd p" "4 dvd heap_ptr h" "p + 12 < heap_end h" "p + 12 < 2 ^ 32"
      using r D(2) frame_small [OF D(2)] by (auto simp: heap_frame_def)
    then show ?thesis using P(2) l
      by (auto simp: rt_free_def Let_def wsub_small h1_def h2_def h3_def)
  qed
  have hdr: "hm_next (hdr h3 x) = hm_next (hdr h x)" "hm_prev (hdr h3 x) = hm_prev (hdr h x)"
    "hm_used (hdr h3 x) = (if x = p then 0 else hm_used (hdr h x))"
    "hm_magic (hdr h3 x) = hm_magic (hdr h x)" for x
    using l by (simp_all add: h3_def h2_def h1_def)
  have flds: "heap_end h3 = heap_end h" "heap_ptr h3 = heap_ptr h" "mem_size_aligned h3 = mem_size_aligned h"
    "dat h3 = dat h" "heap_panic h3 = heap_panic h" "max_mem h3 = max_mem h"
    "lfree h3 = (if p < lfree h then p else lfree h)"
    by (simp_all add: h3_def h2_def h1_def)
  have c3: "chain h3 bs"
    using D(1) links_frame [of "bs @ [heap_end h]" h3 h] hdr flds(1) by (simp add: chain_def)
  have tot: "used_total h bs = used_total h us + used_total h vs + (e - p)"
    using P(2,3) bs by (simp add: used_total_def)
  have "used_total h3 us = used_total h us" "used_total h3 vs = used_total h vs"
    by (rule used_total_cong; use hdr s(1,2) in force)+
  then have tot3: "used_total h3 bs = used_total h us + used_total h vs"
    using hdr(3) bs by (simp add: used_total_def)
  have hd: "hd (us @ [p]) = 0" using D(6) bs by (cases us) auto
  have bound: "used_total h us + used_total h vs + (e - p) < 2 ^ 32"
    using used_total_with [OF c hd] P(3) frame_small [OF D(2)] by simp
  have "wsub e p = e - p" using r P(3) frame_small [OF D(2)] by (simp add: wsub_small)
  then have "used_mem h3 = wsub (used_total h bs) (e - p)"
    using P(3) D(7) by (simp add: h3_def h2_def h1_def)
  then have u3: "used_mem h3 = used_total h3 bs"
    using tot tot3 bound by (simp add: wsub_small)
  have "heap_frame h3"
    using D(2) hdr flds s(3) by (auto simp: heap_frame_def)
  moreover have "lfree_ok h3 bs"
    using D(3) hdr(3) P(1) flds(1,7) by (auto simp: lfree_ok_def)
  moreover have "used_mem h3 \<le> max_mem h3" using u3 tot tot3 D(7,8) flds(6) by simp
  ultimately have t: "heap_tiled h3 (us @ p # vs)"
    using c3 u3 D(5,6) bs by (simp add: heap_tiled_def heap_body_def)
  have "unmerged h us" "unmerged h vs" using D(4) bs by (simp_all add: unmerged_split)
  then have un: "unmerged h3 us" "unmerged h3 vs"
    using unmerged_cong [of us h3 h] unmerged_cong [of vs h3 h] hdr(3) s(1,2) by force+
  obtain bs' where pl: "plugged h3 (us @ p # vs) (plug_holes p h3) bs'"
    using plug_holes_plugged [OF t _ un] hdr(3) by auto
  have "live h3 bs = (live h bs)(p := None)"
    using hdr by (auto simp: live_def fun_eq_iff)
  moreover have "lfree_lowest h3 bs" if "lfree_lowest h bs"
    using that hdr(3) flds(7) by (auto simp: lfree_lowest_def) 
  ultimately show ?thesis
    using pl free flds bs by (auto simp: plugged_def released_def intro!: exI [of _ bs'])
qed

lemma chain_next_le:
  assumes c: "chain h bs" and "a \<in> set bs" "b \<in> set bs" "a < b"
  shows "hm_next (hdr h a) \<le> b"
proof -
  obtain us vs where bs: "bs = us @ a # vs" using chain_member_split [OF assms(2)] .
  have c': "chain h (us @ a # vs)" using c bs by simp
  have "b \<in> set vs" using assms(3,4) chain_sorted_split(1) [OF c'] bs by auto
  then have "hd (vs @ [heap_end h]) \<le> b"
    using chain_sorted_split(7) [OF c'] by (cases vs) auto
  then show ?thesis using chain_link [OF c'] by (simp add: blk_link_def)
qed

lemma chain_data_irrelevant [simp]:
  "heap_ok (h\<lparr>dat := d\<rparr>) bs = heap_ok h bs" "live (h\<lparr>dat := d\<rparr>) bs = live h bs"
  "lfree_lowest (h\<lparr>dat := d\<rparr>) bs = lfree_lowest h bs"
proof -
  have "blk_link (h\<lparr>dat := d\<rparr>) = blk_link h" by (auto simp: blk_link_def fun_eq_iff)
  then show "heap_ok (h\<lparr>dat := d\<rparr>) bs = heap_ok h bs"
    by (simp add: heap_ok_def heap_tiled_def heap_body_def chain_def heap_frame_def lfree_ok_def
        used_total_def unmerged_def)
qed (simp_all add: live_def lfree_lowest_def cong: if_cong)

text \<open>Cutting a live block short.\<close>

lemma realloc_shrink_ok:
  assumes ok: "heap_ok h bs" and p: "live h bs p = Some e"
    and ns: "4 dvd ns" "4 \<le> ns" "ns + 24 < e - p - 12"
  defines "h' \<equiv> realloc_shrink p (e - p - 12) ns h"
  shows "\<exists>bs'. heap_ok h' bs' \<and> live h' bs' = (live h bs)(p \<mapsto> p + 12 + ns) \<and> dat h' = dat h
    \<and> heap_ptr h' = heap_ptr h \<and> heap_end h' = heap_end h \<and> mem_size_aligned h' = mem_size_aligned h"
proof -
  note D = heap_okD [OF ok]
  note P = live_SomeD [OF p]
  obtain us vs where bs: "bs = us @ p # vs" using chain_member_split [OF P(1)] .
  have c: "chain h (us @ p # vs)" using D(1) bs by simp
  note r = chain_room [OF c D(2)] and s = chain_sorted_split [OF c]
  let ?p2 = "p + 12 + ns"
  define h1 where "h1 = h\<lparr>used_mem := wsub (used_mem h) (wsub (e - p - 12) ns)\<rparr>"
  have l1: "blk_link h1 = blk_link h" by (auto simp: h1_def blk_link_def fun_eq_iff)
  have h1: "hdr h1 = hdr h" "heap_end h1 = heap_end h" by (simp_all add: h1_def)
  have c1: "chain h1 (us @ p # vs)" using c l1 h1 by (simp add: chain_def)
  have f1: "heap_frame h1" using D(2) by (simp add: heap_frame_def h1_def)
  have room: "p + 12 + ns + 24 \<le> hm_next (hdr h1 p)" using ns P(3) h1 by simp
  have lt: "p < p + 12 + ns" "p + 12 + ns < hm_next (hdr h1 p)" using room by simp_all
  note sp = malloc_split_chain [OF c1 f1 ns(1,2) room]
  note sh = malloc_split_hdr [OF lt, unfolded h1]
  define h2 where "h2 = malloc_split p ns h1"
  have used2: "hm_used (hdr h2 x) = (if x = ?p2 then 0 else hm_used (hdr h x))" for x
    by (simp add: h2_def sh)
  have fl2: "lfree h2 = lfree h" "heap_end h2 = heap_end h" by (simp_all add: h2_def h1_def)
  have other: "x \<noteq> p" "x \<noteq> ?p2" if "x \<in> set us \<union> set vs" for x
    using s(1,2) sp(2) that by auto
  have "used_total h2 us = used_total h us" "used_total h2 vs = used_total h vs"
    by (rule used_total_cong; use other sh(1,2) in \<open>simp add: h2_def\<close>)+
  then have tot2: "used_total h2 (us @ p # ?p2 # vs) = used_total h us + used_total h vs + (12 + ns)"
    using P(2) by (simp add: used_total_def h2_def sh)
  have tot: "used_total h bs = used_total h us + used_total h vs + (e - p)"
    using P(2,3) bs by (simp add: used_total_def)
  have hd: "hd (us @ [p]) = 0" using D(6) bs by (cases us) auto
  have bound: "used_total h us + used_total h vs + (e - p) < 2 ^ 32"
    using used_total_with [OF c hd] P(3) frame_small [OF D(2)] by simp
  have "wsub (e - p - 12) ns = e - p - 12 - ns" using ns(3) bound by (simp add: wsub_small)
  then have "used_mem h2 = wsub (used_total h bs) (e - p - 12 - ns)"
    using D(7) by (simp add: h2_def h1_def)
  then have u2: "used_mem h2 = used_total h2 (us @ p # ?p2 # vs)"
    using tot tot2 bound ns(3) by (simp add: wsub_small)
  have "heap_frame h2"
  proof -
    have "hm_prev (hdr h2 0) = hm_prev (hdr h 0)" using lt by (simp add: h2_def sh h1)
    moreover have "is_used h2 (heap_end h)" using D(2) sp(3) h1 by (simp add: h2_def sh heap_frame_def)
    ultimately show ?thesis using D(2) by (simp add: heap_frame_def h2_def h1_def)
  qed
  moreover have "lfree_ok h2 (us @ p # ?p2 # vs)"
    using D(3) P(2) unfolding bs by (auto simp: lfree_ok_def used2 fl2)
  moreover have "used_mem h2 \<le> max_mem h2"
    using u2 tot tot2 D(7,8) ns(3) by (simp add: h2_def h1_def)
  moreover have "hd (us @ p # ?p2 # vs) = 0" using hd by (cases us) simp_all
  ultimately have t: "heap_tiled h2 ((us @ [p]) @ ?p2 # vs)"
    using sp(1) u2 by (simp add: heap_tiled_def heap_body_def h2_def)
  have "unmerged h us" "unmerged h vs" using D(4) bs by (simp_all add: unmerged_split)
  then have "unmerged h2 us" "unmerged h2 vs"
    using unmerged_cong [of us h2 h] unmerged_cong [of vs h2 h] used2 other by simp_all
  then have un: "unmerged h2 (us @ [p])" "unmerged h2 vs"
    using P(2) used2 lt unmerged_split [of h2 us p "[]"] by simp_all
  obtain bs' where pl: "plugged h2 ((us @ [p]) @ ?p2 # vs) (plug_holes ?p2 h2) bs'"
    using plug_holes_plugged [OF t _ un] used2 by auto
  have "live h2 ((us @ [p]) @ ?p2 # vs) = (live h bs)(p \<mapsto> ?p2)"
    using sp(2) P(2) bs by (auto simp: live_def fun_eq_iff h2_def sh)
  moreover have "h' = plug_holes ?p2 h2"
    by (simp add: h'_def realloc_shrink_def h2_def h1_def Let_def)
  ultimately show ?thesis using pl by (auto simp: plugged_def heap_ok_def h2_def h1_def)
qed

lemma allocated_region:
  assumes a: "allocated h bs q n h' bs'" and p: "live h bs p = Some e"
  shows "p \<noteq> q" "live h' bs' p = Some e" "e \<le> q \<or> hm_next (hdr h' q) \<le> p"
proof -
  show ne: "p \<noteq> q" using a p by (auto simp: allocated_def)
  then show l: "live h' bs' p = Some e" using a p by (simp add: allocated_def)
  have "chain h' bs'" "q \<in> set bs'" using a heap_okD by (auto simp: allocated_def)
  then show "e \<le> q \<or> hm_next (hdr h' q) \<le> p"
    using chain_next_le [of h' bs'] live_SomeD [OF l] ne by (metis linorder_neqE_nat)
qed

text \<open>Outcome of reallocating the live block \<open>p\<close>.\<close>

definition reallocated :: "heap \<Rightarrow> nat list \<Rightarrow> nat \<Rightarrow> nat \<Rightarrow> nat \<Rightarrow> heap \<Rightarrow> nat list \<Rightarrow> bool" where
  "reallocated h bs p ns p' h' bs' \<longleftrightarrow> heap_ok h' bs'
     \<and> (\<exists>e'. live h' bs' = ((live h bs)(p := None))(p' \<mapsto> e') \<and> p' + 12 + ns \<le> e'
         \<and> (p' \<noteq> p \<longrightarrow> live h bs p' = None))
     \<and> (\<forall>e i. live h bs p = Some e \<longrightarrow> i < min (e - p - 12) ns \<longrightarrow> dat h' (p' + 12 + i) = dat h (p + 12 + i))
     \<and> (\<forall>b e i. b \<noteq> p \<longrightarrow> live h bs b = Some e \<longrightarrow> b \<le> i \<longrightarrow> i < e \<longrightarrow> dat h' i = dat h i)"

lemma rt_realloc_grow:
  assumes ok: "heap_ok h bs" and p: "live h bs p = Some e" and a: "allocated h bs q (request ns) h1 bs1"
    and ns: "ns \<le> request ns"
  defines "k \<equiv> (if e - p - 12 < ns then e - p - 12 else ns)"
  defines "h2 \<equiv> h1\<lparr>dat := rt_memcpy (q + 12) (p + 12) k (dat h1)\<rparr>"
  shows "\<exists>bs'. reallocated h bs p ns q (rt_free (Some (heap_ptr h + p + 12)) h2) bs'"
proof -
  note R = allocated_region [OF a p]
  let ?eq = "hm_next (hdr h1 q)"
  have A: "heap_ok h1 bs1" "live h1 bs1 = (live h bs)(q \<mapsto> ?eq)" "q + 12 + request ns \<le> ?eq"
    "heap_ptr h1 = heap_ptr h" "dat h1 = dat h" "live h bs q = None"
    using a by (auto simp: allocated_def)
  have ep: "p + 16 \<le> e"
  proof -
    obtain us vs where "bs = us @ p # vs" using chain_member_split live_SomeD(1) [OF p] by metis
    then show ?thesis using chain_room(2) [of h us p vs] heap_okD [OF ok] live_SomeD(3) [OF p] by simp
  qed
  have k: "p + 12 + k \<le> e" "q + 12 + k \<le> ?eq" using ep A(3) ns by (auto simp: k_def)
  then have asc: "ascending_ok (q + 12) (p + 12) k" using R(3) ep A(3) by (auto simp: ascending_ok_def)
  have d2: "dat h2 = copy (q + 12) (p + 12) k (dat h)"
    by (simp add: h2_def rt_memcpy_copy [OF asc] A(5))
  have ok2: "heap_ok h2 bs1" and l2: "live h2 bs1 p = Some e" and ptr: "heap_ptr h2 = heap_ptr h"
    using A R(2) by (simp_all add: h2_def)
  obtain bs' where r: "released h2 bs1 p (rt_free (Some (heap_ptr h + p + 12)) h2) bs'"
    using rt_free_released [OF ok2 l2] ptr by auto
  have "live h2 bs1 = (live h bs)(q \<mapsto> ?eq)" using A(2) by (simp add: h2_def)
  moreover have "dat h2 (q + 12 + i) = dat h (p + 12 + i)" if "i < min (e - p - 12) ns" for i
    using that by (simp add: d2 copy_def k_def)
  moreover have "dat h2 i = dat h i" if "live h bs b = Some e'" "b \<le> i" "i < e'" for b e' i
    using allocated_region(3) [OF a that(1)] that(2,3) k(2) by (auto simp: d2 copy_def)
  ultimately show ?thesis
    using r R(1) A(3,6) ns p unfolding reallocated_def released_def
    by (intro exI [of _ bs']) (auto simp: fun_upd_twist)
qed

end
