(* ===== verification/RT_Heap.thy ===== *)
theory RT_Heap
  imports RT_Heap_Inv
begin

text \<open>
  The contract of the heap: the interface \<open>allocator\<close>, its interpretation on
  \<^verbatim>\<open>src/mem.c\<close>, and the properties of \<^verbatim>\<open>rt_malloc\<close>, \<^verbatim>\<open>rt_free\<close>, \<^verbatim>\<open>rt_realloc\<close>
  and of every sequence of them.
\<close>

section \<open>The interface\<close>

text \<open>
  A store of blocks: \<open>lv\<close> maps the offsets of the live blocks to their ends, \<open>addr\<close> is the
  address handed out for an offset.  The second argument \<open>g\<close> is the tiling that witnesses the
  invariant.
\<close>

locale allocator =
  fixes inv :: "'h \<Rightarrow> 'g \<Rightarrow> bool"
    and lv :: "'h \<Rightarrow> 'g \<Rightarrow> nat \<rightharpoonup> nat"
    and addr :: "'h \<Rightarrow> nat \<Rightarrow> nat"
    and alloc :: "nat \<Rightarrow> 'h \<Rightarrow> (nat option \<times> 'h) option"
    and free :: "nat \<Rightarrow> 'h \<Rightarrow> 'h"
  assumes live_disjoint: "inv h g \<Longrightarrow> lv h g a = Some ea \<Longrightarrow> lv h g b = Some eb \<Longrightarrow> a < b \<Longrightarrow> ea \<le> b"
    and alloc_null: "inv h g \<Longrightarrow> alloc n h = Some (None, h') \<Longrightarrow> h' = h"
    and alloc_some: "inv h g \<Longrightarrow> alloc n h = Some (Some r, h') \<Longrightarrow> n + 3 < 2 ^ 32 \<Longrightarrow>
      \<exists>g' p e. r = addr h p \<and> inv h' g' \<and> lv h g p = None \<and> lv h' g' = (lv h g)(p \<mapsto> e) \<and> p + n \<le> e
        \<and> addr h' = addr h"
    and free_live: "inv h g \<Longrightarrow> lv h g p = Some e \<Longrightarrow>
      \<exists>g'. inv (free (addr h p) h) g' \<and> lv (free (addr h p) h) g' = (lv h g)(p := None)
        \<and> addr (free (addr h p) h) = addr h"
begin

text \<open>An allocation that is given back at once leaves the live blocks as they were.\<close>

lemma alloc_free_live:
  assumes "inv h g" "alloc n h = Some (Some r, h')" "n + 3 < 2 ^ 32"
  shows "\<exists>g'. inv (free r h') g' \<and> lv (free r h') g' = lv h g"
proof -
  obtain g1 p e where a: "r = addr h p" "inv h' g1" "lv h g p = None" "lv h' g1 = (lv h g)(p \<mapsto> e)"
    "addr h' = addr h"
    using alloc_some [OF assms] by blast
  then obtain g2 where "inv (free (addr h' p) h') g2" "lv (free (addr h' p) h') g2 = (lv h' g1)(p := None)"
    using free_live [of h' g1 p e] by auto
  then show ?thesis using a by (auto simp: fun_upd_idem)
qed

text \<open>Two allocations never overlap.\<close>

lemma alloc_alloc_disjoint:
  assumes "inv h g" "alloc n h = Some (Some r, h1)" "n + 3 < 2 ^ 32"
    "alloc m h1 = Some (Some s, h2)" "m + 3 < 2 ^ 32"
  shows "\<exists>p e q f. r = addr h p \<and> s = addr h q \<and> p + n \<le> e \<and> q + m \<le> f \<and> (e \<le> q \<or> f \<le> p)"
proof -
  obtain g1 p e where a: "r = addr h p" "inv h1 g1" "lv h1 g1 = (lv h g)(p \<mapsto> e)" "p + n \<le> e"
    "addr h1 = addr h"
    using alloc_some [OF assms(1-3)] by blast
  obtain g2 q f where b: "s = addr h1 q" "inv h2 g2" "lv h1 g1 q = None" "lv h2 g2 = (lv h1 g1)(q \<mapsto> f)"
    "q + m \<le> f"
    using alloc_some [OF a(2) assms(4,5)] by blast
  have "p \<noteq> q" using a(3) b(3) by auto
  then have "lv h2 g2 p = Some e" "lv h2 g2 q = Some f" using a b by auto
  then have "e \<le> q \<or> f \<le> p" using live_disjoint [OF b(2)] \<open>p \<noteq> q\<close> by (metis linorder_neqE_nat)
  then show ?thesis using a b by metis
qed

end

section \<open>The heap provides it\<close>

lemma rt_malloc_too_large: "mem_size_aligned h < rt_align n \<Longrightarrow> rt_malloc n h = Some (None, h)"
  by (simp add: rt_malloc_def)

lemma rt_malloc_cases:
  assumes ok: "heap_ok h bs" and sz: "0 < n" and min: "12 \<le> mem_size_aligned h"
  obtains (null) "rt_malloc n h = Some (None, h)" "\<forall>b \<in> set bs. lfree h \<le> b \<longrightarrow> \<not> fits h (request n) b"
  | (block) p h' bs' where "rt_malloc n h = Some (Some (heap_ptr h + p + 12), h')"
      "allocated h bs p (request n) h' bs'"
proof (cases "mem_size_aligned h < rt_align n")
  case True
  then have "\<not> fits h (request n) b" for b by (auto simp: fits_def request_def)
  then show ?thesis using null rt_malloc_too_large [OF True] by blast
next
  case False
  then have "request n \<le> mem_size_aligned h" using min by (simp add: request_def)
  note sp = rt_malloc_spec [OF ok sz this]
  show ?thesis
  proof (cases "find (\<lambda>b. lfree h \<le> b \<and> fits h (request n) b) bs")
    case None
    then have "rt_malloc n h = Some (None, h)" using sp by simp
    moreover have "\<forall>b \<in> set bs. lfree h \<le> b \<longrightarrow> \<not> fits h (request n) b"
      using None unfolding find_None_iff by blast
    ultimately show ?thesis by (rule null)
  next
    case (Some p)
    then show ?thesis using block sp by auto
  qed
qed

lemma live_disjoint_heap:
  assumes "heap_ok h bs" "live h bs a = Some ea" "live h bs b = Some eb" "a < b"
  shows "ea \<le> b"
  using chain_next_le [OF heap_okD(1) [OF assms(1)]] live_SomeD [OF assms(2)] live_SomeD [OF assms(3)] assms(4)
  by metis

definition heap_inv :: "heap \<Rightarrow> nat list \<Rightarrow> bool" where
  "heap_inv h bs \<longleftrightarrow> heap_ok h bs \<and> 12 \<le> mem_size_aligned h"

interpretation sm: allocator heap_inv live "\<lambda>h p. heap_ptr h + p + 12" rt_malloc "\<lambda>r. rt_free (Some r)"
proof unfold_locales
  fix h bs n h'
  assume inv: "heap_inv h bs" and m: "rt_malloc n h = Some (None, h')"
  show "h' = h"
  proof (cases "n = 0")
    case False
    have ok: "heap_ok h bs" "12 \<le> mem_size_aligned h" using inv by (simp_all add: heap_inv_def)
    then show ?thesis using m rt_malloc_cases [OF ok(1) _ ok(2), of n] False by auto
  qed (use m in \<open>simp add: rt_malloc_def\<close>)
next
  fix h bs n r h'
  assume inv: "heap_inv h bs" and m: "rt_malloc n h = Some (Some r, h')" and n: "n + 3 < 2 ^ 32"
  have ok: "heap_ok h bs" "12 \<le> mem_size_aligned h" using inv by (simp_all add: heap_inv_def)
  have n0: "0 < n" using m by (cases "n = 0") (simp_all add: rt_malloc_def)
  from ok(1) n0 ok(2) show "\<exists>g' p e. r = heap_ptr h + p + 12 \<and> heap_inv h' g' \<and> live h bs p = None
      \<and> live h' g' = (live h bs)(p \<mapsto> e) \<and> p + n \<le> e \<and> (\<lambda>p. heap_ptr h' + p + 12) = (\<lambda>p. heap_ptr h + p + 12)"
  proof (cases rule: rt_malloc_cases)
    case null
    then show ?thesis using m by simp
  next
    case (block p h1 bs')
    then have "p + n \<le> hm_next (hdr h' p)" using m request_ge(2) [OF n] by (simp add: allocated_def)
    then show ?thesis
      using block m ok(2) unfolding allocated_def heap_inv_def by auto
  qed
next
  fix h bs p e
  assume inv: "heap_inv h bs" and p: "live h bs p = Some e"
  then have ok: "heap_ok h bs" "12 \<le> mem_size_aligned h" by (simp_all add: heap_inv_def)
  from rt_free_released [OF ok(1) p] ok(2)
  show "\<exists>g'. heap_inv (rt_free (Some (heap_ptr h + p + 12)) h) g'
      \<and> live (rt_free (Some (heap_ptr h + p + 12)) h) g' = (live h bs)(p := None)
      \<and> (\<lambda>q. heap_ptr (rt_free (Some (heap_ptr h + p + 12)) h) + q + 12) = (\<lambda>q. heap_ptr h + q + 12)"
    by (auto simp: released_def heap_inv_def)
qed (auto simp: heap_inv_def intro: live_disjoint_heap)

section \<open>Initialisation\<close>

lemma rt_system_heap_init_ok:
  assumes "rt_align b + 28 \<le> rt_align_down e" "b + 3 < 2 ^ 32" "e < 2 ^ 32" "used_mem h = 0" "\<not> heap_panic h"
  shows "heap_ok (rt_system_heap_init b e h) [0]" "lfree_lowest (rt_system_heap_init b e h) [0]"
    "mem_size_aligned (rt_system_heap_init b e h) = rt_align_down e - rt_align b - 24"
    "heap_ptr (rt_system_heap_init b e h) = rt_align b" "live (rt_system_heap_init b e h) [0] = Map.empty"
proof -
  have "rt_align_down e \<le> e" by (simp add: rt_align_down_def)
  then have "rt_align_down e < 2 ^ 32" using assms(3) by linarith
  moreover have "rt_align b \<le> rt_align_down e - 24" "24 < rt_align_down e"
    "16 \<le> rt_align_down e - rt_align b - 12" using assms(1) by linarith+
  moreover have "4 dvd (rt_align_down e - rt_align b - 12)"
    using rt_align_dvd [of b] rt_align_down_dvd [of e] assms(1) by (intro dvd_diff_nat) auto
  ultimately show "heap_ok (rt_system_heap_init b e h) [0]"
    using assms rt_align_dvd [of b]
    by (simp add: rt_system_heap_init_def Let_def heap_ok_def heap_tiled_def heap_body_def chain_def
        blk_link_def heap_frame_def lfree_ok_def used_total_def unmerged_def)
  show "lfree_lowest (rt_system_heap_init b e h) [0]" "live (rt_system_heap_init b e h) [0] = Map.empty"
    using assms by (auto simp: rt_system_heap_init_def Let_def lfree_lowest_def live_def)
qed (use assms in \<open>auto simp: rt_system_heap_init_def Let_def\<close>)

section \<open>Reallocation\<close>

lemma live_facts:
  assumes "heap_ok h bs" "live h bs p = Some e"
  shows "p + 16 \<le> e" "e \<le> heap_end h" "4 dvd p" "4 dvd e" "heap_end h < 2 ^ 32" "hm_next (hdr h p) = e"
proof -
  obtain us vs where bs: "bs = us @ p # vs" using chain_member_split live_SomeD(1) [OF assms(2)] by metis
  note r = chain_room [of h us p vs] and D = heap_okD [OF assms(1)]
  show "p + 16 \<le> e" "e \<le> heap_end h" "4 dvd p" "4 dvd e" "heap_end h < 2 ^ 32" "hm_next (hdr h p) = e"
    using r D(1,2) bs live_SomeD(3) [OF assms(2)] frame_small [OF D(2)] by auto
qed

lemma rt_realloc_unfold:
  assumes ok: "heap_ok h bs" and p: "live h bs p = Some e"
  shows "rt_realloc (Some (heap_ptr h + p + 12)) n h =
    (if mem_size_aligned h < rt_align n then Some (None, h)
     else if rt_align n = 0 then Some (None, rt_free (Some (heap_ptr h + p + 12)) h)
     else if e - p - 12 = rt_align n then Some (Some (heap_ptr h + p + 12), h)
     else if rt_align n + 24 < e - p - 12
     then Some (Some (heap_ptr h + p + 12), realloc_shrink p (e - p - 12) (rt_align n) h)
     else (case rt_malloc (rt_align n) h of
         None \<Rightarrow> None
       | Some (None, h1) \<Rightarrow> Some (None, h1)
       | Some (Some nm, h1) \<Rightarrow> Some (Some nm, rt_free (Some (heap_ptr h + p + 12))
           (h1\<lparr>dat := rt_memcpy (nm - heap_ptr h1) (heap_ptr h + p + 12 - heap_ptr h1)
               (if e - p - 12 < rt_align n then e - p - 12 else rt_align n) (dat h1)\<rparr>))))"
proof -
  note F = live_facts [OF ok p]
  have f: "heap_frame h" using heap_okD(2) [OF ok] .
  have a: "wsub (heap_ptr h + p + 12 - heap_ptr h) 12 = p" using F by (simp add: wsub_small)
  have b: "wsub (wsub e p) 12 = e - p - 12" using F by (simp add: wsub_small)
  have c: "wadd (wadd (rt_align n) 12) 12 = rt_align n + 24" if "rt_align n \<le> mem_size_aligned h"
    using that f by (simp add: wadd_small heap_frame_def)
  show ?thesis
    using F f unfolding rt_realloc_def Let_def option.case a F(6) b by (auto simp: c)
qed

lemma rt_align_request: "rt_align n \<noteq> 0 \<Longrightarrow> rt_align n < 2 ^ 32 - 3 \<Longrightarrow> request (rt_align n) = request n"
  by (simp add: request_def rt_align_id)

lemma rt_realloc_cases:
  assumes ok: "heap_ok h bs" and p: "live h bs p = Some e" and min: "12 \<le> mem_size_aligned h"
  obtains (null) "rt_realloc (Some (heap_ptr h + p + 12)) n h = Some (None, h)" "rt_align n \<noteq> 0"
  | (free) "rt_realloc (Some (heap_ptr h + p + 12)) n h
        = Some (None, rt_free (Some (heap_ptr h + p + 12)) h)" "rt_align n = 0"
  | (block) p' h' bs' where "rt_realloc (Some (heap_ptr h + p + 12)) n h = Some (Some (heap_ptr h + p' + 12), h')"
      "reallocated h bs p (rt_align n) p' h' bs'" "mem_size_aligned h' = mem_size_aligned h" "rt_align n \<noteq> 0"
proof -
  note F = live_facts [OF ok p] and U = rt_realloc_unfold [OF ok p, of n]
  have lt: "\<not> mem_size_aligned h < rt_align n \<Longrightarrow> rt_align n < 2 ^ 32 - 3"
    using heap_okD(2) [OF ok] by (simp add: heap_frame_def)
  consider (large) "mem_size_aligned h < rt_align n" | (zero) "\<not> mem_size_aligned h < rt_align n" "rt_align n = 0"
    | (same) "\<not> mem_size_aligned h < rt_align n" "rt_align n \<noteq> 0" "e - p - 12 = rt_align n"
    | (shrink) "\<not> mem_size_aligned h < rt_align n" "rt_align n \<noteq> 0" "rt_align n + 24 < e - p - 12"
    | (grow) "\<not> mem_size_aligned h < rt_align n" "rt_align n \<noteq> 0" "e - p - 12 \<noteq> rt_align n"
        "\<not> rt_align n + 24 < e - p - 12" by blast
  then show thesis
  proof cases
    case large
    then show thesis using null U by simp
  next
    case zero
    then show thesis using free U by simp
  next
    case same
    have "live h bs = ((live h bs)(p := None))(p \<mapsto> e)" "p + 12 + rt_align n \<le> e"
      using p F(1) same(3) by (auto simp: fun_eq_iff)
    then have "reallocated h bs p (rt_align n) p h bs"
      using ok unfolding reallocated_def by auto
    then show thesis using block [of p h bs] U same by simp
  next
    case shrink
    have "4 \<le> rt_align n" using shrink(2) dvd_imp_le [OF rt_align_dvd, of n] by simp
    then obtain bs' where s: "heap_ok (realloc_shrink p (e - p - 12) (rt_align n) h) bs'"
      "live (realloc_shrink p (e - p - 12) (rt_align n) h) bs' = (live h bs)(p \<mapsto> p + 12 + rt_align n)"
      "dat (realloc_shrink p (e - p - 12) (rt_align n) h) = dat h"
      "mem_size_aligned (realloc_shrink p (e - p - 12) (rt_align n) h) = mem_size_aligned h"
      using realloc_shrink_ok [OF ok p rt_align_dvd _ shrink(3)] by blast
    then have "reallocated h bs p (rt_align n) p (realloc_shrink p (e - p - 12) (rt_align n) h) bs'"
      by (auto simp: reallocated_def)
    then show thesis using block [of p _ bs'] U shrink s(4) by simp
  next
    case grow
    have pos: "0 < rt_align n" using grow by simp
    have rq: "rt_align n \<le> request (rt_align n)"
      using request_ge(2) [of "rt_align n"] lt [OF grow(1)] by simp
    from ok pos min show thesis
    proof (cases rule: rt_malloc_cases)
      case null
      then show thesis using that(1) U grow by simp
    next
      case (block q h1 bs1)
      let ?k = "if e - p - 12 < rt_align n then e - p - 12 else rt_align n"
      let ?h2 = "h1\<lparr>dat := rt_memcpy (q + 12) (p + 12) ?k (dat h1)\<rparr>"
      have ptr: "heap_ptr h1 = heap_ptr h" "mem_size_aligned h1 = mem_size_aligned h"
        using block by (simp_all add: allocated_def)
      have "reallocated h bs p (rt_align n) q (rt_free (Some (heap_ptr h + p + 12)) ?h2) bs' \<Longrightarrow> thesis" for bs'
      proof -
        assume r: "reallocated h bs p (rt_align n) q (rt_free (Some (heap_ptr h + p + 12)) ?h2) bs'"
        have "heap_ok ?h2 bs1" "live ?h2 bs1 p = Some e" "heap_ptr ?h2 = heap_ptr h"
          using block ptr allocated_region(2) [OF block(2) p] by (simp_all add: allocated_def)
        then have "mem_size_aligned (rt_free (Some (heap_ptr h + p + 12)) ?h2) = mem_size_aligned h"
          using rt_free_released [of ?h2 bs1 p e] ptr by (auto simp: released_def)
        moreover have "rt_realloc (Some (heap_ptr h + p + 12)) n h
            = Some (Some (heap_ptr h + q + 12), rt_free (Some (heap_ptr h + p + 12)) ?h2)"
          using U grow block(1) ptr by simp
        ultimately show thesis using that(3) r grow(2) by blast
      qed
      then show thesis using rt_realloc_grow [OF ok p block(2) rq] by blast
    qed
  qed
qed

section \<open>Properties of single calls\<close>

text \<open>A small heap with three used blocks of 40, 12 and 12 bytes and a free one of 12 at the end.\<close>

definition demo_heap :: heap where
  "demo_heap = \<lparr>heap_ptr = 0,
     hdr = (\<lambda>_. \<lparr>hm_magic = 0x1ea0, hm_used = 1, hm_next = 0, hm_prev = 0\<rparr>)
       (0 := \<lparr>hm_magic = 0x1ea0, hm_used = 1, hm_next = 52, hm_prev = 0\<rparr>,
        52 := \<lparr>hm_magic = 0x1ea0, hm_used = 1, hm_next = 76, hm_prev = 0\<rparr>,
        76 := \<lparr>hm_magic = 0x1ea0, hm_used = 1, hm_next = 100, hm_prev = 52\<rparr>,
        100 := \<lparr>hm_magic = 0x1ea0, hm_used = 0, hm_next = 128, hm_prev = 76\<rparr>),
     dat = (\<lambda>_. 0), heap_end = 128, lfree = 100, mem_size_aligned = 116, used_mem = 100, max_mem = 100,
     heap_panic = False\<rparr>"

lemma demo_heap_ok: "heap_ok demo_heap [0, 52, 76, 100]"
  by (simp add: heap_ok_def heap_tiled_def heap_body_def chain_def blk_link_def heap_frame_def lfree_ok_def
      used_total_def unmerged_def demo_heap_def)

lemma demo_heap_live: "live demo_heap [0, 52, 76, 100] 0 = Some 52" "12 \<le> mem_size_aligned demo_heap"
  "heap_ptr demo_heap = 0"
  by (simp_all add: live_def demo_heap_def)

text \<open>
  C7.  On a well-formed heap \<^verbatim>\<open>rt_malloc\<close> returns.  Either it returns null, the heap is
  unchanged, and no free block from the lowest-free pointer up to the search limit is
  large enough; or it returns the address of a 4-byte aligned block of at least the
  requested size that was free, lies inside the heap and overlaps no live block; the
  live blocks, their data and the heap invariant (tiling, merged free neighbours,
  statistics, lowest-free pointer) are kept.
\<close>

theorem rt_malloc_correct:
  assumes ok: "heap_ok h bs" and n: "0 < n" "n + 3 < 2 ^ 32" and min: "12 \<le> mem_size_aligned h"
  shows "\<exists>r h'. rt_malloc n h = Some (r, h') \<and>
    (case r of
       None \<Rightarrow> h' = h \<and> (\<forall>b \<in> set bs. lfree h \<le> b \<longrightarrow> \<not> fits h (request n) b)
     | Some a \<Rightarrow> \<exists>p e bs'. a = heap_ptr h + p + 12 \<and> 4 dvd a \<and> p + 12 + n \<le> e \<and> e \<le> heap_end h
         \<and> heap_ok h' bs' \<and> live h bs p = None \<and> live h' bs' = (live h bs)(p \<mapsto> e) \<and> dat h' = dat h
         \<and> (\<forall>b eb. live h bs b = Some eb \<longrightarrow> eb \<le> p \<or> e \<le> b)
         \<and> (lfree_lowest h bs \<longrightarrow> lfree_lowest h' bs'))"
  using ok n(1) min
proof (cases rule: rt_malloc_cases)
  case (block p h' bs')
  let ?e = "hm_next (hdr h' p)"
  have ok': "heap_ok h' bs'" and l: "live h' bs' p = Some ?e" and en: "heap_end h' = heap_end h"
    using block(2) by (auto simp: allocated_def)
  have "4 dvd heap_ptr h" using heap_okD(2) [OF ok] by (simp add: heap_frame_def)
  then have "4 dvd heap_ptr h + p + 12" using live_facts(3) [OF ok' l] by simp
  moreover have "p + 12 + n \<le> ?e" using block(2) request_ge(2) [OF n(2)] by (simp add: allocated_def)
  moreover have "\<forall>b eb. live h bs b = Some eb \<longrightarrow> eb \<le> p \<or> ?e \<le> b"
    using allocated_region(3) [OF block(2)] by blast
  moreover have "?e \<le> heap_end h" using live_facts(2) [OF ok' l] en by simp
  moreover have "live h bs p = None" "live h' bs' = (live h bs)(p \<mapsto> ?e)" "dat h' = dat h"
    "lfree_lowest h bs \<longrightarrow> lfree_lowest h' bs'" using block(2) by (simp_all add: allocated_def)
  ultimately have "case Some (heap_ptr h + p + 12) of None \<Rightarrow> False | Some a \<Rightarrow> \<exists>p e bs'.
      a = heap_ptr h + p + 12 \<and> 4 dvd a \<and> p + 12 + n \<le> e \<and> e \<le> heap_end h
         \<and> heap_ok h' bs' \<and> live h bs p = None \<and> live h' bs' = (live h bs)(p \<mapsto> e) \<and> dat h' = dat h
         \<and> (\<forall>b eb. live h bs b = Some eb \<longrightarrow> eb \<le> p \<or> e \<le> b)
         \<and> (lfree_lowest h bs \<longrightarrow> lfree_lowest h' bs')"
    using ok' unfolding option.case by blast
  then show ?thesis unfolding block(1) by (intro exI [of _ "Some (heap_ptr h + p + 12)"] exI [of _ h']) simp
qed auto

theorem rt_malloc_correct_witness:
  "\<exists>r h'. rt_malloc 12 demo_heap = Some (r, h')"
  using rt_malloc_correct [OF demo_heap_ok, of 12] demo_heap_live by auto

text \<open>
  Freeing the address of a live block does not fail an assertion, removes exactly this
  block from the live blocks, keeps every byte of the heap data, and restores the heap
  invariant: the block is merged with free neighbours, and the lowest-free pointer stays
  the lowest.
\<close>

theorem rt_free_correct:
  assumes "heap_ok h bs" "live h bs p = Some e"
  defines "h' \<equiv> rt_free (Some (heap_ptr h + p + 12)) h"
  shows "\<exists>bs'. heap_ok h' bs' \<and> live h' bs' = (live h bs)(p := None) \<and> dat h' = dat h
    \<and> used_mem h' + (e - p) = used_mem h \<and> \<not> heap_panic h' \<and> (lfree_lowest h bs \<longrightarrow> lfree_lowest h' bs')"
proof -
  obtain bs' where r: "released h bs p h' bs'"
    using rt_free_released [OF assms(1,2)] by (auto simp: h'_def)
  then have ok': "heap_ok h' bs'" and lv: "live h' bs' = (live h bs)(p := None)" by (simp_all add: released_def)
  have sum: "used_mem k = (\<Sum>b \<in> dom (live k cs). the (live k cs b) - b)" if "heap_ok k cs" for k cs
  proof -
    have "distinct cs" using chain_sorted [OF heap_okD(1) [OF that]] by (simp add: strict_sorted_iff)
    then have "used_total k cs = (\<Sum>b \<in> set (filter (is_used k) cs). hm_next (hdr k b) - b)"
      unfolding used_total_def by (subst sum_list_distinct_conv_sum_set) simp_all
    also have "\<dots> = (\<Sum>b \<in> dom (live k cs). the (live k cs b) - b)"
      by (rule sum.cong) (auto simp: live_def dom_def)
    finally show ?thesis using heap_okD(7) [OF that] by simp
  qed
  have fin: "finite (dom (live h bs))" by (rule finite_subset [of _ "set bs"]) (auto simp: live_def split: if_splits)
  have "dom (live h' bs') = dom (live h bs) - {p}" using lv by auto
  then have "used_mem h' = (\<Sum>b \<in> dom (live h bs) - {p}. the (live h bs b) - b)"
    using sum [OF ok'] lv by (auto intro: sum.cong)
  then have "used_mem h' + (e - p) = used_mem h"
    using sum [OF assms(1)] sum.remove [OF fin, of p "\<lambda>b. the (live h bs b) - b"] assms(2) by (auto simp: dom_def)
  then show ?thesis using r heap_okD(2) [OF ok'] by (auto simp: released_def heap_frame_def)
qed

theorem rt_free_correct_witness:
  "\<exists>bs'. heap_ok (rt_free (Some 12) demo_heap) bs'"
  using rt_free_correct [OF demo_heap_ok demo_heap_live(1)] demo_heap_live(3) by auto

text \<open>
  C8.  \<^verbatim>\<open>rt_realloc\<close> of a live block to a non-zero size returns.  If it returns null the heap
  is unchanged; otherwise the returned block is live with at least the requested size,
  carries the old content up to the smaller of the two sizes, every other live block keeps
  its place and its data, and the heap invariant holds.
\<close>

theorem rt_realloc_correct:
  assumes ok: "heap_ok h bs" and p: "live h bs p = Some e" and n: "0 < n" "n + 3 < 2 ^ 32"
    and min: "12 \<le> mem_size_aligned h"
  shows "\<exists>r h'. rt_realloc (Some (heap_ptr h + p + 12)) n h = Some (r, h') \<and>
    (case r of
       None \<Rightarrow> h' = h
     | Some a \<Rightarrow> \<exists>p' e' bs'. a = heap_ptr h + p' + 12 \<and> heap_ok h' bs'
         \<and> live h' bs' = ((live h bs)(p := None))(p' \<mapsto> e') \<and> p' + 12 + n \<le> e'
         \<and> (\<forall>i < min (e - p - 12) n. dat h' (p' + 12 + i) = dat h (p + 12 + i))
         \<and> (\<forall>b eb i. b \<noteq> p \<longrightarrow> live h bs b = Some eb \<longrightarrow> b \<le> i \<longrightarrow> i < eb \<longrightarrow> dat h' i = dat h i))"
  using ok p min
proof (cases rule: rt_realloc_cases [where n = n])
  case free
  then show ?thesis using rt_align_ge [OF n(2)] n(1) by simp
next
  case (block p' h' bs')
  have "n \<le> rt_align n" using rt_align_ge [OF n(2)] .
  then have le: "i < min (e - p - 12) n \<Longrightarrow> i < min (e - p - 12) (rt_align n)" for i by simp
  obtain e' where "live h' bs' = ((live h bs)(p := None))(p' \<mapsto> e')" "p' + 12 + rt_align n \<le> e'"
    using block(2) unfolding reallocated_def by blast
  moreover from this have "p' + 12 + n \<le> e'" using \<open>n \<le> rt_align n\<close> by linarith
  moreover have "heap_ok h' bs'" using block(2) by (simp add: reallocated_def)
  moreover have "\<forall>i < min (e - p - 12) n. dat h' (p' + 12 + i) = dat h (p + 12 + i)"
    using block(2) p le unfolding reallocated_def by blast
  moreover have "\<forall>b eb i. b \<noteq> p \<longrightarrow> live h bs b = Some eb \<longrightarrow> b \<le> i \<longrightarrow> i < eb \<longrightarrow> dat h' i = dat h i"
    using block(2) unfolding reallocated_def by blast
  ultimately have "case Some (heap_ptr h + p' + 12) of None \<Rightarrow> False | Some a \<Rightarrow> \<exists>p' e' bs'.
      a = heap_ptr h + p' + 12 \<and> heap_ok h' bs'
         \<and> live h' bs' = ((live h bs)(p := None))(p' \<mapsto> e') \<and> p' + 12 + n \<le> e'
         \<and> (\<forall>i < min (e - p - 12) n. dat h' (p' + 12 + i) = dat h (p + 12 + i))
         \<and> (\<forall>b eb i. b \<noteq> p \<longrightarrow> live h bs b = Some eb \<longrightarrow> b \<le> i \<longrightarrow> i < eb \<longrightarrow> dat h' i = dat h i)"
    unfolding option.case by blast
  then show ?thesis unfolding block(1) by (intro exI [of _ "Some (heap_ptr h + p' + 12)"] exI [of _ h']) simp
qed auto

theorem rt_realloc_correct_witness:
  "\<exists>r h'. rt_realloc (Some 12) 16 demo_heap = Some (r, h')"
  using rt_realloc_correct [OF demo_heap_ok demo_heap_live(1), of 16] demo_heap_live by auto

section \<open>Sequences of calls\<close>

text \<open>
  The heaps a program can produce: initialisation, allocations, releases and reallocations of
  live blocks, and arbitrary writes to the user data.
\<close>

inductive heap_reachable :: "heap \<Rightarrow> bool" where
  init: "rt_align b + 36 \<le> rt_align_down e \<Longrightarrow> b + 3 < 2 ^ 32 \<Longrightarrow> e < 2 ^ 32 \<Longrightarrow> used_mem h = 0 \<Longrightarrow>
    \<not> heap_panic h \<Longrightarrow> heap_reachable (rt_system_heap_init b e h)"
| malloc: "heap_reachable h \<Longrightarrow> rt_malloc n h = Some (r, h') \<Longrightarrow> heap_reachable h'"
| calloc: "heap_reachable h \<Longrightarrow> rt_calloc c n h = Some (r, h') \<Longrightarrow> heap_reachable h'"
| free: "heap_reachable h \<Longrightarrow> heap_ok h bs \<Longrightarrow> live h bs p = Some e \<Longrightarrow>
    heap_reachable (rt_free (Some (heap_ptr h + p + 12)) h)"
| realloc: "heap_reachable h \<Longrightarrow> heap_ok h bs \<Longrightarrow> live h bs p = Some e \<Longrightarrow>
    rt_realloc (Some (heap_ptr h + p + 12)) n h = Some (r, h') \<Longrightarrow> heap_reachable h'"
| user_write: "heap_reachable h \<Longrightarrow> heap_reachable (h\<lparr>dat := d\<rparr>)"

lemma rt_malloc_heap_inv:
  assumes inv: "heap_inv h bs" and m: "rt_malloc n h = Some (r, h')"
  shows "\<exists>bs'. heap_inv h' bs'"
proof (cases "n = 0")
  case True
  then show ?thesis using inv m by (auto simp: rt_malloc_def)
next
  case False
  have "heap_ok h bs" "0 < n" "12 \<le> mem_size_aligned h" using inv False by (simp_all add: heap_inv_def)
  then show ?thesis
  proof (cases rule: rt_malloc_cases)
    case null
    then show ?thesis using inv m by auto
  next
    case (block p h1 bs1)
    then show ?thesis using m inv by (auto simp: allocated_def heap_inv_def)
  qed
qed

lemma rt_malloc_returns:
  assumes "heap_inv h bs" shows "rt_malloc n h \<noteq> None"
proof (cases "n = 0")
  case False
  have "heap_ok h bs" "0 < n" "12 \<le> mem_size_aligned h" using assms False by (simp_all add: heap_inv_def)
  then show ?thesis by (cases rule: rt_malloc_cases) simp_all
qed (simp add: rt_malloc_def)

lemma heap_reachable_inv: "heap_reachable h \<Longrightarrow> \<exists>bs. heap_inv h bs"
proof (induction rule: heap_reachable.induct)
  case (init b e h)
  have "rt_align b + 28 \<le> rt_align_down e" using init(1) by simp
  note I = rt_system_heap_init_ok [OF this init(2-5)]
  then have "heap_inv (rt_system_heap_init b e h) [0]" using init(1) by (simp add: heap_inv_def)
  then show ?case by blast
next
  case (malloc h n r h')
  then show ?case using rt_malloc_heap_inv by blast
next
  case (calloc h c n r h')
  then obtain bs where bs: "heap_inv h bs" by blast
  from calloc(2) obtain r1 h1 where m: "rt_malloc (wmul c n) h = Some (r1, h1)"
    and h': "h' = h1 \<or> (\<exists>d. h' = h1\<lparr>dat := d\<rparr>)"
    by (auto simp: rt_calloc_def split: option.splits prod.splits)
  obtain bs1 where "heap_inv h1 bs1" using rt_malloc_heap_inv [OF bs m] by blast
  then have "heap_inv h' bs1" using h' by (auto simp: heap_inv_def)
  then show ?case by blast
next
  case (free h bs p e)
  then have "12 \<le> mem_size_aligned h" by (auto simp: heap_inv_def)
  then show ?case using rt_free_released [OF free(2,3)] by (auto simp: released_def heap_inv_def)
next
  case (realloc h bs p e n r h')
  then have min: "12 \<le> mem_size_aligned h" by (auto simp: heap_inv_def)
  from realloc(2,3) min show ?case
  proof (cases rule: rt_realloc_cases [where n = n])
    case null
    then show ?thesis using realloc min by (auto simp: heap_inv_def)
  next
    case free
    then show ?thesis using realloc min rt_free_released [OF realloc(2,3)]
      by (auto simp: released_def heap_inv_def)
  next
    case (block p' h1 bs1)
    then show ?thesis using realloc min by (auto simp: reallocated_def heap_inv_def)
  qed
next
  case (user_write h d)
  then show ?case by (auto simp: heap_inv_def)
qed

text \<open>
  C1.  After any sequence of heap calls no assertion has failed, the blocks tile the heap with no
  two free neighbours, live blocks do not overlap, the usage counter is the total size of
  the live blocks including their headers, and every further \<^verbatim>\<open>rt_malloc\<close> returns.
\<close>

theorem heap_calls_safe:
  assumes "heap_reachable h"
  shows "\<not> heap_panic h
    \<and> (\<exists>bs. heap_ok h bs \<and> used_mem h = used_total h bs \<and> used_mem h \<le> heap_end h
        \<and> (\<forall>a ea b eb. live h bs a = Some ea \<longrightarrow> live h bs b = Some eb \<longrightarrow> a < b \<longrightarrow> ea \<le> b))
    \<and> rt_malloc n h \<noteq> None"
proof -
  obtain bs where inv: "heap_inv h bs" using heap_reachable_inv [OF assms] by blast
  then have ok: "heap_ok h bs" "12 \<le> mem_size_aligned h" by (simp_all add: heap_inv_def)
  note D = heap_okD [OF ok(1)]
  have "used_total h bs + hd (bs @ [heap_end h]) \<le> heap_end h"
    using used_total_bound [of h bs "heap_end h"] D(1) by (simp add: chain_def)
  moreover have "rt_malloc n h \<noteq> None" using rt_malloc_returns [OF inv] .
  ultimately show ?thesis
    using D ok live_disjoint_heap [OF ok(1)] by (auto simp: heap_frame_def intro!: exI [of _ bs])
qed

theorem heap_calls_safe_witness:
  "rt_malloc 12 (rt_system_heap_init 0 136 (demo_heap\<lparr>used_mem := 0\<rparr>)) \<noteq> None"
proof -
  have "heap_reachable (rt_system_heap_init 0 136 (demo_heap\<lparr>used_mem := 0\<rparr>))"
    by (rule heap_reachable.init) (simp_all add: rt_align_def rt_align_down_def wadd_def demo_heap_def)
  from heap_calls_safe [OF this, of 12] show ?thesis by blast
qed

section \<open>Limits of the implementation\<close>

text \<open>
  Shrinking a block with \<^verbatim>\<open>rt_realloc\<close> does not lower the lowest-free pointer, although
  the remainder it frees can lie below it: the remainder is then invisible to
  \<^verbatim>\<open>rt_malloc\<close>, which returns null while a free block of sufficient size exists.
\<close>

lemma realloc_hides_free_block:
  "\<exists>h'. rt_realloc (Some 12) 4 demo_heap = Some (Some 12, h') \<and> hm_used (hdr h' 16) = 0
     \<and> hm_next (hdr h' 16) = 52 \<and> lfree h' = 100 \<and> rt_malloc 20 h' = Some (None, h')"
proof -
  define h' where "h' = realloc_shrink 0 40 4 demo_heap"
  have h': "hm_used (hdr h' 16) = 0" "hm_next (hdr h' 16) = 52" "lfree h' = 100" "mem_size_aligned h' = 116"
    by (simp_all add: h'_def realloc_shrink_def malloc_split_def plug_holes_def Let_def demo_heap_def
        upd_hdr_def panic_heap_def)
  have "rt_realloc (Some 12) 4 demo_heap = Some (Some 12, h')"
    using rt_realloc_unfold [OF demo_heap_ok demo_heap_live(1), of 4]
    by (simp add: h'_def rt_align_def wadd_def demo_heap_def)
  moreover have "malloc_search 20 100 h' = Some None"
    by (subst malloc_search.simps) (simp add: h' wsub_def)
  then have "rt_malloc 20 h' = Some (None, h')"
    by (simp add: rt_malloc_def Let_def rt_align_def wadd_def h')
  ultimately show ?thesis using h' by auto
qed

text \<open>A request within three bytes of the address space wraps to zero and yields a twelve byte block.\<close>

lemma malloc_size_wraps:
  assumes "4294967293 \<le> n" "n < 2 ^ 32"
  shows "rt_malloc n h = rt_malloc 12 h \<or> mem_size_aligned h < 12"
proof -
  have "wadd n 3 < 4"
  proof -
    have "(n + 3) mod 2 ^ 32 = n + 3 - 2 ^ 32" using assms by (simp add: mod_if)
    then show ?thesis using assms by (simp add: wadd_def)
  qed
  then have "rt_align n = 0" by (simp add: rt_align_def)
  moreover have "rt_align 12 = 12" by (simp add: rt_align_def wadd_def)
  ultimately show ?thesis using assms by (auto simp: rt_malloc_def Let_def)
qed

end
