(* ===== verification/RT_Kernel.thy ===== *)
theory RT_Kernel
  imports RT_List RT_Kservice RT_Heap
begin

text \<open>
  The state of the kernel: the structures of \<^verbatim>\<open>include/rtdef.h\<close> as records, the
  kernel's global variables as one record, and the invariant that ties the scheduler's
  ready queues, its bitmap and the thread states together.  The configuration is that of
  \<^verbatim>\<open>bsp/stm32f407-lem-4361a/rtconfig.h\<close>: one processor, 32 priorities, one row per
  timer list.  Objects are named by their addresses.  A violated \<^verbatim>\<open>RT_ASSERT\<close>, or a
  dereference of an invalid pointer, stops the processor: it sets \<open>kpanic\<close>, and the rest
  of the state has no meaning from then on.
\<close>

section \<open>Structures\<close>

text \<open>A reference to a kernel object; the timer built into a thread is part of its address.\<close>

datatype timer_ref = Thread_timer nat | Timer nat

datatype obj_ref = Thr nat | Tmr timer_ref | Sem nat | Mtx nat | Evt nat | Mbx nat | Msq nat | Mpl nat | Dev nat

record rt_object =
  obj_name :: string
  obj_type :: u8
  obj_flag :: u8

record rt_thread =
  entry :: nat
  parameter :: nat
  stack_addr :: nat
  stack_size :: nat
  error :: rt_err_t
  stat :: u8
  current_priority :: nat
  init_priority :: nat
  number_mask :: u32
  event_set :: u32
  event_info :: u8
  init_tick :: u32
  remaining_tick :: u32
  cleanup :: "nat option"
  user_data :: u32
  sig_vectors :: nat
  si_list :: "nat list"

text \<open>The timeout function of a timer: \<^verbatim>\<open>rt_thread_timeout\<close> or a callback of the application.\<close>

datatype timeout_fn = Thread_timeout | Callback nat

record rt_timer =
  timeout_func :: timeout_fn
  tmr_parameter :: nat
  tmr_init_tick :: u32
  timeout_tick :: u32

record rt_semaphore =
  sem_value :: u16

record rt_mutex =
  mtx_value :: u16
  original_priority :: nat
  hold :: u8
  owner :: "nat option"

record rt_event =
  evt_set :: u32

text \<open>The buffer of a mailbox: its address, and its contents from there on.\<close>

record rt_mailbox =
  msg_pool :: nat
  mb_pool :: "u32 list"
  mb_size :: nat
  mb_entry :: nat
  in_offset :: nat
  out_offset :: nat

text \<open>The nodes of a message queue are numbered; \<open>mq_next\<close> are their links, \<open>mq_data\<close> their contents.\<close>

record rt_messagequeue =
  mq_pool :: nat
  msg_size :: nat
  max_msgs :: nat
  mq_entry :: nat
  mq_head :: "nat option"
  mq_tail :: "nat option"
  mq_free :: "nat option"
  mq_next :: "nat \<Rightarrow> nat option"
  mq_data :: "nat \<Rightarrow> u8 list"

record rt_mempool =
  start_address :: nat
  mp_size :: nat
  block_size :: nat
  block_list :: nat
  block_total_count :: nat
  block_free_count :: nat
  suspend_thread_count :: nat

section \<open>The kernel\<close>

text \<open>
  The heads of the thread lists: a ready queue per priority, the threads pended on an IPC
  object, the senders pended on a mailbox, the threads pended on a list of a driver object, by the
  address of the list head, and the dead threads.  \<open>block_words\<close> is the word in
  front of each memory pool block, by its address.
\<close>

datatype thread_queue = Ready nat | Suspend obj_ref | Sender nat | Waiters nat | Defunct

datatype timer_queue = Hard_timers | Soft_timers

record kernel =
  objs :: "obj_ref \<Rightarrow> rt_object"
  containers :: "(u8, obj_ref) store"
  threads :: "nat \<Rightarrow> rt_thread"
  timers :: "timer_ref \<Rightarrow> rt_timer"
  sems :: "nat \<Rightarrow> rt_semaphore"
  mutexes :: "nat \<Rightarrow> rt_mutex"
  events :: "nat \<Rightarrow> rt_event"
  mailboxes :: "nat \<Rightarrow> rt_mailbox"
  queues :: "nat \<Rightarrow> rt_messagequeue"
  mempools :: "nat \<Rightarrow> rt_mempool"
  block_words :: "nat \<Rightarrow> nat"
  tlists :: "(thread_queue, nat) store"
  tmlists :: "(timer_queue, timer_ref) store"
  ready_group :: u32
  current :: "nat option"
  rt_current_priority :: nat
  lock_nest :: u16
  interrupt_nest :: u8
  rt_tick :: u32
  random_nr :: u32
  rt_errno :: rt_err_t
  kheap :: heap
  kpanic :: bool

abbreviation (input) RT_THREAD_INIT :: u8 where "RT_THREAD_INIT \<equiv> 0x00"
abbreviation (input) RT_THREAD_READY :: u8 where "RT_THREAD_READY \<equiv> 0x01"
abbreviation (input) RT_THREAD_SUSPEND :: u8 where "RT_THREAD_SUSPEND \<equiv> 0x02"
abbreviation (input) RT_THREAD_RUNNING :: u8 where "RT_THREAD_RUNNING \<equiv> 0x03"
abbreviation (input) RT_THREAD_CLOSE :: u8 where "RT_THREAD_CLOSE \<equiv> 0x04"
abbreviation (input) RT_THREAD_STAT_MASK :: u8 where "RT_THREAD_STAT_MASK \<equiv> 0x0f"
abbreviation (input) RT_THREAD_PRIORITY_MAX :: nat where "RT_THREAD_PRIORITY_MAX \<equiv> 32"

definition panic :: "kernel \<Rightarrow> kernel" where
  "panic s = s\<lparr>kpanic := True\<rparr>"

definition upd_thread :: "nat \<Rightarrow> (rt_thread \<Rightarrow> rt_thread) \<Rightarrow> kernel \<Rightarrow> kernel" where
  "upd_thread t f s = s\<lparr>threads := (threads s)(t := f (threads s t))\<rparr>"

definition upd_timer :: "timer_ref \<Rightarrow> (rt_timer \<Rightarrow> rt_timer) \<Rightarrow> kernel \<Rightarrow> kernel" where
  "upd_timer t f s = s\<lparr>timers := (timers s)(t := f (timers s t))\<rparr>"

definition upd_obj :: "obj_ref \<Rightarrow> (rt_object \<Rightarrow> rt_object) \<Rightarrow> kernel \<Rightarrow> kernel" where
  "upd_obj r f s = s\<lparr>objs := (objs s)(r := f (objs s r))\<rparr>"

definition upd_tlists :: "((thread_queue, nat) store \<Rightarrow> (thread_queue, nat) store) \<Rightarrow> kernel \<Rightarrow> kernel" where
  "upd_tlists f s = s\<lparr>tlists := f (tlists s)\<rparr>"

text \<open>The state bits of a thread, and replacing them while the signal bits stay.\<close>

definition state_of :: "kernel \<Rightarrow> nat \<Rightarrow> u8" where
  "state_of s t = stat (threads s t) AND RT_THREAD_STAT_MASK"

definition with_state :: "u8 \<Rightarrow> u8 \<Rightarrow> u8" where
  "with_state v old = v OR (old AND NOT RT_THREAD_STAT_MASK)"

definition set_state :: "nat \<Rightarrow> u8 \<Rightarrow> kernel \<Rightarrow> kernel" where
  "set_state t v s = upd_thread t (\<lambda>x. x\<lparr>stat := with_state v (stat x)\<rparr>) s"

definition priority_mask :: "nat \<Rightarrow> u32" where
  "priority_mask p = push_bit p 1"

section \<open>Simplification set-up\<close>

lemma upd_thread_sel [simp]:
  "threads (upd_thread t f s) = (threads s)(t := f (threads s t))"
  "objs (upd_thread t f s) = objs s" "containers (upd_thread t f s) = containers s"
  "timers (upd_thread t f s) = timers s" "tlists (upd_thread t f s) = tlists s"
  "tmlists (upd_thread t f s) = tmlists s" "ready_group (upd_thread t f s) = ready_group s"
  "current (upd_thread t f s) = current s" "lock_nest (upd_thread t f s) = lock_nest s"
  "rt_current_priority (upd_thread t f s) = rt_current_priority s"
  "interrupt_nest (upd_thread t f s) = interrupt_nest s" "rt_tick (upd_thread t f s) = rt_tick s"
  "kheap (upd_thread t f s) = kheap s" "kpanic (upd_thread t f s) = kpanic s"
  "sems (upd_thread t f s) = sems s" "mutexes (upd_thread t f s) = mutexes s"
  "events (upd_thread t f s) = events s" "mailboxes (upd_thread t f s) = mailboxes s"
  "queues (upd_thread t f s) = queues s" "mempools (upd_thread t f s) = mempools s" "block_words (upd_thread t f s) = block_words s" "random_nr (upd_thread t f s) = random_nr s"
  by (simp_all add: upd_thread_def)

lemma upd_timer_sel [simp]:
  "timers (upd_timer t f s) = (timers s)(t := f (timers s t))" "threads (upd_timer t f s) = threads s"
  "objs (upd_timer t f s) = objs s" "containers (upd_timer t f s) = containers s"
  "tlists (upd_timer t f s) = tlists s" "tmlists (upd_timer t f s) = tmlists s"
  "ready_group (upd_timer t f s) = ready_group s" "current (upd_timer t f s) = current s"
  "lock_nest (upd_timer t f s) = lock_nest s" "rt_tick (upd_timer t f s) = rt_tick s"
  "rt_current_priority (upd_timer t f s) = rt_current_priority s"
  "interrupt_nest (upd_timer t f s) = interrupt_nest s"
  "kheap (upd_timer t f s) = kheap s" "kpanic (upd_timer t f s) = kpanic s"
  "sems (upd_timer t f s) = sems s" "mutexes (upd_timer t f s) = mutexes s"
  "events (upd_timer t f s) = events s" "mailboxes (upd_timer t f s) = mailboxes s"
  "queues (upd_timer t f s) = queues s" "mempools (upd_timer t f s) = mempools s" "block_words (upd_timer t f s) = block_words s" "random_nr (upd_timer t f s) = random_nr s"
  by (simp_all add: upd_timer_def)

lemma upd_obj_sel [simp]:
  "objs (upd_obj r f s) = (objs s)(r := f (objs s r))" "threads (upd_obj r f s) = threads s"
  "timers (upd_obj r f s) = timers s" "containers (upd_obj r f s) = containers s"
  "tlists (upd_obj r f s) = tlists s" "tmlists (upd_obj r f s) = tmlists s"
  "ready_group (upd_obj r f s) = ready_group s" "current (upd_obj r f s) = current s"
  "lock_nest (upd_obj r f s) = lock_nest s" "rt_tick (upd_obj r f s) = rt_tick s"
  "rt_current_priority (upd_obj r f s) = rt_current_priority s"
  "interrupt_nest (upd_obj r f s) = interrupt_nest s"
  "kheap (upd_obj r f s) = kheap s" "kpanic (upd_obj r f s) = kpanic s"
  "sems (upd_obj r f s) = sems s" "mutexes (upd_obj r f s) = mutexes s"
  "events (upd_obj r f s) = events s" "mailboxes (upd_obj r f s) = mailboxes s"
  "queues (upd_obj r f s) = queues s" "mempools (upd_obj r f s) = mempools s" "block_words (upd_obj r f s) = block_words s" "random_nr (upd_obj r f s) = random_nr s"
  by (simp_all add: upd_obj_def)

lemma upd_tlists_sel [simp]:
  "tlists (upd_tlists f s) = f (tlists s)" "threads (upd_tlists f s) = threads s"
  "objs (upd_tlists f s) = objs s" "timers (upd_tlists f s) = timers s"
  "containers (upd_tlists f s) = containers s" "tmlists (upd_tlists f s) = tmlists s"
  "ready_group (upd_tlists f s) = ready_group s" "current (upd_tlists f s) = current s"
  "lock_nest (upd_tlists f s) = lock_nest s" "rt_tick (upd_tlists f s) = rt_tick s"
  "rt_current_priority (upd_tlists f s) = rt_current_priority s"
  "interrupt_nest (upd_tlists f s) = interrupt_nest s"
  "kheap (upd_tlists f s) = kheap s" "kpanic (upd_tlists f s) = kpanic s"
  "sems (upd_tlists f s) = sems s" "mutexes (upd_tlists f s) = mutexes s"
  "events (upd_tlists f s) = events s" "mailboxes (upd_tlists f s) = mailboxes s"
  "queues (upd_tlists f s) = queues s" "mempools (upd_tlists f s) = mempools s" "block_words (upd_tlists f s) = block_words s" "random_nr (upd_tlists f s) = random_nr s"
  by (simp_all add: upd_tlists_def)

lemma state_of_upd_thread: "state_of (upd_thread t f s) u =
    (if u = t then stat (f (threads s t)) AND 0x0f else state_of s u)"
  by (simp add: state_of_def)

lemma state_of_cong [simp]:
  "state_of (upd_tlists g s) = state_of s" "state_of (upd_timer x h s) = state_of s"
  "state_of (upd_obj y k s) = state_of s"
  by (simp_all add: state_of_def fun_eq_iff)

text \<open>Replacing the state bits by a four bit value is exact.\<close>

lemma with_state_mask: "v AND 0x0f = v \<Longrightarrow> with_state v old AND 0x0f = v"
proof -
  assume "v AND 0x0f = v"
  then have "bit v n \<longrightarrow> bit (0x0f :: u8) n" for n by (metis bit_and_iff)
  then show ?thesis
    by (intro bit_word_eqI) (auto simp: with_state_def bit_simps simp del: bit_numeral_iff)
qed

lemma with_state_values [simp]:
  "with_state 0 old AND 0x0f = 0" "with_state 1 old AND 0x0f = 1" "with_state 2 old AND 0x0f = 2"
  "with_state 3 old AND 0x0f = 3" "with_state 4 old AND 0x0f = 4"
  by (rule with_state_mask; simp)+

lemma state_of_set_state:
  "v \<in> {0, 1, 2, 3, 4} \<Longrightarrow> state_of (set_state t v s) u = (if u = t then v else state_of s u)"
  by (auto simp: set_state_def state_of_upd_thread)

lemma bit_priority_mask [simp]: "p < 32 \<Longrightarrow> bit (priority_mask p) n \<longleftrightarrow> n = p"
  by (auto simp: priority_mask_def bit_simps)

end
