(* ===== verification/RT_Scheduler.thy ===== *)
theory RT_Scheduler
  imports RT_Kernel
begin

text \<open>
  The scheduler of \<^verbatim>\<open>src/scheduler.c\<close> (single processor): ready queues with a priority
  bitmap, selection of the next thread, locking, and the invariant every kernel operation
  keeps.  Context switches are the change of \<open>current\<close>; the debug output, the stack
  overflow check and the delivery of signals after a switch are not modelled.
\<close>

section \<open>Operations\<close>

text \<open>The thread at the head of the highest non-empty ready queue; \<open>None\<close> is a wild pointer.\<close>

definition get_highest_priority_thread :: "kernel \<Rightarrow> nat option \<times> nat" where
  "get_highest_priority_thread s =
     (let p = rt_ffs (ready_group s) - 1
      in (case tlists s (Ready p) of [] \<Rightarrow> None | t # _ \<Rightarrow> Some t, p))"

definition rt_schedule_insert_thread :: "nat \<Rightarrow> kernel \<Rightarrow> kernel" where
  "rt_schedule_insert_thread t s =
     (if current s = Some t then set_state t RT_THREAD_RUNNING s
      else
        (let s1 = set_state t RT_THREAD_READY s;
             s2 = upd_tlists (list_insert_before (Ready (current_priority (threads s1 t))) t) s1
         in s2\<lparr>ready_group := ready_group s2 OR number_mask (threads s2 t)\<rparr>))"

definition rt_schedule_remove_thread :: "nat \<Rightarrow> kernel \<Rightarrow> kernel" where
  "rt_schedule_remove_thread t s =
     (let s1 = upd_tlists (list_remove t) s
      in if tlists s1 (Ready (current_priority (threads s1 t))) = []
         then s1\<lparr>ready_group := ready_group s1 AND NOT (number_mask (threads s1 t))\<rparr>
         else s1)"

definition rt_system_scheduler_init :: "kernel \<Rightarrow> kernel" where
  "rt_system_scheduler_init s =
     s\<lparr>lock_nest := 0,
       tlists := (\<lambda>q. case q of Ready p \<Rightarrow> (if p < RT_THREAD_PRIORITY_MAX then [] else tlists s q)
                      | Defunct \<Rightarrow> [] | _ \<Rightarrow> tlists s q),
       ready_group := 0\<rparr>"

definition rt_system_scheduler_start :: "kernel \<Rightarrow> kernel" where
  "rt_system_scheduler_start s =
     (case get_highest_priority_thread s of
        (None, _) \<Rightarrow> panic s
      | (Some t, _) \<Rightarrow>
          (let s1 = rt_schedule_remove_thread t (s\<lparr>current := Some t\<rparr>)
           in upd_thread t (\<lambda>x. x\<lparr>stat := RT_THREAD_RUNNING\<rparr>) s1))"

definition rt_schedule :: "kernel \<Rightarrow> kernel" where
  "rt_schedule s =
     (if lock_nest s = 0 \<and> ready_group s \<noteq> 0 then
        (case (current s, get_highest_priority_thread s) of
           (Some c, (Some high, p)) \<Rightarrow>
             (let running = (state_of s c = RT_THREAD_RUNNING);
                  to = (if running \<and> current_priority (threads s c) < p then c else high);
                  need_insert_from_thread = (running \<and> \<not> current_priority (threads s c) < p)
              in if to \<noteq> c then
                   (let s1 = s\<lparr>rt_current_priority := p, current := Some to\<rparr>;
                        s2 = (if need_insert_from_thread then rt_schedule_insert_thread c s1 else s1)
                    in set_state to RT_THREAD_RUNNING (rt_schedule_remove_thread to s2))
                 else set_state c RT_THREAD_RUNNING (rt_schedule_remove_thread c s))
         | _ \<Rightarrow> panic s)
      else s)"

definition rt_enter_critical :: "kernel \<Rightarrow> kernel" where
  "rt_enter_critical s = s\<lparr>lock_nest := lock_nest s + 1\<rparr>"

definition rt_exit_critical :: "kernel \<Rightarrow> kernel" where
  "rt_exit_critical s =
     (let n = lock_nest s - 1
      in if sint n \<le> 0 then rt_schedule (s\<lparr>lock_nest := 0\<rparr>) else s\<lparr>lock_nest := n\<rparr>)"

definition rt_critical_level :: "kernel \<Rightarrow> u16" where
  "rt_critical_level s = lock_nest s"

section \<open>The invariant\<close>

text \<open>The state a thread has while it is in a queue.\<close>

fun queue_state :: "thread_queue \<Rightarrow> u8" where
  "queue_state (Ready p) = RT_THREAD_READY"
| "queue_state (Suspend r) = RT_THREAD_SUSPEND"
| "queue_state (Sender m) = RT_THREAD_SUSPEND"
| "queue_state (Waiters a) = RT_THREAD_SUSPEND"
| "queue_state Defunct = RT_THREAD_CLOSE"

definition priority_ok :: "kernel \<Rightarrow> nat \<Rightarrow> bool" where
  "priority_ok s t \<longleftrightarrow> current_priority (threads s t) < 32
     \<and> number_mask (threads s t) = priority_mask (current_priority (threads s t))"

text \<open>
  The scheduler invariant, up to the threads \<open>X\<close> whose state is being changed: the thread
  lists are disjoint; the bitmap has exactly the bits of the non-empty ready queues; a
  queued thread has the state of its queue and, in a ready queue, the priority of the queue;
  a ready thread is queued; only the current thread is running, and it is in no queue.
\<close>

definition sched_ok :: "nat set \<Rightarrow> kernel \<Rightarrow> bool" where
  "sched_ok X s \<longleftrightarrow> store_ok (tlists s)
     \<and> (\<forall>p. bit (ready_group s) p \<longleftrightarrow> tlists s (Ready p) \<noteq> [])
     \<and> (\<forall>p t. t \<in> set (tlists s (Ready p)) \<longrightarrow> priority_ok s t \<and> current_priority (threads s t) = p)
     \<and> (\<forall>q t. t \<in> set (tlists s q) \<longrightarrow> t \<notin> X \<longrightarrow> state_of s t = queue_state q)
     \<and> (\<forall>t. t \<notin> X \<longrightarrow> state_of s t = RT_THREAD_READY \<longrightarrow> t \<in> set (tlists s (Ready (current_priority (threads s t)))))
     \<and> (\<forall>t. t \<notin> X \<longrightarrow> state_of s t = RT_THREAD_RUNNING \<longrightarrow> current s = Some t)
     \<and> (\<forall>c. current s = Some c \<longrightarrow> c \<notin> X \<longrightarrow> state_of s c \<noteq> RT_THREAD_READY)
     \<and> (\<forall>t. t \<notin> X \<longrightarrow> state_of s t \<in> {RT_THREAD_READY, RT_THREAD_SUSPEND, RT_THREAD_RUNNING} \<longrightarrow> priority_ok s t)"

lemma sched_okD:
  assumes "sched_ok X s"
  shows "store_ok (tlists s)" "bit (ready_group s) p \<longleftrightarrow> tlists s (Ready p) \<noteq> []"
    "t \<in> set (tlists s (Ready p)) \<Longrightarrow> priority_ok s t"
    "t \<in> set (tlists s (Ready p)) \<Longrightarrow> current_priority (threads s t) = p"
    "t \<in> set (tlists s q) \<Longrightarrow> t \<notin> X \<Longrightarrow> state_of s t = queue_state q"
    "t \<notin> X \<Longrightarrow> state_of s t = 1 \<Longrightarrow> t \<in> set (tlists s (Ready (current_priority (threads s t))))"
    "t \<notin> X \<Longrightarrow> state_of s t = 3 \<Longrightarrow> current s = Some t"
    "current s = Some c \<Longrightarrow> c \<notin> X \<Longrightarrow> state_of s c \<noteq> 1"
    "t \<notin> X \<Longrightarrow> state_of s t \<in> {1, 2, 3} \<Longrightarrow> priority_ok s t"
  using assms unfolding sched_ok_def by blast+

lemma sched_okI:
  assumes "store_ok (tlists s)" "\<And>p. bit (ready_group s) p \<longleftrightarrow> tlists s (Ready p) \<noteq> []"
    "\<And>p t. t \<in> set (tlists s (Ready p)) \<Longrightarrow> priority_ok s t \<and> current_priority (threads s t) = p"
    "\<And>q t. t \<in> set (tlists s q) \<Longrightarrow> t \<notin> X \<Longrightarrow> state_of s t = queue_state q"
    "\<And>t. t \<notin> X \<Longrightarrow> state_of s t = 1 \<Longrightarrow> t \<in> set (tlists s (Ready (current_priority (threads s t))))"
    "\<And>t. t \<notin> X \<Longrightarrow> state_of s t = 3 \<Longrightarrow> current s = Some t"
    "\<And>c. current s = Some c \<Longrightarrow> c \<notin> X \<Longrightarrow> state_of s c \<noteq> 1"
    "\<And>t. t \<notin> X \<Longrightarrow> state_of s t \<in> {1, 2, 3} \<Longrightarrow> priority_ok s t"
  shows "sched_ok X s"
  using assms unfolding sched_ok_def by blast

lemma sched_ok_mono: "sched_ok X s \<Longrightarrow> X \<subseteq> Y \<Longrightarrow> sched_ok Y s"
  unfolding sched_ok_def by blast

lemma queue_state_not_running [simp]: "queue_state q \<noteq> 3" "queue_state q \<noteq> 0"
  by (cases q; simp)+

lemma queue_state_ready: "queue_state q = 1 \<longleftrightarrow> (\<exists>p. q = Ready p)"
  by (cases q) simp_all

lemma running_detached: "sched_ok X s \<Longrightarrow> t \<notin> X \<Longrightarrow> state_of s t = 3 \<Longrightarrow> detached t (tlists s)"
  unfolding detached_def by (metis sched_okD(5) queue_state_not_running(1))

section \<open>Every step keeps it\<close>

lemma state_of_fields [simp]:
  "state_of (s\<lparr>ready_group := g\<rparr>) = state_of s" "state_of (s\<lparr>current := c\<rparr>) = state_of s"
  "state_of (s\<lparr>rt_current_priority := p\<rparr>) = state_of s" "state_of (s\<lparr>lock_nest := n\<rparr>) = state_of s"
  by (simp_all add: state_of_def fun_eq_iff)

lemma priority_ok_fields [simp]:
  "priority_ok (s\<lparr>ready_group := g\<rparr>) = priority_ok s" "priority_ok (s\<lparr>current := c\<rparr>) = priority_ok s"
  "priority_ok (s\<lparr>rt_current_priority := p\<rparr>) = priority_ok s" "priority_ok (s\<lparr>lock_nest := n\<rparr>) = priority_ok s"
  "priority_ok (upd_tlists f s) = priority_ok s" "priority_ok (set_state t v s) = priority_ok s"
  "priority_ok (upd_timer x h s) = priority_ok s" "priority_ok (upd_obj y k s) = priority_ok s"
  by (simp_all add: priority_ok_def set_state_def fun_eq_iff)

lemma set_state_sel [simp]:
  "tlists (set_state t v s) = tlists s" "ready_group (set_state t v s) = ready_group s"
  "current (set_state t v s) = current s" "lock_nest (set_state t v s) = lock_nest s"
  "current_priority (threads (set_state t v s) u) = current_priority (threads s u)"
  "number_mask (threads (set_state t v s) u) = number_mask (threads s u)"
  "kpanic (set_state t v s) = kpanic s" "timers (set_state t v s) = timers s"
  "tmlists (set_state t v s) = tmlists s" "objs (set_state t v s) = objs s"
  "rt_tick (set_state t v s) = rt_tick s" "error (threads (set_state t v s) u) = error (threads s u)"
  "sems (set_state t v s) = sems s" "mutexes (set_state t v s) = mutexes s"
  "events (set_state t v s) = events s" "mailboxes (set_state t v s) = mailboxes s"
  "queues (set_state t v s) = queues s" "mempools (set_state t v s) = mempools s" "block_words (set_state t v s) = block_words s" "containers (set_state t v s) = containers s"
  "event_set (threads (set_state t v s) u) = event_set (threads s u)"
  "event_info (threads (set_state t v s) u) = event_info (threads s u)"
  "init_priority (threads (set_state t v s) u) = init_priority (threads s u)"
  "cleanup (threads (set_state t v s) u) = cleanup (threads s u)"
  "init_tick (threads (set_state t v s) u) = init_tick (threads s u)"
  "remaining_tick (threads (set_state t v s) u) = remaining_tick (threads s u)"
  "kheap (set_state t v s) = kheap s"
  "random_nr (set_state t v s) = random_nr s"
  "interrupt_nest (set_state t v s) = interrupt_nest s"
  by (simp_all add: set_state_def)

lemma sched_ok_upd_thread:
  assumes "sched_ok X s" "t \<in> X" "detached t (tlists s)"
  shows "sched_ok X (upd_thread t f s)"
proof (rule sched_okI)
  have other: "u \<noteq> t" if "u \<notin> X \<or> u \<in> set (tlists s q)" for u q
    using assms(2,3) that by (auto simp: detached_def)
  have st: "u \<noteq> t \<Longrightarrow> state_of (upd_thread t f s) u = state_of s u" for u
    by (simp add: state_of_upd_thread)
  have pr: "u \<noteq> t \<Longrightarrow> priority_ok (upd_thread t f s) u = priority_ok s u" for u
    by (simp add: priority_ok_def)
  show "u \<in> set (tlists (upd_thread t f s) (Ready p)) \<Longrightarrow>
      priority_ok (upd_thread t f s) u \<and> current_priority (threads (upd_thread t f s) u) = p" for p u
    using sched_okD(3,4) [OF assms(1), of u p] other [of u "Ready p"] pr by simp
  show "u \<in> set (tlists (upd_thread t f s) q) \<Longrightarrow> u \<notin> X \<Longrightarrow> state_of (upd_thread t f s) u = queue_state q" for q u
    using sched_okD(5) [OF assms(1), of u q] other [of u q] st by simp
  show "u \<notin> X \<Longrightarrow> state_of (upd_thread t f s) u = 1 \<Longrightarrow>
      u \<in> set (tlists (upd_thread t f s) (Ready (current_priority (threads (upd_thread t f s) u))))" for u
    using sched_okD(6) [OF assms(1), of u] assms(2) by (auto simp: state_of_upd_thread split: if_splits)
  show "u \<notin> X \<Longrightarrow> state_of (upd_thread t f s) u = 3 \<Longrightarrow> current (upd_thread t f s) = Some u" for u
    using sched_okD(7) [OF assms(1), of u] assms(2) by (auto simp: state_of_upd_thread split: if_splits)
  show "current (upd_thread t f s) = Some c \<Longrightarrow> c \<notin> X \<Longrightarrow> state_of (upd_thread t f s) c \<noteq> 1" for c
    using sched_okD(8) [OF assms(1), of c] assms(2) by (auto simp: state_of_upd_thread split: if_splits)
  show "u \<notin> X \<Longrightarrow> state_of (upd_thread t f s) u \<in> {1, 2, 3} \<Longrightarrow> priority_ok (upd_thread t f s) u" for u
    using sched_okD(9) [OF assms(1), of u] other [of u] st [of u] pr [of u] by simp
qed (simp_all add: sched_okD(1,2) [OF assms(1)])

lemma sched_ok_set_state:
  "sched_ok X s \<Longrightarrow> t \<in> X \<Longrightarrow> detached t (tlists s) \<Longrightarrow> sched_ok X (set_state t v s)"
  unfolding set_state_def by (rule sched_ok_upd_thread)

text \<open>A thread that is in no queue and not meant to run is settled.\<close>

lemma sched_ok_settle:
  assumes "sched_ok (insert t X) s" "detached t (tlists s)"
    and "state_of s t \<noteq> 1" "state_of s t = 3 \<Longrightarrow> current s = Some t"
    and "state_of s t \<in> {2, 3} \<Longrightarrow> priority_ok s t"
  shows "sched_ok X s"
proof (rule sched_okI)
  show "u \<in> set (tlists s q) \<Longrightarrow> u \<notin> X \<Longrightarrow> state_of s u = queue_state q" for u q
    using assms(2) sched_okD(5) [OF assms(1), of u q] by (auto simp: detached_def)
  show "u \<notin> X \<Longrightarrow> state_of s u = 1 \<Longrightarrow> u \<in> set (tlists s (Ready (current_priority (threads s u))))" for u
    using assms(3) sched_okD(6) [OF assms(1), of u] by auto
  show "u \<notin> X \<Longrightarrow> state_of s u = 3 \<Longrightarrow> current s = Some u" for u
    using assms(4) sched_okD(7) [OF assms(1), of u] by auto
  show "current s = Some c \<Longrightarrow> c \<notin> X \<Longrightarrow> state_of s c \<noteq> 1" for c
    using assms(3) sched_okD(8) [OF assms(1), of c] by auto
  show "u \<notin> X \<Longrightarrow> state_of s u \<in> {1, 2, 3} \<Longrightarrow> priority_ok s u" for u
    using assms(3,5) sched_okD(9) [OF assms(1), of u] by auto
  show "u \<in> set (tlists s (Ready p)) \<Longrightarrow> priority_ok s u \<and> current_priority (threads s u) = p" for p u
    using sched_okD(3,4) [OF assms(1), of u p] by simp
qed (simp_all add: sched_okD(1,2) [OF assms(1)])

lemma and_not_mask_bit: "bit ((g::u32) AND NOT (priority_mask p)) n \<longleftrightarrow> bit g n \<and> (p < 32 \<longrightarrow> n \<noteq> p)"
  using bit_imp_le_length [of g n] by (auto simp: bit_simps priority_mask_def)

text \<open>
  Taking a thread out of the ready queues.  A thread that was never started has an empty
  mask and is in no queue.
\<close>

definition removable :: "kernel \<Rightarrow> nat \<Rightarrow> bool" where
  "removable s t \<longleftrightarrow> priority_ok s t \<or> number_mask (threads s t) = 0 \<and> (\<forall>p. t \<notin> set (tlists s (Ready p)))"

lemma remove_thread_sel [simp]:
  "threads (rt_schedule_remove_thread t s) = threads s"
  "tlists (rt_schedule_remove_thread t s) = list_remove t (tlists s)"
  "current (rt_schedule_remove_thread t s) = current s"
  "lock_nest (rt_schedule_remove_thread t s) = lock_nest s"
  "state_of (rt_schedule_remove_thread t s) = state_of s"
  "priority_ok (rt_schedule_remove_thread t s) = priority_ok s"
  "kpanic (rt_schedule_remove_thread t s) = kpanic s" "timers (rt_schedule_remove_thread t s) = timers s"
  "tmlists (rt_schedule_remove_thread t s) = tmlists s" "objs (rt_schedule_remove_thread t s) = objs s"
  "rt_tick (rt_schedule_remove_thread t s) = rt_tick s" "sems (rt_schedule_remove_thread t s) = sems s"
  "mutexes (rt_schedule_remove_thread t s) = mutexes s" "events (rt_schedule_remove_thread t s) = events s"
  "mailboxes (rt_schedule_remove_thread t s) = mailboxes s" "queues (rt_schedule_remove_thread t s) = queues s" "mempools (rt_schedule_remove_thread t s) = mempools s" "block_words (rt_schedule_remove_thread t s) = block_words s"
  "containers (rt_schedule_remove_thread t s) = containers s"
  "kheap (rt_schedule_remove_thread t s) = kheap s"
  "random_nr (rt_schedule_remove_thread t s) = random_nr s"
  "interrupt_nest (rt_schedule_remove_thread t s) = interrupt_nest s"
  by (simp_all add: rt_schedule_remove_thread_def Let_def)

lemma rt_schedule_remove_thread_ok:
  assumes ok: "sched_ok X s" and r: "removable s t"
  shows "sched_ok (insert t X) (rt_schedule_remove_thread t s)"
    and "detached t (tlists (rt_schedule_remove_thread t s))"
proof -
  let ?s = "rt_schedule_remove_thread t s" and ?p = "current_priority (threads s t)"
  have bits: "bit (ready_group ?s) n \<longleftrightarrow> list_remove t (tlists s) (Ready n) \<noteq> []" for n
  proof -
    have old: "bit (ready_group s) n \<longleftrightarrow> tlists s (Ready n) \<noteq> []" by (rule sched_okD(2) [OF ok])
    have member: "t \<in> set (tlists s (Ready n)) \<Longrightarrow> n = ?p" using sched_okD(4) [OF ok] by simp
    have same: "n \<noteq> ?p \<Longrightarrow> list_remove t (tlists s) (Ready n) = tlists s (Ready n)"
      unfolding list_remove_def by (rule removeAll_id) (use member in blast)
    from r show ?thesis unfolding removable_def
    proof
      assume "priority_ok s t"
      then show ?thesis
        using old same by (cases "n = ?p")
          (auto simp: rt_schedule_remove_thread_def Let_def priority_ok_def and_not_mask_bit list_remove_def)
    next
      assume "number_mask (threads s t) = 0 \<and> (\<forall>p. t \<notin> set (tlists s (Ready p)))"
      then show ?thesis using old by (simp add: rt_schedule_remove_thread_def Let_def list_remove_def)
    qed
  qed
  show "sched_ok (insert t X) ?s"
  proof (rule sched_okI)
    show "store_ok (tlists ?s)" using sched_okD(1) [OF ok] by simp
    show "bit (ready_group ?s) n \<longleftrightarrow> tlists ?s (Ready n) \<noteq> []" for n using bits by simp
    show "u \<notin> insert t X \<Longrightarrow> state_of ?s u = 1 \<Longrightarrow>
        u \<in> set (tlists ?s (Ready (current_priority (threads ?s u))))" for u
      using sched_okD(6) [OF ok, of u] by simp
    show "u \<in> set (tlists ?s (Ready p)) \<Longrightarrow>
        priority_ok ?s u \<and> current_priority (threads ?s u) = p" for u p
      using sched_okD(3,4) [OF ok, of u p] by (cases "u = t") (auto simp: list_remove_def)
    show "u \<in> set (tlists ?s q) \<Longrightarrow> u \<notin> insert t X \<Longrightarrow> state_of ?s u = queue_state q" for u q
      using sched_okD(5) [OF ok, of u q] by simp
    show "u \<notin> insert t X \<Longrightarrow> state_of ?s u = 3 \<Longrightarrow> current ?s = Some u" for u
      using sched_okD(7) [OF ok, of u] by simp
    show "current ?s = Some c \<Longrightarrow> c \<notin> insert t X \<Longrightarrow> state_of ?s c \<noteq> 1" for c
      using sched_okD(8) [OF ok, of c] by simp
    show "u \<notin> insert t X \<Longrightarrow> state_of ?s u \<in> {1, 2, 3} \<Longrightarrow> priority_ok ?s u" for u
      using sched_okD(9) [OF ok, of u] by simp
  qed
qed simp

lemma insert_thread_sel [simp]:
  "current (rt_schedule_insert_thread t s) = current s"
  "lock_nest (rt_schedule_insert_thread t s) = lock_nest s"
  "current_priority (threads (rt_schedule_insert_thread t s) u) = current_priority (threads s u)"
  "number_mask (threads (rt_schedule_insert_thread t s) u) = number_mask (threads s u)"
  "priority_ok (rt_schedule_insert_thread t s) = priority_ok s"
  "kpanic (rt_schedule_insert_thread t s) = kpanic s" "timers (rt_schedule_insert_thread t s) = timers s"
  "tmlists (rt_schedule_insert_thread t s) = tmlists s" "objs (rt_schedule_insert_thread t s) = objs s"
  "rt_tick (rt_schedule_insert_thread t s) = rt_tick s" "sems (rt_schedule_insert_thread t s) = sems s"
  "mutexes (rt_schedule_insert_thread t s) = mutexes s" "events (rt_schedule_insert_thread t s) = events s"
  "mailboxes (rt_schedule_insert_thread t s) = mailboxes s" "queues (rt_schedule_insert_thread t s) = queues s" "mempools (rt_schedule_insert_thread t s) = mempools s" "block_words (rt_schedule_insert_thread t s) = block_words s"
  "containers (rt_schedule_insert_thread t s) = containers s"
  "error (threads (rt_schedule_insert_thread t s) u) = error (threads s u)"
  "event_set (threads (rt_schedule_insert_thread t s) u) = event_set (threads s u)"
  "event_info (threads (rt_schedule_insert_thread t s) u) = event_info (threads s u)"
  "init_priority (threads (rt_schedule_insert_thread t s) u) = init_priority (threads s u)"
  "cleanup (threads (rt_schedule_insert_thread t s) u) = cleanup (threads s u)"
  "init_tick (threads (rt_schedule_insert_thread t s) u) = init_tick (threads s u)"
  "remaining_tick (threads (rt_schedule_insert_thread t s) u) = remaining_tick (threads s u)"
  "kheap (rt_schedule_insert_thread t s) = kheap s"
  "random_nr (rt_schedule_insert_thread t s) = random_nr s"
  "interrupt_nest (rt_schedule_insert_thread t s) = interrupt_nest s"
  by (simp_all add: rt_schedule_insert_thread_def Let_def)

lemma insert_thread_state:
  "state_of (rt_schedule_insert_thread t s) u
     = (if u = t then (if current s = Some t then 3 else 1) else state_of s u)"
  by (simp add: rt_schedule_insert_thread_def Let_def state_of_set_state)

lemma insert_thread_lists:
  "tlists (rt_schedule_insert_thread t s) = (if current s = Some t then tlists s
     else list_insert_before (Ready (current_priority (threads s t))) t (tlists s))"
  by (simp add: rt_schedule_insert_thread_def Let_def)

lemma rt_schedule_insert_thread_ok:
  assumes ok: "sched_ok (insert t X) s" and t: "t \<notin> X" "detached t (tlists s)" "priority_ok s t"
  shows "sched_ok X (rt_schedule_insert_thread t s)"
proof (cases "current s = Some t")
  case True
  have "sched_ok (insert t X) (set_state t 3 s)" by (rule sched_ok_set_state [OF ok _ t(2)]) simp
  then have "sched_ok X (set_state t 3 s)"
    by (rule sched_ok_settle) (use t True in \<open>simp_all add: state_of_set_state\<close>)
  then show ?thesis using True by (simp add: rt_schedule_insert_thread_def)
next
  case False
  let ?s = "rt_schedule_insert_thread t s" and ?p = "current_priority (threads s t)"
  have l: "tlists ?s q = (if q = Ready ?p then tlists s q @ [t] else tlists s q)" for q
    using False by (simp add: insert_thread_lists list_insert_before_def)
  have p: "?p < 32" "number_mask (threads s t) = priority_mask ?p" using t(3) by (auto simp: priority_ok_def)
  show ?thesis
  proof (rule sched_okI)
    show "store_ok (tlists ?s)" using sched_okD(1) [OF ok] t(2) False by (simp add: insert_thread_lists)
    show "bit (ready_group ?s) n \<longleftrightarrow> tlists ?s (Ready n) \<noteq> []" for n
      using sched_okD(2) [OF ok, of n] False p l
      by (auto simp: rt_schedule_insert_thread_def Let_def bit_or_iff)
    show "u \<in> set (tlists ?s (Ready n)) \<Longrightarrow> priority_ok ?s u \<and> current_priority (threads ?s u) = n" for u n
      using sched_okD(3,4) [OF ok, of u n] t(3) by (auto simp: l split: if_splits)
    show "u \<in> set (tlists ?s q) \<Longrightarrow> u \<notin> X \<Longrightarrow> state_of ?s u = queue_state q" for u q
      using sched_okD(5) [OF ok, of u q] t(2) False
      by (cases "u = t") (auto simp: l insert_thread_state detached_def split: if_splits)
    show "u \<notin> X \<Longrightarrow> state_of ?s u = 1 \<Longrightarrow> u \<in> set (tlists ?s (Ready (current_priority (threads ?s u))))" for u
      using sched_okD(6) [OF ok, of u] by (cases "u = t") (auto simp: l insert_thread_state)
    show "u \<notin> X \<Longrightarrow> state_of ?s u = 3 \<Longrightarrow> current ?s = Some u" for u
      using sched_okD(7) [OF ok, of u] False by (cases "u = t") (auto simp: insert_thread_state)
    show "current ?s = Some c \<Longrightarrow> c \<notin> X \<Longrightarrow> state_of ?s c \<noteq> 1" for c
      using sched_okD(8) [OF ok, of c] False by (cases "c = t") (auto simp: insert_thread_state)
    show "u \<notin> X \<Longrightarrow> state_of ?s u \<in> {1, 2, 3} \<Longrightarrow> priority_ok ?s u" for u
      using sched_okD(9) [OF ok, of u] t(3) by (cases "u = t") (auto simp: insert_thread_state)
  qed
qed

section \<open>Selecting a thread\<close>

lemma highest_ready:
  assumes ok: "sched_ok X s" and g: "ready_group s \<noteq> 0"
  obtains h p ts where "get_highest_priority_thread s = (Some h, p)" "tlists s (Ready p) = h # ts"
    "p < 32" "current_priority (threads s h) = p" "priority_ok s h"
    "\<forall>n. tlists s (Ready n) \<noteq> [] \<longrightarrow> p \<le> n"
proof -
  let ?p = "rt_ffs (ready_group s) - 1"
  have low: "is_lowest_bit (ready_group s) ?p" using rt_ffs_lowest [OF g] by simp
  then have "tlists s (Ready ?p) \<noteq> []" using sched_okD(2) [OF ok] by (simp add: is_lowest_bit_def)
  then obtain h ts where l: "tlists s (Ready ?p) = h # ts" by (cases "tlists s (Ready ?p)") auto
  moreover have "get_highest_priority_thread s = (Some h, ?p)"
    using l by (simp add: get_highest_priority_thread_def Let_def)
  moreover have "?p \<le> n" if "tlists s (Ready n) \<noteq> []" for n
    using low that sched_okD(2) [OF ok, of n] unfolding is_lowest_bit_def by (meson not_le)
  moreover have "priority_ok s h" "current_priority (threads s h) = ?p"
    using sched_okD(3,4) [OF ok, of h ?p] l by simp_all
  ultimately show ?thesis using that is_lowest_bit_less_32 [OF low] by blast
qed

text \<open>Making \<open>h\<close> the current thread, before the queues are adjusted.\<close>

lemma sched_ok_switch:
  assumes ok: "sched_ok {} s" and c: "current s = Some c" "state_of s c = 3 \<Longrightarrow> c \<in> Y" and h: "h \<in> Y"
  shows "sched_ok Y (s\<lparr>rt_current_priority := p, current := Some h\<rparr>)" (is "sched_ok Y ?s")
proof (rule sched_okI)
  show "u \<notin> Y \<Longrightarrow> state_of ?s u = 3 \<Longrightarrow> current ?s = Some u" for u
    using sched_okD(7) [OF ok, of u] c by auto
  show "u \<notin> Y \<Longrightarrow> state_of ?s u = 1 \<Longrightarrow> u \<in> set (tlists ?s (Ready (current_priority (threads ?s u))))" for u
    using sched_okD(6) [OF ok, of u] by simp
  show "u \<in> set (tlists ?s q) \<Longrightarrow> u \<notin> Y \<Longrightarrow> state_of ?s u = queue_state q" for u q
    using sched_okD(5) [OF ok, of u q] by simp
  show "u \<in> set (tlists ?s (Ready n)) \<Longrightarrow> priority_ok ?s u \<and> current_priority (threads ?s u) = n" for u n
    using sched_okD(3,4) [OF ok, of u n] by simp
  show "u \<notin> Y \<Longrightarrow> state_of ?s u \<in> {1, 2, 3} \<Longrightarrow> priority_ok ?s u" for u
    using sched_okD(9) [OF ok, of u] by simp
qed (use h in \<open>simp_all add: sched_okD(1,2) [OF ok]\<close>)

lemma schedule_dispatch:
  assumes ok: "sched_ok {} s" and c: "current s = Some c"
    and h: "tlists s (Ready p) = h # ts" "h \<noteq> c"
  defines "s1 \<equiv> s\<lparr>rt_current_priority := p, current := Some h\<rparr>"
  defines "s2 \<equiv> (if state_of s c = 3 then rt_schedule_insert_thread c s1 else s1)"
  defines "s3 \<equiv> set_state h 3 (rt_schedule_remove_thread h s2)"
  shows "sched_ok {} s3" "state_of s3 h = 3" "current s3 = Some h" "kpanic s3 = kpanic s"
    "lock_nest s3 = lock_nest s" "current_priority (threads s3 u) = current_priority (threads s u)"
    "tlists s3 q = (if state_of s c = 3 \<and> q = Ready (current_priority (threads s c))
       then removeAll h (tlists s q) @ [c] else removeAll h (tlists s q))"
proof -
  have hin: "h \<in> set (tlists s (Ready p))" using h by simp
  have ok2: "sched_ok {h} s2"
  proof (cases "state_of s c = 3")
    case True
    have "sched_ok {c, h} s1" unfolding s1_def by (rule sched_ok_switch [OF ok c]) simp_all
    moreover have "detached c (tlists s1)" using running_detached [OF ok _ True] by (simp add: s1_def)
    moreover have "priority_ok s1 c" using sched_okD(9) [OF ok, of c] True by (simp add: s1_def)
    ultimately have "sched_ok {h} (rt_schedule_insert_thread c s1)"
      using rt_schedule_insert_thread_ok [of c "{h}" s1] h(2) by simp
    then show ?thesis using True by (simp add: s2_def)
  next
    case False
    then show ?thesis unfolding s2_def s1_def using sched_ok_switch [OF ok c] by simp
  qed
  have ph: "priority_ok s2 h" and ch: "current s2 = Some h"
    using sched_okD(3) [OF ok hin] by (simp_all add: s2_def s1_def)
  have "sched_ok (insert h {h}) (rt_schedule_remove_thread h s2)" "detached h (tlists (rt_schedule_remove_thread h s2))"
    using rt_schedule_remove_thread_ok [OF ok2, of h] ph by (auto simp: removable_def)
  then have "sched_ok {h} s3" "detached h (tlists s3)"
    by (auto simp: s3_def intro: sched_ok_set_state)
  then show "sched_ok {} s3"
    using sched_ok_settle [of h "{}" s3] ph ch by (simp add: s3_def state_of_set_state)
  show "state_of s3 h = 3" "current s3 = Some h" "kpanic s3 = kpanic s" "lock_nest s3 = lock_nest s"
    "current_priority (threads s3 u) = current_priority (threads s u)"
    using ch by (simp_all add: s3_def state_of_set_state s2_def s1_def)
  show "tlists s3 q = (if state_of s c = 3 \<and> q = Ready (current_priority (threads s c))
       then removeAll h (tlists s q) @ [c] else removeAll h (tlists s q))"
    using h(2) by (simp add: s3_def s2_def s1_def insert_thread_lists list_remove_def list_insert_before_def)
qed

text \<open>The current thread stays: nothing changes.\<close>

lemma with_state_same: "x AND 0x0f = v \<Longrightarrow> with_state v x = x"
  unfolding with_state_def by (rule bit_word_eqI) (auto simp: bit_simps simp del: bit_numeral_iff)

lemma schedule_stay:
  assumes ok: "sched_ok {} s" and run: "state_of s c = 3"
    and none: "tlists s (Ready (current_priority (threads s c))) = []"
  shows "set_state c 3 (rt_schedule_remove_thread c s) = s"
proof -
  have d: "detached c (tlists s)" using running_detached [OF ok _ run] by simp
  have p: "priority_ok s c" using sched_okD(9) [OF ok, of c] run by simp
  have "ready_group s AND NOT (number_mask (threads s c)) = ready_group s"
    using p none sched_okD(2) [OF ok] by (intro bit_word_eqI) (auto simp: priority_ok_def and_not_mask_bit)
  then have "rt_schedule_remove_thread c s = s"
    using d none by (simp add: rt_schedule_remove_thread_def Let_def upd_tlists_def)
  moreover have "set_state c 3 s = s"
    using run with_state_same [of "stat (threads s c)" 3]
    by (simp add: set_state_def upd_thread_def state_of_def)
  ultimately show ?thesis by simp
qed

text \<open>The three outcomes of \<^verbatim>\<open>rt_schedule\<close>: nothing to do, the current thread stays, or a switch.\<close>

lemma rt_schedule_cases:
  assumes ok: "sched_ok {} s" and c: "current s = Some c"
  obtains (idle) "lock_nest s \<noteq> 0 \<or> ready_group s = 0" "rt_schedule s = s"
  | (stay) p where "lock_nest s = 0" "state_of s c = 3" "current_priority (threads s c) < p"
      "\<forall>n. tlists s (Ready n) \<noteq> [] \<longrightarrow> p \<le> n" "rt_schedule s = s"
  | (switch) h p ts where "lock_nest s = 0" "tlists s (Ready p) = h # ts" "h \<noteq> c"
      "\<forall>n. tlists s (Ready n) \<noteq> [] \<longrightarrow> p \<le> n" "current_priority (threads s h) = p"
      "state_of s c = 3 \<Longrightarrow> p \<le> current_priority (threads s c)"
      "rt_schedule s = set_state h 3 (rt_schedule_remove_thread h
         (if state_of s c = 3 then rt_schedule_insert_thread c (s\<lparr>rt_current_priority := p, current := Some h\<rparr>)
          else s\<lparr>rt_current_priority := p, current := Some h\<rparr>))"
proof (cases "lock_nest s = 0 \<and> ready_group s \<noteq> 0")
  case False
  then show ?thesis using idle by (auto simp: rt_schedule_def)
next
  case True
  obtain h p ts where h: "get_highest_priority_thread s = (Some h, p)" "tlists s (Ready p) = h # ts"
    "current_priority (threads s h) = p" "\<forall>n. tlists s (Ready n) \<noteq> [] \<longrightarrow> p \<le> n"
    using highest_ready [OF ok] True by metis
  have hc: "h \<noteq> c" using sched_okD(5) [OF ok, of h "Ready p"] sched_okD(8) [OF ok c] h(2) by auto
  show ?thesis
  proof (cases "state_of s c = 3 \<and> current_priority (threads s c) < p")
    case stays: True
    then have "tlists s (Ready (current_priority (threads s c))) = []" using h(4) by (meson not_le)
    then have "rt_schedule s = s"
      using True stays c h(1) schedule_stay [OF ok] by (simp add: rt_schedule_def Let_def)
    then show ?thesis using stay True stays h(4) by blast
  next
    case False
    then have "rt_schedule s = set_state h 3 (rt_schedule_remove_thread h
         (if state_of s c = 3 then rt_schedule_insert_thread c (s\<lparr>rt_current_priority := p, current := Some h\<rparr>)
          else s\<lparr>rt_current_priority := p, current := Some h\<rparr>))"
      using True c h(1) hc by (auto simp: rt_schedule_def Let_def)
    then show ?thesis using switch [of p h ts] True h hc False by auto
  qed
qed

lemma rt_schedule_ok:
  assumes ok: "sched_ok {} s" and c: "current s = Some c"
  shows "sched_ok {} (rt_schedule s)" "kpanic (rt_schedule s) = kpanic s" "lock_nest (rt_schedule s) = lock_nest s"
    "current (rt_schedule s) \<noteq> None" "current_priority (threads (rt_schedule s) u) = current_priority (threads s u)"
proof -
  have "sched_ok {} (rt_schedule s) \<and> kpanic (rt_schedule s) = kpanic s \<and> lock_nest (rt_schedule s) = lock_nest s
    \<and> current (rt_schedule s) \<noteq> None \<and> current_priority (threads (rt_schedule s) u) = current_priority (threads s u)"
    using ok c
  proof (cases rule: rt_schedule_cases)
    case (switch h p ts)
    then show ?thesis using schedule_dispatch [OF ok c switch(2,3)] by simp
  qed (use ok c in auto)
  then show "sched_ok {} (rt_schedule s)" "kpanic (rt_schedule s) = kpanic s" "lock_nest (rt_schedule s) = lock_nest s"
    "current (rt_schedule s) \<noteq> None" "current_priority (threads (rt_schedule s) u) = current_priority (threads s u)"
    by blast+
qed

lemma rt_schedule_sel [simp]:
  "timers (rt_schedule s) = timers s"
  "tmlists (rt_schedule s) = tmlists s"
  "objs (rt_schedule s) = objs s"
  "containers (rt_schedule s) = containers s"
  "sems (rt_schedule s) = sems s"
  "mutexes (rt_schedule s) = mutexes s"
  "events (rt_schedule s) = events s"
  "mailboxes (rt_schedule s) = mailboxes s"
  "queues (rt_schedule s) = queues s" "mempools (rt_schedule s) = mempools s" "block_words (rt_schedule s) = block_words s"
  "rt_tick (rt_schedule s) = rt_tick s"
  "lock_nest (rt_schedule s) = lock_nest s"
  "kheap (rt_schedule s) = kheap s"
  "random_nr (rt_schedule s) = random_nr s"
  "interrupt_nest (rt_schedule s) = interrupt_nest s"
  "error (threads (rt_schedule s) u) = error (threads s u)"
  "current_priority (threads (rt_schedule s) u) = current_priority (threads s u)"
  "number_mask (threads (rt_schedule s) u) = number_mask (threads s u)"
  "event_set (threads (rt_schedule s) u) = event_set (threads s u)"
  "event_info (threads (rt_schedule s) u) = event_info (threads s u)"
  "init_priority (threads (rt_schedule s) u) = init_priority (threads s u)"
  "cleanup (threads (rt_schedule s) u) = cleanup (threads s u)"
  "init_tick (threads (rt_schedule s) u) = init_tick (threads s u)"
  "remaining_tick (threads (rt_schedule s) u) = remaining_tick (threads s u)"
  by (auto simp: rt_schedule_def Let_def panic_def split: option.splits prod.splits)

text \<open>Threads in wait queues and threads that are neither ready nor running are not touched.\<close>

lemma rt_schedule_waiting:
  assumes ok: "sched_ok {} s" and c: "current s = Some c" and q: "\<And>p. q \<noteq> Ready p"
  shows "tlists (rt_schedule s) q = tlists s q"
  using ok c
proof (cases rule: rt_schedule_cases)
  case (switch h p ts)
  have "h \<notin> set (tlists s q)"
    using store_ok_disjoint [OF sched_okD(1) [OF ok], of "Ready p" q h] q switch(2) by auto
  then have "removeAll h (tlists s q) = tlists s q" by (rule removeAll_id)
  then show ?thesis using schedule_dispatch(7) [OF ok c switch(2,3), of q] q switch(7) by simp
qed simp_all

lemma rt_schedule_state:
  assumes ok: "sched_ok {} s" and c: "current s = Some c"
  shows "state_of (rt_schedule s) u = state_of s u \<or> state_of s u \<in> {1, 3} \<and> state_of (rt_schedule s) u \<in> {1, 3}"
  using ok c
proof (cases rule: rt_schedule_cases)
  case (switch h p ts)
  have "state_of s h = 1" using sched_okD(5) [OF ok, of h "Ready p"] switch(2) by simp
  then show ?thesis using switch(3,7) by (auto simp: state_of_set_state insert_thread_state)
qed simp_all

section \<open>Locking, start\<close>

lemma sched_ok_lock [simp]: "sched_ok X (s\<lparr>lock_nest := n\<rparr>) = sched_ok X s"
  by (simp add: sched_ok_def)

lemma rt_enter_critical_ok: "sched_ok X s \<Longrightarrow> sched_ok X (rt_enter_critical s)"
  by (simp add: rt_enter_critical_def)

lemma rt_exit_critical_ok: "sched_ok {} s \<Longrightarrow> current s = Some c \<Longrightarrow> sched_ok {} (rt_exit_critical s)"
  using rt_schedule_ok(1) [of "s\<lparr>lock_nest := 0\<rparr>" c] by (simp add: rt_exit_critical_def Let_def)

lemma rt_system_scheduler_init_ok:
  assumes "\<forall>t. state_of s t = 0" "current s = None" "\<forall>r. tlists s (Suspend r) = []" "\<forall>m. tlists s (Sender m) = []"
    "\<forall>a. tlists s (Waiters a) = []" "\<forall>p \<ge> 32. tlists s (Ready p) = []"
  shows "sched_ok {} (rt_system_scheduler_init s)"
proof -
  have "tlists (rt_system_scheduler_init s) q = []" for q
    using assms(3-6) by (cases q) (auto simp: rt_system_scheduler_init_def)
  moreover have "state_of (rt_system_scheduler_init s) t = 0" for t
    using assms(1) by (simp add: state_of_def rt_system_scheduler_init_def)
  moreover have "current (rt_system_scheduler_init s) = None" "ready_group (rt_system_scheduler_init s) = 0"
    using assms(2) by (simp_all add: rt_system_scheduler_init_def)
  ultimately show ?thesis by (simp add: sched_ok_def store_ok_def)
qed

lemma rt_system_scheduler_start_ok:
  assumes ok: "sched_ok {} s" and c: "current s = None" and g: "ready_group s \<noteq> 0"
  shows "sched_ok {} (rt_system_scheduler_start s)"
    and "\<exists>t. current (rt_system_scheduler_start s) = Some t \<and> state_of (rt_system_scheduler_start s) t = 3
      \<and> (\<forall>u. state_of s u = 1 \<longrightarrow> current_priority (threads s t) \<le> current_priority (threads s u))"
proof -
  obtain h p ts where h: "get_highest_priority_thread s = (Some h, p)" "tlists s (Ready p) = h # ts"
    "current_priority (threads s h) = p" "priority_ok s h" "\<forall>n. tlists s (Ready n) \<noteq> [] \<longrightarrow> p \<le> n"
    using highest_ready [OF ok g] by metis
  define s1 where "s1 = s\<lparr>current := Some h\<rparr>"
  have r: "rt_system_scheduler_start s
      = upd_thread h (\<lambda>x. x\<lparr>stat := 3\<rparr>) (rt_schedule_remove_thread h s1)" (is "_ = ?s")
    by (simp add: rt_system_scheduler_start_def h(1) s1_def)
  have "sched_ok {h} s1"
  proof (rule sched_okI)
    show "u \<notin> {h} \<Longrightarrow> state_of s1 u = 3 \<Longrightarrow> current s1 = Some u" for u
      using sched_okD(7) [OF ok, of u] c by (simp add: s1_def)
    show "u \<notin> {h} \<Longrightarrow> state_of s1 u = 1 \<Longrightarrow> u \<in> set (tlists s1 (Ready (current_priority (threads s1 u))))" for u
      using sched_okD(6) [OF ok, of u] by (simp add: s1_def)
    show "u \<in> set (tlists s1 q) \<Longrightarrow> u \<notin> {h} \<Longrightarrow> state_of s1 u = queue_state q" for u q
      using sched_okD(5) [OF ok, of u q] by (simp add: s1_def)
    show "u \<in> set (tlists s1 (Ready n)) \<Longrightarrow> priority_ok s1 u \<and> current_priority (threads s1 u) = n" for u n
      using sched_okD(3,4) [OF ok, of u n] by (simp add: s1_def)
    show "u \<notin> {h} \<Longrightarrow> state_of s1 u \<in> {1, 2, 3} \<Longrightarrow> priority_ok s1 u" for u
      using sched_okD(9) [OF ok, of u] by (simp add: s1_def)
  qed (simp_all add: s1_def sched_okD(1,2) [OF ok])
  from rt_schedule_remove_thread_ok [OF this, of h]
  have "sched_ok {h} (rt_schedule_remove_thread h s1)" "detached h (tlists (rt_schedule_remove_thread h s1))"
    using h(4) by (simp_all add: removable_def s1_def)
  then have "sched_ok {h} ?s" "detached h (tlists ?s)" by (auto intro: sched_ok_upd_thread)
  moreover have "state_of ?s h = 3" "current ?s = Some h" "priority_ok ?s h"
    using h(4) by (simp_all add: state_of_upd_thread s1_def priority_ok_def)
  ultimately show "sched_ok {} (rt_system_scheduler_start s)"
    using sched_ok_settle [of h "{}" ?s] r by simp
  have "p \<le> current_priority (threads s u)" if "state_of s u = 1" for u
    using h(5) sched_okD(6) [OF ok _ that] by force
  then show "\<exists>t. current (rt_system_scheduler_start s) = Some t \<and> state_of (rt_system_scheduler_start s) t = 3
      \<and> (\<forall>u. state_of s u = 1 \<longrightarrow> current_priority (threads s t) \<le> current_priority (threads s u))"
    unfolding r using \<open>state_of ?s h = 3\<close> \<open>current ?s = Some h\<close> h(3) by auto
qed

section \<open>Properties\<close>

text \<open>A kernel with a running thread of priority 10 and a ready one of priority 5.\<close>

definition blank_thread :: rt_thread where
  "blank_thread = \<lparr>entry = 0, parameter = 0, stack_addr = 0, stack_size = 0, error = 0, stat = 0,
     current_priority = 0, init_priority = 0, number_mask = 0, event_set = 0, event_info = 0,
     init_tick = 10, remaining_tick = 10, cleanup = None, user_data = 0, sig_vectors = 0, si_list = []\<rparr>"

definition blank_kernel :: kernel where
  "blank_kernel = \<lparr>objs = (\<lambda>_. \<lparr>obj_name = [], obj_type = 0, obj_flag = 0\<rparr>), containers = (\<lambda>_. []),
     threads = (\<lambda>_. blank_thread),
     timers = (\<lambda>_. \<lparr>timeout_func = Thread_timeout, tmr_parameter = 0, tmr_init_tick = 0, timeout_tick = 0\<rparr>),
     sems = (\<lambda>_. \<lparr>sem_value = 0\<rparr>),
     mutexes = (\<lambda>_. \<lparr>mtx_value = 1, original_priority = 255, hold = 0, owner = None\<rparr>),
     events = (\<lambda>_. \<lparr>evt_set = 0\<rparr>),
     mailboxes = (\<lambda>_. \<lparr>msg_pool = 0, mb_pool = [], mb_size = 0, mb_entry = 0, in_offset = 0, out_offset = 0\<rparr>),
     queues = (\<lambda>_. \<lparr>mq_pool = 0, msg_size = 0, max_msgs = 0, mq_entry = 0, mq_head = None, mq_tail = None, mq_free = None,
       mq_next = (\<lambda>_. None), mq_data = (\<lambda>_. [])\<rparr>),
     mempools = (\<lambda>_. \<lparr>start_address = 0, mp_size = 0, block_size = 0, block_list = 0, block_total_count = 0,
       block_free_count = 0, suspend_thread_count = 0\<rparr>), block_words = (\<lambda>_. 0),
     tlists = (\<lambda>_. []), tmlists = (\<lambda>_. []), ready_group = 0, current = None, rt_current_priority = 0,
     lock_nest = 0, interrupt_nest = 0, rt_tick = 0, random_nr = 0, rt_errno = 0, kheap = demo_heap,
     kpanic = False\<rparr>"

definition demo_kernel :: kernel where
  "demo_kernel = blank_kernel\<lparr>
     threads := (\<lambda>_. blank_thread)
       (1 := blank_thread\<lparr>stat := 3, current_priority := 10, init_priority := 10, number_mask := 1024\<rparr>,
        2 := blank_thread\<lparr>stat := 1, current_priority := 5, init_priority := 5, number_mask := 32\<rparr>),
     tlists := (\<lambda>_. [])(Ready 5 := [2]), ready_group := 32, current := Some 1\<rparr>"

lemma demo_kernel_ok: "sched_ok {} demo_kernel"
proof -
  have g: "(32 :: u32) = priority_mask 5" "(1024 :: u32) = priority_mask 10"
    by (simp_all add: priority_mask_def push_bit_eq_mult)
  show ?thesis
    unfolding demo_kernel_def g
    by (auto simp: sched_ok_def store_ok_def priority_ok_def state_of_def blank_kernel_def blank_thread_def)
qed

text \<open>
  C2.  With the scheduler unlocked and some thread ready, \<^verbatim>\<open>rt_schedule\<close> leaves a running current
  thread whose priority is at least as high as that of every ready thread.  A switch takes the
  first thread of the highest ready queue, appends the preempted running thread to the end of
  the queue of its own priority, and leaves the order of all other queued threads as it was.
\<close>

theorem rt_schedule_correct:
  assumes ok: "sched_ok {} s" and c: "current s = Some c" and "lock_nest s = 0" "ready_group s \<noteq> 0"
  defines "s' \<equiv> rt_schedule s"
  shows "sched_ok {} s' \<and> kpanic s' = kpanic s \<and> (\<exists>h. current s' = Some h \<and> state_of s' h = 3
    \<and> (\<forall>u. state_of s' u = 1 \<longrightarrow> current_priority (threads s' h) \<le> current_priority (threads s' u))
    \<and> (if h = c then s' = s
       else hd (tlists s (Ready (current_priority (threads s h)))) = h
         \<and> (\<forall>q. tlists s' q = (if state_of s c = 3 \<and> q = Ready (current_priority (threads s c))
              then removeAll h (tlists s q) @ [c] else removeAll h (tlists s q)))))"
  using ok c
proof (cases rule: rt_schedule_cases)
  case idle
  then show ?thesis using assms by simp
next
  case (stay p)
  have "current_priority (threads s c) \<le> current_priority (threads s u)" if "state_of s u = 1" for u
    using stay(3,4) sched_okD(6) [OF ok _ that] by (metis empty_iff empty_set less_imp_le_nat order.trans)
  then show ?thesis using stay ok c by (auto simp: s'_def)
next
  case (switch h p ts)
  note d = schedule_dispatch [OF ok c switch(2,3), folded switch(7) s'_def]
  have "p \<le> current_priority (threads s' u)" if "state_of s' u = 1" for u
  proof -
    have "u \<in> set (tlists s' (Ready (current_priority (threads s' u))))"
      using sched_okD(6) [OF d(1)] that by simp
    then have "tlists s (Ready (current_priority (threads s u))) \<noteq> []
        \<or> state_of s c = 3 \<and> current_priority (threads s u) = current_priority (threads s c)"
      by (auto simp: d(6,7) split: if_splits)
    then show ?thesis using switch(4,6) d(6) by auto
  qed
  then show ?thesis using d switch by auto
qed

theorem rt_schedule_correct_witness:
  "\<exists>h. current (rt_schedule demo_kernel) = Some h \<and> state_of (rt_schedule demo_kernel) h = 3"
proof -
  have "current demo_kernel = Some 1" "lock_nest demo_kernel = 0" "ready_group demo_kernel \<noteq> 0"
    by (simp_all add: demo_kernel_def blank_kernel_def)
  from rt_schedule_correct [OF demo_kernel_ok this] show ?thesis by blast
qed

text \<open>
  While the scheduler is locked \<^verbatim>\<open>rt_schedule\<close> changes nothing.  Inside a critical section a
  further \<^verbatim>\<open>rt_enter_critical\<close>/\<^verbatim>\<open>rt_exit_critical\<close> pair restores the state; the pair that
  leaves the outermost section performs the scheduling.
\<close>

theorem critical_sections:
  "if lock_nest s = 0
   then rt_schedule (rt_enter_critical s) = rt_enter_critical s
     \<and> rt_exit_critical (rt_enter_critical s) = rt_schedule s
   else rt_schedule s = s \<and> (if 0 < sint (lock_nest s) then rt_exit_critical (rt_enter_critical s) = s else True)"
proof -
  have locked: "lock_nest x \<noteq> 0 \<Longrightarrow> rt_schedule x = x" for x by (simp add: rt_schedule_def)
  show ?thesis
  proof (cases "lock_nest s = 0")
    case True
    have "s\<lparr>lock_nest := lock_nest s\<rparr> = s" by simp
    then have "s\<lparr>lock_nest := 0\<rparr> = s" by (simp only: True)
    then have "rt_schedule (s\<lparr>lock_nest := 0\<rparr>) = rt_schedule s" by (rule arg_cong)
    then show ?thesis
      using True by (simp add: rt_exit_critical_def rt_enter_critical_def Let_def locked)
  next
    case False
    then show ?thesis by (simp add: rt_exit_critical_def rt_enter_critical_def Let_def locked)
  qed
qed

end
