(* ===== verification/RT_Object.thy ===== *)
theory RT_Object
  imports RT_Scheduler
begin

text \<open>
  The object system of \<^verbatim>\<open>src/object.c\<close>: every kernel object carries a name, a type and a
  flag byte, and is linked into the container of its class.  A C string is its list of
  characters without the terminator; \<^verbatim>\<open>rt_strncpy\<close> into the eight byte name field keeps the
  first eight of them, and \<^verbatim>\<open>rt_strncmp\<close> with length eight compares these
  (\<open>string_routines_correct\<close>).
\<close>

abbreviation (input) RT_NAME_MAX :: nat where "RT_NAME_MAX \<equiv> 8"
abbreviation (input) RT_Object_Class_Thread :: u8 where "RT_Object_Class_Thread \<equiv> 1"
abbreviation (input) RT_Object_Class_Semaphore :: u8 where "RT_Object_Class_Semaphore \<equiv> 2"
abbreviation (input) RT_Object_Class_Mutex :: u8 where "RT_Object_Class_Mutex \<equiv> 3"
abbreviation (input) RT_Object_Class_Event :: u8 where "RT_Object_Class_Event \<equiv> 4"
abbreviation (input) RT_Object_Class_MailBox :: u8 where "RT_Object_Class_MailBox \<equiv> 5"
abbreviation (input) RT_Object_Class_MessageQueue :: u8 where "RT_Object_Class_MessageQueue \<equiv> 6"
abbreviation (input) RT_Object_Class_MemPool :: u8 where "RT_Object_Class_MemPool \<equiv> 8"
abbreviation (input) RT_Object_Class_Device :: u8 where "RT_Object_Class_Device \<equiv> 9"
abbreviation (input) RT_Object_Class_Timer :: u8 where "RT_Object_Class_Timer \<equiv> 10"
abbreviation (input) RT_Object_Class_Unknown :: u8 where "RT_Object_Class_Unknown \<equiv> 12"
abbreviation (input) RT_Object_Class_Static :: u8 where "RT_Object_Class_Static \<equiv> 0x80"

section \<open>Operations\<close>

text \<open>The configured containers and the sizes of their structures on the 32-bit target.\<close>

definition rt_object_container :: "(u8 \<times> nat) list" where
  "rt_object_container = [(RT_Object_Class_Thread, 148), (RT_Object_Class_Semaphore, 32),
     (RT_Object_Class_Mutex, 36), (RT_Object_Class_Event, 32), (RT_Object_Class_MailBox, 48),
     (RT_Object_Class_MessageQueue, 52), (RT_Object_Class_MemPool, 56), (RT_Object_Class_Device, 80),
     (RT_Object_Class_Timer, 44)]"

definition rt_object_get_information :: "u8 \<Rightarrow> nat option" where
  "rt_object_get_information c = map_of rt_object_container c"

definition upd_containers :: "((u8, obj_ref) store \<Rightarrow> (u8, obj_ref) store) \<Rightarrow> kernel \<Rightarrow> kernel" where
  "upd_containers f s = s\<lparr>containers := f (containers s)\<rparr>"

definition rt_object_init :: "obj_ref \<Rightarrow> u8 \<Rightarrow> string \<Rightarrow> kernel \<Rightarrow> kernel" where
  "rt_object_init r c name s =
     (if rt_object_get_information c = None then panic s
      else upd_containers (list_insert_after c r)
             (upd_obj r (\<lambda>x. x\<lparr>obj_type := c OR RT_Object_Class_Static, obj_name := take RT_NAME_MAX name\<rparr>) s))"

definition rt_object_detach :: "obj_ref \<Rightarrow> kernel \<Rightarrow> kernel" where
  "rt_object_detach r s = upd_containers (list_remove r) (upd_obj r (\<lambda>x. x\<lparr>obj_type := 0\<rparr>) s)"

text \<open>The object of a class at an address, and clearing its structure.\<close>

definition class_ref :: "u8 \<Rightarrow> nat \<Rightarrow> obj_ref" where
  "class_ref c a =
     (if c = RT_Object_Class_Thread then Thr a else if c = RT_Object_Class_Semaphore then Sem a
      else if c = RT_Object_Class_Mutex then Mtx a else if c = RT_Object_Class_Event then Evt a
      else if c = RT_Object_Class_MailBox then Mbx a else if c = RT_Object_Class_MessageQueue then Msq a
      else if c = RT_Object_Class_MemPool then Mpl a else if c = RT_Object_Class_Timer then Tmr (Timer a)
      else Dev a)"

fun ref_addr :: "obj_ref \<Rightarrow> nat" where
  "ref_addr (Thr a) = a" | "ref_addr (Sem a) = a" | "ref_addr (Mtx a) = a" | "ref_addr (Evt a) = a"
| "ref_addr (Mbx a) = a" | "ref_addr (Msq a) = a" | "ref_addr (Mpl a) = a" | "ref_addr (Dev a) = a"
| "ref_addr (Tmr (Timer a)) = a" | "ref_addr (Tmr (Thread_timer a)) = a"

definition zero_thread :: rt_thread where
  "zero_thread = \<lparr>entry = 0, parameter = 0, stack_addr = 0, stack_size = 0, error = 0, stat = 0,
     current_priority = 0, init_priority = 0, number_mask = 0, event_set = 0, event_info = 0,
     init_tick = 0, remaining_tick = 0, cleanup = None, user_data = 0, sig_vectors = 0, si_list = []\<rparr>"

fun zero_struct :: "obj_ref \<Rightarrow> kernel \<Rightarrow> kernel" where
  "zero_struct (Thr a) s = s\<lparr>threads := (threads s)(a := zero_thread)\<rparr>"
| "zero_struct (Tmr t) s = s\<lparr>timers := (timers s)(t := \<lparr>timeout_func = Callback 0, tmr_parameter = 0,
     tmr_init_tick = 0, timeout_tick = 0\<rparr>)\<rparr>"
| "zero_struct (Sem a) s = s\<lparr>sems := (sems s)(a := \<lparr>sem_value = 0\<rparr>)\<rparr>"
| "zero_struct (Mtx a) s = s\<lparr>mutexes := (mutexes s)(a := \<lparr>mtx_value = 0, original_priority = 0, hold = 0,
     owner = None\<rparr>)\<rparr>"
| "zero_struct (Evt a) s = s\<lparr>events := (events s)(a := \<lparr>evt_set = 0\<rparr>)\<rparr>"
| "zero_struct (Mbx a) s = s\<lparr>mailboxes := (mailboxes s)(a := \<lparr>msg_pool = 0, mb_pool = [], mb_size = 0, mb_entry = 0,
     in_offset = 0, out_offset = 0\<rparr>)\<rparr>"
| "zero_struct (Msq a) s = s\<lparr>queues := (queues s)(a := \<lparr>mq_pool = 0, msg_size = 0, max_msgs = 0, mq_entry = 0,
     mq_head = None, mq_tail = None, mq_free = None, mq_next = (\<lambda>_. None), mq_data = (\<lambda>_. [])\<rparr>)\<rparr>"
| "zero_struct (Mpl a) s = s\<lparr>mempools := (mempools s)(a := \<lparr>start_address = 0, mp_size = 0, block_size = 0, block_list = 0,
     block_total_count = 0, block_free_count = 0, suspend_thread_count = 0\<rparr>)\<rparr>"
| "zero_struct (Dev a) s = s"

text \<open>\<^verbatim>\<open>RT_KERNEL_MALLOC\<close> and \<^verbatim>\<open>RT_KERNEL_FREE\<close> are \<^verbatim>\<open>rt_malloc\<close> and \<^verbatim>\<open>rt_free\<close>.\<close>

definition kernel_malloc :: "nat \<Rightarrow> kernel \<Rightarrow> nat option \<times> kernel" where
  "kernel_malloc n s =
     (case rt_malloc n (kheap s) of None \<Rightarrow> (None, panic s) | Some (r, h) \<Rightarrow> (r, s\<lparr>kheap := h\<rparr>))"

definition kernel_free :: "nat \<Rightarrow> kernel \<Rightarrow> kernel" where
  "kernel_free a s = s\<lparr>kheap := rt_free (Some a) (kheap s)\<rparr>"

definition rt_object_allocate :: "u8 \<Rightarrow> string \<Rightarrow> kernel \<Rightarrow> obj_ref option \<times> kernel" where
  "rt_object_allocate c name s =
     (case rt_object_get_information c of
        None \<Rightarrow> (None, panic s)
      | Some sz \<Rightarrow>
          (case kernel_malloc sz s of
             (None, s1) \<Rightarrow> (None, s1)
           | (Some a, s1) \<Rightarrow>
               (let r = class_ref c a;
                    s2 = zero_struct r s1;
                    s3 = upd_obj r (\<lambda>_. \<lparr>obj_name = take RT_NAME_MAX name, obj_type = c, obj_flag = 0\<rparr>) s2
                in (Some r, upd_containers (list_insert_after c r) s3))))"

definition rt_object_delete :: "obj_ref \<Rightarrow> kernel \<Rightarrow> kernel" where
  "rt_object_delete r s =
     (if obj_type (objs s r) AND RT_Object_Class_Static \<noteq> 0 then panic s
      else kernel_free (ref_addr r) (upd_containers (list_remove r) (upd_obj r (\<lambda>x. x\<lparr>obj_type := 0\<rparr>) s)))"

definition rt_object_is_systemobject :: "obj_ref \<Rightarrow> kernel \<Rightarrow> bool" where
  "rt_object_is_systemobject r s \<longleftrightarrow> obj_type (objs s r) AND RT_Object_Class_Static \<noteq> 0"

definition rt_object_get_type :: "obj_ref \<Rightarrow> kernel \<Rightarrow> u8" where
  "rt_object_get_type r s = obj_type (objs s r) AND NOT RT_Object_Class_Static"

definition same_name :: "string \<Rightarrow> string \<Rightarrow> bool" where
  "same_name a b \<longleftrightarrow> take RT_NAME_MAX a = take RT_NAME_MAX b"

definition rt_object_find :: "string \<Rightarrow> u8 \<Rightarrow> kernel \<Rightarrow> obj_ref option \<times> kernel" where
  "rt_object_find name c s =
     (if c > RT_Object_Class_Unknown then (None, s)
      else
        (let s1 = rt_enter_critical s
         in if rt_object_get_information c = None then (None, panic s1)
            else (find (\<lambda>r. same_name (obj_name (objs s1 r)) name) (containers s1 c), rt_exit_critical s1)))"

section \<open>The scheduler is not affected\<close>

lemma upd_containers_sel [simp]:
  "containers (upd_containers f s) = f (containers s)" "objs (upd_containers f s) = objs s"
  "threads (upd_containers f s) = threads s" "timers (upd_containers f s) = timers s"
  "tlists (upd_containers f s) = tlists s" "tmlists (upd_containers f s) = tmlists s"
  "ready_group (upd_containers f s) = ready_group s" "current (upd_containers f s) = current s"
  "lock_nest (upd_containers f s) = lock_nest s" "rt_tick (upd_containers f s) = rt_tick s"
  "kpanic (upd_containers f s) = kpanic s" "kheap (upd_containers f s) = kheap s"
  "sems (upd_containers f s) = sems s" "mutexes (upd_containers f s) = mutexes s"
  "events (upd_containers f s) = events s" "mailboxes (upd_containers f s) = mailboxes s"
  "queues (upd_containers f s) = queues s" "mempools (upd_containers f s) = mempools s" "block_words (upd_containers f s) = block_words s"
  by (simp_all add: upd_containers_def)

text \<open>\<open>sched_ok\<close> reads the thread lists, the threads, the bitmap and the current thread only.\<close>

lemma sched_ok_cong:
  assumes "threads s' = threads s" "tlists s' = tlists s" "ready_group s' = ready_group s" "current s' = current s"
  shows "sched_ok X s' = sched_ok X s"
  using assms by (simp add: sched_ok_def state_of_def priority_ok_def)

lemma sched_ok_frame [simp]:
  "sched_ok X (upd_obj r g s) = sched_ok X s" "sched_ok X (upd_containers h s) = sched_ok X s"
  "sched_ok X (upd_timer x k s) = sched_ok X s" "sched_ok X (panic s) = sched_ok X s"
  "sched_ok X (s\<lparr>kheap := hp\<rparr>) = sched_ok X s" "sched_ok X (s\<lparr>tmlists := l\<rparr>) = sched_ok X s"
  "sched_ok X (s\<lparr>random_nr := n\<rparr>) = sched_ok X s" "sched_ok X (s\<lparr>rt_tick := k'\<rparr>) = sched_ok X s"
  "sched_ok X (s\<lparr>sems := sm\<rparr>) = sched_ok X s" "sched_ok X (s\<lparr>mutexes := mm\<rparr>) = sched_ok X s"
  "sched_ok X (s\<lparr>events := ev\<rparr>) = sched_ok X s" "sched_ok X (s\<lparr>mailboxes := mb\<rparr>) = sched_ok X s"
  "sched_ok X (s\<lparr>queues := qs\<rparr>) = sched_ok X s" "sched_ok X (s\<lparr>mempools := mp\<rparr>) = sched_ok X s" "sched_ok X (s\<lparr>block_words := w\<rparr>) = sched_ok X s" "sched_ok X (s\<lparr>rt_errno := e\<rparr>) = sched_ok X s"
  by (rule sched_ok_cong; simp add: panic_def)+

lemma rt_object_init_ok [simp]: "sched_ok X (rt_object_init r c n s) = sched_ok X s"
  by (simp add: rt_object_init_def)

lemma rt_object_detach_ok [simp]: "sched_ok X (rt_object_detach r s) = sched_ok X s"
  by (simp add: rt_object_detach_def)

lemma rt_object_detach_sel [simp]:
  "threads (rt_object_detach r s) = threads s" "tlists (rt_object_detach r s) = tlists s"
  "current (rt_object_detach r s) = current s" "state_of (rt_object_detach r s) = state_of s"
  "timers (rt_object_detach r s) = timers s" "tmlists (rt_object_detach r s) = tmlists s"
  "kpanic (rt_object_detach r s) = kpanic s" "priority_ok (rt_object_detach r s) = priority_ok s"
  by (simp_all add: rt_object_detach_def state_of_def priority_ok_def fun_eq_iff)

section \<open>Containers\<close>

text \<open>Registered objects: the containers are disjoint lists, and each object has the class of its container.\<close>

definition containers_ok :: "kernel \<Rightarrow> bool" where
  "containers_ok s \<longleftrightarrow> store_ok (containers s)
     \<and> (\<forall>c r. r \<in> set (containers s c) \<longrightarrow> rt_object_get_type r s = c \<and> rt_object_get_information c \<noteq> None)"

lemma class_bits: "rt_object_get_information c \<noteq> None \<Longrightarrow>
    (c OR 0x80) AND NOT 0x80 = c \<and> c AND NOT 0x80 = c \<and> (c OR 0x80) AND 0x80 \<noteq> 0 \<and> c AND 0x80 = 0"
  by (auto simp: rt_object_get_information_def rt_object_container_def split: if_splits)

lemma rt_object_init_containers:
  assumes ok: "containers_ok s" and c: "rt_object_get_information c \<noteq> None" and d: "detached r (containers s)"
  shows "containers_ok (rt_object_init r c name s)"
  unfolding containers_ok_def
proof (intro conjI allI impI)
  let ?s = "rt_object_init r c name s"
  have cs: "containers ?s = list_insert_after c r (containers s)" using c by (auto simp: rt_object_init_def)
  show "store_ok (containers ?s)" using ok d unfolding cs containers_ok_def by (simp add: store_ok_insert_after)
  fix c' r' assume r': "r' \<in> set (containers ?s c')"
  then have "r' = r \<and> c' = c \<or> r' \<noteq> r \<and> r' \<in> set (containers s c')"
    using d by (auto simp: cs list_insert_after_def detached_def split: if_splits)
  then show "rt_object_get_type r' ?s = c'" "rt_object_get_information c' \<noteq> None"
    using ok c class_bits [OF c] by (auto simp: containers_ok_def rt_object_init_def rt_object_get_type_def)
qed

lemma rt_object_detach_containers:
  assumes ok: "containers_ok s"
  shows "containers_ok (rt_object_detach r s)" "detached r (containers (rt_object_detach r s))"
proof -
  have "store_ok (list_remove r (containers s))" using ok by (simp add: containers_ok_def)
  moreover have "r' \<noteq> r \<and> r' \<in> set (containers s c)" if "r' \<in> set (list_remove r (containers s) c)" for r' c
    using that by (auto simp: list_remove_def)
  ultimately show "containers_ok (rt_object_detach r s)"
    using ok unfolding containers_ok_def rt_object_detach_def rt_object_get_type_def
    by (simp del: not_None_eq) blast
  show "detached r (containers (rt_object_detach r s))" by (simp add: rt_object_detach_def)
qed

lemma find_fst: "fst (rt_object_find name c s) = (if c > 12 \<or> rt_object_get_information c = None then None
    else find (\<lambda>r. same_name (obj_name (objs s r)) name) (containers s c))"
  by (simp add: rt_object_find_def Let_def rt_enter_critical_def)

lemma information_le: "rt_object_get_information c \<noteq> None \<Longrightarrow> \<not> c > 12"
  by (auto simp: rt_object_get_information_def rt_object_container_def split: if_splits)

text \<open>
  C9.  Registering a new object keeps the containers disjoint with every object in the container
  of its class.  Looking its name up (first eight characters) in its class then finds it, look-ups
  of other names answer as before, and after \<^verbatim>\<open>rt_object_detach\<close> every look-up answers as
  before the registration.
\<close>

theorem object_registry:
  assumes "containers_ok s" "rt_object_get_information c \<noteq> None" "detached r (containers s)"
    "\<not> same_name name other"
  defines "s' \<equiv> rt_object_init r c name s"
  shows "containers_ok s' \<and> fst (rt_object_find name c s') = Some r
    \<and> fst (rt_object_find other c s') = fst (rt_object_find other c s)
    \<and> fst (rt_object_find n c' (rt_object_detach r s')) = fst (rt_object_find n c' s)
    \<and> rt_object_get_type r s' = c \<and> rt_object_is_systemobject r s'"
proof -
  have cs: "containers s' = list_insert_after c r (containers s)"
    and ob: "objs s' = (objs s)(r := (objs s r)\<lparr>obj_type := c OR 0x80, obj_name := take 8 name\<rparr>)"
    using assms(2) by (auto simp: s'_def rt_object_init_def)
  have ne: "r' \<noteq> r" if "r' \<in> set (containers s c')" for r' c' using assms(3) that by (auto simp: detached_def)
  have nm: "same_name (take 8 name) x = same_name name x" for x by (simp add: same_name_def)
  have fnd: "find (\<lambda>r'. same_name (obj_name (objs s' r')) n) (containers s c')
      = find (\<lambda>r'. same_name (obj_name (objs s r')) n) (containers s c')" for n c'
    by (rule find_cong) (use ne ob in auto)
  have fnd2: "find (\<lambda>r'. same_name (obj_name (objs (rt_object_detach r s') r')) n) (containers s c')
      = find (\<lambda>r'. same_name (obj_name (objs s r')) n) (containers s c')" for n c'
    by (rule find_cong) (use ne ob in \<open>auto simp: rt_object_detach_def\<close>)
  have "containers (rt_object_detach r s') = containers s"
    using assms(3) cs by (auto simp: rt_object_detach_def list_remove_def list_insert_after_def detached_def fun_eq_iff)
  then have "fst (rt_object_find n c' (rt_object_detach r s')) = fst (rt_object_find n c' s)"
    using fnd2 by (simp add: find_fst)
  moreover have "fst (rt_object_find name c s') = Some r"
    using information_le [OF assms(2)] assms(2) by (simp add: find_fst cs ob list_insert_after_def nm) (simp add: same_name_def)
  moreover have "fst (rt_object_find other c s') = fst (rt_object_find other c s)"
    using assms(4) fnd by (simp add: find_fst cs list_insert_after_def) (simp add: ob nm)
  moreover have "containers_ok s'" unfolding s'_def by (rule rt_object_init_containers [OF assms(1-3)])
  ultimately show ?thesis
    using class_bits [OF assms(2)] ob by (simp add: rt_object_get_type_def rt_object_is_systemobject_def)
qed

theorem object_registry_witness:
  "fst (rt_object_find ''meter'' 1 (rt_object_init (Thr 5) 1 ''meter'' demo_kernel)) = Some (Thr 5)"
proof -
  have "containers_ok demo_kernel" "detached (Thr 5) (containers demo_kernel)"
    by (simp_all add: containers_ok_def store_ok_def detached_def demo_kernel_def blank_kernel_def)
  moreover have "rt_object_get_information 1 \<noteq> None"
    by (simp add: rt_object_get_information_def rt_object_container_def)
  moreover have "\<not> same_name ''meter'' ''esam''" by (simp add: same_name_def)
  ultimately show ?thesis using object_registry by blast
qed

end
