(* ===== verification/RT_Timer.thy ===== *)
theory RT_Timer
  imports RT_Object
begin

text \<open>
  The timers of \<^verbatim>\<open>src/timer.c\<close> that do not involve threads: initialisation, stopping,
  control, and the ordered insertion into a timer list.  The configured skip list has one
  row, so a timer list is one ordered list.  \<open>RT_Clock\<close> adds starting and expiry.
\<close>

abbreviation (input) RT_TIMER_FLAG_ACTIVATED :: u8 where "RT_TIMER_FLAG_ACTIVATED \<equiv> 1"
abbreviation (input) RT_TIMER_FLAG_PERIODIC :: u8 where "RT_TIMER_FLAG_PERIODIC \<equiv> 2"
abbreviation (input) RT_TIMER_FLAG_SOFT_TIMER :: u8 where "RT_TIMER_FLAG_SOFT_TIMER \<equiv> 4"
abbreviation (input) RT_TICK_MAX :: u32 where "RT_TICK_MAX \<equiv> 0xffffffff"
abbreviation (input) RT_TICK_HALF :: u32 where "RT_TICK_HALF \<equiv> 0x7fffffff"

section \<open>Operations\<close>

definition timer_flag :: "timer_ref \<Rightarrow> kernel \<Rightarrow> u8" where
  "timer_flag t s = obj_flag (objs s (Tmr t))"

definition upd_flag :: "timer_ref \<Rightarrow> (u8 \<Rightarrow> u8) \<Rightarrow> kernel \<Rightarrow> kernel" where
  "upd_flag t f s = upd_obj (Tmr t) (\<lambda>x. x\<lparr>obj_flag := f (obj_flag x)\<rparr>) s"

definition timer_init_core :: "timer_ref \<Rightarrow> timeout_fn \<Rightarrow> nat \<Rightarrow> u32 \<Rightarrow> u8 \<Rightarrow> kernel \<Rightarrow> kernel" where
  "timer_init_core t timeout param time flag s =
     (let s1 = upd_flag t (\<lambda>_. flag) s;
          s2 = upd_flag t (\<lambda>f. f AND NOT RT_TIMER_FLAG_ACTIVATED) s1
      in upd_timer t (\<lambda>_. \<lparr>timeout_func = timeout, tmr_parameter = param, tmr_init_tick = time,
           timeout_tick = 0\<rparr>) s2)"

definition rt_timer_list_next_timeout :: "timer_queue \<Rightarrow> kernel \<Rightarrow> u32" where
  "rt_timer_list_next_timeout q s =
     (case tmlists s q of [] \<Rightarrow> RT_TICK_MAX | t # _ \<Rightarrow> timeout_tick (timers s t))"

definition timer_remove :: "timer_ref \<Rightarrow> kernel \<Rightarrow> kernel" where
  "timer_remove t s = s\<lparr>tmlists := list_remove t (tmlists s)\<rparr>"

definition rt_timer_init :: "timer_ref \<Rightarrow> string \<Rightarrow> timeout_fn \<Rightarrow> nat \<Rightarrow> u32 \<Rightarrow> u8 \<Rightarrow> kernel \<Rightarrow> kernel" where
  "rt_timer_init t name timeout param time flag s =
     timer_init_core t timeout param time flag (rt_object_init (Tmr t) RT_Object_Class_Timer name s)"

definition is_timer :: "timer_ref \<Rightarrow> kernel \<Rightarrow> bool" where
  "is_timer t s \<longleftrightarrow> rt_object_get_type (Tmr t) s = RT_Object_Class_Timer"

definition rt_timer_detach :: "timer_ref \<Rightarrow> kernel \<Rightarrow> rt_err_t \<times> kernel" where
  "rt_timer_detach t s =
     (if \<not> is_timer t s \<or> \<not> rt_object_is_systemobject (Tmr t) s then (RT_EOK, panic s)
      else (RT_EOK, rt_object_detach (Tmr t) (timer_remove t s)))"

definition rt_timer_create ::
  "string \<Rightarrow> timeout_fn \<Rightarrow> nat \<Rightarrow> u32 \<Rightarrow> u8 \<Rightarrow> kernel \<Rightarrow> timer_ref option \<times> kernel" where
  "rt_timer_create name timeout param time flag s =
     (case rt_object_allocate RT_Object_Class_Timer name s of
        (None, s1) \<Rightarrow> (None, s1)
      | (Some r, s1) \<Rightarrow> (Some (Timer (ref_addr r)), timer_init_core (Timer (ref_addr r)) timeout param time flag s1))"

definition rt_timer_delete :: "timer_ref \<Rightarrow> kernel \<Rightarrow> rt_err_t \<times> kernel" where
  "rt_timer_delete t s =
     (if \<not> is_timer t s \<or> rt_object_is_systemobject (Tmr t) s then (RT_EOK, panic s)
      else (RT_EOK, rt_object_delete (Tmr t) (timer_remove t s)))"

definition rt_timer_stop :: "timer_ref \<Rightarrow> kernel \<Rightarrow> rt_err_t \<times> kernel" where
  "rt_timer_stop t s =
     (if \<not> is_timer t s then (RT_EOK, panic s)
      else if timer_flag t s AND RT_TIMER_FLAG_ACTIVATED = 0 then (- RT_ERROR, s)
      else (RT_EOK, upd_flag t (\<lambda>f. f AND NOT RT_TIMER_FLAG_ACTIVATED) (timer_remove t s)))"

datatype timer_cmd = Get_time | Set_time u32 | Set_oneshot | Set_periodic | Other_timer_cmd

text \<open>The command and its argument; \<open>Get_time\<close> returns the time through the argument.\<close>

definition rt_timer_control :: "timer_ref \<Rightarrow> timer_cmd \<Rightarrow> kernel \<Rightarrow> u32 option \<times> kernel" where
  "rt_timer_control t cmd s =
     (if \<not> is_timer t s then (None, panic s)
      else case cmd of
          Get_time \<Rightarrow> (Some (tmr_init_tick (timers s t)), s)
        | Set_time v \<Rightarrow> (None, upd_timer t (\<lambda>x. x\<lparr>tmr_init_tick := v\<rparr>) s)
        | Set_oneshot \<Rightarrow> (None, upd_flag t (\<lambda>f. f AND NOT RT_TIMER_FLAG_PERIODIC) s)
        | Set_periodic \<Rightarrow> (None, upd_flag t (\<lambda>f. f OR RT_TIMER_FLAG_PERIODIC) s)
        | Other_timer_cmd \<Rightarrow> (None, s))"

definition rt_timer_next_timeout_tick :: "kernel \<Rightarrow> u32" where
  "rt_timer_next_timeout_tick s = rt_timer_list_next_timeout Hard_timers s"

definition rt_system_timer_init :: "kernel \<Rightarrow> kernel" where
  "rt_system_timer_init s = s\<lparr>tmlists := (tmlists s)(Hard_timers := [])\<rparr>"

text \<open>
  The row walk of \<^verbatim>\<open>rt_timer_start\<close>: go past every timer that does not expire later than the
  new one (the differences wrap), and insert there.  \<open>tick\<close> are the timeout ticks of the list.
\<close>

fun timer_insert :: "(timer_ref \<Rightarrow> u32) \<Rightarrow> timer_ref \<Rightarrow> timer_ref list \<Rightarrow> timer_ref list" where
  "timer_insert tick t [] = [t]"
| "timer_insert tick t (x # xs) =
     (if tick x - tick t = 0 then x # timer_insert tick t xs
      else if tick x - tick t < RT_TICK_HALF then t # x # xs
      else x # timer_insert tick t xs)"

section \<open>Frame\<close>

lemma upd_flag_sel [simp]:
  "threads (upd_flag t f s) = threads s" "tlists (upd_flag t f s) = tlists s"
  "tmlists (upd_flag t f s) = tmlists s" "timers (upd_flag t f s) = timers s"
  "current (upd_flag t f s) = current s" "rt_tick (upd_flag t f s) = rt_tick s"
  "kpanic (upd_flag t f s) = kpanic s" "lock_nest (upd_flag t f s) = lock_nest s"
  "state_of (upd_flag t f s) = state_of s" "priority_ok (upd_flag t f s) = priority_ok s"
  "sched_ok X (upd_flag t f s) = sched_ok X s" "is_timer u (upd_flag t f s) = is_timer u s"
  "timer_flag u (upd_flag t f s) = (if u = t then f (timer_flag t s) else timer_flag u s)"
  "sems (upd_flag t f s) = sems s" "mutexes (upd_flag t f s) = mutexes s"
  "events (upd_flag t f s) = events s" "mailboxes (upd_flag t f s) = mailboxes s"
  "queues (upd_flag t f s) = queues s" "mempools (upd_flag t f s) = mempools s" "block_words (upd_flag t f s) = block_words s" "ready_group (upd_flag t f s) = ready_group s"
  by (simp_all add: upd_flag_def timer_flag_def is_timer_def rt_object_get_type_def)

lemma timer_remove_sel [simp]:
  "threads (timer_remove t s) = threads s" "tlists (timer_remove t s) = tlists s"
  "tmlists (timer_remove t s) = list_remove t (tmlists s)" "timers (timer_remove t s) = timers s"
  "current (timer_remove t s) = current s" "rt_tick (timer_remove t s) = rt_tick s"
  "kpanic (timer_remove t s) = kpanic s" "lock_nest (timer_remove t s) = lock_nest s"
  "objs (timer_remove t s) = objs s" "sched_ok X (timer_remove t s) = sched_ok X s"
  "is_timer u (timer_remove t s) = is_timer u s" "timer_flag u (timer_remove t s) = timer_flag u s"
  "sems (timer_remove t s) = sems s" "mutexes (timer_remove t s) = mutexes s"
  "events (timer_remove t s) = events s" "mailboxes (timer_remove t s) = mailboxes s"
  "queues (timer_remove t s) = queues s" "mempools (timer_remove t s) = mempools s" "block_words (timer_remove t s) = block_words s" "ready_group (timer_remove t s) = ready_group s"
  by (simp_all add: timer_remove_def is_timer_def rt_object_get_type_def timer_flag_def)

lemma state_of_timer_remove [simp]:
  "state_of (timer_remove t s) = state_of s" "priority_ok (timer_remove t s) = priority_ok s"
  by (simp_all add: state_of_def priority_ok_def fun_eq_iff)

lemma panic_sel [simp]:
  "threads (panic s) = threads s" "tlists (panic s) = tlists s" "tmlists (panic s) = tmlists s"
  "timers (panic s) = timers s" "current (panic s) = current s" "rt_tick (panic s) = rt_tick s"
  "kpanic (panic s)" "lock_nest (panic s) = lock_nest s" "objs (panic s) = objs s"
  "state_of (panic s) = state_of s" "priority_ok (panic s) = priority_ok s" "sems (panic s) = sems s"
  "mutexes (panic s) = mutexes s" "events (panic s) = events s" "mailboxes (panic s) = mailboxes s"
  "queues (panic s) = queues s" "mempools (panic s) = mempools s" "block_words (panic s) = block_words s" "ready_group (panic s) = ready_group s" "is_timer u (panic s) = is_timer u s"
  by (simp_all add: panic_def state_of_def priority_ok_def fun_eq_iff is_timer_def rt_object_get_type_def)

lemma rt_timer_stop_sel [simp]:
  "threads (snd (rt_timer_stop t s)) = threads s" "tlists (snd (rt_timer_stop t s)) = tlists s"
  "timers (snd (rt_timer_stop t s)) = timers s" "current (snd (rt_timer_stop t s)) = current s"
  "rt_tick (snd (rt_timer_stop t s)) = rt_tick s" "lock_nest (snd (rt_timer_stop t s)) = lock_nest s"
  "state_of (snd (rt_timer_stop t s)) = state_of s" "priority_ok (snd (rt_timer_stop t s)) = priority_ok s"
  "sched_ok X (snd (rt_timer_stop t s)) = sched_ok X s" "is_timer u (snd (rt_timer_stop t s)) = is_timer u s"
  "sems (snd (rt_timer_stop t s)) = sems s" "mutexes (snd (rt_timer_stop t s)) = mutexes s"
  "events (snd (rt_timer_stop t s)) = events s" "mailboxes (snd (rt_timer_stop t s)) = mailboxes s"
  "queues (snd (rt_timer_stop t s)) = queues s" "mempools (snd (rt_timer_stop t s)) = mempools s" "block_words (snd (rt_timer_stop t s)) = block_words s" "ready_group (snd (rt_timer_stop t s)) = ready_group s"
  by (simp_all add: rt_timer_stop_def)

lemma rt_timer_stop_panic [simp]: "is_timer t s \<Longrightarrow> kpanic (snd (rt_timer_stop t s)) = kpanic s"
  by (simp add: rt_timer_stop_def)

lemma rt_timer_control_set_sel [simp]:
  "threads (snd (rt_timer_control t (Set_time v) s)) = threads s"
  "tlists (snd (rt_timer_control t (Set_time v) s)) = tlists s"
  "tmlists (snd (rt_timer_control t (Set_time v) s)) = tmlists s"
  "current (snd (rt_timer_control t (Set_time v) s)) = current s"
  "rt_tick (snd (rt_timer_control t (Set_time v) s)) = rt_tick s"
  "lock_nest (snd (rt_timer_control t (Set_time v) s)) = lock_nest s"
  "objs (snd (rt_timer_control t (Set_time v) s)) = objs s"
  "state_of (snd (rt_timer_control t (Set_time v) s)) = state_of s"
  "priority_ok (snd (rt_timer_control t (Set_time v) s)) = priority_ok s"
  "sched_ok X (snd (rt_timer_control t (Set_time v) s)) = sched_ok X s"
  "is_timer u (snd (rt_timer_control t (Set_time v) s)) = is_timer u s"
  "sems (snd (rt_timer_control t (Set_time v) s)) = sems s"
  "mutexes (snd (rt_timer_control t (Set_time v) s)) = mutexes s"
  "events (snd (rt_timer_control t (Set_time v) s)) = events s"
  "mailboxes (snd (rt_timer_control t (Set_time v) s)) = mailboxes s"
  "queues (snd (rt_timer_control t (Set_time v) s)) = queues s" "mempools (snd (rt_timer_control t (Set_time v) s)) = mempools s" "block_words (snd (rt_timer_control t (Set_time v) s)) = block_words s"
  by (auto simp: rt_timer_control_def is_timer_def rt_object_get_type_def)

section \<open>The order of a timer list\<close>

text \<open>
  The signed distance of a timer's timeout from the current tick.  Ticks wrap around, so
  distances are compared, never ticks.
\<close>

definition dist :: "u32 \<Rightarrow> u32 \<Rightarrow> int" where
  "dist now v = sint (v - now)"

text \<open>
  The window in which the comparisons of the code are exact: at most three ticks late, and less
  than half the tick range ahead.
\<close>

definition in_window :: "u32 \<Rightarrow> u32 \<Rightarrow> bool" where
  "in_window now v \<longleftrightarrow> - 3 \<le> dist now v \<and> dist now v \<le> 2 ^ 31 - 2"

lemma sint_range32: "- (2 ^ 31) \<le> sint (w :: u32)" "sint (w :: u32) < 2 ^ 31"
  using sint_greater_eq [of w] sint_less [of w] by simp_all

lemma uint_diff_sint: "uint (x - y :: u32) = (sint x - sint y) mod 2 ^ 32"
proof -
  have u: "uint w = sint w mod 2 ^ 32" for w :: u32 by (simp add: uint_sint take_bit_eq_mod)
  have "uint (x - y) = (uint x - uint y) mod 2 ^ 32" by (simp add: uint_word_ariths)
  then show ?thesis by (simp add: u mod_diff_eq)
qed

lemma uint_diff_dist: "uint (a - b :: u32) = (dist now a - dist now b) mod 2 ^ 32"
  using uint_diff_sint [of "a - now" "b - now"] by (simp add: dist_def)

text \<open>The two comparisons of the insertion, for a new timer that is not late.\<close>

lemma insert_compare:
  assumes "in_window now a" "in_window now b" "0 \<le> dist now b"
  shows "a - b = 0 \<longleftrightarrow> dist now a = dist now b"
    "a - b \<noteq> 0 \<Longrightarrow> a - b < 0x7fffffff \<longleftrightarrow> dist now b < dist now a"
proof -
  let ?d = "dist now a - dist now b"
  have r: "- (2 ^ 31 + 1) \<le> ?d" "?d \<le> 2 ^ 31 - 2" using assms by (auto simp: in_window_def)
  have u: "uint (a - b) = (if 0 \<le> ?d then ?d else ?d + 2 ^ 32)"
  proof (cases "0 \<le> ?d")
    case True
    then show ?thesis using uint_diff_dist [of a b now] r by (simp add: mod_pos_pos_trivial)
  next
    case False
    have "?d mod 2 ^ 32 = (?d + 2 ^ 32) mod 2 ^ 32" by simp
    also have "\<dots> = ?d + 2 ^ 32" using False r by (intro mod_pos_pos_trivial) simp_all
    finally show ?thesis using uint_diff_dist [of a b now] False by simp
  qed
  have "a - b = 0 \<longleftrightarrow> uint (a - b) = 0" by (simp only: unsigned_eq_0_iff)
  then show eq: "a - b = 0 \<longleftrightarrow> dist now a = dist now b" using u r by (auto split: if_splits)
  show "a - b \<noteq> 0 \<Longrightarrow> a - b < 0x7fffffff \<longleftrightarrow> dist now b < dist now a"
    using u r eq unfolding word_less_def by (auto split: if_splits)
qed

text \<open>The expiry test of \<^verbatim>\<open>rt_timer_check\<close>.\<close>

lemma expired_compare:
  assumes "in_window now a"
  shows "now - a < 0x7fffffff \<longleftrightarrow> dist now a \<le> 0"
proof -
  have z: "dist now now = 0" by (simp add: dist_def)
  let ?d = "- dist now a"
  have r: "- (2 ^ 31 - 2) \<le> ?d" "?d \<le> 3" using assms by (auto simp: in_window_def)
  have u: "uint (now - a) = (if 0 \<le> ?d then ?d else ?d + 2 ^ 32)"
  proof (cases "0 \<le> ?d")
    case True
    then show ?thesis using uint_diff_dist [of now a now] r z by (simp add: mod_pos_pos_trivial)
  next
    case False
    have "?d mod 2 ^ 32 = (?d + 2 ^ 32) mod 2 ^ 32" by simp
    also have "\<dots> = ?d + 2 ^ 32" using False r by (intro mod_pos_pos_trivial) simp_all
    finally show ?thesis using uint_diff_dist [of now a now] False z by simp
  qed
  then show ?thesis using r unfolding word_less_def by (auto split: if_splits)
qed

text \<open>A list in expiry order, within the window.\<close>

definition timer_order :: "u32 \<Rightarrow> (timer_ref \<Rightarrow> u32) \<Rightarrow> timer_ref list \<Rightarrow> bool" where
  "timer_order now tick xs \<longleftrightarrow> sorted (map (\<lambda>t. dist now (tick t)) xs) \<and> (\<forall>t \<in> set xs. in_window now (tick t))"

lemma timer_insert_sorted:
  assumes "timer_order now tick xs" "in_window now (tick t)" "0 \<le> dist now (tick t)"
  shows "timer_insert tick t xs
    = takeWhile (\<lambda>x. dist now (tick x) \<le> dist now (tick t)) xs @ t
      # dropWhile (\<lambda>x. dist now (tick x) \<le> dist now (tick t)) xs"
  using assms
proof (induction xs)
  case (Cons x xs)
  have x: "in_window now (tick x)" and IH: "timer_order now tick xs"
    using Cons.prems(1) by (auto simp: timer_order_def)
  note cmp = insert_compare [OF x Cons.prems(2,3)]
  show ?case using Cons.IH [OF IH Cons.prems(2,3)] cmp by auto
qed simp

lemma timer_insert_set [simp]: "set (timer_insert tick t xs) = insert t (set xs)"
  by (induction xs) auto

lemma timer_insert_order:
  assumes "timer_order now tick xs" "in_window now (tick t)" "0 \<le> dist now (tick t)"
  shows "timer_order now tick (timer_insert tick t xs)"
proof -
  let ?k = "\<lambda>t. dist now (tick t)"
  have "sorted (map ?k xs)" using assms(1) by (simp add: timer_order_def)
  then have "sorted (map ?k (takeWhile (\<lambda>x. ?k x \<le> ?k t) xs @ t # dropWhile (\<lambda>x. ?k x \<le> ?k t) xs))"
    by (rule sorted_split_insert)
  then have "sorted (map ?k (timer_insert tick t xs))" by (simp only: timer_insert_sorted [OF assms])
  then show ?thesis using assms(1,2) by (simp add: timer_order_def)
qed

end
