(* ===== verification/RT_Thread.thy ===== *)
theory RT_Thread
  imports RT_Timer
begin

text \<open>
  The threads of \<^verbatim>\<open>src/thread.c\<close> (sleeping is in \<open>RT_Clock\<close>, since it starts the thread
  timer).  The contents of thread stacks and the CPU context are not modelled.
\<close>

section \<open>Operations\<close>

definition is_thread :: "nat \<Rightarrow> kernel \<Rightarrow> bool" where
  "is_thread t s \<longleftrightarrow> rt_object_get_type (Thr t) s = RT_Object_Class_Thread"

definition rt_thread_self :: "kernel \<Rightarrow> nat option" where
  "rt_thread_self s = current s"

definition rt_thread_resume :: "nat \<Rightarrow> kernel \<Rightarrow> rt_err_t \<times> kernel" where
  "rt_thread_resume t s =
     (if \<not> is_thread t s then (RT_EOK, panic s)
      else if state_of s t \<noteq> RT_THREAD_SUSPEND then (- RT_ERROR, s)
      else
        (let s1 = upd_tlists (list_remove t) s;
             s2 = snd (rt_timer_stop (Thread_timer t) s1)
         in (RT_EOK, rt_schedule_insert_thread t s2)))"

definition rt_thread_suspend :: "nat \<Rightarrow> kernel \<Rightarrow> rt_err_t \<times> kernel" where
  "rt_thread_suspend t s =
     (if \<not> is_thread t s then (RT_EOK, panic s)
      else if state_of s t \<noteq> RT_THREAD_READY \<and> state_of s t \<noteq> RT_THREAD_RUNNING then (- RT_ERROR, s)
      else if state_of s t = RT_THREAD_RUNNING \<and> rt_thread_self s \<noteq> Some t then (RT_EOK, panic s)
      else
        (let s1 = set_state t RT_THREAD_SUSPEND (rt_schedule_remove_thread t s)
         in (RT_EOK, snd (rt_timer_stop (Thread_timer t) s1))))"

definition rt_thread_timeout :: "nat \<Rightarrow> kernel \<Rightarrow> kernel" where
  "rt_thread_timeout t s =
     (if state_of s t \<noteq> RT_THREAD_SUSPEND \<or> \<not> is_thread t s then panic s
      else
        (let s1 = upd_thread t (\<lambda>x. x\<lparr>error := - RT_ETIMEOUT\<rparr>) s;
             s2 = upd_tlists (list_remove t) s1
         in rt_schedule (rt_schedule_insert_thread t s2)))"

definition thread_init_core :: "nat \<Rightarrow> string \<Rightarrow> nat \<Rightarrow> nat \<Rightarrow> nat \<Rightarrow> nat \<Rightarrow> nat \<Rightarrow> u32 \<Rightarrow> kernel \<Rightarrow> kernel" where
  "thread_init_core t name ent param stack_start stack_sz priority tick s =
     (if \<not> priority < RT_THREAD_PRIORITY_MAX then panic s
      else
        rt_timer_init (Thread_timer t) (obj_name (objs s (Thr t))) Thread_timeout t 0 0
          (upd_thread t (\<lambda>x. x\<lparr>entry := ent, parameter := param, stack_addr := stack_start,
              stack_size := stack_sz, init_priority := priority, current_priority := priority,
              number_mask := 0, init_tick := tick, remaining_tick := tick, error := RT_EOK,
              stat := RT_THREAD_INIT, cleanup := None, user_data := 0, sig_vectors := 0, si_list := []\<rparr>) s))"

definition rt_thread_init ::
  "nat \<Rightarrow> string \<Rightarrow> nat \<Rightarrow> nat \<Rightarrow> nat \<Rightarrow> nat \<Rightarrow> nat \<Rightarrow> u32 \<Rightarrow> kernel \<Rightarrow> rt_err_t \<times> kernel" where
  "rt_thread_init t name ent param stack_start stack_sz priority tick s =
     (RT_EOK,
      if stack_start = 0 then panic s
      else thread_init_core t name ent param stack_start stack_sz priority tick
             (rt_object_init (Thr t) RT_Object_Class_Thread name s))"

definition rt_thread_startup :: "nat \<Rightarrow> kernel \<Rightarrow> rt_err_t \<times> kernel" where
  "rt_thread_startup t s =
     (if state_of s t \<noteq> RT_THREAD_INIT \<or> \<not> is_thread t s then (RT_EOK, panic s)
      else
        (let s1 = upd_thread t (\<lambda>x. x\<lparr>current_priority := init_priority x\<rparr>) s;
             s2 = upd_thread t (\<lambda>x. x\<lparr>number_mask := priority_mask (current_priority x)\<rparr>) s1;
             s3 = upd_thread t (\<lambda>x. x\<lparr>stat := RT_THREAD_SUSPEND\<rparr>) s2;
             s4 = snd (rt_thread_resume t s3)
         in (RT_EOK, if rt_thread_self s4 \<noteq> None then rt_schedule s4 else s4)))"

definition rt_thread_exit :: "kernel \<Rightarrow> kernel" where
  "rt_thread_exit s =
     (case rt_thread_self s of
        None \<Rightarrow> panic s
      | Some t \<Rightarrow>
          (let s1 = upd_thread t (\<lambda>x. x\<lparr>stat := RT_THREAD_CLOSE\<rparr>) (rt_schedule_remove_thread t s);
               s2 = snd (rt_timer_detach (Thread_timer t) s1);
               s3 = (if rt_object_is_systemobject (Thr t) s2 \<and> cleanup (threads s2 t) = None
                     then rt_object_detach (Thr t) s2
                     else upd_tlists (list_insert_after Defunct t) s2)
           in rt_schedule s3))"

definition rt_thread_detach :: "nat \<Rightarrow> kernel \<Rightarrow> rt_err_t \<times> kernel" where
  "rt_thread_detach t s =
     (if \<not> is_thread t s \<or> \<not> rt_object_is_systemobject (Thr t) s then (RT_EOK, panic s)
      else
        (let s1 = (if state_of s t \<noteq> RT_THREAD_INIT then rt_schedule_remove_thread t s else s);
             s2 = snd (rt_timer_detach (Thread_timer t) s1);
             s3 = rt_object_detach (Thr t) (upd_thread t (\<lambda>x. x\<lparr>stat := RT_THREAD_CLOSE\<rparr>) s2)
         in (RT_EOK, if cleanup (threads s3 t) \<noteq> None
                     then upd_tlists (list_insert_after Defunct t) s3 else s3)))"

definition rt_thread_create ::
  "string \<Rightarrow> nat \<Rightarrow> nat \<Rightarrow> nat \<Rightarrow> nat \<Rightarrow> u32 \<Rightarrow> kernel \<Rightarrow> nat option \<times> kernel" where
  "rt_thread_create name ent param stack_sz priority tick s =
     (case rt_object_allocate RT_Object_Class_Thread name s of
        (None, s1) \<Rightarrow> (None, s1)
      | (Some r, s1) \<Rightarrow>
          (case kernel_malloc stack_sz s1 of
             (None, s2) \<Rightarrow> (None, rt_object_delete r s2)
           | (Some stk, s2) \<Rightarrow>
               (Some (ref_addr r), thread_init_core (ref_addr r) name ent param stk stack_sz priority tick s2)))"

definition rt_thread_delete :: "nat \<Rightarrow> kernel \<Rightarrow> rt_err_t \<times> kernel" where
  "rt_thread_delete t s =
     (if \<not> is_thread t s \<or> rt_object_is_systemobject (Thr t) s then (RT_EOK, panic s)
      else
        (let s1 = (if state_of s t \<noteq> RT_THREAD_INIT then rt_schedule_remove_thread t s else s);
             s2 = snd (rt_timer_detach (Thread_timer t) s1);
             s3 = upd_thread t (\<lambda>x. x\<lparr>stat := RT_THREAD_CLOSE\<rparr>) s2
         in (RT_EOK, upd_tlists (list_insert_after Defunct t) s3)))"

definition rt_thread_yield :: "kernel \<Rightarrow> rt_err_t \<times> kernel" where
  "rt_thread_yield s = (RT_EOK, rt_schedule s)"

datatype thread_cmd = Change_priority nat | Startup | Close | Other_thread_cmd

definition rt_thread_control :: "nat \<Rightarrow> thread_cmd \<Rightarrow> kernel \<Rightarrow> rt_err_t \<times> kernel" where
  "rt_thread_control t cmd s =
     (if \<not> is_thread t s then (RT_EOK, panic s)
      else case cmd of
          Change_priority p \<Rightarrow>
            (RT_EOK,
             if state_of s t = RT_THREAD_READY
             then rt_schedule_insert_thread t
                    (upd_thread t (\<lambda>x. x\<lparr>current_priority := p, number_mask := priority_mask p\<rparr>)
                      (rt_schedule_remove_thread t s))
             else upd_thread t (\<lambda>x. x\<lparr>current_priority := p, number_mask := priority_mask p\<rparr>) s)
        | Startup \<Rightarrow> rt_thread_startup t s
        | Close \<Rightarrow> rt_thread_delete t s
        | Other_thread_cmd \<Rightarrow> (RT_EOK, s))"

definition rt_thread_find :: "string \<Rightarrow> kernel \<Rightarrow> obj_ref option \<times> kernel" where
  "rt_thread_find name s =
     (let s1 = (if rt_thread_self s \<noteq> None then rt_enter_critical s else s);
          r = find (\<lambda>x. same_name (obj_name (objs s1 x)) name) (containers s1 RT_Object_Class_Thread)
      in (r, if rt_thread_self s1 \<noteq> None then rt_exit_critical s1 else s1))"

definition rt_get_errno :: "kernel \<Rightarrow> rt_err_t" where
  "rt_get_errno s =
     (if interrupt_nest s \<noteq> 0 then rt_errno s
      else case rt_thread_self s of None \<Rightarrow> rt_errno s | Some t \<Rightarrow> error (threads s t))"

definition rt_set_errno :: "rt_err_t \<Rightarrow> kernel \<Rightarrow> kernel" where
  "rt_set_errno e s =
     (if interrupt_nest s \<noteq> 0 then s\<lparr>rt_errno := e\<rparr>
      else case rt_thread_self s of None \<Rightarrow> s\<lparr>rt_errno := e\<rparr> | Some t \<Rightarrow> upd_thread t (\<lambda>x. x\<lparr>error := e\<rparr>) s)"

section \<open>The scheduler invariant\<close>

lemma not_in_ready:
  assumes "sched_ok X s" "t \<notin> X" "state_of s t \<noteq> 1"
  shows "t \<notin> set (tlists s (Ready p))"
  using sched_okD(5) [OF assms(1), of t "Ready p"] assms(2,3) by auto

lemma sched_ok_list_remove:
  assumes ok: "sched_ok X s" and nr: "\<And>p. t \<notin> set (tlists s (Ready p))"
  shows "sched_ok (insert t X) (upd_tlists (list_remove t) s)" (is "sched_ok _ ?s")
    "detached t (tlists (upd_tlists (list_remove t) s))"
proof -
  have r: "tlists ?s (Ready p) = tlists s (Ready p)" for p using nr by (simp add: list_remove_def)
  show "sched_ok (insert t X) ?s"
  proof (rule sched_okI)
    show "store_ok (tlists ?s)" using sched_okD(1) [OF ok] by simp
    show "u \<in> set (tlists ?s q) \<Longrightarrow> u \<notin> insert t X \<Longrightarrow> state_of ?s u = queue_state q" for u q
      using sched_okD(5) [OF ok, of u q] by simp
    show "u \<in> set (tlists ?s (Ready n)) \<Longrightarrow> priority_ok ?s u \<and> current_priority (threads ?s u) = n" for u n
      using sched_okD(3,4) [OF ok, of u n] unfolding r by simp
    show "u \<notin> insert t X \<Longrightarrow> state_of ?s u = 1 \<Longrightarrow> u \<in> set (tlists ?s (Ready (current_priority (threads ?s u))))" for u
      using sched_okD(6) [OF ok, of u] unfolding r by simp
    show "u \<notin> insert t X \<Longrightarrow> state_of ?s u = 3 \<Longrightarrow> current ?s = Some u" for u
      using sched_okD(7) [OF ok, of u] by simp
    show "current ?s = Some c \<Longrightarrow> c \<notin> insert t X \<Longrightarrow> state_of ?s c \<noteq> 1" for c
      using sched_okD(8) [OF ok, of c] by simp
    show "u \<notin> insert t X \<Longrightarrow> state_of ?s u \<in> {1, 2, 3} \<Longrightarrow> priority_ok ?s u" for u
      using sched_okD(9) [OF ok, of u] by simp
    show "bit (ready_group ?s) n \<longleftrightarrow> tlists ?s (Ready n) \<noteq> []" for n
      using sched_okD(2) [OF ok, of n] unfolding r by simp
  qed
  show "detached t (tlists ?s)" by simp
qed

text \<open>Queueing a thread somewhere else than in a ready queue.\<close>

lemma sched_ok_enqueue:
  assumes ok: "sched_ok X s" and d: "detached t (tlists s)" and st: "state_of s t = queue_state q"
    and q: "\<And>p. q \<noteq> Ready p" and l: "tlists s q = us @ vs" and s': "s' = upd_tlists (\<lambda>S. S(q := us @ t # vs)) s"
  shows "sched_ok X s'"
proof -
  have r: "tlists s' (Ready p) = tlists s (Ready p)" for p using q [of p] by (auto simp: s')
  have m: "u \<in> set (tlists s' k) \<Longrightarrow> u = t \<and> k = q \<or> u \<in> set (tlists s k)" for u k
    using l by (auto simp: s' split: if_splits)
  show ?thesis
  proof (rule sched_okI)
    show "store_ok (tlists s')" unfolding s' upd_tlists_sel by (rule store_ok_insert [OF sched_okD(1) [OF ok] d l])
    show "u \<in> set (tlists s' k) \<Longrightarrow> u \<notin> X \<Longrightarrow> state_of s' u = queue_state k" for u k
      using m [of u k] sched_okD(5) [OF ok, of u k] st by (auto simp: s')
    show "u \<in> set (tlists s' (Ready n)) \<Longrightarrow> priority_ok s' u \<and> current_priority (threads s' u) = n" for u n
      using sched_okD(3,4) [OF ok, of u n] unfolding r by (simp add: s')
    show "u \<notin> X \<Longrightarrow> state_of s' u = 1 \<Longrightarrow> u \<in> set (tlists s' (Ready (current_priority (threads s' u))))" for u
      using sched_okD(6) [OF ok, of u] unfolding r by (simp add: s')
    show "u \<notin> X \<Longrightarrow> state_of s' u = 3 \<Longrightarrow> current s' = Some u" for u
      using sched_okD(7) [OF ok, of u] by (simp add: s')
    show "current s' = Some c \<Longrightarrow> c \<notin> X \<Longrightarrow> state_of s' c \<noteq> 1" for c
      using sched_okD(8) [OF ok, of c] by (simp add: s')
    show "u \<notin> X \<Longrightarrow> state_of s' u \<in> {1, 2, 3} \<Longrightarrow> priority_ok s' u" for u
      using sched_okD(9) [OF ok, of u] by (simp add: s')
    show "bit (ready_group s') n \<longleftrightarrow> tlists s' (Ready n) \<noteq> []" for n
      using sched_okD(2) [OF ok, of n] unfolding r by (simp add: s')
  qed
qed

lemma sched_ok_defunct:
  assumes "sched_ok X s" "detached t (tlists s)" "state_of s t = 4"
  shows "sched_ok X (upd_tlists (list_insert_after Defunct t) s)"
  by (rule sched_ok_enqueue [OF assms(1,2), of Defunct "[]" "tlists s Defunct"])
    (use assms(3) in \<open>simp_all add: list_insert_after_def upd_tlists_def\<close>)

section \<open>Suspending and resuming\<close>

definition thread_ok :: "nat \<Rightarrow> kernel \<Rightarrow> bool" where
  "thread_ok t s \<longleftrightarrow> is_thread t s \<and> is_timer (Thread_timer t) s
     \<and> rt_object_is_systemobject (Tmr (Thread_timer t)) s"

lemma is_thread_frame [simp]:
  "is_thread t (upd_thread u f s) = is_thread t s" "is_thread t (upd_tlists g s) = is_thread t s"
  "is_thread t (upd_flag x h s) = is_thread t s" "is_thread t (timer_remove x s) = is_thread t s"
  "is_thread t (panic s) = is_thread t s" "is_thread t (upd_timer x k s) = is_thread t s"
  "is_timer y (upd_thread u f s) = is_timer y s" "is_timer y (upd_tlists g s) = is_timer y s"
  "is_timer y (upd_timer x k s) = is_timer y s" "is_thread t (snd (rt_timer_stop x s)) = is_thread t s"
  by (simp_all add: is_thread_def is_timer_def rt_object_get_type_def upd_flag_def rt_timer_stop_def)

lemma is_systemobject_frame [simp]:
  "rt_object_is_systemobject r (upd_thread u f s) = rt_object_is_systemobject r s"
  "rt_object_is_systemobject r (upd_tlists g s) = rt_object_is_systemobject r s"
  "rt_object_is_systemobject r (set_state u v s) = rt_object_is_systemobject r s"
  "rt_object_is_systemobject r (snd (rt_timer_stop x s)) = rt_object_is_systemobject r s"
  "rt_object_is_systemobject r (rt_schedule s) = rt_object_is_systemobject r s"
  "rt_object_is_systemobject r (rt_schedule_remove_thread u s) = rt_object_is_systemobject r s"
  "rt_object_is_systemobject r (rt_schedule_insert_thread u s) = rt_object_is_systemobject r s"
  by (simp_all add: rt_object_is_systemobject_def rt_timer_stop_def upd_flag_def)

lemma schedule_frame_ref [simp]:
  "is_thread t (rt_schedule s) = is_thread t s" "is_timer x (rt_schedule s) = is_timer x s"
  "is_thread t (rt_schedule_remove_thread u s) = is_thread t s"
  "is_timer x (rt_schedule_remove_thread u s) = is_timer x s"
  "is_thread t (rt_schedule_insert_thread u s) = is_thread t s"
  "is_timer x (rt_schedule_insert_thread u s) = is_timer x s"
  "is_thread t (set_state u v s) = is_thread t s" "is_timer x (set_state u v s) = is_timer x s"
  by (simp_all add: is_thread_def is_timer_def rt_object_get_type_def)

lemma timer_stopped:
  assumes "is_timer x s"
  shows "timer_flag x (snd (rt_timer_stop x s)) AND 1 = 0"
  using assms by (simp add: rt_timer_stop_def and.assoc)

lemma sched_ok_wake:
  assumes ok: "sched_ok X s" and t: "t \<notin> X" "state_of s t = 2"
  shows "sched_ok X (rt_schedule_insert_thread t (snd (rt_timer_stop x (upd_tlists (list_remove t) s))))"
    "sched_ok X (rt_schedule_insert_thread t (upd_tlists (list_remove t) s))"
proof -
  have "t \<notin> set (tlists s (Ready p))" for p using not_in_ready [OF ok t(1)] t(2) by simp
  note r = sched_ok_list_remove [OF ok this]
  have "priority_ok s t" using sched_okD(9) [OF ok t(1)] t(2) by simp
  then show "sched_ok X (rt_schedule_insert_thread t (snd (rt_timer_stop x (upd_tlists (list_remove t) s))))"
    "sched_ok X (rt_schedule_insert_thread t (upd_tlists (list_remove t) s))"
    using r t(1) by (intro rt_schedule_insert_thread_ok; simp)+
qed

lemma rt_thread_resume_ok: "sched_ok X s \<Longrightarrow> t \<notin> X \<Longrightarrow> sched_ok X (snd (rt_thread_resume t s))"
  by (simp add: rt_thread_resume_def Let_def sched_ok_wake)

lemma rt_thread_resume_sel [simp]:
  "current (snd (rt_thread_resume t s)) = current s" "lock_nest (snd (rt_thread_resume t s)) = lock_nest s"
  "rt_tick (snd (rt_thread_resume t s)) = rt_tick s" "sems (snd (rt_thread_resume t s)) = sems s"
  "mutexes (snd (rt_thread_resume t s)) = mutexes s" "events (snd (rt_thread_resume t s)) = events s"
  "mailboxes (snd (rt_thread_resume t s)) = mailboxes s" "queues (snd (rt_thread_resume t s)) = queues s" "mempools (snd (rt_thread_resume t s)) = mempools s" "block_words (snd (rt_thread_resume t s)) = block_words s"
  "timers (snd (rt_thread_resume t s)) = timers s"
  "is_thread u (snd (rt_thread_resume t s)) = is_thread u s" "is_timer x (snd (rt_thread_resume t s)) = is_timer x s"
  "error (threads (snd (rt_thread_resume t s)) u) = error (threads s u)"
  "event_set (threads (snd (rt_thread_resume t s)) u) = event_set (threads s u)"
  "event_info (threads (snd (rt_thread_resume t s)) u) = event_info (threads s u)"
  "current_priority (threads (snd (rt_thread_resume t s)) u) = current_priority (threads s u)"
  "priority_ok (snd (rt_thread_resume t s)) = priority_ok s"
  by (simp_all add: rt_thread_resume_def Let_def)

lemma rt_thread_resume_woken:
  assumes "thread_ok t s" "state_of s t = 2"
  shows "fst (rt_thread_resume t s) = 0" "kpanic (snd (rt_thread_resume t s)) = kpanic s"
    "state_of (snd (rt_thread_resume t s)) u
       = (if u = t then (if current s = Some t then 3 else 1) else state_of s u)"
    "tlists (snd (rt_thread_resume t s)) = (if current s = Some t then list_remove t (tlists s)
       else list_insert_before (Ready (current_priority (threads s t))) t (list_remove t (tlists s)))"
    "timer_flag (Thread_timer t) (snd (rt_thread_resume t s)) AND 1 = 0"
  using assms timer_stopped [of "Thread_timer t" "upd_tlists (list_remove t) s"]
  by (simp_all add: rt_thread_resume_def Let_def thread_ok_def insert_thread_state insert_thread_lists
      timer_flag_def)

lemma suspended_thread_ok:
  assumes ok: "sched_ok {} s" and st: "state_of s t \<in> {1, 3}"
  shows "sched_ok {} (set_state t 2 (rt_schedule_remove_thread t s))"
    "detached t (tlists (set_state t 2 (rt_schedule_remove_thread t s)))"
proof -
  have p: "priority_ok s t" using sched_okD(9) [OF ok, of t] st by auto
  note r = rt_schedule_remove_thread_ok [OF ok, of t]
  then have r: "sched_ok {t} (rt_schedule_remove_thread t s)" "detached t (tlists (rt_schedule_remove_thread t s))"
    using p by (auto simp: removable_def)
  let ?s = "set_state t 2 (rt_schedule_remove_thread t s)"
  have "sched_ok {t} ?s" using r by (intro sched_ok_set_state) auto
  then show "sched_ok {} ?s" using sched_ok_settle [of t "{}" ?s] r(2) p by (simp add: state_of_set_state)
  show "detached t (tlists ?s)" using r(2) by simp
qed

lemma rt_thread_suspend_done:
  assumes ok: "sched_ok {} s" and t: "thread_ok t s" and st: "state_of s t \<in> {1, 3}"
  shows "rt_thread_suspend t s
    = (0, snd (rt_timer_stop (Thread_timer t) (set_state t 2 (rt_schedule_remove_thread t s))))"
  using t st sched_okD(7) [OF ok, of t] by (auto simp: rt_thread_suspend_def thread_ok_def rt_thread_self_def Let_def)

lemma rt_thread_suspend_ok: "sched_ok {} s \<Longrightarrow> sched_ok {} (snd (rt_thread_suspend t s))"
  using suspended_thread_ok(1) [of s t] by (auto simp: rt_thread_suspend_def Let_def)

lemma rt_thread_suspend_facts:
  assumes ok: "sched_ok {} s" and t: "thread_ok t s" and st: "state_of s t \<in> {1, 3}"
  defines "s' \<equiv> snd (rt_thread_suspend t s)"
  shows "sched_ok {} s'" "kpanic s' = kpanic s" "state_of s' u = (if u = t then 2 else state_of s u)"
    "tlists s' = list_remove t (tlists s)" "timer_flag (Thread_timer t) s' AND 1 = 0"
    "current s' = current s" "thread_ok u s' = thread_ok u s"
proof -
  note d = rt_thread_suspend_done [OF ok t st]
  show "sched_ok {} s'" using rt_thread_suspend_ok [OF ok] by (simp add: s'_def)
  show "timer_flag (Thread_timer t) s' AND 1 = 0"
    using timer_stopped [of "Thread_timer t"] t by (simp add: s'_def d thread_ok_def)
  show "kpanic s' = kpanic s" "state_of s' u = (if u = t then 2 else state_of s u)"
    "tlists s' = list_remove t (tlists s)" "current s' = current s" "thread_ok u s' = thread_ok u s"
    using t by (simp_all add: s'_def d thread_ok_def state_of_set_state)
qed

text \<open>
  \<^verbatim>\<open>rt_thread_suspend\<close> and \<^verbatim>\<open>rt_thread_resume\<close> keep the scheduler invariant and run into no
  assertion.  Suspending takes a ready or the running thread out of every queue, marks it
  suspended and stops its timer; resuming takes a suspended thread out of whatever it waits for,
  stops its timer and puts it last in the ready queue of its priority (the current thread is marked
  running again instead).  In any other state both answer \<^verbatim>\<open>-RT_ERROR\<close> and change nothing.
\<close>

theorem thread_suspend_resume:
  assumes "sched_ok {} s" "thread_ok t s"
  shows "(case rt_thread_suspend t s of (e, s') \<Rightarrow> sched_ok {} s' \<and> kpanic s' = kpanic s
      \<and> (if state_of s t \<in> {RT_THREAD_READY, RT_THREAD_RUNNING}
         then e = RT_EOK \<and> state_of s' t = RT_THREAD_SUSPEND \<and> detached t (tlists s')
           \<and> timer_flag (Thread_timer t) s' AND 1 = 0
         else e = - RT_ERROR \<and> s' = s))
    \<and> (case rt_thread_resume t s of (e, s') \<Rightarrow> sched_ok {} s' \<and> kpanic s' = kpanic s
      \<and> (if state_of s t = RT_THREAD_SUSPEND
         then e = RT_EOK \<and> timer_flag (Thread_timer t) s' AND 1 = 0
           \<and> (if current s = Some t then state_of s' t = RT_THREAD_RUNNING \<and> detached t (tlists s')
              else state_of s' t = RT_THREAD_READY
                \<and> tlists s' (Ready (current_priority (threads s t)))
                    = tlists s (Ready (current_priority (threads s t))) @ [t])
         else e = - RT_ERROR \<and> s' = s))"
    (is "(case ?a of (e, s') \<Rightarrow> ?P e s') \<and> (case ?b of (e, s') \<Rightarrow> ?Q e s')")
proof -
  have "?P (fst ?a) (snd ?a)"
  proof (cases "state_of s t \<in> {1, 3}")
    case True
    then show ?thesis using rt_thread_suspend_facts [OF assms True] rt_thread_suspend_done [OF assms True] by simp
  next
    case False
    then show ?thesis using assms by (simp add: rt_thread_suspend_def thread_ok_def)
  qed
  moreover have "?Q (fst ?b) (snd ?b)"
  proof (cases "state_of s t = 2")
    case True
    have "t \<notin> set (tlists s (Ready p))" for p using not_in_ready [OF assms(1)] True by simp
    then show ?thesis
      using rt_thread_resume_woken [OF assms(2) True] rt_thread_resume_ok [OF assms(1), of t] True
      by (simp add: list_insert_before_def list_remove_def detached_def)
  next
    case False
    then show ?thesis using assms by (simp add: rt_thread_resume_def thread_ok_def)
  qed
  ultimately show ?thesis by (simp add: case_prod_beta)
qed

section \<open>Starting and closing\<close>

lemma init_detached: "sched_ok X s \<Longrightarrow> t \<notin> X \<Longrightarrow> state_of s t = 0 \<Longrightarrow> detached t (tlists s)"
  unfolding detached_def by (metis sched_okD(5) queue_state_not_running(2))

lemma upd_thread_merge: "upd_thread t g (upd_thread t f s) = upd_thread t (\<lambda>x. g (f x)) s"
  by (simp add: upd_thread_def)

lemma rt_thread_timeout_ok:
  assumes ok: "sched_ok {} s" and c: "current s = Some c" and t: "thread_ok t s" "state_of s t = 2"
  defines "s' \<equiv> rt_thread_timeout t s"
  shows "sched_ok {} s'" "kpanic s' = kpanic s" "state_of s' t \<in> {1, 3}" "error (threads s' t) = - RT_ETIMEOUT"
    "(\<forall>p. q \<noteq> Ready p) \<Longrightarrow> tlists s' q = removeAll t (tlists s q)" "current s' \<noteq> None"
proof -
  let ?s1 = "upd_thread t (\<lambda>x. x\<lparr>error := - RT_ETIMEOUT\<rparr>) s"
  let ?s3 = "rt_schedule_insert_thread t (upd_tlists (list_remove t) ?s1)"
  have st: "state_of ?s1 = state_of s" by (auto simp: state_of_def)
  have "sched_ok {} ?s1"
    unfolding sched_ok_def using ok st by (auto simp: sched_ok_def priority_ok_def)
  then have ok3: "sched_ok {} ?s3" using sched_ok_wake(2) [of "{}" ?s1 t] t(2) st by simp
  have c3: "current ?s3 = Some c" using c by simp
  have s': "s' = rt_schedule ?s3" using t by (simp add: s'_def rt_thread_timeout_def Let_def thread_ok_def)
  show "sched_ok {} s'" "kpanic s' = kpanic s" "current s' \<noteq> None"
    unfolding s' using rt_schedule_ok [OF ok3 c3] by simp_all
  show "state_of s' t \<in> {1, 3}"
    using rt_schedule_state [OF ok3 c3, of t] unfolding s' by (auto simp: insert_thread_state)
  show "error (threads s' t) = - RT_ETIMEOUT" unfolding s' by simp
  show "(\<forall>p. q \<noteq> Ready p) \<Longrightarrow> tlists s' q = removeAll t (tlists s q)"
    using rt_schedule_waiting [OF ok3 c3, of q] unfolding s'
    by (simp add: insert_thread_lists list_insert_before_def list_remove_def)
qed

lemma rt_thread_startup_ok:
  assumes ok: "sched_ok {} s" and c: "current s = Some c" and t: "thread_ok t s" "state_of s t = 0"
    and p: "init_priority (threads s t) < 32"
  defines "s' \<equiv> snd (rt_thread_startup t s)"
  shows "sched_ok {} s'" "kpanic s' = kpanic s" "state_of s' t \<in> {1, 3}"
    "current_priority (threads s' t) = init_priority (threads s t)" "current s' \<noteq> None"
proof -
  let ?f = "\<lambda>x. x\<lparr>current_priority := init_priority x, number_mask := priority_mask (init_priority x), stat := 2\<rparr>"
  let ?s3 = "upd_thread t ?f s"
  let ?s4 = "snd (rt_thread_resume t ?s3)"
  have d: "detached t (tlists s)" by (rule init_detached [OF ok _ t(2)]) simp
  have "sched_ok {t} ?s3" using sched_ok_mono [OF ok] d by (intro sched_ok_upd_thread) auto
  then have ok3: "sched_ok {} ?s3"
    using sched_ok_settle [of t "{}" ?s3] d p by (simp add: state_of_upd_thread priority_ok_def)
  have t3: "thread_ok t ?s3" "state_of ?s3 t = 2" using t by (simp_all add: thread_ok_def state_of_upd_thread)
  note w = rt_thread_resume_woken [OF t3]
  have ok4: "sched_ok {} ?s4" using rt_thread_resume_ok [OF ok3] by simp
  have c4: "current ?s4 = Some c" using c by simp
  have s': "s' = rt_schedule ?s4"
    using t c4 by (simp add: s'_def rt_thread_startup_def Let_def thread_ok_def upd_thread_merge rt_thread_self_def)
  show "sched_ok {} s'" "kpanic s' = kpanic s" "current s' \<noteq> None"
    using rt_schedule_ok [OF ok4 c4] w(2) unfolding s' by simp_all
  show "state_of s' t \<in> {1, 3}" using rt_schedule_state [OF ok4 c4, of t] w(3) [of t] unfolding s' by auto
  show "current_priority (threads s' t) = init_priority (threads s t)" unfolding s' by simp
qed

lemma rt_timer_detach_sel [simp]:
  "threads (snd (rt_timer_detach x s)) = threads s" "tlists (snd (rt_timer_detach x s)) = tlists s"
  "current (snd (rt_timer_detach x s)) = current s" "state_of (snd (rt_timer_detach x s)) = state_of s"
  "sched_ok X (snd (rt_timer_detach x s)) = sched_ok X s"
  by (simp_all add: rt_timer_detach_def)

lemma closed_thread_ok:
  assumes ok: "sched_ok {} s" and t: "thread_ok t s" and st: "state_of s t \<in> {0, 1, 2, 3}"
  defines "s3 \<equiv> upd_thread t (\<lambda>x. x\<lparr>stat := RT_THREAD_CLOSE\<rparr>) (snd (rt_timer_detach (Thread_timer t)
      (if state_of s t \<noteq> RT_THREAD_INIT then rt_schedule_remove_thread t s else s)))"
  shows "sched_ok {} s3" "detached t (tlists s3)" "state_of s3 t = 4" "kpanic s3 = kpanic s"
    "detached (Thread_timer t) (tmlists s3)" "current s3 = current s" "cleanup (threads s3 t) = cleanup (threads s t)"
    "tlists s3 = list_remove t (tlists s)" "obj_type (objs s3 (Thr t)) = obj_type (objs s (Thr t))"
proof -
  let ?s1 = "if state_of s t \<noteq> RT_THREAD_INIT then rt_schedule_remove_thread t s else s"
  have "sched_ok {t} ?s1 \<and> detached t (tlists ?s1) \<and> tlists ?s1 = list_remove t (tlists s)"
  proof (cases "state_of s t = 0")
    case True
    then show ?thesis using init_detached [OF ok _ True] sched_ok_mono [OF ok] by simp
  next
    case False
    then have "priority_ok s t" using st sched_okD(9) [OF ok, of t] by simp
    then show ?thesis using rt_schedule_remove_thread_ok [OF ok, of t] False by (simp add: removable_def)
  qed
  then have 1: "sched_ok {t} ?s1" "detached t (tlists ?s1)" "tlists ?s1 = list_remove t (tlists s)" by simp_all
  then show "detached t (tlists s3)" "tlists s3 = list_remove t (tlists s)" by (simp_all add: s3_def)
  show st: "state_of s3 t = 4" by (simp add: s3_def state_of_upd_thread)
  have "sched_ok {t} s3" unfolding s3_def using 1 by (intro sched_ok_upd_thread) simp_all
  then show "sched_ok {} s3" using sched_ok_settle [of t "{}" s3] \<open>detached t (tlists s3)\<close> st by simp
  have v: "is_timer (Thread_timer t) ?s1" "rt_object_is_systemobject (Tmr (Thread_timer t)) ?s1"
    using t by (simp_all add: thread_ok_def)
  then show "kpanic s3 = kpanic s" "detached (Thread_timer t) (tmlists s3)"
    by (simp_all add: s3_def rt_timer_detach_def)
  show "current s3 = current s" "cleanup (threads s3 t) = cleanup (threads s t)" by (simp_all add: s3_def)
  show "obj_type (objs s3 (Thr t)) = obj_type (objs s (Thr t))"
    using v by (simp add: s3_def rt_timer_detach_def rt_object_detach_def)
qed

lemma rt_timer_detach_upd_thread:
  "snd (rt_timer_detach x (upd_thread t f s)) = upd_thread t f (snd (rt_timer_detach x s))"
  by (simp add: rt_timer_detach_def rt_object_detach_def upd_thread_def upd_obj_def upd_containers_def
      timer_remove_def panic_def is_timer_def rt_object_get_type_def rt_object_is_systemobject_def)

lemma rt_thread_exit_ok:
  assumes ok: "sched_ok {} s" and c: "current s = Some t" and t: "thread_ok t s" and st: "state_of s t = 3"
  defines "s' \<equiv> rt_thread_exit s"
  shows "sched_ok {} s'" "kpanic s' = kpanic s" "state_of s' t = 4" "detached (Thread_timer t) (tmlists s')"
    "tlists s' Defunct = (if rt_object_is_systemobject (Thr t) s \<and> cleanup (threads s t) = None
       then tlists s Defunct else t # tlists s Defunct)" "current s' \<noteq> None"
proof -
  let ?s2 = "upd_thread t (\<lambda>x. x\<lparr>stat := RT_THREAD_CLOSE\<rparr>) (snd (rt_timer_detach (Thread_timer t)
      (if state_of s t \<noteq> RT_THREAD_INIT then rt_schedule_remove_thread t s else s)))"
  have "state_of s t \<in> {0, 1, 2, 3}" using st by simp
  note cl = closed_thread_ok [OF ok t this]
  have d: "list_remove t (tlists s) = tlists s" using running_detached [OF ok _ st] by simp
  let ?b = "rt_object_is_systemobject (Thr t) s \<and> cleanup (threads s t) = None"
  let ?s3 = "if ?b then rt_object_detach (Thr t) ?s2 else upd_tlists (list_insert_after Defunct t) ?s2"
  have s': "s' = rt_schedule ?s3"
    using c st cl(7,9)
    by (simp add: s'_def rt_thread_exit_def rt_thread_self_def Let_def rt_timer_detach_upd_thread
        rt_object_is_systemobject_def [of "Thr t"])
  have ok3: "sched_ok {} ?s3" using cl(1-3) sched_ok_defunct [of "{}" ?s2 t] by simp
  have c3: "current ?s3 = Some t" using c cl(6) by simp
  have st3: "state_of ?s3 t = 4" using cl(3) by simp
  show "sched_ok {} s'" "current s' \<noteq> None" using rt_schedule_ok [OF ok3 c3] unfolding s' by simp_all
  show "kpanic s' = kpanic s" using rt_schedule_ok(2) [OF ok3 c3] cl(4) unfolding s' by (simp split: if_splits)
  show "state_of s' t = 4" using rt_schedule_state [OF ok3 c3, of t] st3 unfolding s' by auto
  show "detached (Thread_timer t) (tmlists s')" using cl(5) unfolding s' by simp
  have "tlists s' Defunct = tlists ?s3 Defunct" unfolding s' by (rule rt_schedule_waiting [OF ok3 c3]) simp
  then show "tlists s' Defunct = (if ?b then tlists s Defunct else t # tlists s Defunct)"
    using cl(8) d by (simp add: list_insert_after_def split: if_splits)
qed

text \<open>
  C4.  Starting an initialised thread gives it its initial priority and makes it ready or running.
  Deleting, detaching or exiting closes a thread: it leaves every queue and timer list, and is put
  at the head of the defunct list for the idle thread unless it is static without a clean-up
  function.  A timeout wakes a suspended thread with error \<^verbatim>\<open>-RT_ETIMEOUT\<close> and takes it out of
  what it waited for.  All keep the scheduler invariant and run into no assertion.
\<close>

theorem thread_lifecycle:
  assumes ok: "sched_ok {} s" and c: "current s = Some c" and t: "thread_ok t s"
    and st: "state_of s t \<in> {RT_THREAD_INIT, RT_THREAD_READY, RT_THREAD_SUSPEND, RT_THREAD_RUNNING}"
    and p: "init_priority (threads s t) < 32"
  defines "closed \<equiv> \<lambda>s' dead. sched_ok {} s' \<and> kpanic s' = kpanic s \<and> state_of s' t = RT_THREAD_CLOSE
      \<and> detached (Thread_timer t) (tmlists s')
      \<and> tlists s' Defunct = (if dead then t # tlists s Defunct else tlists s Defunct)"
  defines "woken \<equiv> \<lambda>s'. sched_ok {} s' \<and> kpanic s' = kpanic s \<and> state_of s' t \<in> {RT_THREAD_READY, RT_THREAD_RUNNING}"
  shows "(if rt_object_is_systemobject (Thr t) s
          then closed (snd (rt_thread_detach t s)) (cleanup (threads s t) \<noteq> None)
          else closed (snd (rt_thread_delete t s)) True)
    \<and> (if t = c \<and> state_of s t = RT_THREAD_RUNNING
       then closed (rt_thread_exit s) (\<not> (rt_object_is_systemobject (Thr t) s \<and> cleanup (threads s t) = None)) else True)
    \<and> (if state_of s t = RT_THREAD_INIT
       then woken (snd (rt_thread_startup t s))
         \<and> current_priority (threads (snd (rt_thread_startup t s)) t) = init_priority (threads s t) else True)
    \<and> (if state_of s t = RT_THREAD_SUSPEND
       then woken (rt_thread_timeout t s) \<and> error (threads (rt_thread_timeout t s) t) = - RT_ETIMEOUT
         \<and> t \<notin> set (tlists (rt_thread_timeout t s) (Suspend r)) else True)"
proof -
  note cl = closed_thread_ok [OF ok t st]
  have dq: "t \<notin> set (tlists s Defunct)" using sched_okD(5) [OF ok, of t Defunct] st by auto
  have v: "is_thread t s" using t by (simp add: thread_ok_def)
  have del: "closed (snd (rt_thread_delete t s)) True" if "\<not> rt_object_is_systemobject (Thr t) s"
    using that v cl sched_ok_defunct [OF cl(1-3)] dq
    by (simp add: closed_def rt_thread_delete_def Let_def list_insert_after_def list_remove_def)
  have det: "closed (snd (rt_thread_detach t s)) (cleanup (threads s t) \<noteq> None)" if "rt_object_is_systemobject (Thr t) s"
    using that v cl sched_ok_defunct [of "{}" "rt_object_detach (Thr t) _" t] dq
    by (simp add: closed_def rt_thread_detach_def Let_def list_insert_after_def list_remove_def)
  have ex: "closed (rt_thread_exit s) (\<not> (rt_object_is_systemobject (Thr t) s \<and> cleanup (threads s t) = None))"
    if "t = c \<and> state_of s t = 3"
  proof -
    have "current s = Some t" "state_of s t = 3" using that c by auto
    from rt_thread_exit_ok [OF ok this(1) t this(2)] show ?thesis by (simp add: closed_def)
  qed
  have su: "woken (snd (rt_thread_startup t s))
      \<and> current_priority (threads (snd (rt_thread_startup t s)) t) = init_priority (threads s t)" if "state_of s t = 0"
    using rt_thread_startup_ok [OF ok c t that p] by (simp add: woken_def)
  have ti: "woken (rt_thread_timeout t s) \<and> error (threads (rt_thread_timeout t s) t) = - RT_ETIMEOUT
      \<and> t \<notin> set (tlists (rt_thread_timeout t s) (Suspend r))" if "state_of s t = 2"
    using rt_thread_timeout_ok(1-4) [OF ok c t that] rt_thread_timeout_ok(5) [OF ok c t that, of "Suspend r"] by (simp add: woken_def)
  have if_intro: "(b \<Longrightarrow> x) \<Longrightarrow> (\<not> b \<Longrightarrow> y) \<Longrightarrow> if b then x else y" for b x y by simp
  show ?thesis by (intro conjI if_intro) (use del det ex su ti in blast)+
qed

section \<open>A concrete system\<close>

text \<open>Thread 1 runs, thread 2 is ready with a higher priority, thread 3 waits for semaphore 7.\<close>

definition demo_system :: kernel where
  "demo_system = upd_tlists (list_insert_before (Suspend (Sem 7)) 3)
     (upd_thread 3 (\<lambda>x. x\<lparr>stat := 2, current_priority := 5, init_priority := 5, number_mask := 32\<rparr>)
       (demo_kernel\<lparr>objs := (\<lambda>r. \<lparr>obj_name = [], obj_type =
          (case r of Thr _ \<Rightarrow> 0x81 | Tmr _ \<Rightarrow> 0x8a | Sem _ \<Rightarrow> 0x82 | Mtx _ \<Rightarrow> 0x83 | Evt _ \<Rightarrow> 0x84
           | Mbx _ \<Rightarrow> 0x85 | Msq _ \<Rightarrow> 0x86 | Mpl _ \<Rightarrow> 0x88 | Dev _ \<Rightarrow> 0x89), obj_flag = 0\<rparr>)\<rparr>))"

lemma demo_system_ok: "sched_ok {} demo_system" "thread_ok t demo_system" "current demo_system = Some 1"
  "state_of demo_system t = (if t = 1 then 3 else if t = 2 then 1 else if t = 3 then 2 else 0)"
  "current_priority (threads demo_system t) = (if t = 1 then 10 else if t = 2 \<or> t = 3 then 5 else 0)"
  "init_priority (threads demo_system t) = (if t = 1 then 10 else if t = 2 \<or> t = 3 then 5 else 0)"
  "tlists demo_system q = (if q = Ready 5 then [2] else if q = Suspend (Sem 7) then [3] else [])"
proof -
  show tl: "tlists demo_system q = (if q = Ready 5 then [2] else if q = Suspend (Sem 7) then [3] else [])" for q
    by (simp add: demo_system_def demo_kernel_def list_insert_before_def)
  show st: "state_of demo_system t = (if t = 1 then 3 else if t = 2 then 1 else if t = 3 then 2 else 0)" for t
    by (simp add: demo_system_def demo_kernel_def blank_kernel_def blank_thread_def state_of_def)
  show cp: "current_priority (threads demo_system t) = (if t = 1 then 10 else if t = 2 \<or> t = 3 then 5 else 0)"
    "init_priority (threads demo_system t) = (if t = 1 then 10 else if t = 2 \<or> t = 3 then 5 else 0)" for t
    by (simp_all add: demo_system_def demo_kernel_def blank_kernel_def blank_thread_def)
  show cu: "current demo_system = Some 1" by (simp add: demo_system_def demo_kernel_def)
  show "thread_ok t demo_system"
    by (simp add: thread_ok_def is_thread_def is_timer_def rt_object_get_type_def rt_object_is_systemobject_def
        demo_system_def)
  have g: "(32 :: u32) = priority_mask 5" "(1024 :: u32) = priority_mask 10"
    by (simp_all add: priority_mask_def push_bit_eq_mult)
  have pr: "t \<in> {1, 2, 3} \<Longrightarrow> priority_ok demo_system t" for t
    unfolding priority_ok_def cp
    by (auto simp: demo_system_def demo_kernel_def blank_kernel_def blank_thread_def g)
  have rg: "ready_group demo_system = priority_mask 5" by (simp add: demo_system_def demo_kernel_def g)
  show "sched_ok {} demo_system"
    unfolding sched_ok_def tl st cu rg
    using pr by (auto simp: store_ok_def tl cp split: if_splits)
qed

theorem thread_suspend_resume_witness:
  "state_of (snd (rt_thread_suspend 2 demo_system)) 2 = 2
   \<and> tlists (snd (rt_thread_resume 3 demo_system)) (Ready 5) = [2, 3]"
  using thread_suspend_resume [OF demo_system_ok(1,2), of 2] thread_suspend_resume [OF demo_system_ok(1,2), of 3]
  by (auto simp: demo_system_ok case_prod_beta)

theorem thread_lifecycle_witness:
  "state_of (rt_thread_exit demo_system) 1 = 4 \<and> state_of (snd (rt_thread_startup 4 demo_system)) 4 \<in> {1, 3}
   \<and> error (threads (rt_thread_timeout 3 demo_system) 3) = - 2"
proof -
  note l = thread_lifecycle [OF demo_system_ok(1,3,2)]
  show ?thesis using l [of 1] l [of 4] l [of 3] by (simp add: demo_system_ok(4,6))
qed

end
