(* ===== verification/RT_Clock.thy ===== *)
theory RT_Clock
  imports RT_Thread
begin

text \<open>
  Time: starting and expiry of timers (\<^verbatim>\<open>src/timer.c\<close>), the tick (\<^verbatim>\<open>src/clock.c\<close>), sleeping
  (\<^verbatim>\<open>src/thread.c\<close>) and interrupt nesting (\<^verbatim>\<open>src/irq.c\<close>).  The timeout functions of the
  application are a parameter \<open>cb\<close>: from the function and its argument to the effect on the kernel.
\<close>

section \<open>Operations\<close>

definition rt_tick_get :: "kernel \<Rightarrow> u32" where
  "rt_tick_get s = rt_tick s"

definition rt_tick_set :: "u32 \<Rightarrow> kernel \<Rightarrow> kernel" where
  "rt_tick_set n s = s\<lparr>rt_tick := n\<rparr>"

definition rt_interrupt_enter :: "kernel \<Rightarrow> kernel" where
  "rt_interrupt_enter s = s\<lparr>interrupt_nest := interrupt_nest s + 1\<rparr>"

definition rt_interrupt_leave :: "kernel \<Rightarrow> kernel" where
  "rt_interrupt_leave s = s\<lparr>interrupt_nest := interrupt_nest s - 1\<rparr>"

definition rt_interrupt_get_nest :: "kernel \<Rightarrow> u8" where
  "rt_interrupt_get_nest s = interrupt_nest s"

text \<open>The static control block of the thread that runs the soft timers.\<close>

definition timer_thread :: nat where
  "timer_thread = 0x20000000"

definition soft_timer :: "timer_ref \<Rightarrow> kernel \<Rightarrow> bool" where
  "soft_timer t s \<longleftrightarrow> timer_flag t s AND RT_TIMER_FLAG_SOFT_TIMER \<noteq> 0"

definition timer_arm :: "timer_ref \<Rightarrow> kernel \<Rightarrow> kernel" where
  "timer_arm t s =
     (let s2 = upd_timer t (\<lambda>x. x\<lparr>timeout_tick := rt_tick_get s + tmr_init_tick x\<rparr>) s;
          q = (if soft_timer t s2 then Soft_timers else Hard_timers);
          s3 = s2\<lparr>random_nr := random_nr s2 + 1,
                  tmlists := (tmlists s2)(q := timer_insert (\<lambda>x. timeout_tick (timers s2 x)) t (tmlists s2 q))\<rparr>
      in upd_flag t (\<lambda>f. f OR RT_TIMER_FLAG_ACTIVATED) s3)"

definition rt_timer_start :: "timer_ref \<Rightarrow> kernel \<Rightarrow> rt_err_t \<times> kernel" where
  "rt_timer_start t s =
     (if \<not> is_timer t s then (RT_EOK, panic s)
      else
        (let s1 = upd_flag t (\<lambda>f. f AND NOT RT_TIMER_FLAG_ACTIVATED) (timer_remove t s)
         in if \<not> tmr_init_tick (timers s1 t) < RT_TICK_HALF then (RT_EOK, panic s1)
            else
              (let s4 = timer_arm t s1
               in (RT_EOK,
                   if soft_timer t s4 \<and> state_of s4 timer_thread = RT_THREAD_SUSPEND
                   then rt_schedule (snd (rt_thread_resume timer_thread s4)) else s4))))"

definition run_timeout :: "(nat \<Rightarrow> nat \<Rightarrow> kernel \<Rightarrow> kernel) \<Rightarrow> timer_ref \<Rightarrow> kernel \<Rightarrow> kernel" where
  "run_timeout cb t s =
     (case timeout_func (timers s t) of
        Thread_timeout \<Rightarrow> rt_thread_timeout (tmr_parameter (timers s t)) s
      | Callback f \<Rightarrow> cb f (tmr_parameter (timers s t)) s)"

definition timer_again :: "timer_ref \<Rightarrow> kernel \<Rightarrow> kernel" where
  "timer_again t s =
     (let off = upd_flag t (\<lambda>f. f AND NOT RT_TIMER_FLAG_ACTIVATED) s
      in if timer_flag t s AND RT_TIMER_FLAG_PERIODIC \<noteq> 0 \<and> timer_flag t s AND RT_TIMER_FLAG_ACTIVATED \<noteq> 0
         then snd (rt_timer_start t off) else off)"

definition timer_fire :: "(nat \<Rightarrow> nat \<Rightarrow> kernel \<Rightarrow> kernel) \<Rightarrow> timer_ref \<Rightarrow> kernel \<Rightarrow> kernel" where
  "timer_fire cb t s = timer_again t (run_timeout cb t (timer_remove t s))"

partial_function (option) timer_check_loop ::
  "(nat \<Rightarrow> nat \<Rightarrow> kernel \<Rightarrow> kernel) \<Rightarrow> u32 \<Rightarrow> kernel \<Rightarrow> kernel option" where
  [code]: "timer_check_loop cb current_tick s =
     (case tmlists s Hard_timers of
        [] \<Rightarrow> Some s
      | t # _ \<Rightarrow>
          if current_tick - timeout_tick (timers s t) < RT_TICK_HALF
          then
            (let s1 = run_timeout cb t (timer_remove t s)
             in timer_check_loop cb (rt_tick_get s1) (timer_again t s1))
          else Some s)"

definition rt_timer_check :: "(nat \<Rightarrow> nat \<Rightarrow> kernel \<Rightarrow> kernel) \<Rightarrow> kernel \<Rightarrow> kernel option" where
  "rt_timer_check cb s = timer_check_loop cb (rt_tick_get s) s"

text \<open>
  The walk over the soft timers keeps a pointer \<open>n\<close> to the next node (\<open>None\<close> is the list head).
  The successor of a node that was unlinked in the meantime is the node itself.
\<close>

definition timer_succ :: "timer_ref \<Rightarrow> kernel \<Rightarrow> timer_ref option" where
  "timer_succ n s =
     (if n \<in> set (tmlists s Soft_timers)
      then (case tl (dropWhile (\<lambda>x. x \<noteq> n) (tmlists s Soft_timers)) of [] \<Rightarrow> None | x # _ \<Rightarrow> Some x)
      else Some n)"

partial_function (option) soft_check_loop ::
  "(nat \<Rightarrow> nat \<Rightarrow> kernel \<Rightarrow> kernel) \<Rightarrow> u32 \<Rightarrow> timer_ref option \<Rightarrow> kernel \<Rightarrow> kernel option" where
  [code]: "soft_check_loop cb current_tick n s =
     (case n of
        None \<Rightarrow> Some s
      | Some t \<Rightarrow>
          if current_tick - timeout_tick (timers s t) < RT_TICK_HALF
          then
            (let n' = timer_succ t s;
                 s1 = run_timeout cb t (rt_exit_critical (timer_remove t s));
                 s2 = timer_again t (rt_enter_critical s1)
             in soft_check_loop cb (rt_tick_get s1) n' s2)
          else Some s)"

definition rt_soft_timer_check :: "(nat \<Rightarrow> nat \<Rightarrow> kernel \<Rightarrow> kernel) \<Rightarrow> kernel \<Rightarrow> kernel option" where
  "rt_soft_timer_check cb s =
     (let s1 = rt_enter_critical s
      in case soft_check_loop cb (rt_tick_get s) (case tmlists s1 Soft_timers of [] \<Rightarrow> None | t # _ \<Rightarrow> Some t) s1 of
           None \<Rightarrow> None
         | Some s2 \<Rightarrow> Some (rt_exit_critical s2))"

definition rt_tick_increase :: "(nat \<Rightarrow> nat \<Rightarrow> kernel \<Rightarrow> kernel) \<Rightarrow> kernel \<Rightarrow> kernel option" where
  "rt_tick_increase cb s =
     (let s1 = s\<lparr>rt_tick := rt_tick s + 1\<rparr>
      in case rt_thread_self s1 of
           None \<Rightarrow> Some (panic s1)
         | Some c \<Rightarrow>
             (let s2 = upd_thread c (\<lambda>x. x\<lparr>remaining_tick := remaining_tick x - 1\<rparr>) s1;
                  s3 = (if remaining_tick (threads s2 c) = 0
                        then snd (rt_thread_yield (upd_thread c (\<lambda>x. x\<lparr>remaining_tick := init_tick x\<rparr>) s2))
                        else s2)
              in rt_timer_check cb s3))"

text \<open>Signed overflow is undefined, and \<open>None\<close> here.\<close>

definition rt_tick_from_millisecond :: "int \<Rightarrow> int option" where
  "rt_tick_from_millisecond ms =
     (if ms < 0 then Some (- 1)
      else if 1000 * ms + 999 \<ge> 2 ^ 31 then None
      else Some ((1000 * ms + 999) div 1000))"

text \<open>
  Sleeping is split where the thread loses the processor: \<open>rt_thread_sleep\<close> up to the reschedule,
  \<open>rt_thread_sleep_end\<close> from the moment the thread runs again.
\<close>

definition rt_thread_sleep :: "u32 \<Rightarrow> kernel \<Rightarrow> kernel" where
  "rt_thread_sleep n s =
     (case rt_thread_self s of
        None \<Rightarrow> panic s
      | Some t \<Rightarrow>
          if \<not> is_thread t s then panic s
          else
            (let s1 = snd (rt_thread_suspend t s);
                 s2 = snd (rt_timer_control (Thread_timer t) (Set_time n) s1)
             in rt_schedule (snd (rt_timer_start (Thread_timer t) s2))))"

definition rt_thread_sleep_end :: "nat \<Rightarrow> kernel \<Rightarrow> rt_err_t \<times> kernel" where
  "rt_thread_sleep_end t s =
     (RT_EOK,
      if error (threads s t) = - RT_ETIMEOUT then upd_thread t (\<lambda>x. x\<lparr>error := RT_EOK\<rparr>) s else s)"

definition rt_thread_delay :: "u32 \<Rightarrow> kernel \<Rightarrow> kernel" where
  "rt_thread_delay n s = rt_thread_sleep n s"

definition rt_thread_mdelay :: "int \<Rightarrow> kernel \<Rightarrow> kernel option" where
  "rt_thread_mdelay ms s =
     (case rt_tick_from_millisecond ms of None \<Rightarrow> None | Some k \<Rightarrow> Some (rt_thread_sleep (word_of_int k) s))"

text \<open>
  One round of the timer thread up to its soft timer check: whether it gave up the processor, and
  the state then.
\<close>

definition timer_thread_wait :: "kernel \<Rightarrow> bool \<times> kernel" where
  "timer_thread_wait s =
     (let next_timeout = rt_timer_list_next_timeout Soft_timers s
      in if next_timeout = RT_TICK_MAX
         then (case rt_thread_self s of
                 None \<Rightarrow> (True, panic s)
               | Some t \<Rightarrow> (True, rt_schedule (snd (rt_thread_suspend t s))))
         else if next_timeout - rt_tick_get s < RT_TICK_HALF
              then (True, rt_thread_delay (next_timeout - rt_tick_get s) s)
              else (False, s))"

definition rt_system_timer_thread_init :: "nat \<Rightarrow> nat \<Rightarrow> kernel \<Rightarrow> kernel" where
  "rt_system_timer_thread_init ent stack s =
     (let s1 = s\<lparr>tmlists := (tmlists s)(Soft_timers := [])\<rparr>;
          s2 = snd (rt_thread_init timer_thread ''timer'' ent 0 stack 1024 4 10 s1)
      in snd (rt_thread_startup timer_thread s2))"

section \<open>Starting a timer\<close>

abbreviation ticks_of :: "kernel \<Rightarrow> timer_ref \<Rightarrow> u32" where
  "ticks_of s \<equiv> \<lambda>x. timeout_tick (timers s x)"

definition timer_queue_of :: "timer_ref \<Rightarrow> kernel \<Rightarrow> timer_queue" where
  "timer_queue_of t s = (if soft_timer t s then Soft_timers else Hard_timers)"

text \<open>The timer lists are disjoint, hold timers of their kind, and list \<open>q\<close> is in order.\<close>

definition timers_ok :: "timer_queue \<Rightarrow> kernel \<Rightarrow> bool" where
  "timers_ok q s \<longleftrightarrow> store_ok (tmlists s) \<and> timer_order (rt_tick s) (ticks_of s) (tmlists s q)
     \<and> (\<forall>k. \<forall>t \<in> set (tmlists s k). is_timer t s \<and> k = timer_queue_of t s)"

lemma timers_okD:
  assumes "timers_ok q s"
  shows "store_ok (tmlists s)" "timer_order (rt_tick s) (ticks_of s) (tmlists s q)"
    "t \<in> set (tmlists s k) \<Longrightarrow> is_timer t s" "t \<in> set (tmlists s k) \<Longrightarrow> k = timer_queue_of t s"
  using assms unfolding timers_ok_def by blast+

lemma dist_ahead:
  assumes "(n :: u32) < 0x7fffffff"
  shows "dist now (now + n) = uint n" "in_window now (now + n)" "0 \<le> dist now (now + n)"
proof -
  have "uint n < 2 ^ 31 - 1" using assms by (simp add: word_less_def)
  moreover have "- (2 ^ 31) \<le> uint n" by (rule order_trans [OF _ uint_nonnegative]) simp
  ultimately have "sint n = uint n" by (simp add: sint_uint signed_take_bit_int_eq_self)
  then show "dist now (now + n) = uint n" "in_window now (now + n)" "0 \<le> dist now (now + n)"
    using \<open>uint n < 2 ^ 31 - 1\<close> order_trans [of "- 3" 0 "uint n"] by (simp_all add: dist_def in_window_def)
qed

lemma soft_timer_frame [simp]:
  "soft_timer x (upd_timer t f s) = soft_timer x s" "soft_timer x (timer_remove t s) = soft_timer x s"
  "soft_timer x (upd_flag t (\<lambda>f. f AND - 2) s) = soft_timer x s"
  "soft_timer x (upd_flag t (\<lambda>f. f OR 1) s) = soft_timer x s"
  "soft_timer x (s\<lparr>random_nr := n\<rparr>) = soft_timer x s" "soft_timer x (s\<lparr>tmlists := l\<rparr>) = soft_timer x s"
  by (simp_all add: soft_timer_def timer_flag_def upd_flag_def and.assoc bit.conj_disj_distrib2
      bit.conj_disj_distrib)

lemma sched_frame_soft [simp]:
  "soft_timer x (rt_schedule s) = soft_timer x s" "timer_flag x (rt_schedule s) = timer_flag x s"
  "soft_timer x (upd_thread t f s) = soft_timer x s" "timer_flag x (upd_thread t f s) = timer_flag x s"
  "soft_timer x (upd_tlists g s) = soft_timer x s" "timer_flag x (upd_tlists g s) = timer_flag x s"
  by (simp_all add: soft_timer_def timer_flag_def)

lemma timer_arm_sel [simp]:
  "rt_tick (timer_arm t s) = rt_tick s" "threads (timer_arm t s) = threads s" "tlists (timer_arm t s) = tlists s"
  "timers (timer_arm t s) = (timers s)(t := (timers s t)\<lparr>timeout_tick := rt_tick s + tmr_init_tick (timers s t)\<rparr>)"
  "tmlists (timer_arm t s) = (tmlists s)(timer_queue_of t s :=
     timer_insert ((ticks_of s)(t := rt_tick s + tmr_init_tick (timers s t))) t (tmlists s (timer_queue_of t s)))"
  "timer_flag x (timer_arm t s) = (if x = t then timer_flag t s OR 1 else timer_flag x s)"
  "is_timer x (timer_arm t s) = is_timer x s"
  "current (timer_arm t s) = current s" "lock_nest (timer_arm t s) = lock_nest s"
  "kpanic (timer_arm t s) = kpanic s" "sched_ok X (timer_arm t s) = sched_ok X s"
  "state_of (timer_arm t s) = state_of s" "is_thread u (timer_arm t s) = is_thread u s"
  by (simp_all add: timer_arm_def Let_def timer_queue_of_def rt_tick_get_def fun_upd_def if_distrib
      is_timer_def rt_object_get_type_def is_thread_def state_of_def timer_flag_def upd_flag_def fun_eq_iff
      cong: if_cong)

lemma soft_timer_arm [simp]: "soft_timer x (timer_arm t s) = soft_timer x s"
  by (simp add: timer_arm_def Let_def)

lemma flag_bits:
  "(f AND - 2) OR 1 = (f OR 1 :: u8)" "(f OR 1) AND 1 \<noteq> (0 :: u8)" "(f AND - 2) AND 1 = (0 :: u8)"
  "(f OR 1) AND 2 = (f AND 2 :: u8)" "(f AND - 2) AND 2 = (f AND 2 :: u8)"
proof -
  have "(f AND NOT 1) OR 1 = (f OR 1 :: u8)" by (rule bit_word_eqI) (auto simp: bit_simps)
  then show "(f AND - 2) OR 1 = (f OR 1 :: u8)" by simp
  show "(f AND - 2) AND 1 = (0 :: u8)" "(f AND - 2) AND 2 = (f AND 2 :: u8)"
    by (simp_all add: and.assoc)
  have "(f OR 1) AND 1 = (1 :: u8)" by (rule bit_word_eqI) (auto simp: bit_simps)
  then show "(f OR 1) AND 1 \<noteq> (0 :: u8)" by simp
  show "(f OR 1) AND 2 = (f AND 2 :: u8)" by (simp add: bit.conj_disj_distrib2)
qed

text \<open>The state of a kernel after a timer was armed: exactly one list changes, and stays in order.\<close>

definition started :: "timer_ref \<Rightarrow> kernel \<Rightarrow> kernel" where
  "started t s = timer_arm t (upd_flag t (\<lambda>f. f AND - 2) (timer_remove t s))"

lemma timer_queue_frame [simp]:
  "timer_queue_of x (upd_flag t (\<lambda>f. f AND - 2) s) = timer_queue_of x s"
  "timer_queue_of x (timer_remove t s) = timer_queue_of x s"
  "timer_queue_of x (timer_arm t s) = timer_queue_of x s" "timer_queue_of x (started t s) = timer_queue_of x s"
  by (simp_all add: timer_queue_of_def started_def)

lemma started_sel [simp]:
  "rt_tick (started t s) = rt_tick s" "threads (started t s) = threads s" "tlists (started t s) = tlists s"
  "timers (started t s) = (timers s)(t := (timers s t)\<lparr>timeout_tick := rt_tick s + tmr_init_tick (timers s t)\<rparr>)"
  "timer_flag x (started t s) = (if x = t then timer_flag t s OR 1 else timer_flag x s)"
  "soft_timer x (started t s) = soft_timer x s" "is_timer x (started t s) = is_timer x s"
  "current (started t s) = current s" "lock_nest (started t s) = lock_nest s"
  "kpanic (started t s) = kpanic s" "sched_ok X (started t s) = sched_ok X s"
  "state_of (started t s) = state_of s" "is_thread u (started t s) = is_thread u s"
  by (simp_all add: started_def flag_bits)

lemma thread_ok_started [simp]: "thread_ok u (started t s) = thread_ok u s"
  by (simp add: thread_ok_def) (simp add: rt_object_is_systemobject_def started_def timer_arm_def Let_def upd_flag_def)

lemma rt_timer_start_eq:
  assumes "is_timer t s" "tmr_init_tick (timers s t) < 0x7fffffff"
  shows "rt_timer_start t s = (0, if soft_timer t s \<and> state_of s timer_thread = 2
    then rt_schedule (snd (rt_thread_resume timer_thread (started t s))) else started t s)"
  using assms by (simp add: rt_timer_start_def Let_def started_def [symmetric])

lemma timer_order_cong:
  "(\<And>x. x \<in> set xs \<Longrightarrow> f x = g x) \<Longrightarrow> timer_order now f xs = timer_order now g xs"
  by (auto simp: timer_order_def cong: map_cong)

lemma timer_order_removeAll: "timer_order now f xs \<Longrightarrow> timer_order now f (removeAll t xs)"
  using sorted_filter [of "\<lambda>t. dist now (f t)" xs "\<lambda>x. t \<noteq> x"]
  by (auto simp: timer_order_def removeAll_filter_not_eq)

lemma started_lists:
  assumes ok: "timers_ok q s" and q: "q = timer_queue_of t s" and n: "tmr_init_tick (timers s t) < 0x7fffffff"
  defines "now \<equiv> rt_tick s" and "tk \<equiv> (ticks_of s)(t := rt_tick s + tmr_init_tick (timers s t))"
    and "rest \<equiv> removeAll t (tmlists s q)"
  shows "tmlists (started t s) q = takeWhile (\<lambda>x. dist now (tk x) \<le> dist now (tk t)) rest @ t
      # dropWhile (\<lambda>x. dist now (tk x) \<le> dist now (tk t)) rest" (is ?split)
    "timer_order now tk (tmlists (started t s) q)" (is ?order)
    "k \<noteq> q \<Longrightarrow> tmlists (started t s) k = tmlists s k" (is "_ \<Longrightarrow> ?other")
    "tmlists (started t s) q = timer_insert tk t rest"
proof -
  have tn: "tk t = now + tmr_init_tick (timers s t)" by (simp add: tk_def now_def)
  note a = dist_ahead [OF n, of now]
  have o: "timer_order now tk rest"
    using timer_order_removeAll [OF timers_okD(2) [OF ok], of t] unfolding rest_def now_def
    by (rule iffD1 [OF timer_order_cong, rotated]) (simp add: tk_def)
  show l: "tmlists (started t s) q = timer_insert tk t rest"
    unfolding started_def rest_def tk_def by (simp add: q list_remove_def fun_upd_def)
  show ?split unfolding l using timer_insert_sorted [OF o] a tn by simp
  show ?order unfolding l using timer_insert_order [OF o] a tn by simp
  assume k: "k \<noteq> q"
  have "t \<notin> set (tmlists s k)" using timers_okD(4) [OF ok, of t k] k q by auto
  then show ?other using k unfolding started_def q by (simp add: list_remove_def)
qed

lemma store_ok_started:
  assumes ok: "timers_ok q s" and q: "q = timer_queue_of t s" and n: "tmr_init_tick (timers s t) < 0x7fffffff"
  shows "store_ok (tmlists (started t s))"
proof -
  let ?tk = "(ticks_of s)(t := rt_tick s + tmr_init_tick (timers s t))"
  let ?P = "\<lambda>x. dist (rt_tick s) (?tk x) \<le> dist (rt_tick s) (?tk t)" and ?rest = "removeAll t (tmlists s q)"
  let ?S = "list_remove t (tmlists s)"
  have "?S q = takeWhile ?P ?rest @ dropWhile ?P ?rest" by (simp add: list_remove_def)
  then have st: "store_ok (?S(q := takeWhile ?P ?rest @ t # dropWhile ?P ?rest))"
    using timers_okD(1) [OF ok] by (intro store_ok_insert) simp_all
  have "tmlists (started t s) = ?S(q := takeWhile ?P ?rest @ t # dropWhile ?P ?rest)"
  proof
    show "tmlists (started t s) k = (?S(q := takeWhile ?P ?rest @ t # dropWhile ?P ?rest)) k" for k
    proof (cases "k = q")
      case True
      then show ?thesis using started_lists(1) [OF ok q n] by simp
    next
      case False
      have "t \<notin> set (tmlists s k)" using timers_okD(4) [OF ok, of t k] False q by auto
      then show ?thesis using started_lists(3) [OF ok q n False] False by (simp add: list_remove_def)
    qed
  qed
  then show ?thesis using st by simp
qed

lemma started_ok:
  assumes ok: "timers_ok q s" and q: "q = timer_queue_of t s" and n: "tmr_init_tick (timers s t) < 0x7fffffff"
    and t: "is_timer t s"
  shows "timers_ok q (started t s)"
  unfolding timers_ok_def
proof (intro conjI allI ballI)
  show "store_ok (tmlists (started t s))" by (rule store_ok_started [OF ok q n])
  have "ticks_of (started t s) = (ticks_of s)(t := rt_tick s + tmr_init_tick (timers s t))" by auto
  then show "timer_order (rt_tick (started t s)) (ticks_of (started t s)) (tmlists (started t s) q)"
    using started_lists(2) [OF ok q n] by simp
  fix k x
  assume x: "x \<in> set (tmlists (started t s) k)"
  have "x = t \<and> k = q \<or> x \<in> set (tmlists s k)"
  proof (cases "k = q")
    case True
    then show ?thesis using x started_lists(4) [OF ok q n] by auto
  next
    case False
    then show ?thesis using x started_lists(3) [OF ok q n False] by auto
  qed
  then show "is_timer x (started t s)" "k = timer_queue_of x (started t s)"
    using timers_okD(3,4) [OF ok, of x k] t q by auto
qed

lemma rt_timer_stop_lists:
  "tmlists (snd (rt_timer_stop x s)) k = tmlists s k \<or> tmlists (snd (rt_timer_stop x s)) = list_remove x (tmlists s)"
  "timer_flag y (snd (rt_timer_stop x s)) = timer_flag y s \<or> y = x"
  "soft_timer y (snd (rt_timer_stop x s)) = soft_timer y s"
  by (auto simp: rt_timer_stop_def panic_def timer_flag_def soft_timer_def upd_flag_def and.assoc)

lemma timers_ok_stop:
  assumes ok: "timers_ok q s"
  shows "timers_ok q (snd (rt_timer_stop x s))"
proof -
  let ?s = "snd (rt_timer_stop x s)"
  have "tmlists ?s = tmlists s \<or> tmlists ?s = list_remove x (tmlists s)" by (simp add: rt_timer_stop_def)
  then consider "tmlists ?s = tmlists s" | "tmlists ?s = list_remove x (tmlists s)" by blast
  moreover have q: "timer_queue_of y ?s = timer_queue_of y s" for y
    using rt_timer_stop_lists(3) by (simp add: timer_queue_of_def)
  ultimately show ?thesis
  proof cases
    case 1
    then show ?thesis using ok by (simp add: timers_ok_def q)
  next
    case 2
    then show ?thesis
      using ok timer_order_removeAll [OF timers_okD(2) [OF ok], of x]
      unfolding timers_ok_def q by (auto simp: list_remove_def dest: store_ok_remove [of _ x, unfolded list_remove_def])
  qed
qed

lemma timers_ok_cong:
  assumes "tmlists s' = tmlists s" "timers s' = timers s" "rt_tick s' = rt_tick s"
    "\<And>x. objs s' (Tmr x) = objs s (Tmr x)"
  shows "timers_ok q s' = timers_ok q s"
  using assms by (simp add: timers_ok_def timer_queue_of_def soft_timer_def timer_flag_def is_timer_def
      rt_object_get_type_def)

lemma timers_ok_frame [simp]:
  "timers_ok q (upd_thread t f s) = timers_ok q s" "timers_ok q (upd_tlists g s) = timers_ok q s"
  "timers_ok q (rt_schedule_insert_thread t s) = timers_ok q s" "timers_ok q (rt_schedule s) = timers_ok q s"
  "timers_ok q (rt_schedule_remove_thread t s) = timers_ok q s" "timers_ok q (set_state t v s) = timers_ok q s"
  by (rule timers_ok_cong; simp)+

lemma timers_ok_resume: "timers_ok q s \<Longrightarrow> timers_ok q (snd (rt_thread_resume t s))"
  using timers_ok_cong [of "panic s" s q] by (simp add: rt_thread_resume_def Let_def timers_ok_stop)

lemma rt_thread_resume_timer:
  "x \<noteq> Thread_timer u \<Longrightarrow> timer_flag x (snd (rt_thread_resume u s)) = timer_flag x s"
  "Thread_timer u \<notin> set (tmlists s k) \<Longrightarrow> tmlists (snd (rt_thread_resume u s)) k = tmlists s k"
  by (auto simp: rt_thread_resume_def Let_def timer_flag_def rt_timer_stop_def upd_flag_def list_remove_def panic_def)

text \<open>
  \<^verbatim>\<open>rt_timer_start\<close> sets the timeout to the current tick plus the timer's time and queues the
  timer in the list of its kind: behind every timer that expires earlier or at the same tick, in
  front of every later one, with the order of the others unchanged and correct across the wrap-around
  of the tick counter.  Starting a soft timer may wake the timer thread; the scheduler invariant
  holds and no assertion fails.
\<close>

theorem timer_start_correct:
  assumes ok: "timers_ok (timer_queue_of t s) s" and t: "is_timer t s" "tmr_init_tick (timers s t) < RT_TICK_HALF"
    and sched: "sched_ok {} s" "current s = Some c" "thread_ok timer_thread s"
    and own: "\<not> soft_timer (Thread_timer timer_thread) s"
  defines "s' \<equiv> snd (rt_timer_start t s)"
  defines "later \<equiv> \<lambda>x. dist (rt_tick s) (timeout_tick (timers s' x))"
  shows "sched_ok {} s' \<and> kpanic s' = kpanic s \<and> timers_ok (timer_queue_of t s) s'
    \<and> timer_flag t s' AND RT_TIMER_FLAG_ACTIVATED \<noteq> 0
    \<and> timeout_tick (timers s' t) = rt_tick s + tmr_init_tick (timers s t)
    \<and> (\<exists>xs ys. tmlists s' (timer_queue_of t s) = xs @ t # ys
        \<and> xs @ ys = removeAll t (tmlists s (timer_queue_of t s))
        \<and> (\<forall>x \<in> set xs. later x \<le> later t) \<and> (\<forall>y \<in> set ys. later t < later y))"
proof -
  let ?q = "timer_queue_of t s" and ?a = "started t s"
  let ?b = "snd (rt_thread_resume timer_thread ?a)"
  have eq: "s' = (if soft_timer t s \<and> state_of s timer_thread = 2 then rt_schedule ?b else ?a)"
    using rt_timer_start_eq [OF t] by (simp add: s'_def)
  have oka: "timers_ok ?q ?a" "sched_ok {} ?a" "thread_ok timer_thread ?a" "current ?a = Some c"
    using started_ok [OF ok refl t(2,1)] sched by simp_all
  have okb: "sched_ok {} ?b" "current ?b = Some c" using rt_thread_resume_ok [OF oka(2)] oka(4) by simp_all
  have s1: "sched_ok {} s'" using oka okb rt_schedule_ok(1) [OF okb] by (simp add: eq)
  have s2: "kpanic s' = kpanic s"
    using rt_schedule_ok(2) [OF okb] rt_thread_resume_woken(2) [OF oka(3)] by (simp add: eq)
  have s3: "timers_ok ?q s'" using oka(1) timers_ok_resume [OF oka(1)] by (simp add: eq)
  have nt: "soft_timer t s \<Longrightarrow> t \<noteq> Thread_timer timer_thread" using own by auto
  have s4: "timer_flag t s' = timer_flag t s OR 1"
    using rt_thread_resume_timer(1) [OF nt] by (simp add: eq)
  have ts: "timers s' = timers ?a" by (simp add: eq)
  have l: "tmlists s' ?q = tmlists ?a ?q"
  proof (cases "soft_timer t s")
    case True
    have "Thread_timer timer_thread \<notin> set (tmlists ?a ?q)"
      using timers_okD(4) [OF oka(1), of "Thread_timer timer_thread" ?q] own True by (auto simp: timer_queue_of_def)
    then show ?thesis by (simp add: eq rt_thread_resume_timer(2))
  qed (simp add: eq)
  let ?xs = "removeAll t (tmlists s ?q)"
  let ?tk = "(ticks_of s)(t := rt_tick s + tmr_init_tick (timers s t))"
  let ?P = "\<lambda>x. dist (rt_tick s) (?tk x) \<le> dist (rt_tick s) (?tk t)"
  have later: "later x = dist (rt_tick s) (?tk x)" for x by (simp add: later_def ts)
  have "timer_order (rt_tick s) ?tk ?xs"
    using timer_order_removeAll [OF timers_okD(2) [OF ok], of t]
    by (rule iffD1 [OF timer_order_cong, rotated]) simp
  then have srt: "sorted (map (\<lambda>x. dist (rt_tick s) (?tk x)) ?xs)" unfolding timer_order_def by (rule conjunct1)
  have hi: "later t < later y" if "y \<in> set (dropWhile ?P ?xs)" for y
    unfolding later by (rule dropWhile_above [OF srt that])
  have "\<exists>xs ys. tmlists s' ?q = xs @ t # ys \<and> xs @ ys = ?xs \<and> (\<forall>x \<in> set xs. later x \<le> later t) \<and> (\<forall>y \<in> set ys. later t < later y)"
    using l started_lists(1) [OF ok refl t(2)] hi
    by (intro exI [of _ "takeWhile ?P ?xs"] exI [of _ "dropWhile ?P ?xs"])
      (auto simp: later dest: set_takeWhileD simp del: fun_upd_apply)
  then show ?thesis using s1 s2 s3 s4 ts by (simp add: flag_bits)
qed

section \<open>Expiry\<close>

text \<open>
  What \<^verbatim>\<open>rt_timer_check\<close> relies on of the timeout functions of the application: they do not
  touch the timers themselves, and leave a thread running.
\<close>

definition keeps_timers :: "(nat \<Rightarrow> nat \<Rightarrow> kernel \<Rightarrow> kernel) \<Rightarrow> bool" where
  "keeps_timers cb \<longleftrightarrow> (\<forall>f a s. timers (cb f a s) = timers s \<and> tmlists (cb f a s) = tmlists s
     \<and> rt_tick (cb f a s) = rt_tick s \<and> (\<forall>x. objs (cb f a s) (Tmr x) = objs s (Tmr x))
     \<and> (current s \<noteq> None \<longrightarrow> current (cb f a s) \<noteq> None))"

text \<open>Periodic timers of the list have a period, and the tick has room for it.\<close>

definition hard_ok :: "kernel \<Rightarrow> bool" where
  "hard_ok s \<longleftrightarrow> timers_ok Hard_timers s
     \<and> (\<forall>t \<in> set (tmlists s Hard_timers). timer_flag t s AND 2 \<noteq> 0 \<longrightarrow>
          0 < tmr_init_tick (timers s t) \<and> tmr_init_tick (timers s t) < 0x7fffffff)"

definition repeats :: "timer_ref \<Rightarrow> kernel \<Rightarrow> bool" where
  "repeats t s \<longleftrightarrow> timer_flag t s AND RT_TIMER_FLAG_PERIODIC \<noteq> 0 \<and> timer_flag t s AND RT_TIMER_FLAG_ACTIVATED \<noteq> 0"

lemma rt_thread_timeout_sel [simp]:
  "timers (rt_thread_timeout t s) = timers s" "tmlists (rt_thread_timeout t s) = tmlists s"
  "rt_tick (rt_thread_timeout t s) = rt_tick s" "objs (rt_thread_timeout t s) = objs s"
  by (simp_all add: rt_thread_timeout_def Let_def)

lemma run_timeout_sel:
  assumes "keeps_timers cb"
  shows "timers (run_timeout cb t s) = timers s" "tmlists (run_timeout cb t s) = tmlists s"
    "rt_tick (run_timeout cb t s) = rt_tick s" "objs (run_timeout cb t s) (Tmr x) = objs s (Tmr x)"
  using assms by (simp_all add: run_timeout_def keeps_timers_def split: timeout_fn.splits)

lemma timers_ok_removed: "timers_ok q s \<Longrightarrow> timers_ok q (timer_remove t s)"
  using timer_order_removeAll [OF timers_okD(2), of q s t]
  unfolding timers_ok_def by (auto simp: list_remove_def dest: store_ok_remove [of _ t, unfolded list_remove_def])

lemma timers_ok_flag_off: "timers_ok q (upd_flag t (\<lambda>f. f AND - 2) s) = timers_ok q s"
  by (simp add: timers_ok_def timer_queue_of_def)

text \<open>One round of the loop, for the first timer of the list.\<close>

lemma timer_fire_step:
  assumes cb: "keeps_timers cb" and ok: "hard_ok s" and l: "tmlists s Hard_timers = t # xs"
  defines "s' \<equiv> timer_fire cb t s"
  shows "rt_tick s' = rt_tick s" "hard_ok s'"
    "tmlists s' Hard_timers = (if repeats t s then timer_insert ((ticks_of s)(t := rt_tick s + tmr_init_tick (timers s t))) t xs
       else xs)"
    "timers s' = (if repeats t s then (timers s)(t := (timers s t)\<lparr>timeout_tick := rt_tick s + tmr_init_tick (timers s t)\<rparr>)
       else timers s)"
    "timer_flag x s' = (if x = t then (if repeats t s then timer_flag t s OR 1 else timer_flag t s AND - 2)
       else timer_flag x s)"
proof -
  let ?r = "run_timeout cb t (timer_remove t s)"
  let ?o = "upd_flag t (\<lambda>f. f AND - 2) ?r"
  note f = run_timeout_sel [OF cb, of t "timer_remove t s"]
  have tok: "timers_ok Hard_timers s" using ok by (simp add: hard_ok_def)
  have d: "distinct (t # xs)" using timers_okD(1) [OF tok] l by (metis store_ok_distinct)
  have rok: "timers_ok Hard_timers ?r"
    using timers_ok_cong [of ?r "timer_remove t s"] f timers_ok_removed [OF tok] by simp
  then have ook: "timers_ok Hard_timers ?o" by (simp add: timers_ok_flag_off)
  have ft: "timer_flag y ?r = timer_flag y s" for y using f(4) by (simp add: timer_flag_def)
  have soft: "timer_queue_of y ?r = timer_queue_of y s" for y using ft by (simp add: timer_queue_of_def soft_timer_def)
  have it: "is_timer t ?o" using timers_okD(3) [OF tok, of t Hard_timers] l f(4)
    by (simp add: is_timer_def rt_object_get_type_def upd_flag_def)
  have hq: "timer_queue_of t s = Hard_timers" using timers_okD(4) [OF tok, of t Hard_timers] l by simp
  then have ns: "\<not> soft_timer t ?o" using soft [of t] by (simp add: timer_queue_of_def split: if_splits)
  have lo: "tmlists ?o Hard_timers = xs" using l d f(2) by (simp add: list_remove_def)
  have eq: "s' = (if repeats t s then started t ?o else ?o)"
  proof (cases "repeats t s")
    case True
    have n: "tmr_init_tick (timers ?o t) < 0x7fffffff"
      using ok l True f(1) by (simp add: hard_ok_def repeats_def)
    show ?thesis using True rt_timer_start_eq [OF it n] ns ft [of t]
      by (simp add: s'_def timer_fire_def timer_again_def Let_def repeats_def)
  next
    case False
    then show ?thesis using ft [of t] by (auto simp: s'_def timer_fire_def timer_again_def Let_def repeats_def)
  qed
  show "rt_tick s' = rt_tick s" "timers s' = (if repeats t s
       then (timers s)(t := (timers s t)\<lparr>timeout_tick := rt_tick s + tmr_init_tick (timers s t)\<rparr>) else timers s)"
    using f(1,3) by (simp_all add: eq)
  show fl: "timer_flag x s' = (if x = t then (if repeats t s then timer_flag t s OR 1 else timer_flag t s AND - 2)
       else timer_flag x s)" for x
    using ft by (simp add: eq flag_bits)
  have hqo: "timer_queue_of t ?o = Hard_timers" using ns by (simp add: timer_queue_of_def)
  show tm: "tmlists s' Hard_timers = (if repeats t s then timer_insert ((ticks_of s)(t := rt_tick s + tmr_init_tick (timers s t))) t xs
       else xs)"
  proof (cases "repeats t s")
    case True
    have n: "tmr_init_tick (timers ?o t) < 0x7fffffff"
      using ok l True f(1) by (simp add: hard_ok_def repeats_def)
    show ?thesis using started_lists(4) [OF ook hqo [symmetric] n] True lo d f(1,3) by (simp add: eq)
  qed (use lo in \<open>simp add: eq\<close>)
  have sok: "timers_ok Hard_timers s'"
  proof (cases "repeats t s")
    case True
    have n: "tmr_init_tick (timers ?o t) < 0x7fffffff"
      using ok l True f(1) by (simp add: hard_ok_def repeats_def)
    show ?thesis using started_ok [OF ook hqo [symmetric] n it] True by (simp add: eq)
  qed (use ook in \<open>simp add: eq\<close>)
  have init: "tmr_init_tick (timers s' y) = tmr_init_tick (timers s y)" for y using f(1) by (simp add: eq)
  have two: "timer_flag y s' AND 2 = timer_flag y s AND 2" for y using fl [of y] by (simp add: flag_bits)
  have sub: "set (tmlists s' Hard_timers) \<subseteq> set (tmlists s Hard_timers)" using tm l by auto
  show "hard_ok s'" unfolding hard_ok_def init two using sok sub ok by (auto simp: hard_ok_def)
qed

lemma timer_insert_append:
  assumes "\<forall>e \<in> set es. dist now (tk e) \<le> dist now (tk t)" "timer_order now tk (es @ rs)"
    "in_window now (tk t)" "0 \<le> dist now (tk t)"
  shows "timer_insert tk t (es @ rs) = es @ timer_insert tk t rs"
proof -
  have "timer_order now tk rs" using assms(2) by (auto simp: timer_order_def sorted_append)
  then show ?thesis
    using timer_insert_sorted [OF assms(2-4)] timer_insert_sorted [of now tk rs t] assms(1,3,4) by simp
qed

text \<open>What the rounds for a list of expired timers leave behind.\<close>

definition fired :: "kernel \<Rightarrow> timer_ref list \<Rightarrow> timer_ref list \<Rightarrow> kernel \<Rightarrow> bool" where
  "fired s es rs s' \<longleftrightarrow> hard_ok s' \<and> rt_tick s' = rt_tick s
     \<and> set (tmlists s' Hard_timers) = set rs \<union> {e \<in> set es. repeats e s}
     \<and> (\<forall>x \<in> set (tmlists s' Hard_timers). 0 < dist (rt_tick s) (ticks_of s' x))
     \<and> (\<forall>x. ticks_of s' x = (if x \<in> set es \<and> repeats x s then rt_tick s + tmr_init_tick (timers s x) else ticks_of s x))
     \<and> (\<forall>x. timer_flag x s' = (if x \<in> set es then (if repeats x s then timer_flag x s OR 1 else timer_flag x s AND - 2)
          else timer_flag x s))"

lemma fire_rest:
  assumes cb: "keeps_timers cb" and ok: "hard_ok s" and l: "tmlists s Hard_timers = (t # es) @ rs"
    and late: "\<forall>e \<in> set es. dist (rt_tick s) (ticks_of s e) \<le> 0"
    and early: "\<forall>r \<in> set rs. 0 < dist (rt_tick s) (ticks_of s r)"
  defines "s1 \<equiv> timer_fire cb t s"
  obtains rs' where "tmlists s1 Hard_timers = es @ rs'" "set rs' = (if repeats t s then insert t (set rs) else set rs)"
    "\<forall>r \<in> set rs'. 0 < dist (rt_tick s) (ticks_of s1 r)" "\<forall>e \<in> set es. ticks_of s1 e = ticks_of s e"
proof -
  have l': "tmlists s Hard_timers = t # (es @ rs)" using l by simp
  note f = timer_fire_step [OF cb ok l']
  have tok: "timers_ok Hard_timers s" using ok by (simp add: hard_ok_def)
  have d: "t \<notin> set es" "t \<notin> set rs" using timers_okD(1) [OF tok] l by (metis Un_iff distinct.simps(2) set_append
        append_Cons store_ok_distinct)+
  have e: "\<forall>e \<in> set es. ticks_of s1 e = ticks_of s e" using d(1) by (auto simp: s1_def f(4))
  show thesis
  proof (cases "repeats t s")
    case True
    let ?n = "tmr_init_tick (timers s t)" and ?tk = "(ticks_of s)(t := rt_tick s + tmr_init_tick (timers s t))"
    have n: "0 < ?n" "?n < 0x7fffffff" using ok l True by (auto simp: hard_ok_def repeats_def)
    note a = dist_ahead [OF n(2), of "rt_tick s"]
    have pos: "0 < dist (rt_tick s) (?tk t)" using a(1) n(1) by (simp add: word_less_def)
    have "timer_order (rt_tick s) (ticks_of s) (es @ rs)"
      using timers_okD(2) [OF tok] unfolding l' by (simp add: timer_order_def)
    then have o: "timer_order (rt_tick s) ?tk (es @ rs)"
      by (rule iffD1 [OF timer_order_cong, rotated]) (use d in auto)
    have "\<forall>e \<in> set es. dist (rt_tick s) (?tk e) \<le> dist (rt_tick s) (?tk t)"
    proof
      fix e assume "e \<in> set es"
      then have "dist (rt_tick s) (?tk e) \<le> 0" using late d(1) by auto
      then show "dist (rt_tick s) (?tk e) \<le> dist (rt_tick s) (?tk t)" using pos by linarith
    qed
    then have "tmlists s1 Hard_timers = es @ timer_insert ?tk t rs"
      using timer_insert_append [OF _ o] a True f(3) by (simp add: s1_def)
    then show thesis
      by (rule that) (use True early pos e in \<open>auto simp: s1_def f(4)\<close>)
  next
    case False
    show thesis by (rule that [of rs]) (use False early e in \<open>simp_all add: s1_def f(3,4)\<close>)
  qed
qed

lemma check_loop:
  assumes cb: "keeps_timers cb"
  shows "hard_ok s \<Longrightarrow> tmlists s Hard_timers = es @ rs \<Longrightarrow> \<forall>e \<in> set es. dist (rt_tick s) (ticks_of s e) \<le> 0
    \<Longrightarrow> \<forall>r \<in> set rs. 0 < dist (rt_tick s) (ticks_of s r)
    \<Longrightarrow> timer_check_loop cb (rt_tick s) s = Some (fold (timer_fire cb) es s)
      \<and> fired s es rs (fold (timer_fire cb) es s)"
proof (induction es arbitrary: s rs)
  case Nil
  have tok: "timers_ok Hard_timers s" using Nil(1) by (simp add: hard_ok_def)
  have "timer_check_loop cb (rt_tick s) s = Some s"
  proof (cases rs)
    case (Cons r rs')
    then have "in_window (rt_tick s) (ticks_of s r)" using timers_okD(2) [OF tok] Nil(2) by (simp add: timer_order_def)
    then have "\<not> rt_tick s - ticks_of s r < 0x7fffffff" using Nil(4) Cons by (simp add: expired_compare)
    then show ?thesis using Nil(2) Cons by (simp add: timer_check_loop.simps)
  qed (use Nil(2) in \<open>simp add: timer_check_loop.simps\<close>)
  then show ?case using Nil by (simp add: fired_def)
next
  case (Cons t es)
  let ?s1 = "timer_fire cb t s" and ?s' = "fold (timer_fire cb) es (timer_fire cb t s)"
  have tok: "timers_ok Hard_timers s" using Cons.prems(1) by (simp add: hard_ok_def)
  have l: "tmlists s Hard_timers = t # (es @ rs)" using Cons.prems(2) by simp
  note f = timer_fire_step [OF cb Cons.prems(1) l]
  have d: "t \<notin> set es" using timers_okD(1) [OF tok] l by (metis Un_iff distinct.simps(2) set_append store_ok_distinct)
  have late: "\<forall>e \<in> set es. dist (rt_tick s) (ticks_of s e) \<le> 0" using Cons.prems(3) by simp
  obtain rs' where r: "tmlists ?s1 Hard_timers = es @ rs'" "set rs' = (if repeats t s then insert t (set rs) else set rs)"
    "\<forall>r \<in> set rs'. 0 < dist (rt_tick s) (ticks_of ?s1 r)" "\<forall>e \<in> set es. ticks_of ?s1 e = ticks_of s e"
    by (rule fire_rest [OF cb Cons.prems(1,2) late Cons.prems(4)])
  have IH: "timer_check_loop cb (rt_tick ?s1) ?s1 = Some ?s' \<and> fired ?s1 es rs' ?s'"
    by (rule Cons.IH [OF f(2) r(1)]) (use r late f(1) in simp_all)
  have rep: "repeats x ?s1 = repeats x s" if "x \<in> set es" for x using d that f(5) [of x] by (auto simp: repeats_def)
  have w: "in_window (rt_tick s) (ticks_of s t)" using timers_okD(2) [OF tok] l by (simp add: timer_order_def)
  have "rt_tick s - ticks_of s t < 0x7fffffff" using expired_compare [OF w] Cons.prems(3) by simp
  then have loop: "timer_check_loop cb (rt_tick s) s = timer_check_loop cb (rt_tick s) ?s1"
    using l run_timeout_sel(3) [OF cb, of t "timer_remove t s"]
    by (simp add: timer_check_loop.simps [of cb "rt_tick s" s] Let_def timer_fire_def rt_tick_get_def)
  have "fired s (t # es) rs ?s'"
  proof -
    have F: "fired ?s1 es rs' ?s'" using IH by simp
    have tk: "ticks_of ?s' x = (if x \<in> set (t # es) \<and> repeats x s then rt_tick s + tmr_init_tick (timers s x) else ticks_of s x)" for x
      using F d rep f(1,4) by (auto simp: fired_def)
    have fl: "timer_flag x ?s' = (if x \<in> set (t # es) then (if repeats x s then timer_flag x s OR 1 else timer_flag x s AND - 2)
          else timer_flag x s)" for x
      using F d rep f(5) [of x] by (auto simp: fired_def)
    have st: "set (tmlists ?s' Hard_timers) = set rs \<union> {e \<in> set (t # es). repeats e s}"
      using F d rep r(2) by (auto simp: fired_def)
    have F': "hard_ok ?s'" "rt_tick ?s' = rt_tick s" "\<forall>x \<in> set (tmlists ?s' Hard_timers). 0 < dist (rt_tick s) (ticks_of ?s' x)"
      using F unfolding fired_def f(1) by blast+
    show ?thesis unfolding fired_def by (intro conjI allI F' st tk fl)
  qed
  then show ?case using loop IH f(1) by simp
qed

text \<open>
  C10.  \<^verbatim>\<open>rt_timer_check\<close> terminates and runs exactly the timers of the hard list that are due, each
  once and in the order of the list.  Afterwards no timer of the list is due; the periodic ones are
  armed again for the current tick plus their period, the others are marked stopped and left the
  list, and all other timers are as before.
\<close>

theorem timer_check_correct:
  assumes "keeps_timers cb" "hard_ok s"
  defines "due \<equiv> takeWhile (\<lambda>t. dist (rt_tick s) (timeout_tick (timers s t)) \<le> 0) (tmlists s Hard_timers)"
  shows "\<exists>s'. rt_timer_check cb s = Some s' \<and> s' = fold (timer_fire cb) due s \<and> hard_ok s'
    \<and> set (tmlists s' Hard_timers) = {t \<in> set (tmlists s Hard_timers). t \<notin> set due \<or> repeats t s}
    \<and> (\<forall>t \<in> set (tmlists s' Hard_timers). 0 < dist (rt_tick s) (timeout_tick (timers s' t)))
    \<and> (\<forall>t. timeout_tick (timers s' t)
          = (if t \<in> set due \<and> repeats t s then rt_tick s + tmr_init_tick (timers s t) else timeout_tick (timers s t)))
    \<and> (\<forall>t \<in> set due. \<not> repeats t s \<longrightarrow> timer_flag t s' AND RT_TIMER_FLAG_ACTIVATED = 0)"
proof -
  let ?P = "\<lambda>t. dist (rt_tick s) (timeout_tick (timers s t)) \<le> 0" and ?l = "tmlists s Hard_timers"
  let ?rs = "dropWhile ?P ?l"
  have tok: "timers_ok Hard_timers s" using assms(2) by (simp add: hard_ok_def)
  have l: "?l = due @ ?rs" by (simp add: due_def)
  have late: "\<forall>e \<in> set due. ?P e" by (auto simp: due_def dest: set_takeWhileD)
  have "sorted (map (\<lambda>t. dist (rt_tick s) (timeout_tick (timers s t))) ?l)"
    using timers_okD(2) [OF tok] by (simp add: timer_order_def)
  then have early: "\<forall>r \<in> set ?rs. 0 < dist (rt_tick s) (timeout_tick (timers s r))"
    by (intro ballI, rule dropWhile_above)
  have dj: "t \<in> set ?rs \<Longrightarrow> t \<notin> set due" for t using late early by force
  note c = check_loop [OF assms(1,2) l late early]
  have st: "set ?rs \<union> {e \<in> set due. repeats e s} = {t \<in> set ?l. t \<notin> set due \<or> repeats t s}"
    using dj by (subst (2) l) auto
  have "\<forall>t \<in> set due. \<not> repeats t s \<longrightarrow> timer_flag t (fold (timer_fire cb) due s) AND 1 = 0"
    using c by (simp add: fired_def flag_bits)
  then show ?thesis
    unfolding rt_timer_check_def rt_tick_get_def using c unfolding fired_def st by blast
qed

lemma current_rt_schedule [simp]: "current (rt_schedule s) = None \<longleftrightarrow> current s = None"
  by (auto simp: rt_schedule_def Let_def panic_def split: option.splits prod.splits)

lemma timer_fire_current: "keeps_timers cb \<Longrightarrow> current s \<noteq> None \<Longrightarrow> current (timer_fire cb t s) \<noteq> None"
proof -
  assume cb: "keeps_timers cb" and c: "current s \<noteq> None"
  have r: "current (run_timeout cb t (timer_remove t s)) \<noteq> None"
    using cb c by (simp add: run_timeout_def keeps_timers_def rt_thread_timeout_def Let_def split: timeout_fn.splits
        del: not_None_eq)
  have st: "current (snd (rt_timer_start t x)) = None \<longleftrightarrow> current x = None" for x
    by (simp add: rt_timer_start_def Let_def)
  show ?thesis using r st by (simp add: timer_fire_def timer_again_def Let_def del: not_None_eq)
qed

lemma fold_fire_current: "keeps_timers cb \<Longrightarrow> current s \<noteq> None \<Longrightarrow> current (fold (timer_fire cb) es s) \<noteq> None"
  by (induction es arbitrary: s) (simp_all add: timer_fire_current del: not_None_eq)

section \<open>Ticks\<close>

lemma dist_tick:
  assumes "- (2 ^ 31) < dist now v"
  shows "dist (now + 1) v = dist now v - 1"
proof -
  have e: "v - (now + 1) = (v - now) - 1" by simp
  have "sint ((v - now) - 1) = signed_take_bit 31 (sint (v - now) - 1)"
    by (simp add: sint_word_ariths)
  also have "\<dots> = sint (v - now) - 1"
    using assms sint_range32(2) [of "v - now"] by (intro signed_take_bit_int_eq_self) (simp_all add: dist_def)
  finally show ?thesis unfolding dist_def e .
qed

lemma hard_ok_cong:
  assumes "tmlists s' = tmlists s" "timers s' = timers s" "rt_tick s' = rt_tick s"
    "\<And>x. objs s' (Tmr x) = objs s (Tmr x)"
  shows "hard_ok s' = hard_ok s" "repeats t s' = repeats t s"
  using timers_ok_cong [OF assms] assms by (simp_all add: hard_ok_def repeats_def timer_flag_def)

text \<open>A kernel between two ticks: a thread runs and no hard timer is overdue.\<close>

definition tick_ok :: "kernel \<Rightarrow> bool" where
  "tick_ok s \<longleftrightarrow> hard_ok s \<and> current s \<noteq> None
     \<and> (\<forall>t \<in> set (tmlists s Hard_timers). 0 \<le> dist (rt_tick s) (timeout_tick (timers s t)))"

lemma hard_ok_tick:
  assumes "tick_ok s"
  shows "hard_ok (s\<lparr>rt_tick := rt_tick s + 1\<rparr>)"
    "t \<in> set (tmlists s Hard_timers) \<Longrightarrow> dist (rt_tick s + 1) (ticks_of s t) = dist (rt_tick s) (ticks_of s t) - 1"
proof -
  let ?l = "tmlists s Hard_timers"
  have ok: "hard_ok s" and pos: "\<forall>t \<in> set ?l. 0 \<le> dist (rt_tick s) (ticks_of s t)" using assms by (simp_all add: tick_ok_def)
  show sh: "t \<in> set ?l \<Longrightarrow> dist (rt_tick s + 1) (ticks_of s t) = dist (rt_tick s) (ticks_of s t) - 1" for t
    using pos by (intro dist_tick) force
  have m: "map (\<lambda>t. dist (rt_tick s + 1) (ticks_of s t)) ?l = map (\<lambda>x. x - 1) (map (\<lambda>t. dist (rt_tick s) (ticks_of s t)) ?l)"
    using sh by simp
  have o: "timer_order (rt_tick s) (ticks_of s) ?l" using ok timers_okD(2) by (simp add: hard_ok_def)
  have "sorted (map (\<lambda>x. x - 1) (map (\<lambda>t. dist (rt_tick s) (ticks_of s t)) ?l))"
  proof -
    have "sorted xs \<Longrightarrow> sorted (map (\<lambda>x. x - 1) xs)" for xs :: "int list" by (induction xs) auto
    then show ?thesis using o unfolding timer_order_def by blast
  qed
  then have "timer_order (rt_tick s + 1) (ticks_of s) ?l"
    unfolding timer_order_def m using o pos sh by (auto simp: timer_order_def in_window_def)
  then show "hard_ok (s\<lparr>rt_tick := rt_tick s + 1\<rparr>)"
    using ok by (simp add: hard_ok_def timers_ok_def timer_queue_of_def soft_timer_def timer_flag_def is_timer_def
        rt_object_get_type_def)
qed

text \<open>The time slice part of the tick does not touch the timers.\<close>

definition tick_slice :: "nat \<Rightarrow> kernel \<Rightarrow> kernel" where
  "tick_slice c s =
     (let s2 = upd_thread c (\<lambda>x. x\<lparr>remaining_tick := remaining_tick x - 1\<rparr>) s
      in if remaining_tick (threads s2 c) = 0
         then rt_schedule (upd_thread c (\<lambda>x. x\<lparr>remaining_tick := init_tick x\<rparr>) s2) else s2)"

lemma tick_slice_sel [simp]:
  "tmlists (tick_slice c s) = tmlists s" "timers (tick_slice c s) = timers s" "rt_tick (tick_slice c s) = rt_tick s"
  "objs (tick_slice c s) = objs s" "current (tick_slice c s) = None \<longleftrightarrow> current s = None"
  by (simp_all add: tick_slice_def Let_def)

lemma rt_tick_increase_eq:
  "current s = Some c \<Longrightarrow> rt_tick_increase cb s = rt_timer_check cb (tick_slice c (s\<lparr>rt_tick := rt_tick s + 1\<rparr>))"
  by (simp add: rt_tick_increase_def Let_def tick_slice_def rt_thread_self_def rt_thread_yield_def)

lemma timer_start_fun:
  "timeout_func (timers (snd (rt_timer_start t s)) x) = timeout_func (timers s x)"
  "tmr_parameter (timers (snd (rt_timer_start t s)) x) = tmr_parameter (timers s x)"
  by (simp_all add: rt_timer_start_def Let_def timer_arm_def upd_timer_def)

lemma timer_fire_fun:
  assumes "keeps_timers cb"
  shows "timeout_func (timers (timer_fire cb t s) x) = timeout_func (timers s x)"
    "tmr_parameter (timers (timer_fire cb t s) x) = tmr_parameter (timers s x)"
  using run_timeout_sel(1) [OF assms, of t "timer_remove t s"]
  by (simp_all add: timer_fire_def timer_again_def Let_def timer_start_fun)

lemma fold_fire_fun:
  assumes "keeps_timers cb"
  shows "timeout_func (timers (fold (timer_fire cb) es s) x) = timeout_func (timers s x)"
    "tmr_parameter (timers (fold (timer_fire cb) es s) x) = tmr_parameter (timers s x)"
  by (induction es arbitrary: s) (simp_all add: timer_fire_fun [OF assms])

text \<open>The timers that are due at the next tick, and the kernel in which that tick looks at them.\<close>

definition due_next :: "kernel \<Rightarrow> timer_ref list" where
  "due_next s = takeWhile (\<lambda>t. dist (rt_tick s) (timeout_tick (timers s t)) \<le> 1) (tmlists s Hard_timers)"

definition tick_begun :: "kernel \<Rightarrow> kernel" where
  "tick_begun s = tick_slice (the (current s)) (s\<lparr>rt_tick := rt_tick s + 1\<rparr>)"

lemma tick_begun_fun: "timers (tick_begun s) = timers s"
  by (simp add: tick_begun_def)

lemma tick_step:
  assumes cb: "keeps_timers cb" and ok: "tick_ok s"
  obtains s' where "rt_tick_increase cb s = Some s'" "tick_ok s'" "rt_tick s' = rt_tick s + 1"
    "\<And>t. t \<in> set (tmlists s' Hard_timers) \<longleftrightarrow> t \<in> set (tmlists s Hard_timers)
       \<and> (1 < dist (rt_tick s) (ticks_of s t) \<or> repeats t s)"
    "\<And>t. t \<in> set (tmlists s Hard_timers) \<Longrightarrow> 1 < dist (rt_tick s) (ticks_of s t)
       \<Longrightarrow> ticks_of s' t = ticks_of s t \<and> timer_flag t s' = timer_flag t s"
    "\<And>t. t \<in> set (tmlists s Hard_timers) \<Longrightarrow> dist (rt_tick s) (ticks_of s t) \<le> 1 \<Longrightarrow> repeats t s
       \<Longrightarrow> ticks_of s' t = rt_tick s + 1 + tmr_init_tick (timers s t)"
    "\<And>t. t \<in> set (tmlists s Hard_timers) \<Longrightarrow> dist (rt_tick s) (ticks_of s t) \<le> 1 \<Longrightarrow> \<not> repeats t s
       \<Longrightarrow> timer_flag t s' AND 1 = 0"
    "s' = fold (timer_fire cb) (due_next s) (tick_begun s)" "distinct (due_next s)"
    "\<And>t. t \<in> set (due_next s) \<longleftrightarrow> t \<in> set (tmlists s Hard_timers) \<and> dist (rt_tick s) (ticks_of s t) \<le> 1"
proof -
  obtain c where c: "current s = Some c" using ok by (auto simp: tick_ok_def)
  let ?u = "tick_slice c (s\<lparr>rt_tick := rt_tick s + 1\<rparr>)" and ?l = "tmlists s Hard_timers"
  have uok: "hard_ok ?u" using hard_ok_tick(1) [OF ok] hard_ok_cong(1) [of ?u "s\<lparr>rt_tick := rt_tick s + 1\<rparr>"] by simp
  have rp: "repeats t ?u = repeats t s" "timer_flag t ?u = timer_flag t s" for t by (simp_all add: repeats_def timer_flag_def)
  note sh = hard_ok_tick(2) [OF ok]
  let ?P = "\<lambda>t. dist (rt_tick s) (ticks_of s t) \<le> 1"
  let ?es = "takeWhile ?P ?l" and ?rs = "dropWhile ?P ?l"
  have o: "sorted (map (\<lambda>t. dist (rt_tick s) (ticks_of s t)) ?l)"
    using ok timers_okD(2) by (auto simp: tick_ok_def hard_ok_def timer_order_def)
  have early: "1 < dist (rt_tick s) (ticks_of s r)" if "r \<in> set ?rs" for r
    using dropWhile_above [OF o that] .
  have late: "?P e" if "e \<in> set ?es" for e using that by (auto dest: set_takeWhileD)
  have inl: "t \<in> set ?l \<longleftrightarrow> t \<in> set ?es \<or> t \<in> set ?rs" for t by (metis Un_iff set_append takeWhile_dropWhile_id)
  have "timer_check_loop cb (rt_tick ?u) ?u = Some (fold (timer_fire cb) ?es ?u) \<and> fired ?u ?es ?rs (fold (timer_fire cb) ?es ?u)"
  proof (rule check_loop [OF cb uok])
    show "tmlists ?u Hard_timers = ?es @ ?rs" by simp
    show "\<forall>e \<in> set ?es. dist (rt_tick ?u) (ticks_of ?u e) \<le> 0" using late sh inl by simp
    show "\<forall>r \<in> set ?rs. 0 < dist (rt_tick ?u) (ticks_of ?u r)" using early sh inl by simp
  qed
  then have r: "rt_tick_increase cb s = Some (fold (timer_fire cb) ?es ?u)" and F: "fired ?u ?es ?rs (fold (timer_fire cb) ?es ?u)"
    using rt_tick_increase_eq [OF c] by (simp_all add: rt_timer_check_def rt_tick_get_def)
  let ?s' = "fold (timer_fire cb) ?es ?u"
  have cu: "current ?s' \<noteq> None" by (rule fold_fire_current [OF cb]) (simp add: c)
  have esP: "t \<in> set ?es \<longleftrightarrow> t \<in> set ?l \<and> ?P t" for t using inl late early by force
  have rsP: "t \<in> set ?rs \<longleftrightarrow> t \<in> set ?l \<and> \<not> ?P t" for t using inl late early by force
  have st: "t \<in> set (tmlists ?s' Hard_timers) \<longleftrightarrow> t \<in> set ?l \<and> (1 < dist (rt_tick s) (ticks_of s t) \<or> repeats t s)" for t
    using F unfolding fired_def by (auto simp: rsP esP rp)
  have tk: "ticks_of ?s' t = (if t \<in> set ?es \<and> repeats t s then rt_tick s + 1 + tmr_init_tick (timers s t) else ticks_of s t)" for t
    using F unfolding fired_def rp by simp
  have fl: "timer_flag t ?s' = (if t \<in> set ?es then (if repeats t s then timer_flag t s OR 1 else timer_flag t s AND - 2)
      else timer_flag t s)" for t
    using F unfolding fired_def rp by simp
  have ok': "tick_ok ?s'" using F cu unfolding tick_ok_def fired_def by force
  have rt: "rt_tick ?s' = rt_tick s + 1" using F by (simp add: fired_def)
  have du: "due_next s = ?es" "tick_begun s = ?u" using c by (simp_all add: due_next_def tick_begun_def)
  have "distinct ?l" using ok timers_okD(1) by (auto simp: tick_ok_def hard_ok_def dest: store_ok_distinct)
  then have ds: "distinct ?es" by (rule distinct_takeWhile)
  show thesis by (rule that [OF r ok' rt st]) (use tk fl esP ds in \<open>simp_all add: flag_bits du\<close>)
qed

primrec run_ticks :: "(nat \<Rightarrow> nat \<Rightarrow> kernel \<Rightarrow> kernel) \<Rightarrow> nat \<Rightarrow> kernel \<Rightarrow> kernel option" where
  "run_ticks cb 0 s = Some s"
| "run_ticks cb (Suc n) s = (case run_ticks cb n s of None \<Rightarrow> None | Some s' \<Rightarrow> rt_tick_increase cb s')"

lemma waiting_timer:
  assumes cb: "keeps_timers cb" and ok: "tick_ok s" and t: "t \<in> set (tmlists s Hard_timers)"
    and n: "dist (rt_tick s) (timeout_tick (timers s t)) = int n"
  shows "k < n \<Longrightarrow> \<exists>s'. run_ticks cb k s = Some s' \<and> tick_ok s' \<and> t \<in> set (tmlists s' Hard_timers)
    \<and> ticks_of s' t = ticks_of s t \<and> timer_flag t s' = timer_flag t s \<and> rt_tick s' = rt_tick s + of_nat k
    \<and> dist (rt_tick s') (ticks_of s t) = int n - int k
    \<and> timeout_func (timers s' t) = timeout_func (timers s t) \<and> tmr_parameter (timers s' t) = tmr_parameter (timers s t)"
proof (induction k)
  case 0
  then show ?case using ok t n by simp
next
  case (Suc k)
  then obtain s1 where s1: "run_ticks cb k s = Some s1" "tick_ok s1" "t \<in> set (tmlists s1 Hard_timers)"
    "ticks_of s1 t = ticks_of s t" "timer_flag t s1 = timer_flag t s" "rt_tick s1 = rt_tick s + of_nat k"
    "dist (rt_tick s1) (ticks_of s t) = int n - int k" "timeout_func (timers s1 t) = timeout_func (timers s t)"
    "tmr_parameter (timers s1 t) = tmr_parameter (timers s t)" by (metis Suc_lessD)
  obtain s' where s': "rt_tick_increase cb s1 = Some s'" "tick_ok s'" "rt_tick s' = rt_tick s1 + 1"
    "\<And>x. x \<in> set (tmlists s' Hard_timers) \<longleftrightarrow> x \<in> set (tmlists s1 Hard_timers)
       \<and> (1 < dist (rt_tick s1) (ticks_of s1 x) \<or> repeats x s1)"
    "\<And>x. x \<in> set (tmlists s1 Hard_timers) \<Longrightarrow> 1 < dist (rt_tick s1) (ticks_of s1 x)
       \<Longrightarrow> ticks_of s' x = ticks_of s1 x \<and> timer_flag x s' = timer_flag x s1"
    "s' = fold (timer_fire cb) (due_next s1) (tick_begun s1)"
    by (rule tick_step [OF cb s1(2)]) blast
  have fn: "timeout_func (timers s' t) = timeout_func (timers s t)" "tmr_parameter (timers s' t) = tmr_parameter (timers s t)"
    using s1(8,9) by (simp_all add: s'(6) fold_fire_fun [OF cb] tick_begun_fun)
  have d: "1 < dist (rt_tick s1) (ticks_of s1 t)" using s1(4,7) Suc.prems by simp
  have "dist (rt_tick s1 + 1) (ticks_of s t) = dist (rt_tick s1) (ticks_of s t) - 1"
    using d s1(4) by (intro dist_tick) simp
  then show ?case using s1 s'(1-5) d fn by (simp add: algebra_simps)
qed

lemma tick_before:
  assumes cb: "keeps_timers cb" and ok: "tick_ok s" and t: "t \<in> set (tmlists s Hard_timers)"
    and n: "dist (rt_tick s) (timeout_tick (timers s t)) = int (Suc n)" and k: "k < n"
  shows "\<exists>s1 s'. run_ticks cb k s = Some s1 \<and> rt_tick_increase cb s1 = Some s'
        \<and> s' = fold (timer_fire cb) (due_next s1) (tick_begun s1) \<and> t \<notin> set (due_next s1)
        \<and> t \<in> set (tmlists s' Hard_timers) \<and> timeout_tick (timers s' t) = timeout_tick (timers s t)"
proof -
  obtain s1 where s1: "run_ticks cb k s = Some s1" "tick_ok s1" "t \<in> set (tmlists s1 Hard_timers)"
    "ticks_of s1 t = ticks_of s t" "dist (rt_tick s1) (ticks_of s t) = int (Suc n) - int k"
    using waiting_timer [OF cb ok t n, of k] k by auto
  obtain s' where s': "rt_tick_increase cb s1 = Some s'"
    "\<And>x. x \<in> set (tmlists s' Hard_timers) \<longleftrightarrow> x \<in> set (tmlists s1 Hard_timers)
       \<and> (1 < dist (rt_tick s1) (ticks_of s1 x) \<or> repeats x s1)"
    "\<And>x. x \<in> set (tmlists s1 Hard_timers) \<Longrightarrow> 1 < dist (rt_tick s1) (ticks_of s1 x)
       \<Longrightarrow> ticks_of s' x = ticks_of s1 x \<and> timer_flag x s' = timer_flag x s1"
    "s' = fold (timer_fire cb) (due_next s1) (tick_begun s1)"
    "\<And>x. x \<in> set (due_next s1) \<longleftrightarrow> x \<in> set (tmlists s1 Hard_timers) \<and> dist (rt_tick s1) (ticks_of s1 x) \<le> 1"
    by (rule tick_step [OF cb s1(2)]) blast
  have d: "1 < dist (rt_tick s1) (ticks_of s1 t)" using s1(4,5) k by simp
  show ?thesis by (intro exI conjI, rule s1(1), rule s'(1), rule s'(4)) (use s'(2,3,5) s1(3,4) d in auto)
qed

text \<open>
  C3.  A hard timer runs exactly on time and once.  At every tick before its timeout it is not among the
  timers that are run and stays queued.  At the tick equal to its timeout it is one of them: between the
  timers before and after it in the list it is taken out of the list, its timeout function is called with
  its parameter, and then it is armed again one period later or stopped.
\<close>

theorem timer_runs_on_time:
  assumes cb: "keeps_timers cb" and ok: "tick_ok s" and t: "t \<in> set (tmlists s Hard_timers)"
    and n: "dist (rt_tick s) (timeout_tick (timers s t)) = int (Suc n)"
  shows "(\<forall>k < n. \<exists>s1 s'. run_ticks cb k s = Some s1 \<and> rt_tick_increase cb s1 = Some s'
        \<and> s' = fold (timer_fire cb) (due_next s1) (tick_begun s1) \<and> t \<notin> set (due_next s1)
        \<and> t \<in> set (tmlists s' Hard_timers) \<and> timeout_tick (timers s' t) = timeout_tick (timers s t))
    \<and> (\<exists>s1 s' xs ys called. run_ticks cb n s = Some s1 \<and> rt_tick_increase cb s1 = Some s' \<and> tick_ok s'
        \<and> rt_tick s' = timeout_tick (timers s t) \<and> due_next s1 = xs @ t # ys \<and> t \<notin> set xs \<union> set ys
        \<and> called = (let u = timer_remove t (fold (timer_fire cb) xs (tick_begun s1))
            in case timeout_func (timers s t) of
                 Thread_timeout \<Rightarrow> rt_thread_timeout (tmr_parameter (timers s t)) u
               | Callback f \<Rightarrow> cb f (tmr_parameter (timers s t)) u)
        \<and> s' = fold (timer_fire cb) ys (timer_again t called)
        \<and> (if repeats t s then t \<in> set (tmlists s' Hard_timers)
              \<and> timeout_tick (timers s' t) = rt_tick s' + tmr_init_tick (timers s1 t)
           else t \<notin> set (tmlists s' Hard_timers) \<and> timer_flag t s' AND RT_TIMER_FLAG_ACTIVATED = 0))"
proof -
  note w = waiting_timer [OF cb ok t n]
  have before: "\<exists>s1 s'. run_ticks cb k s = Some s1 \<and> rt_tick_increase cb s1 = Some s'
        \<and> s' = fold (timer_fire cb) (due_next s1) (tick_begun s1) \<and> t \<notin> set (due_next s1)
        \<and> t \<in> set (tmlists s' Hard_timers) \<and> timeout_tick (timers s' t) = timeout_tick (timers s t)" if "k < n" for k
    by (rule tick_before [OF cb ok t n that])
  obtain s1 where s1: "run_ticks cb n s = Some s1" "tick_ok s1" "t \<in> set (tmlists s1 Hard_timers)"
    "ticks_of s1 t = ticks_of s t" "timer_flag t s1 = timer_flag t s" "dist (rt_tick s1) (ticks_of s1 t) = 1"
    "timeout_func (timers s1 t) = timeout_func (timers s t)" "tmr_parameter (timers s1 t) = tmr_parameter (timers s t)"
    using w [of n] by auto
  have rp: "repeats t s1 = repeats t s" using s1(5) by (simp add: repeats_def)
  obtain s' where s': "rt_tick_increase cb s1 = Some s'" "tick_ok s'" "rt_tick s' = rt_tick s1 + 1"
    "\<And>x. x \<in> set (tmlists s' Hard_timers) \<longleftrightarrow> x \<in> set (tmlists s1 Hard_timers)
       \<and> (1 < dist (rt_tick s1) (ticks_of s1 x) \<or> repeats x s1)"
    "\<And>x. x \<in> set (tmlists s1 Hard_timers) \<Longrightarrow> dist (rt_tick s1) (ticks_of s1 x) \<le> 1 \<Longrightarrow> repeats x s1
       \<Longrightarrow> ticks_of s' x = rt_tick s1 + 1 + tmr_init_tick (timers s1 x)"
    "\<And>x. x \<in> set (tmlists s1 Hard_timers) \<Longrightarrow> dist (rt_tick s1) (ticks_of s1 x) \<le> 1 \<Longrightarrow> \<not> repeats x s1
       \<Longrightarrow> timer_flag x s' AND 1 = 0"
    "s' = fold (timer_fire cb) (due_next s1) (tick_begun s1)" "distinct (due_next s1)"
    "\<And>x. x \<in> set (due_next s1) \<longleftrightarrow> x \<in> set (tmlists s1 Hard_timers) \<and> dist (rt_tick s1) (ticks_of s1 x) \<le> 1"
    by (rule tick_step [OF cb s1(2)]) blast
  have "t \<in> set (due_next s1)" using s'(9) s1(3,6) by simp
  then obtain xs ys where d: "due_next s1 = xs @ t # ys" by (meson split_list)
  have nd: "t \<notin> set xs \<union> set ys" using s'(8) unfolding d by simp
  let ?u = "timer_remove t (fold (timer_fire cb) xs (tick_begun s1))"
  let ?c = "let u = ?u in case timeout_func (timers s t) of
                 Thread_timeout \<Rightarrow> rt_thread_timeout (tmr_parameter (timers s t)) u
               | Callback f \<Rightarrow> cb f (tmr_parameter (timers s t)) u"
  have "run_timeout cb t ?u = ?c"
    using s1(7,8) by (simp add: run_timeout_def fold_fire_fun [OF cb] tick_begun_fun Let_def split: timeout_fn.split)
  then have call: "s' = fold (timer_fire cb) ys (timer_again t ?c)"
    using s'(7) unfolding d by (simp add: timer_fire_def)
  have "dist (rt_tick s1 + 1) (ticks_of s1 t) = 0" using dist_tick [of "rt_tick s1" "ticks_of s1 t"] s1(6) by simp
  then have "ticks_of s1 t = rt_tick s1 + 1" by (simp add: dist_def signed_eq_0_iff)
  then have now: "rt_tick s' = timeout_tick (timers s t)" using s'(3) s1(4) by simp
  have after: "if repeats t s then t \<in> set (tmlists s' Hard_timers)
              \<and> timeout_tick (timers s' t) = rt_tick s' + tmr_init_tick (timers s1 t)
           else t \<notin> set (tmlists s' Hard_timers) \<and> timer_flag t s' AND 1 = 0"
    using s'(3,4) s'(5,6) [of t] s1(3,6) rp by simp
  show ?thesis
    by (rule conjI, use before in blast, intro exI conjI, rule s1(1), rule s'(1), rule s'(2), rule now, rule d, rule nd,
        rule refl, rule call, rule after)
qed

section \<open>Sleeping\<close>

lemma timers_ok_set_time: "timers_ok q (upd_timer x (\<lambda>y. y\<lparr>tmr_init_tick := n\<rparr>) s) = timers_ok q s"
proof -
  have "ticks_of (upd_timer x (\<lambda>y. y\<lparr>tmr_init_tick := n\<rparr>) s) = ticks_of s" by auto
  then show ?thesis by (simp add: timers_ok_def timer_queue_of_def)
qed

text \<open>
  \<^verbatim>\<open>rt_thread_sleep\<close> of the running thread suspends it, arms its timer for the current tick plus
  the delay and, when the scheduler is not locked and another thread is ready, hands the processor
  to another thread.  The invariants of the scheduler and of the timer list hold and no assertion fails.
\<close>

theorem thread_sleep_correct:
  assumes ok: "sched_ok {} s" and c: "current s = Some t" "state_of s t = RT_THREAD_RUNNING" and t: "thread_ok t s"
    and tm: "timers_ok Hard_timers s" "\<not> soft_timer (Thread_timer t) s" and n: "n < RT_TICK_HALF"
  defines "s' \<equiv> rt_thread_sleep n s"
  shows "sched_ok {} s' \<and> kpanic s' = kpanic s \<and> state_of s' t = RT_THREAD_SUSPEND \<and> timers_ok Hard_timers s'
    \<and> Thread_timer t \<in> set (tmlists s' Hard_timers) \<and> timeout_tick (timers s' (Thread_timer t)) = rt_tick s + n
    \<and> (if lock_nest s = 0 \<and> (\<exists>u. state_of s u = RT_THREAD_READY) then current s' \<noteq> Some t else True)"
proof -
  let ?x = "Thread_timer t" and ?s1 = "snd (rt_thread_suspend t s)"
  let ?s2 = "snd (rt_timer_control ?x (Set_time n) ?s1)"
  let ?s3 = "started ?x ?s2"
  have st: "state_of s t \<in> {1, 3}" using c by simp
  note f = rt_thread_suspend_facts [OF ok t st]
  note d = rt_thread_suspend_done [OF ok t st]
  have v: "is_thread t s" "is_timer ?x s" using t by (simp_all add: thread_ok_def)
  then have v1: "is_timer ?x ?s1" using f(7) [of t] t by (simp add: thread_ok_def)
  have s2: "?s2 = upd_timer ?x (\<lambda>y. y\<lparr>tmr_init_tick := n\<rparr>) ?s1" using v1 by (simp add: rt_timer_control_def)
  have "timers_ok Hard_timers ?s1" using tm(1) d by (simp add: timers_ok_stop)
  then have tok2: "timers_ok Hard_timers ?s2"
    unfolding s2 by (simp add: timers_ok_set_time)
  have ns: "\<not> soft_timer ?x ?s2" using tm(2) d unfolding s2 by (simp add: rt_timer_stop_lists(3)) (simp add: soft_timer_def timer_flag_def)
  have hq: "Hard_timers = timer_queue_of ?x ?s2" using ns by (simp add: timer_queue_of_def)
  have n2: "tmr_init_tick (timers ?s2 ?x) < 0x7fffffff" using n unfolding s2 by simp
  have v2: "is_timer ?x ?s2" using v1 by simp
  have s': "s' = rt_schedule ?s3"
    using c(1) v(1) rt_timer_start_eq [OF v2 n2] ns by (simp add: s'_def rt_thread_sleep_def rt_thread_self_def Let_def)
  have ok3: "sched_ok {} ?s3" "current ?s3 = Some t" using f(1,6) c(1) by simp_all
  have st3: "state_of ?s3 t = 2" using f(3) [of t] by simp
  have tick: "rt_tick ?s2 = rt_tick s" "lock_nest ?s3 = lock_nest s" using d unfolding s2 by simp_all
  have p1: "sched_ok {} s'" "kpanic s' = kpanic s" "state_of s' t = 2"
    using rt_schedule_ok [OF ok3] rt_schedule_state [OF ok3, of t] st3 f(2) unfolding s' s2 by auto
  have p2: "timers_ok Hard_timers s'" "Thread_timer t \<in> set (tmlists s' Hard_timers)"
    "timeout_tick (timers s' ?x) = rt_tick s + n"
    using started_ok [OF tok2 hq n2 v2] started_lists(4) [OF tok2 hq n2] tick(1) unfolding s' by (simp_all add: s2)
  have p3: "current s' \<noteq> Some t" if l: "lock_nest s = 0" and u: "state_of s u = 1" for u
    using ok3
  proof (cases rule: rt_schedule_cases)
    case idle
    have "u \<noteq> t" using u c(2) by auto
    then have "state_of ?s3 u = 1" using f(3) [of u] u by simp
    then have "bit (ready_group ?s3) (current_priority (threads ?s3 u))"
      using sched_okD(2,6) [OF ok3(1)] by (metis empty_iff list.set(1))
    then have False using idle(1) l tick(2) by auto
    then show ?thesis ..
  next
    case (stay p)
    then show ?thesis using st3 by simp
  next
    case (switch h p ts)
    then show ?thesis unfolding s' by simp
  qed
  show ?thesis using p1 p2 p3 by auto
qed

section \<open>A concrete run\<close>

text \<open>The demo system with one timer of two ticks started; its function records its argument.\<close>

definition demo_cb :: "nat \<Rightarrow> nat \<Rightarrow> kernel \<Rightarrow> kernel" where
  "demo_cb f a s = s\<lparr>rt_errno := int a\<rparr>"

definition demo_timer :: kernel where
  "demo_timer = upd_timer (Timer 5)
     (\<lambda>_. \<lparr>timeout_func = Callback 1, tmr_parameter = 9, tmr_init_tick = 2, timeout_tick = 0\<rparr>) demo_system"

lemma demo_keeps: "keeps_timers demo_cb"
  by (simp add: keeps_timers_def demo_cb_def)

lemma demo_timer_ok:
  "tmlists demo_timer q = []" "rt_tick demo_timer = 0" "is_timer t demo_timer" "\<not> soft_timer t demo_timer"
  "timers_ok q demo_timer" "sched_ok {} demo_timer" "current demo_timer = Some 1" "thread_ok u demo_timer"
  "state_of demo_timer = state_of demo_system" "timer_flag t demo_timer = 0" "timer_queue_of t demo_timer = Hard_timers"
  "tmr_init_tick (timers demo_timer (Timer 5)) = 2"
proof -
  show "tmlists demo_timer q = []" for q
    by (simp add: demo_timer_def demo_system_def demo_kernel_def blank_kernel_def)
  then show "timers_ok q demo_timer" by (simp add: timers_ok_def store_ok_def timer_order_def)
  show "rt_tick demo_timer = 0" "timer_flag t demo_timer = 0" "is_timer t demo_timer" for t
    by (simp_all add: demo_timer_def demo_system_def demo_kernel_def blank_kernel_def timer_flag_def is_timer_def
        rt_object_get_type_def)
  then show "\<not> soft_timer t demo_timer" "timer_queue_of t demo_timer = Hard_timers"
    by (simp_all add: soft_timer_def timer_queue_of_def)
  show "sched_ok {} demo_timer" "current demo_timer = Some 1" "thread_ok u demo_timer"
    "state_of demo_timer = state_of demo_system" "tmr_init_tick (timers demo_timer (Timer 5)) = 2"
    using demo_system_ok(1-3) by (simp_all add: demo_timer_def thread_ok_def rt_object_is_systemobject_def)
qed

theorem timer_start_correct_witness:
  "\<exists>xs ys. tmlists (snd (rt_timer_start (Timer 5) demo_timer)) Hard_timers = xs @ Timer 5 # ys"
  using timer_start_correct [of "Timer 5" demo_timer 1] by (auto simp: demo_timer_ok)

definition demo_running :: kernel where
  "demo_running = started (Timer 5) demo_timer"

lemma demo_running_ok:
  "tmlists demo_running Hard_timers = [Timer 5]" "timeout_tick (timers demo_running (Timer 5)) = 2"
  "rt_tick demo_running = 0" "hard_ok demo_running" "tick_ok demo_running" "\<not> repeats t demo_running"
proof -
  have n: "tmr_init_tick (timers demo_timer (Timer 5)) < 0x7fffffff" by (simp add: demo_timer_ok)
  have q: "Hard_timers = timer_queue_of (Timer 5) demo_timer" by (simp add: demo_timer_ok)
  show l: "tmlists demo_running Hard_timers = [Timer 5]"
    using started_lists(4) [OF demo_timer_ok(5) q n] by (simp add: demo_running_def demo_timer_ok)
  show tk: "timeout_tick (timers demo_running (Timer 5)) = 2" "rt_tick demo_running = 0"
    by (simp_all add: demo_running_def demo_timer_ok)
  show r: "\<not> repeats t demo_running" for t by (simp add: repeats_def demo_running_def demo_timer_ok)
  have fl: "timer_flag t demo_running AND 2 = 0" for t by (simp add: demo_running_def demo_timer_ok)
  show h: "hard_ok demo_running"
    using started_ok [OF demo_timer_ok(5) q n demo_timer_ok(3)] fl by (simp add: hard_ok_def demo_running_def)
  show "tick_ok demo_running" using h l tk by (simp add: tick_ok_def dist_def demo_running_def demo_timer_ok)
qed

theorem timer_check_correct_witness:
  "rt_timer_check demo_cb (demo_running\<lparr>rt_tick := 2\<rparr>) \<noteq> None"
proof -
  have "hard_ok (demo_running\<lparr>rt_tick := 2\<rparr>)"
    using demo_running_ok(1,2,4)
    by (simp add: hard_ok_def timers_ok_def timer_order_def in_window_def dist_def timer_queue_of_def soft_timer_def
        timer_flag_def is_timer_def rt_object_get_type_def)
  from timer_check_correct [OF demo_keeps this] show ?thesis by blast
qed

theorem timer_runs_on_time_witness:
  "\<exists>s1 s'. run_ticks demo_cb 1 demo_running = Some s1 \<and> rt_tick_increase demo_cb s1 = Some s'
     \<and> rt_tick s' = 2 \<and> Timer 5 \<notin> set (tmlists s' Hard_timers) \<and> Timer 5 \<in> set (due_next s1)"
proof -
  have d: "dist (rt_tick demo_running) (timeout_tick (timers demo_running (Timer 5))) = int (Suc 1)"
    by (simp add: demo_running_ok dist_def)
  have t: "Timer 5 \<in> set (tmlists demo_running Hard_timers)" by (simp add: demo_running_ok)
  obtain s1 s' xs ys where "run_ticks demo_cb 1 demo_running = Some s1" "rt_tick_increase demo_cb s1 = Some s'"
    "rt_tick s' = 2" "due_next s1 = xs @ Timer 5 # ys" "Timer 5 \<notin> set (tmlists s' Hard_timers)"
    using timer_runs_on_time [OF demo_keeps demo_running_ok(5) t d] by (auto simp add: demo_running_ok)
  then show ?thesis by auto
qed

theorem thread_sleep_correct_witness:
  "state_of (rt_thread_sleep 10 demo_timer) 1 = 2 \<and> current (rt_thread_sleep 10 demo_timer) \<noteq> Some 1"
proof -
  have "lock_nest demo_timer = 0"
    by (simp add: demo_timer_def demo_system_def demo_kernel_def blank_kernel_def)
  moreover have "\<exists>u. state_of demo_timer u = 1" by (rule exI [of _ 2]) (simp add: demo_timer_ok demo_system_ok)
  moreover have "state_of demo_timer 1 = 3" "(10 :: u32) < 0x7fffffff" by (simp_all add: demo_timer_ok demo_system_ok)
  ultimately show ?thesis
    using thread_sleep_correct [OF demo_timer_ok(6,7) _ demo_timer_ok(8,5,4)] by simp
qed

end
