(* ===== verification/RT_IpcList.thy ===== *)
theory RT_IpcList
  imports RT_Clock
begin

text \<open>
  The wait queues all inter-process communication objects of \<^verbatim>\<open>src/ipc.c\<close> share, and the step that
  suspends the calling thread in one of them.  A blocking call is split where the thread loses the
  processor: the first part answers \<open>Blocked\<close>, the rest of the call is a definition of its own.
\<close>

datatype 'a outcome = Returned 'a | Blocked

abbreviation (input) RT_IPC_FLAG_FIFO :: u8 where "RT_IPC_FLAG_FIFO \<equiv> 0"
abbreviation (input) RT_IPC_FLAG_PRIO :: u8 where "RT_IPC_FLAG_PRIO \<equiv> 1"

definition not_in_interrupt :: "kernel \<Rightarrow> bool" where
  "not_in_interrupt s \<longleftrightarrow> interrupt_nest s = 0"

definition in_thread_context :: "kernel \<Rightarrow> bool" where
  "in_thread_context s \<longleftrightarrow> rt_thread_self s \<noteq> None \<and> not_in_interrupt s"

section \<open>Operations\<close>

text \<open>\<^verbatim>\<open>rt_ipc_object_init\<close> makes the list head of the object empty.\<close>

definition rt_ipc_object_init :: "obj_ref \<Rightarrow> kernel \<Rightarrow> kernel" where
  "rt_ipc_object_init r s = upd_tlists (\<lambda>S. S(Suspend r := [])) s"

definition set_obj_flag :: "obj_ref \<Rightarrow> u8 \<Rightarrow> kernel \<Rightarrow> kernel" where
  "set_obj_flag r f s = upd_obj r (\<lambda>x. x\<lparr>obj_flag := f\<rparr>) s"

definition rt_ipc_list_suspend :: "thread_queue \<Rightarrow> nat \<Rightarrow> u8 \<Rightarrow> kernel \<Rightarrow> kernel" where
  "rt_ipc_list_suspend q t flag s =
     (let s1 = snd (rt_thread_suspend t s)
      in if flag = RT_IPC_FLAG_FIFO then upd_tlists (list_insert_before q t) s1
         else if flag = RT_IPC_FLAG_PRIO then
           (case find (\<lambda>u. current_priority (threads s1 t) < current_priority (threads s1 u)) (tlists s1 q) of
              Some u \<Rightarrow> upd_tlists (list_insert_before_node u t) s1
            | None \<Rightarrow> upd_tlists (list_insert_before q t) s1)
         else s1)"

definition rt_ipc_list_resume :: "thread_queue \<Rightarrow> kernel \<Rightarrow> kernel" where
  "rt_ipc_list_resume q s = (case tlists s q of [] \<Rightarrow> panic s | t # _ \<Rightarrow> snd (rt_thread_resume t s))"

partial_function (option) rt_ipc_list_resume_all :: "thread_queue \<Rightarrow> kernel \<Rightarrow> kernel option" where
  [code]: "rt_ipc_list_resume_all q s =
     (case tlists s q of
        [] \<Rightarrow> Some s
      | t # _ \<Rightarrow>
          rt_ipc_list_resume_all q (snd (rt_thread_resume t (upd_thread t (\<lambda>x. x\<lparr>error := - RT_ERROR\<rparr>) s))))"

text \<open>The timed part of a wait, and the whole step up to the reschedule.\<close>

definition start_wait_timer :: "nat \<Rightarrow> int \<Rightarrow> kernel \<Rightarrow> kernel" where
  "start_wait_timer t time s =
     (if time > 0
      then snd (rt_timer_start (Thread_timer t)
             (snd (rt_timer_control (Thread_timer t) (Set_time (word_of_int time)) s)))
      else s)"

definition ipc_block :: "thread_queue \<Rightarrow> nat \<Rightarrow> u8 \<Rightarrow> int \<Rightarrow> kernel \<Rightarrow> kernel" where
  "ipc_block q t flag time s = rt_schedule (start_wait_timer t time (rt_ipc_list_suspend q t flag s))"

text \<open>The time left of a wait that began at tick \<open>start\<close>: 32-bit arithmetic, and never negative.\<close>

definition left_time :: "int \<Rightarrow> u32 \<Rightarrow> u32 \<Rightarrow> int" where
  "left_time timeout start now =
     (if timeout > 0 then (let left = sint ((word_of_int timeout :: u32) - (now - start)) in if left < 0 then 0 else left)
      else timeout)"

section \<open>Queue order\<close>

text \<open>Where a waiting thread is put: last, or behind the threads of the same or a higher priority.\<close>

definition wait_insert :: "u8 \<Rightarrow> (nat \<Rightarrow> nat) \<Rightarrow> nat \<Rightarrow> nat list \<Rightarrow> nat list" where
  "wait_insert flag prio t xs =
     (if flag = RT_IPC_FLAG_FIFO then xs @ [t]
      else takeWhile (\<lambda>u. prio u \<le> prio t) xs @ t # dropWhile (\<lambda>u. prio u \<le> prio t) xs)"

lemma find_none_takeWhile: "find P xs = None \<Longrightarrow> takeWhile (\<lambda>u. \<not> P u) xs = xs \<and> dropWhile (\<lambda>u. \<not> P u) xs = []"
  by (induction xs) (auto split: if_splits)

lemma find_some_split:
  "find P xs = Some u \<Longrightarrow> distinct xs \<Longrightarrow>
     insert_before_in u t xs = takeWhile (\<lambda>u. \<not> P u) xs @ t # dropWhile (\<lambda>u. \<not> P u) xs"
  by (induction xs) (auto split: if_splits dest: find_Some_iff [THEN iffD1])

lemma find_some_in: "find P xs = Some u \<Longrightarrow> u \<in> set xs"
  by (auto simp: find_Some_iff)

lemma wait_insert_split: "\<exists>us vs. xs = us @ vs \<and> wait_insert flag prio t xs = us @ t # vs"
proof (cases "flag = 0")
  case False
  let ?P = "\<lambda>u. prio u \<le> prio t"
  show ?thesis
    by (rule exI [of _ "takeWhile ?P xs"], rule exI [of _ "dropWhile ?P xs"]) (simp add: wait_insert_def False)
qed (auto simp: wait_insert_def)

lemma wait_insert_set [simp]: "set (wait_insert flag prio t xs) = insert t (set xs)"
  using wait_insert_split [of xs flag prio t] by auto

lemma wait_insert_sorted:
  assumes "sorted (map prio xs)"
  shows "sorted (map prio (wait_insert RT_IPC_FLAG_PRIO prio t xs))"
  using sorted_split_insert [OF assms, of t] by (simp add: wait_insert_def)

section \<open>Blocking\<close>

definition wait_queue :: "thread_queue \<Rightarrow> bool" where
  "wait_queue q \<longleftrightarrow> (\<exists>r. q = Suspend r) \<or> (\<exists>m. q = Sender m) \<or> (\<exists>a. q = Waiters a)"

lemma wait_queueD: "wait_queue q \<Longrightarrow> queue_state q = 2" "wait_queue q \<Longrightarrow> q \<noteq> Ready p" "wait_queue q \<Longrightarrow> q \<noteq> Defunct"
  by (auto simp: wait_queue_def)

lemma list_suspend_lists:
  assumes ok: "sched_ok {} s" and t: "thread_ok t s" "state_of s t \<in> {1, 3}" and q: "wait_queue q" and f: "flag \<in> {0, 1}"
  defines "s1 \<equiv> snd (rt_thread_suspend t s)"
  shows "rt_ipc_list_suspend q t flag s
    = upd_tlists (\<lambda>S. S(q := wait_insert flag (\<lambda>u. current_priority (threads s1 u)) t (tlists s1 q))) s1"
proof -
  note fa = rt_thread_suspend_facts [OF ok t]
  let ?P = "\<lambda>u. current_priority (threads s1 t) < current_priority (threads s1 u)"
  have st: "store_ok (tlists s1)" using sched_okD(1) [OF fa(1)] by (simp add: s1_def)
  show ?thesis
  proof (cases "flag = 0")
    case True
    then show ?thesis by (simp add: rt_ipc_list_suspend_def s1_def Let_def list_insert_before_def wait_insert_def upd_tlists_def)
  next
    case False
    then have f1: "flag = 1" using f by simp
    show ?thesis
    proof (cases "find ?P (tlists s1 q)")
      case None
      have "wait_insert flag (\<lambda>u. current_priority (threads s1 u)) t (tlists s1 q) = tlists s1 q @ [t]"
        using find_none_takeWhile [OF None] unfolding not_less f1 wait_insert_def by simp
      then show ?thesis using None f1
        by (simp add: rt_ipc_list_suspend_def s1_def Let_def list_insert_before_def upd_tlists_def)
    next
      case (Some u)
      have u: "u \<in> set (tlists s1 q)" by (rule find_some_in [OF Some])
      have "insert_before_in u t (tlists s1 k) = (if k = q then wait_insert flag (\<lambda>u. current_priority (threads s1 u)) t (tlists s1 q)
          else tlists s1 k)" for k
      proof (cases "k = q")
        case True
        then show ?thesis using find_some_split [OF Some store_ok_distinct [OF st]] f1
          by (simp add: wait_insert_def not_less)
      next
        case False
        then have "u \<notin> set (tlists s1 k)" using store_ok_disjoint [OF st, of q k u] u by auto
        then show ?thesis using False by simp
      qed
      then have "list_insert_before_node u t (tlists s1)
          = (tlists s1)(q := wait_insert flag (\<lambda>u. current_priority (threads s1 u)) t (tlists s1 q))"
        by (simp add: list_insert_before_node_def fun_eq_iff)
      then show ?thesis using Some f1 by (simp add: rt_ipc_list_suspend_def s1_def Let_def upd_tlists_def)
    qed
  qed
qed

text \<open>A thread that may wait: a valid thread whose timer is not a soft timer.\<close>

definition waiter_ok :: "nat \<Rightarrow> kernel \<Rightarrow> bool" where
  "waiter_ok t s \<longleftrightarrow> thread_ok t s \<and> \<not> soft_timer (Thread_timer t) s"

lemma objects_started [simp]:
  "sems (started x s) = sems s" "mutexes (started x s) = mutexes s" "events (started x s) = events s"
  "mailboxes (started x s) = mailboxes s" "queues (started x s) = queues s"
  "interrupt_nest (started x s) = interrupt_nest s" "mempools (started x s) = mempools s" "block_words (started x s) = block_words s"
  by (simp_all add: started_def timer_arm_def Let_def upd_flag_def timer_remove_def)

lemma wait_time: "0 < time \<Longrightarrow> time < 2 ^ 31 - 1 \<Longrightarrow> (word_of_int time :: u32) < 0x7fffffff"
  by (simp add: word_less_def uint_word_of_int)

definition wait_armed :: "nat \<Rightarrow> int \<Rightarrow> kernel \<Rightarrow> kernel" where
  "wait_armed t time s = started (Thread_timer t) (upd_timer (Thread_timer t) (\<lambda>y. y\<lparr>tmr_init_tick := word_of_int time\<rparr>) s)"

lemma start_wait_timer_eq:
  assumes "waiter_ok t s" "time < 2 ^ 31 - 1"
  shows "start_wait_timer t time s = (if 0 < time then wait_armed t time s else s)"
proof (cases "0 < time")
  case True
  let ?x = "Thread_timer t"
  let ?s = "upd_timer ?x (\<lambda>y. y\<lparr>tmr_init_tick := word_of_int time\<rparr>) s"
  have v: "is_timer ?x s" "\<not> soft_timer ?x s" using assms(1) by (simp_all add: waiter_ok_def thread_ok_def)
  have n: "tmr_init_tick (timers ?s ?x) < 0x7fffffff" using wait_time [OF True assms(2)] by simp
  have t: "is_timer ?x ?s" using v by simp
  show ?thesis
    using True v rt_timer_start_eq [OF t n] by (simp add: start_wait_timer_def rt_timer_control_def wait_armed_def)
qed (simp add: start_wait_timer_def)

lemma wait_armed_sel [simp]:
  "threads (wait_armed t n s) = threads s" "tlists (wait_armed t n s) = tlists s" "rt_tick (wait_armed t n s) = rt_tick s"
  "current (wait_armed t n s) = current s" "lock_nest (wait_armed t n s) = lock_nest s"
  "kpanic (wait_armed t n s) = kpanic s" "sched_ok X (wait_armed t n s) = sched_ok X s"
  "state_of (wait_armed t n s) = state_of s" "sems (wait_armed t n s) = sems s"
  "mutexes (wait_armed t n s) = mutexes s" "events (wait_armed t n s) = events s"
  "mailboxes (wait_armed t n s) = mailboxes s" "queues (wait_armed t n s) = queues s"
  "interrupt_nest (wait_armed t n s) = interrupt_nest s" "mempools (wait_armed t n s) = mempools s"
  "block_words (wait_armed t n s) = block_words s"
  "thread_ok u (wait_armed t n s) = thread_ok u s" "soft_timer x (wait_armed t n s) = soft_timer x s"
  by (simp_all add: wait_armed_def) (simp add: thread_ok_def upd_timer_def rt_object_is_systemobject_def is_thread_def
      is_timer_def rt_object_get_type_def)

lemma wait_armed_timer:
  assumes "timers_ok Hard_timers s" "waiter_ok t s" "0 < n" "n < 2 ^ 31 - 1"
  shows "timers_ok Hard_timers (wait_armed t n s)" "Thread_timer t \<in> set (tmlists (wait_armed t n s) Hard_timers)"
    "timeout_tick (timers (wait_armed t n s) (Thread_timer t)) = rt_tick s + word_of_int n"
proof -
  let ?x = "Thread_timer t"
  let ?s = "upd_timer ?x (\<lambda>y. y\<lparr>tmr_init_tick := word_of_int n\<rparr>) s"
  have v: "is_timer ?x ?s" "\<not> soft_timer ?x ?s" using assms(2) by (simp_all add: waiter_ok_def thread_ok_def)
  have tok: "timers_ok Hard_timers ?s" using assms(1) by (simp add: timers_ok_set_time)
  have q: "Hard_timers = timer_queue_of ?x ?s" using v by (simp add: timer_queue_of_def)
  have i: "tmr_init_tick (timers ?s ?x) < 0x7fffffff" using wait_time assms(3,4) by simp
  show "timers_ok Hard_timers (wait_armed t n s)" using started_ok [OF tok q i v(1)] by (simp add: wait_armed_def)
  show "?x \<in> set (tmlists (wait_armed t n s) Hard_timers)"
    using started_lists(4) [OF tok q i] by (simp add: wait_armed_def)
  show "timeout_tick (timers (wait_armed t n s) ?x) = rt_tick s + word_of_int n" by (simp add: wait_armed_def)
qed

text \<open>The running thread blocks in a wait queue.\<close>

definition can_block :: "kernel \<Rightarrow> nat \<Rightarrow> thread_queue \<Rightarrow> u8 \<Rightarrow> int \<Rightarrow> bool" where
  "can_block s t q flag time \<longleftrightarrow> sched_ok {} s \<and> current s = Some t \<and> state_of s t = RT_THREAD_RUNNING
     \<and> waiter_ok t s \<and> wait_queue q \<and> flag \<in> {0, 1} \<and> time < 2 ^ 31 - 1"

lemma can_blockD:
  assumes "can_block s t q flag time"
  shows "sched_ok {} s" "current s = Some t" "state_of s t = 3" "waiter_ok t s" "wait_queue q" "flag \<in> {0, 1}"
    "time < 2 ^ 31 - 1" "thread_ok t s" "state_of s t \<in> {1, 3}"
  using assms by (simp_all add: can_block_def waiter_ok_def)

definition suspended :: "nat \<Rightarrow> kernel \<Rightarrow> kernel" where
  "suspended t s = snd (rt_thread_suspend t s)"

definition queued :: "thread_queue \<Rightarrow> nat \<Rightarrow> u8 \<Rightarrow> kernel \<Rightarrow> kernel" where
  "queued q t flag s = upd_tlists (\<lambda>S. S(q := wait_insert flag (\<lambda>u. current_priority (threads s u)) t (tlists s q))) (suspended t s)"

lemma suspended_eq:
  assumes b: "can_block s t q flag time"
  shows "suspended t s = snd (rt_timer_stop (Thread_timer t) (set_state t 2 (rt_schedule_remove_thread t s)))"
  using rt_thread_suspend_done [OF can_blockD(1,8,9) [OF b]] by (simp add: suspended_def)

lemma suspended_sel:
  assumes b: "can_block s t q flag time"
  shows "tlists (suspended t s) = tlists s" "current_priority (threads (suspended t s) u) = current_priority (threads s u)"
  "error (threads (suspended t s) u) = error (threads s u)" "event_set (threads (suspended t s) u) = event_set (threads s u)"
  "event_info (threads (suspended t s) u) = event_info (threads s u)" "state_of (suspended t s) u = (if u = t then 2 else state_of s u)"
  "sems (suspended t s) = sems s" "mutexes (suspended t s) = mutexes s" "events (suspended t s) = events s"
  "mailboxes (suspended t s) = mailboxes s" "queues (suspended t s) = queues s" "rt_tick (suspended t s) = rt_tick s"
  "lock_nest (suspended t s) = lock_nest s" "current (suspended t s) = Some t" "kpanic (suspended t s) = kpanic s"
  "soft_timer x (suspended t s) = soft_timer x s" "thread_ok u (suspended t s) = thread_ok u s"
  "mempools (suspended t s) = mempools s" "block_words (suspended t s) = block_words s"
proof -
  have d: "list_remove t (tlists s) = tlists s" using running_detached [OF can_blockD(1) [OF b] _ can_blockD(3) [OF b]] by simp
  show "tlists (suspended t s) = tlists s" "thread_ok u (suspended t s) = thread_ok u s" "kpanic (suspended t s) = kpanic s"
    "current (suspended t s) = Some t" "state_of (suspended t s) u = (if u = t then 2 else state_of s u)"
    using rt_thread_suspend_facts [OF can_blockD(1,8,9) [OF b]] d can_blockD [OF b] by (simp_all add: suspended_def)
  show "soft_timer x (suspended t s) = soft_timer x s"
    unfolding suspended_eq [OF b] by (simp add: rt_timer_stop_lists(3)) (simp add: soft_timer_def timer_flag_def)
qed (simp_all add: suspended_eq [OF b])

lemma list_suspend_queued:
  assumes b: "can_block s t q flag time"
  shows "rt_ipc_list_suspend q t flag s = queued q t flag s"
  using list_suspend_lists [OF can_blockD(1,8,9,5,6) [OF b]] suspended_sel(1,2) [OF b] by (simp add: queued_def suspended_def)

lemma queued_ok:
  assumes b: "can_block s t q flag time"
  shows "sched_ok {} (queued q t flag s)" "waiter_ok t (queued q t flag s)" "current (queued q t flag s) = Some t"
proof -
  have "sched_ok {} (suspended t s)" using rt_thread_suspend_facts(1) [OF can_blockD(1,8,9) [OF b]] by (simp add: suspended_def)
  moreover have "detached t (tlists (suspended t s))" using running_detached [OF can_blockD(1) [OF b] _ can_blockD(3) [OF b]] suspended_sel(1) [OF b] by simp
  moreover obtain us vs where uv: "tlists s q = us @ vs"
    "wait_insert flag (\<lambda>u. current_priority (threads s u)) t (tlists s q) = us @ t # vs"
    using wait_insert_split by blast
  ultimately show "sched_ok {} (queued q t flag s)"
    using sched_ok_enqueue [of "{}" "suspended t s" t q us vs "queued q t flag s"] suspended_sel [OF b] wait_queueD [OF can_blockD(5) [OF b]]
    by (simp add: queued_def)
  show "waiter_ok t (queued q t flag s)" "current (queued q t flag s) = Some t"
    using can_blockD(4) [OF b] suspended_sel [OF b] by (simp_all add: waiter_ok_def queued_def thread_ok_def)
qed

definition before :: "thread_queue \<Rightarrow> nat \<Rightarrow> u8 \<Rightarrow> int \<Rightarrow> kernel \<Rightarrow> kernel" where
  "before q t flag time s = (if 0 < time then wait_armed t time (queued q t flag s) else queued q t flag s)"

lemma block_eq:
  assumes b: "can_block s t q flag time"
  shows "ipc_block q t flag time s = rt_schedule (before q t flag time s)"
  using start_wait_timer_eq [OF queued_ok(2) [OF b] can_blockD(7) [OF b]] by (simp add: ipc_block_def list_suspend_queued [OF b] before_def)

lemma before_sel:
  assumes b: "can_block s t q flag time"
  shows "threads (before q t flag time s) = threads (queued q t flag s)" "tlists (before q t flag time s) = tlists (queued q t flag s)" "state_of (before q t flag time s) = state_of (queued q t flag s)"
  "sems (before q t flag time s) = sems (queued q t flag s)" "mutexes (before q t flag time s) = mutexes (queued q t flag s)" "events (before q t flag time s) = events (queued q t flag s)"
  "mailboxes (before q t flag time s) = mailboxes (queued q t flag s)" "queues (before q t flag time s) = queues (queued q t flag s)" "rt_tick (before q t flag time s) = rt_tick (queued q t flag s)"
  "kpanic (before q t flag time s) = kpanic (queued q t flag s)" "lock_nest (before q t flag time s) = lock_nest (queued q t flag s)" "sched_ok {} (before q t flag time s)" "current (before q t flag time s) = Some t"
  "mempools (before q t flag time s) = mempools (queued q t flag s)" "block_words (before q t flag time s) = block_words (queued q t flag s)"
  using queued_ok [OF b] by (simp_all add: before_def)

lemma block_frame:
  assumes b: "can_block s t q flag time"
  shows "sems (ipc_block q t flag time s) = sems s" "mutexes (ipc_block q t flag time s) = mutexes s"
  "events (ipc_block q t flag time s) = events s" "mailboxes (ipc_block q t flag time s) = mailboxes s"
  "queues (ipc_block q t flag time s) = queues s" "rt_tick (ipc_block q t flag time s) = rt_tick s"
  "error (threads (ipc_block q t flag time s) u) = error (threads s u)"
  "event_set (threads (ipc_block q t flag time s) u) = event_set (threads s u)"
  "event_info (threads (ipc_block q t flag time s) u) = event_info (threads s u)"
  "current_priority (threads (ipc_block q t flag time s) u) = current_priority (threads s u)"
  "lock_nest (ipc_block q t flag time s) = lock_nest s" "mempools (ipc_block q t flag time s) = mempools s"
  "block_words (ipc_block q t flag time s) = block_words s"
  by (simp_all add: block_eq [OF b] before_sel [OF b] queued_def suspended_sel [OF b])

lemma block_sched:
  assumes b: "can_block s t q flag time"
  shows "sched_ok {} (ipc_block q t flag time s)" "kpanic (ipc_block q t flag time s) = kpanic s"
  "current (ipc_block q t flag time s) \<noteq> None" "state_of (ipc_block q t flag time s) t = 2"
proof -
  note rs = rt_schedule_ok [OF before_sel(12,13) [OF b]]
  show "sched_ok {} (ipc_block q t flag time s)" "kpanic (ipc_block q t flag time s) = kpanic s"
    "current (ipc_block q t flag time s) \<noteq> None"
    using rs by (simp_all add: block_eq [OF b] before_sel(10) [OF b] queued_def suspended_sel [OF b])
  have "state_of (before q t flag time s) t = 2" by (simp add: before_sel [OF b] queued_def suspended_sel [OF b])
  then show "state_of (ipc_block q t flag time s) t = 2"
    using rt_schedule_state [OF before_sel(12,13) [OF b], of t] by (auto simp: block_eq [OF b])
qed

lemma block_queue:
  assumes b: "can_block s t q flag time" and k: "wait_queue k"
  shows "tlists (ipc_block q t flag time s) k
    = (if k = q then wait_insert flag (\<lambda>u. current_priority (threads s u)) t (tlists s q) else tlists s k)"
  using rt_schedule_waiting [OF before_sel(12,13) [OF b], of k] wait_queueD(2) [OF k]
  by (simp add: block_eq [OF b] before_sel [OF b] queued_def suspended_sel [OF b])

lemma block_others:
  assumes b: "can_block s t q flag time"
  shows "u \<noteq> t \<Longrightarrow> state_of (ipc_block q t flag time s) u = state_of s u
    \<or> state_of s u \<in> {1, 3} \<and> state_of (ipc_block q t flag time s) u \<in> {1, 3}"
  using rt_schedule_state [OF before_sel(12,13) [OF b], of u] by (simp add: block_eq [OF b] before_sel [OF b] queued_def suspended_sel [OF b])

lemma block_timer:
  assumes b: "can_block s t q flag time" and tm: "timers_ok Hard_timers s"
  shows "timers_ok Hard_timers (ipc_block q t flag time s)"
    "0 < time \<Longrightarrow> Thread_timer t \<in> set (tmlists (ipc_block q t flag time s) Hard_timers)"
    "0 < time \<Longrightarrow> timeout_tick (timers (ipc_block q t flag time s) (Thread_timer t)) = rt_tick s + word_of_int time"
    "0 < time \<Longrightarrow> timer_flag (Thread_timer t) (ipc_block q t flag time s) AND 1 \<noteq> 0"
    "\<not> 0 < time \<Longrightarrow> set (tmlists (ipc_block q t flag time s) Hard_timers) \<subseteq> set (tmlists s Hard_timers)"
proof -
  have q: "timers_ok Hard_timers (queued q t flag s)" using tm by (simp add: queued_def suspended_eq [OF b] timers_ok_stop)
  have r: "rt_tick (queued q t flag s) = rt_tick s" by (simp add: queued_def suspended_sel [OF b])
  note a = wait_armed_timer [OF q queued_ok(2) [OF b] _ can_blockD(7) [OF b]]
  show "timers_ok Hard_timers (ipc_block q t flag time s)" using a(1) q by (simp add: block_eq [OF b] before_def)
  show "0 < time \<Longrightarrow> Thread_timer t \<in> set (tmlists (ipc_block q t flag time s) Hard_timers)"
    "0 < time \<Longrightarrow> timeout_tick (timers (ipc_block q t flag time s) (Thread_timer t)) = rt_tick s + word_of_int time"
    using a(2,3) r by (simp_all add: block_eq [OF b] before_def)
  show "0 < time \<Longrightarrow> timer_flag (Thread_timer t) (ipc_block q t flag time s) AND 1 \<noteq> 0"
    by (simp add: block_eq [OF b] before_def wait_armed_def flag_bits)
  show "\<not> 0 < time \<Longrightarrow> set (tmlists (ipc_block q t flag time s) Hard_timers) \<subseteq> set (tmlists s Hard_timers)"
    using rt_timer_stop_lists(1) [of "Thread_timer t" "set_state t 2 (rt_schedule_remove_thread t s)" Hard_timers]
    by (auto simp: block_eq [OF b] before_def queued_def suspended_eq [OF b] list_remove_def)
qed

lemma sched_ok_threads:
  assumes "sched_ok X s" "tlists s' = tlists s" "ready_group s' = ready_group s" "current s' = current s"
    "\<And>u. stat (threads s' u) = stat (threads s u) \<and> current_priority (threads s' u) = current_priority (threads s u)
       \<and> number_mask (threads s' u) = number_mask (threads s u)"
  shows "sched_ok X s'"
proof -
  have e: "state_of s' = state_of s" "priority_ok s' = priority_ok s" "\<And>u. current_priority (threads s' u) = current_priority (threads s u)"
    using assms(5) by (auto simp: state_of_def priority_ok_def)
  show ?thesis using assms(1) unfolding sched_ok_def e assms(2-4) .
qed

section \<open>Waking up\<close>

text \<open>What waking threads leaves alone.\<close>

definition ipc_frame :: "kernel \<Rightarrow> kernel \<Rightarrow> bool" where
  "ipc_frame s s' \<longleftrightarrow> sems s' = sems s \<and> mutexes s' = mutexes s \<and> events s' = events s \<and> mailboxes s' = mailboxes s
     \<and> queues s' = queues s \<and> current s' = current s \<and> lock_nest s' = lock_nest s \<and> rt_tick s' = rt_tick s
     \<and> interrupt_nest s' = interrupt_nest s \<and> kpanic s' = kpanic s
     \<and> mempools s' = mempools s \<and> block_words s' = block_words s
     \<and> (\<forall>r. obj_type (objs s' r) = obj_type (objs s r))
     \<and> (\<forall>u. current_priority (threads s' u) = current_priority (threads s u)
          \<and> event_set (threads s' u) = event_set (threads s u) \<and> event_info (threads s' u) = event_info (threads s u))"

lemma ipc_frameD:
  assumes "ipc_frame s s'"
  shows "sems s' = sems s" "mutexes s' = mutexes s" "events s' = events s" "mailboxes s' = mailboxes s"
    "queues s' = queues s" "current s' = current s" "lock_nest s' = lock_nest s" "rt_tick s' = rt_tick s"
    "interrupt_nest s' = interrupt_nest s" "kpanic s' = kpanic s" "obj_type (objs s' r) = obj_type (objs s r)"
    "current_priority (threads s' u) = current_priority (threads s u)"
    "event_set (threads s' u) = event_set (threads s u)" "event_info (threads s' u) = event_info (threads s u)"
    "thread_ok u s' = thread_ok u s" "mempools s' = mempools s" "block_words s' = block_words s"
  using assms by (simp_all add: ipc_frame_def thread_ok_def is_thread_def is_timer_def rt_object_get_type_def
      rt_object_is_systemobject_def)

lemma ipc_frame_refl [simp]: "ipc_frame s s"
  by (simp add: ipc_frame_def)

lemma ipc_frame_trans: "ipc_frame s s1 \<Longrightarrow> ipc_frame s1 s2 \<Longrightarrow> ipc_frame s s2"
  unfolding ipc_frame_def by simp

lemma ipc_frame_error: "ipc_frame s (upd_thread t (\<lambda>x. x\<lparr>error := e\<rparr>) s)"
  by (simp add: ipc_frame_def)

lemma sched_ok_error: "sched_ok X s \<Longrightarrow> sched_ok X (upd_thread t (\<lambda>x. x\<lparr>error := e\<rparr>) s)"
proof -
  assume ok: "sched_ok X s"
  have "state_of (upd_thread t (\<lambda>x. x\<lparr>error := e\<rparr>) s) = state_of s" by (auto simp: state_of_def)
  then show ?thesis unfolding sched_ok_def using ok by (auto simp: sched_ok_def priority_ok_def)
qed

lemma rt_timer_stop_type: "obj_type (objs (snd (rt_timer_stop x s)) r) = obj_type (objs s r)"
  "interrupt_nest (snd (rt_timer_stop x s)) = interrupt_nest s"
  by (auto simp: rt_timer_stop_def upd_flag_def timer_remove_def panic_def)

lemma resume_frame:
  assumes "thread_ok t s" "state_of s t = 2"
  shows "ipc_frame s (snd (rt_thread_resume t s))"
  using assms rt_thread_resume_woken(2) [OF assms]
  by (simp add: ipc_frame_def) (simp add: rt_thread_resume_def Let_def thread_ok_def rt_timer_stop_type)

lemma waiting_state: "sched_ok {} s \<Longrightarrow> wait_queue q \<Longrightarrow> t \<in> set (tlists s q) \<Longrightarrow> state_of s t = 2"
  using sched_okD(5) [of "{}" s t q] wait_queueD(1) by simp

lemma resume_member:
  assumes ok: "sched_ok {} s" and q: "wait_queue q" and l: "t \<in> set (tlists s q)" and t: "thread_ok t s"
  defines "s' \<equiv> snd (rt_thread_resume t s)"
  shows "sched_ok {} s'" "ipc_frame s s'" "wait_queue k \<Longrightarrow> tlists s' k = removeAll t (tlists s k)"
    "state_of s' u = (if u = t then (if current s = Some t then 3 else 1) else state_of s u)"
    "error (threads s' u) = error (threads s u)" "timer_flag (Thread_timer t) s' AND 1 = 0"
proof -
  have st: "state_of s t = 2" using waiting_state [OF ok q l] .
  note w = rt_thread_resume_woken [OF t st]
  show "sched_ok {} s'" using rt_thread_resume_ok [OF ok] by (simp add: s'_def)
  show "ipc_frame s s'" using resume_frame [OF t st] by (simp add: s'_def)
  show "state_of s' u = (if u = t then (if current s = Some t then 3 else 1) else state_of s u)"
    "error (threads s' u) = error (threads s u)" "timer_flag (Thread_timer t) s' AND 1 = 0"
    using w by (simp_all add: s'_def)
  show "wait_queue k \<Longrightarrow> tlists s' k = removeAll t (tlists s k)"
    using w(4) wait_queueD(2) by (simp add: s'_def list_insert_before_def list_remove_def)
qed

lemma resume_waiter:
  assumes ok: "sched_ok {} s" and q: "wait_queue q" and l: "tlists s q = t # ts" and t: "thread_ok t s"
  defines "s' \<equiv> snd (rt_thread_resume t s)"
  shows "sched_ok {} s'" "ipc_frame s s'" "wait_queue k \<Longrightarrow> tlists s' k = (if k = q then ts else tlists s k)"
    "state_of s' u = (if u = t then (if current s = Some t then 3 else 1) else state_of s u)"
    "error (threads s' u) = error (threads s u)" "timer_flag (Thread_timer t) s' AND 1 = 0"
proof -
  have i: "t \<in> set (tlists s q)" using l by simp
  note m = resume_member [OF ok q i t]
  show "sched_ok {} s'" "ipc_frame s s'" "error (threads s' u) = error (threads s u)"
    "state_of s' u = (if u = t then (if current s = Some t then 3 else 1) else state_of s u)"
    "timer_flag (Thread_timer t) s' AND 1 = 0"
    using m(1,2) m(4,5) [of u] m(6) by (simp_all add: s'_def)
  assume k: "wait_queue k"
  have so: "store_ok (tlists s)" by (rule sched_okD(1) [OF ok])
  have "distinct (t # ts)" using store_ok_distinct [OF so, of q] l by simp
  moreover have "k \<noteq> q \<Longrightarrow> t \<notin> set (tlists s k)" using store_ok_disjoint [OF so, of q k t] l by simp
  ultimately show "tlists s' k = (if k = q then ts else tlists s k)" using m(3) [OF k] l by (simp add: s'_def)
qed

lemma rt_ipc_list_resume_eq: "tlists s q = t # ts \<Longrightarrow> rt_ipc_list_resume q s = snd (rt_thread_resume t s)"
  by (simp add: rt_ipc_list_resume_def)

text \<open>Waking all threads of a queue ends, and marks each of them with the error.\<close>

definition all_woken :: "thread_queue \<Rightarrow> kernel \<Rightarrow> kernel \<Rightarrow> bool" where
  "all_woken q s s' \<longleftrightarrow> sched_ok {} s' \<and> ipc_frame s s' \<and> tlists s' q = []
     \<and> (\<forall>k. wait_queue k \<longrightarrow> k \<noteq> q \<longrightarrow> tlists s' k = tlists s k)
     \<and> (\<forall>u \<in> set (tlists s q). state_of s' u \<in> {RT_THREAD_READY, RT_THREAD_RUNNING} \<and> error (threads s' u) = - RT_ERROR)
     \<and> (\<forall>u. u \<notin> set (tlists s q) \<longrightarrow> state_of s' u = state_of s u \<and> error (threads s' u) = error (threads s u))"

lemma resume_all_woken:
  assumes "sched_ok {} s" "wait_queue q" "\<forall>u \<in> set (tlists s q). thread_ok u s"
  shows "\<exists>s'. rt_ipc_list_resume_all q s = Some s' \<and> all_woken q s s'"
  using assms
proof (induction "tlists s q" arbitrary: s)
  case Nil
  then show ?case by (simp add: rt_ipc_list_resume_all.simps all_woken_def)
next
  case (Cons t ts)
  let ?e = "upd_thread t (\<lambda>x. x\<lparr>error := - RT_ERROR\<rparr>) s" and ?q = "wait_queue q"
  let ?s = "snd (rt_thread_resume t ?e)"
  have l: "tlists s q = t # ts" using Cons.hyps(2) by simp
  have ok: "sched_ok {} ?e" by (rule sched_ok_error [OF Cons.prems(1)])
  have v: "thread_ok t ?e" using Cons.prems(3) l by (simp add: thread_ok_def)
  have le: "tlists ?e q = t # ts" using l by simp
  note r = resume_waiter [OF ok Cons.prems(2) le v]
  have fr: "ipc_frame s ?s" by (rule ipc_frame_trans [OF ipc_frame_error r(2)])
  have ts: "ts = tlists ?s q" using r(3) [OF Cons.prems(2)] by simp
  have vs: "\<forall>u \<in> set (tlists ?s q). thread_ok u ?s"
    unfolding ts [symmetric] using Cons.prems(3) l ipc_frameD(15) [OF fr] by simp
  obtain s' where s': "rt_ipc_list_resume_all q ?s = Some s'" "all_woken q ?s s'"
    using Cons.hyps(1) [OF ts r(1) Cons.prems(2) vs] by blast
  have nt: "t \<notin> set ts" using store_ok_distinct [OF sched_okD(1) [OF Cons.prems(1)], of q] l by simp
  have st: "state_of ?e = state_of s" by (auto simp: state_of_def)
  have "all_woken q s s'"
    unfolding all_woken_def
  proof (intro conjI allI impI ballI)
    show "sched_ok {} s'" "ipc_frame s s'" "tlists s' q = []"
      using s'(2) ipc_frame_trans [OF fr] by (auto simp: all_woken_def)
    show "tlists s' k = tlists s k" if "wait_queue k" "k \<noteq> q" for k
      using s'(2) r(3) [OF that(1)] that by (simp add: all_woken_def)
    show "state_of s' u \<in> {1, 3}" "error (threads s' u) = - RT_ERROR" if "u \<in> set (tlists s q)" for u
      using s'(2) r(4,5) [of u] that nt unfolding all_woken_def ts [symmetric] l by (auto split: if_splits)
    show "state_of s' u = state_of s u" "error (threads s' u) = error (threads s u)" if "u \<notin> set (tlists s q)" for u
      using s'(2) r(4,5) [of u] that unfolding all_woken_def ts [symmetric] l by (auto simp: st)
  qed
  then show ?case using s'(1) l by (simp add: rt_ipc_list_resume_all.simps [of q s])
qed

section \<open>Facts the objects share\<close>

lemma wait_queue_ref [simp]: "wait_queue (Suspend r)" "wait_queue (Sender m)" "wait_queue (Waiters a)"
  by (simp_all add: wait_queue_def)

lemma can_block_error: "can_block s t q flag time \<Longrightarrow> can_block (upd_thread t (\<lambda>x. x\<lparr>error := e\<rparr>) s) t q flag time"
proof -
  assume b: "can_block s t q flag time"
  have "state_of (upd_thread t (\<lambda>x. x\<lparr>error := e\<rparr>) s) = state_of s" by (auto simp: state_of_def)
  then show ?thesis using b sched_ok_error by (simp add: can_block_def waiter_ok_def thread_ok_def)
qed

lemma block_types:
  assumes b: "can_block s t q flag time"
  shows "obj_type (objs (ipc_block q t flag time s) r) = obj_type (objs s r)"
    "thread_ok u (ipc_block q t flag time s) = thread_ok u s" "interrupt_nest (ipc_block q t flag time s) = interrupt_nest s"
proof -
  have w: "obj_type (objs (wait_armed t n x) r) = obj_type (objs x r)" for n x r
    by (simp add: wait_armed_def started_def timer_arm_def Let_def upd_flag_def)
  show ty: "obj_type (objs (ipc_block q t flag time s) r) = obj_type (objs s r)" for r
    by (simp add: block_eq [OF b] before_def w queued_def suspended_eq [OF b] rt_timer_stop_type)
  show "thread_ok u (ipc_block q t flag time s) = thread_ok u s"
    by (simp add: thread_ok_def is_thread_def is_timer_def rt_object_get_type_def rt_object_is_systemobject_def ty)
  show "interrupt_nest (ipc_block q t flag time s) = interrupt_nest s"
    by (simp add: block_eq [OF b] before_def queued_def suspended_eq [OF b] rt_timer_stop_type)
qed

lemma schedule_types [simp]: "thread_ok u (rt_schedule s) = thread_ok u s"
  by (simp add: thread_ok_def)

text \<open>After the reschedule that ends an operation.\<close>

lemma schedule_wait_queue:
  "sched_ok {} s \<Longrightarrow> current s = Some c \<Longrightarrow> wait_queue k \<Longrightarrow> tlists (rt_schedule s) k = tlists s k"
  using rt_schedule_waiting [of s c k] wait_queueD(2) by simp

lemma timeout_waiter:
  assumes ok: "sched_ok {} s" and c: "current s = Some c" and q: "wait_queue q" and t: "t \<in> set (tlists s q)" "thread_ok t s"
  defines "s' \<equiv> rt_thread_timeout t s"
  shows "sched_ok {} s'" "kpanic s' = kpanic s" "state_of s' t \<in> {1, 3}" "error (threads s' t) = - RT_ETIMEOUT"
    "wait_queue k \<Longrightarrow> tlists s' k = removeAll t (tlists s k)" "sems s' = sems s" "mutexes s' = mutexes s"
    "events s' = events s" "mailboxes s' = mailboxes s" "queues s' = queues s" "thread_ok u s' = thread_ok u s"
    "obj_type (objs s' r) = obj_type (objs s r)" "mempools s' = mempools s" "block_words s' = block_words s"
proof -
  note f = rt_thread_timeout_ok [OF ok c t(2) waiting_state [OF ok q t(1)]]
  show "sched_ok {} s'" "kpanic s' = kpanic s" "state_of s' t \<in> {1, 3}" "error (threads s' t) = - RT_ETIMEOUT"
    using f(1-4) by (simp_all add: s'_def)
  show "wait_queue k \<Longrightarrow> tlists s' k = removeAll t (tlists s k)" using f(5) [of k] wait_queueD(2) by (simp add: s'_def)
  show "sems s' = sems s" "mutexes s' = mutexes s" "events s' = events s" "mailboxes s' = mailboxes s" "queues s' = queues s"
    "mempools s' = mempools s" "block_words s' = block_words s"
    by (simp_all add: s'_def rt_thread_timeout_def Let_def)
  show "thread_ok u s' = thread_ok u s" "obj_type (objs s' r) = obj_type (objs s r)"
    by (simp_all add: s'_def thread_ok_def is_thread_def is_timer_def rt_object_get_type_def rt_object_is_systemobject_def)
qed

lemma left_time_bound:
  assumes "timeout < 2 ^ 31" "unat (now - start) < 2 ^ 31" "0 < timeout"
  shows "left_time timeout start now = max 0 (timeout - int (unat (now - start)))"
proof -
  let ?d = "now - start"
  have d: "uint ?d < 2 ^ 31" using assms(2) by (simp add: nat_less_iff flip: nat_uint_eq)
  have e: "(word_of_int timeout :: u32) - ?d = word_of_int (timeout - uint ?d)" by simp
  have "- (2 ^ 31) \<le> timeout - uint ?d" "timeout - uint ?d < 2 ^ 31"
    using assms(1,3) d uint_ge_0 [of ?d] by linarith+
  then have "sint (word_of_int (timeout - uint ?d) :: u32) = timeout - uint ?d"
    by (simp add: signed_of_int signed_take_bit_int_eq_self del: of_int_diff)
  then have "sint ((word_of_int timeout :: u32) - ?d) = timeout - uint ?d" by (simp only: e)
  then show ?thesis using assms(3) by (simp add: left_time_def Let_def max_def)
qed

text \<open>Waiting and waking leave the contents of the objects alone, whatever the state.\<close>

lemma suspend_contents [simp]:
  "mailboxes (snd (rt_thread_suspend t s)) = mailboxes s" "queues (snd (rt_thread_suspend t s)) = queues s"
  "mempools (snd (rt_thread_suspend t s)) = mempools s" "block_words (snd (rt_thread_suspend t s)) = block_words s"
  by (simp_all add: rt_thread_suspend_def Let_def)

lemma timer_start_contents [simp]:
  "mailboxes (snd (rt_timer_start x s)) = mailboxes s" "queues (snd (rt_timer_start x s)) = queues s"
  "mempools (snd (rt_timer_start x s)) = mempools s" "block_words (snd (rt_timer_start x s)) = block_words s"
  by (simp_all add: rt_timer_start_def timer_arm_def Let_def)

lemma block_contents [simp]:
  "mailboxes (ipc_block q t f n s) = mailboxes s" "queues (ipc_block q t f n s) = queues s"
  "mempools (ipc_block q t f n s) = mempools s" "block_words (ipc_block q t f n s) = block_words s"
  by (simp_all add: ipc_block_def start_wait_timer_def rt_ipc_list_suspend_def Let_def split: option.split)

lemma resume_contents [simp]:
  "mailboxes (rt_ipc_list_resume q s) = mailboxes s" "queues (rt_ipc_list_resume q s) = queues s"
  "mempools (rt_ipc_list_resume q s) = mempools s" "block_words (rt_ipc_list_resume q s) = block_words s"
  by (simp_all add: rt_ipc_list_resume_def split: list.split)

text \<open>Waking the first thread of a queue, if there is one, and rescheduling.\<close>

definition woken :: "thread_queue \<Rightarrow> kernel \<Rightarrow> kernel" where
  "woken q s = (if tlists s q \<noteq> [] then rt_schedule (rt_ipc_list_resume q s) else s)"

lemma woken_facts:
  assumes ok: "sched_ok {} s" and c: "current s = Some c" and q: "wait_queue q" and th: "\<forall>u \<in> set (tlists s q). thread_ok u s"
  shows "sched_ok {} (woken q s)" "kpanic (woken q s) = kpanic s" "wait_queue k \<Longrightarrow> tlists (woken q s) k = (if k = q then tl (tlists s q) else tlists s k)"
    "thread_ok u (woken q s) = thread_ok u s" "obj_type (objs (woken q s) r) = obj_type (objs s r)"
    "tlists s q = v # vs \<Longrightarrow> state_of (woken q s) v \<in> {RT_THREAD_READY, RT_THREAD_RUNNING}"
    "error (threads (woken q s) u) = error (threads s u)"
proof -
  have "sched_ok {} (woken q s) \<and> kpanic (woken q s) = kpanic s
    \<and> (\<forall>k. wait_queue k \<longrightarrow> tlists (woken q s) k = (if k = q then tl (tlists s q) else tlists s k))
    \<and> (\<forall>u. thread_ok u (woken q s) = thread_ok u s) \<and> (\<forall>r. obj_type (objs (woken q s) r) = obj_type (objs s r))
    \<and> (\<forall>v vs. tlists s q = v # vs \<longrightarrow> state_of (woken q s) v \<in> {1, 3}) \<and> (\<forall>u. error (threads (woken q s) u) = error (threads s u))"
  proof (cases "tlists s q")
    case Nil
    then show ?thesis using ok by (simp add: woken_def)
  next
    case (Cons t ts)
    let ?r = "snd (rt_thread_resume t s)"
    have "thread_ok t s" using th Cons by simp
    note r = resume_waiter [OF ok q Cons this]
    note fr = ipc_frameD [OF r(2)]
    have cr: "current ?r = Some c" using c fr(6) by simp
    have eq: "woken q s = rt_schedule ?r" using Cons by (simp add: woken_def rt_ipc_list_resume_eq [OF Cons])
    have "state_of (rt_schedule ?r) t \<in> {1, 3}"
      using rt_schedule_state [OF r(1) cr, of t] r(4) [of t] by (auto split: if_splits)
    then show ?thesis
      using rt_schedule_ok(1,2) [OF r(1) cr] schedule_wait_queue [OF r(1) cr] r(3,5) fr(10,11,15) Cons by (simp add: eq)
  qed
  then show "sched_ok {} (woken q s)" "kpanic (woken q s) = kpanic s" "wait_queue k \<Longrightarrow> tlists (woken q s) k = (if k = q then tl (tlists s q) else tlists s k)"
    "thread_ok u (woken q s) = thread_ok u s" "obj_type (objs (woken q s) r) = obj_type (objs s r)"
    "tlists s q = v # vs \<Longrightarrow> state_of (woken q s) v \<in> {1, 3}" "error (threads (woken q s) u) = error (threads s u)" by simp_all
qed

lemma woken_contents [simp]:
  "mailboxes (woken q s) = mailboxes s" "queues (woken q s) = queues s" "mempools (woken q s) = mempools s"
  "block_words (woken q s) = block_words s"
  by (simp_all add: woken_def)

text \<open>The running thread goes to wait with its error cleared.\<close>

lemma wait_facts:
  assumes b: "can_block s t q f timeout"
  defines "s' \<equiv> ipc_block q t f timeout (upd_thread t (\<lambda>x. x\<lparr>error := RT_EOK\<rparr>) s)"
  shows "sched_ok {} s'" "kpanic s' = kpanic s" "state_of s' t = RT_THREAD_SUSPEND"
    "tlists s' q = wait_insert f (\<lambda>u. current_priority (threads s u)) t (tlists s q)"
    "wait_queue k \<Longrightarrow> u \<in> set (tlists s' k) \<Longrightarrow> u \<in> set (tlists s k) \<or> thread_ok u s"
    "thread_ok u s' = thread_ok u s" "obj_type (objs s' r) = obj_type (objs s r)"
proof -
  let ?e = "upd_thread t (\<lambda>x. x\<lparr>error := RT_EOK\<rparr>) s"
  have be: "can_block ?e t q f timeout" by (rule can_block_error [OF b])
  note sc = block_sched [OF be] and qu = block_queue [OF be] and ty = block_types [OF be]
  show "sched_ok {} s'" "kpanic s' = kpanic s" "state_of s' t = 2" using sc by (simp_all add: s'_def)
  have cp: "(\<lambda>u. current_priority (threads ?e u)) = (\<lambda>u. current_priority (threads s u))" by auto
  show "tlists s' q = wait_insert f (\<lambda>u. current_priority (threads s u)) t (tlists s q)"
    using qu [OF can_blockD(5) [OF b]] unfolding cp by (simp add: s'_def)
  show "u \<in> set (tlists s k) \<or> thread_ok u s" if "wait_queue k" "u \<in> set (tlists s' k)"
    using qu [OF that(1)] that(2) can_blockD(8) [OF b] by (auto simp: s'_def split: if_splits)
  show "thread_ok u s' = thread_ok u s" "obj_type (objs s' r) = obj_type (objs s r)"
    using ty(1,2) by (simp_all add: s'_def thread_ok_def)
qed

lemma in_set_tlD: "x \<in> set (tl xs) \<Longrightarrow> x \<in> set xs"
  by (cases xs) simp_all

section \<open>The concrete system\<close>

lemma demo_waiter: "waiter_ok t demo_system" "interrupt_nest demo_system = 0" "obj_flag (objs demo_system r) = 0"
  "sems demo_system = (\<lambda>_. \<lparr>sem_value = 0\<rparr>)" "events demo_system = (\<lambda>_. \<lparr>evt_set = 0\<rparr>)"
  "mutexes demo_system = (\<lambda>_. \<lparr>mtx_value = 1, original_priority = 255, hold = 0, owner = None\<rparr>)"
  "lock_nest demo_system = 0" "kpanic demo_system = False" "error (threads demo_system t) = 0"
  using demo_system_ok(2) [of t]
  by (simp_all add: waiter_ok_def soft_timer_def timer_flag_def demo_system_def demo_kernel_def blank_kernel_def
      blank_thread_def)

lemma demo_types:
  "obj_type (objs demo_system r) = (case r of Thr _ \<Rightarrow> 0x81 | Tmr _ \<Rightarrow> 0x8a | Sem _ \<Rightarrow> 0x82 | Mtx _ \<Rightarrow> 0x83 | Evt _ \<Rightarrow> 0x84
     | Mbx _ \<Rightarrow> 0x85 | Msq _ \<Rightarrow> 0x86 | Mpl _ \<Rightarrow> 0x88 | Dev _ \<Rightarrow> 0x89)"
  by (simp add: demo_system_def)

lemma demo_can_block: "wait_queue q \<Longrightarrow> can_block demo_system 1 q 0 100"
  using demo_waiter(1) by (simp add: can_block_def demo_system_ok)

text \<open>The same system with thread 3 in another wait queue.\<close>

definition demo_waits :: "thread_queue \<Rightarrow> kernel" where
  "demo_waits q = upd_tlists (\<lambda>S. S(Suspend (Sem 7) := [], q := [3])) demo_system"

lemma demo_timers: "timers_ok q demo_system"
  by (simp add: timers_ok_def store_ok_def timer_order_def demo_system_def demo_kernel_def blank_kernel_def)

lemma demo_waits_lists:
  "wait_queue q \<Longrightarrow> tlists (demo_waits q) k = (if k = Ready 5 then [2] else if k = q then [3] else [])"
  using wait_queueD(2) [of q 5] by (simp add: demo_waits_def demo_system_ok)

lemma demo_waits_sched:
  assumes q: "wait_queue q"
  shows "sched_ok {} (demo_waits q)"
proof (rule sched_okI)
  let ?d = "demo_waits q"
  have f: "threads ?d = threads demo_system" "ready_group ?d = ready_group demo_system"
    "current ?d = Some 1" "state_of ?d = state_of demo_system" "priority_ok ?d = priority_ok demo_system"
    by (simp_all add: demo_waits_def demo_system_ok priority_ok_def fun_eq_iff)
  note ok = demo_system_ok(1) and l = demo_waits_lists [OF q]
  have r: "tlists ?d (Ready p) = tlists demo_system (Ready p)" for p
    using wait_queueD(2) [OF q, of p] by (auto simp: l demo_system_ok)
  show "store_ok (tlists ?d)" using wait_queueD(2) [OF q, of 5] by (auto simp: store_ok_def l split: if_splits)
  show "bit (ready_group ?d) p \<longleftrightarrow> tlists ?d (Ready p) \<noteq> []" for p
    using sched_okD(2) [OF ok, of p] by (simp add: r f)
  show "u \<in> set (tlists ?d (Ready p)) \<Longrightarrow> priority_ok ?d u \<and> current_priority (threads ?d u) = p" for u p
    using sched_okD(3,4) [OF ok, of u p] by (simp add: r f)
  show "u \<in> set (tlists ?d k) \<Longrightarrow> u \<notin> {} \<Longrightarrow> state_of ?d u = queue_state k" for u k
    using wait_queueD(1) [OF q] by (auto simp: l f demo_system_ok split: if_splits)
  show "u \<notin> {} \<Longrightarrow> state_of ?d u = 1 \<Longrightarrow> u \<in> set (tlists ?d (Ready (current_priority (threads ?d u))))" for u
    using sched_okD(6) [OF ok, of u] by (simp add: r f)
  show "u \<notin> {} \<Longrightarrow> state_of ?d u = 3 \<Longrightarrow> current ?d = Some u" for u
    by (simp add: f demo_system_ok split: if_splits)
  show "current ?d = Some c \<Longrightarrow> c \<notin> {} \<Longrightarrow> state_of ?d c \<noteq> 1" for c by (simp add: f demo_system_ok)
  show "u \<notin> {} \<Longrightarrow> state_of ?d u \<in> {1, 2, 3} \<Longrightarrow> priority_ok ?d u" for u
    using sched_okD(9) [OF ok, of u] by (simp add: f)
qed

lemma demo_waits_sel [simp]:
  "threads (demo_waits q) = threads demo_system" "objs (demo_waits q) = objs demo_system" "current (demo_waits q) = Some 1"
  "interrupt_nest (demo_waits q) = 0" "mutexes (demo_waits q) = mutexes demo_system" "events (demo_waits q) = events demo_system"
  "mailboxes (demo_waits q) = mailboxes demo_system" "queues (demo_waits q) = queues demo_system"
  "kpanic (demo_waits q) = False" "thread_ok u (demo_waits q)"
  using demo_system_ok(2) [of u] by (simp_all add: demo_waits_def demo_system_ok demo_waiter thread_ok_def)

end
