(* ===== verification/RT_Sem.thy ===== *)
theory RT_Sem
  imports RT_IpcList
begin

text \<open>The counting semaphores of \<^verbatim>\<open>src/ipc.c\<close>.\<close>

section \<open>Operations\<close>

definition is_sem :: "nat \<Rightarrow> kernel \<Rightarrow> bool" where
  "is_sem m s \<longleftrightarrow> rt_object_get_type (Sem m) s = RT_Object_Class_Semaphore"

definition set_sem :: "nat \<Rightarrow> u16 \<Rightarrow> kernel \<Rightarrow> kernel" where
  "set_sem m v s = s\<lparr>sems := (sems s)(m := \<lparr>sem_value = v\<rparr>)\<rparr>"

definition rt_sem_init :: "nat \<Rightarrow> string \<Rightarrow> u32 \<Rightarrow> u8 \<Rightarrow> kernel \<Rightarrow> rt_err_t \<times> kernel" where
  "rt_sem_init m name v flag s =
     (let s1 = rt_ipc_object_init (Sem m) (rt_object_init (Sem m) RT_Object_Class_Semaphore name s)
      in (RT_EOK, set_obj_flag (Sem m) flag (set_sem m (ucast v) s1)))"

definition rt_sem_detach :: "nat \<Rightarrow> kernel \<Rightarrow> (rt_err_t \<times> kernel) option" where
  "rt_sem_detach m s =
     (if \<not> is_sem m s \<or> \<not> rt_object_is_systemobject (Sem m) s then Some (RT_EOK, panic s)
      else map_option (\<lambda>s1. (RT_EOK, rt_object_detach (Sem m) s1)) (rt_ipc_list_resume_all (Suspend (Sem m)) s))"

definition rt_sem_create :: "string \<Rightarrow> u32 \<Rightarrow> u8 \<Rightarrow> kernel \<Rightarrow> nat option \<times> kernel" where
  "rt_sem_create name v flag s =
     (if \<not> not_in_interrupt s then (None, panic s)
      else case rt_object_allocate RT_Object_Class_Semaphore name s of
          (None, s1) \<Rightarrow> (None, s1)
        | (Some r, s1) \<Rightarrow>
            (let m = ref_addr r
             in (Some m, set_obj_flag (Sem m) flag (set_sem m (ucast v) (rt_ipc_object_init (Sem m) s1)))))"

definition rt_sem_delete :: "nat \<Rightarrow> kernel \<Rightarrow> (rt_err_t \<times> kernel) option" where
  "rt_sem_delete m s =
     (if \<not> not_in_interrupt s \<or> \<not> is_sem m s \<or> rt_object_is_systemobject (Sem m) s then Some (RT_EOK, panic s)
      else map_option (\<lambda>s1. (RT_EOK, rt_object_delete (Sem m) s1)) (rt_ipc_list_resume_all (Suspend (Sem m)) s))"

definition rt_sem_take :: "nat \<Rightarrow> int \<Rightarrow> kernel \<Rightarrow> rt_err_t outcome \<times> kernel" where
  "rt_sem_take m time s =
     (if \<not> is_sem m s then (Returned RT_EOK, panic s)
      else if sem_value (sems s m) > 0 then (Returned RT_EOK, set_sem m (sem_value (sems s m) - 1) s)
      else if time = 0 then (Returned (- RT_ETIMEOUT), s)
      else if \<not> in_thread_context s then (Returned RT_EOK, panic s)
      else case rt_thread_self s of
          None \<Rightarrow> (Returned RT_EOK, panic s)
        | Some t \<Rightarrow>
            (let s1 = upd_thread t (\<lambda>x. x\<lparr>error := RT_EOK\<rparr>) s
             in (Blocked, ipc_block (Suspend (Sem m)) t (obj_flag (objs s1 (Sem m))) time s1)))"

definition rt_sem_take_end :: "nat \<Rightarrow> kernel \<Rightarrow> rt_err_t" where
  "rt_sem_take_end t s = (if error (threads s t) \<noteq> RT_EOK then error (threads s t) else RT_EOK)"

definition rt_sem_trytake :: "nat \<Rightarrow> kernel \<Rightarrow> rt_err_t outcome \<times> kernel" where
  "rt_sem_trytake m s = rt_sem_take m 0 s"

definition rt_sem_release :: "nat \<Rightarrow> kernel \<Rightarrow> rt_err_t \<times> kernel" where
  "rt_sem_release m s =
     (if \<not> is_sem m s then (RT_EOK, panic s)
      else if tlists s (Suspend (Sem m)) \<noteq> [] then (RT_EOK, rt_schedule (rt_ipc_list_resume (Suspend (Sem m)) s))
      else (RT_EOK, set_sem m (sem_value (sems s m) + 1) s))"

datatype ipc_cmd = Ipc_reset u32 | Other_ipc_cmd

definition rt_sem_control :: "nat \<Rightarrow> ipc_cmd \<Rightarrow> kernel \<Rightarrow> (rt_err_t \<times> kernel) option" where
  "rt_sem_control m cmd s =
     (if \<not> is_sem m s then Some (RT_EOK, panic s)
      else case cmd of
          Ipc_reset v \<Rightarrow>
            map_option (\<lambda>s1. (RT_EOK, rt_schedule (set_sem m (ucast v) s1)))
              (rt_ipc_list_resume_all (Suspend (Sem m)) s)
        | Other_ipc_cmd \<Rightarrow> Some (- RT_ERROR, s))"

section \<open>Correctness\<close>

text \<open>A semaphore with a positive value has no waiting threads.\<close>

definition sem_ok :: "nat \<Rightarrow> kernel \<Rightarrow> bool" where
  "sem_ok m s \<longleftrightarrow> is_sem m s \<and> (sem_value (sems s m) > 0 \<longrightarrow> tlists s (Suspend (Sem m)) = [])
     \<and> (\<forall>u \<in> set (tlists s (Suspend (Sem m))). thread_ok u s)"

lemma set_sem_sel [simp]:
  "sems (set_sem m v s) = (sems s)(m := \<lparr>sem_value = v\<rparr>)" "threads (set_sem m v s) = threads s"
  "tlists (set_sem m v s) = tlists s" "objs (set_sem m v s) = objs s" "current (set_sem m v s) = current s"
  "kpanic (set_sem m v s) = kpanic s" "sched_ok X (set_sem m v s) = sched_ok X s" "lock_nest (set_sem m v s) = lock_nest s"
  "state_of (set_sem m v s) = state_of s"
  by (simp_all add: set_sem_def state_of_def fun_eq_iff)

lemma is_sem_frame:
  "(\<And>r. obj_type (objs s' r) = obj_type (objs s r)) \<Longrightarrow> is_sem m s' = is_sem m s"
  by (simp add: is_sem_def rt_object_get_type_def)

lemma sem_okI:
  assumes "sem_ok m s" "\<And>r. obj_type (objs s' r) = obj_type (objs s r)" "\<And>u. thread_ok u s' = thread_ok u s"
    "sem_value (sems s' m) > 0 \<Longrightarrow> tlists s' (Suspend (Sem m)) = []"
    "\<And>u. u \<in> set (tlists s' (Suspend (Sem m))) \<Longrightarrow> thread_ok u s"
  shows "sem_ok m s'"
  using assms is_sem_frame [of s' s m] unfolding sem_ok_def by blast

text \<open>
  C11.  Taking a semaphore of positive value decrements it at once.  Otherwise a call without waiting
  time fails with \<^verbatim>\<open>-RT_ETIMEOUT\<close> and changes nothing, and any other call suspends the running thread
  in the wait queue, at the place the semaphore's flag asks for, with its error cleared.  A positive
  waiting time arms the timer of the thread for that many ticks from now; a negative one arms no timer.
  The value is never decremented below zero and is positive only while nobody waits.
\<close>

theorem sem_take_correct:
  assumes ok: "sem_ok m s" and b: "can_block s t (Suspend (Sem m)) (obj_flag (objs s (Sem m))) time"
    and irq: "interrupt_nest s = 0" and tm: "timers_ok Hard_timers s"
  shows "case rt_sem_take m time s of (r, s') \<Rightarrow> sem_ok m s' \<and> sched_ok {} s' \<and> kpanic s' = kpanic s \<and> timers_ok Hard_timers s'
    \<and> (if 0 < sem_value (sems s m)
       then r = Returned RT_EOK \<and> unat (sem_value (sems s' m)) + 1 = unat (sem_value (sems s m)) \<and> threads s' = threads s
       else sem_value (sems s' m) = 0
         \<and> (if time = 0 then r = Returned (- RT_ETIMEOUT) \<and> s' = s
            else r = Blocked \<and> state_of s' t = RT_THREAD_SUSPEND \<and> rt_sem_take_end t s' = RT_EOK
              \<and> tlists s' (Suspend (Sem m)) = wait_insert (obj_flag (objs s (Sem m)))
                  (\<lambda>u. current_priority (threads s u)) t (tlists s (Suspend (Sem m)))
              \<and> (if 0 < time
                 then Thread_timer t \<in> set (tmlists s' Hard_timers) \<and> timer_flag (Thread_timer t) s' AND RT_TIMER_FLAG_ACTIVATED \<noteq> 0
                   \<and> timeout_tick (timers s' (Thread_timer t)) = rt_tick s + word_of_int time
                 else set (tmlists s' Hard_timers) \<subseteq> set (tmlists s Hard_timers))))"
proof -
  let ?v = "sem_value (sems s m)" and ?q = "Suspend (Sem m)" and ?f = "obj_flag (objs s (Sem m))"
  have sem: "is_sem m s" and sched: "sched_ok {} s" using ok can_blockD(1) [OF b] by (simp_all add: sem_ok_def)
  consider (some) "0 < ?v" | (none) "?v = 0" "time = 0" | (wait) "?v = 0" "time \<noteq> 0" by (auto simp: word_gt_0)
  then show ?thesis
  proof cases
    case some
    have "unat (?v - 1) + 1 = unat ?v" using some by (simp add: unat_minus_one word_gt_0 unat_gt_0)
    moreover have "sem_ok m (set_sem m (?v - 1) s)"
      using some ok by (intro sem_okI [OF ok]) (auto simp: sem_ok_def thread_ok_def is_thread_def is_timer_def
          rt_object_get_type_def rt_object_is_systemobject_def)
    moreover have "timers_ok Hard_timers (set_sem m (?v - 1) s)"
      using tm timers_ok_cong [of "set_sem m (?v - 1) s" s] by (simp add: set_sem_def)
    ultimately show ?thesis using some sem sched by (simp add: rt_sem_take_def)
  next
    case none
    then show ?thesis using ok sem sched tm by (simp add: rt_sem_take_def)
  next
    case wait
    let ?e = "upd_thread t (\<lambda>x. x\<lparr>error := RT_EOK\<rparr>) s"
    let ?s = "ipc_block ?q t ?f time ?e"
    have be: "can_block ?e t ?q ?f time" by (rule can_block_error [OF b])
    have ctx: "in_thread_context s" using can_blockD(2) [OF b] irq
      by (simp add: in_thread_context_def not_in_interrupt_def rt_thread_self_def)
    have eq: "rt_sem_take m time s = (Blocked, ?s)"
      using wait sem ctx can_blockD(2) [OF b] by (simp add: rt_sem_take_def rt_thread_self_def)
    have cp: "current_priority (threads ?e u) = current_priority (threads s u)" for u by simp
    note fr = block_frame [OF be] and sc = block_sched [OF be] and qu = block_queue [OF be, of ?q] and ty = block_types [OF be]
    have l: "tlists ?s ?q = wait_insert ?f (\<lambda>u. current_priority (threads s u)) t (tlists s ?q)" using qu cp by simp
    have tk: "thread_ok u ?s = thread_ok u s" for u using ty(2) [of u] by (simp add: thread_ok_def)
    have "sem_ok m ?s"
    proof (rule sem_okI [OF ok])
      show "u \<in> set (tlists ?s ?q) \<Longrightarrow> thread_ok u s" for u
        using l ok can_blockD(8) [OF b] by (auto simp: sem_ok_def)
    qed (use ty tk fr(1) wait in simp_all)
    moreover have "timers_ok Hard_timers ?e" using tm timers_ok_cong [of ?e s] by simp
    note bt = block_timer [OF be this]
    ultimately show ?thesis using wait sc fr l eq bt by (simp add: rt_sem_take_end_def)
  qed
qed

text \<open>
  C12.  Releasing a semaphore hands it to the first waiting thread, if there is one: that thread leaves
  the queue, becomes ready or running, and its take succeeds; the value stays.  Without waiting
  threads the value is incremented.
\<close>

theorem sem_release_correct:
  assumes ok: "sem_ok m s" and sched: "sched_ok {} s" and c: "current s = Some c"
  shows "case rt_sem_release m s of (e, s') \<Rightarrow> e = RT_EOK \<and> sem_ok m s' \<and> sched_ok {} s' \<and> kpanic s' = kpanic s
    \<and> (case tlists s (Suspend (Sem m)) of
         [] \<Rightarrow> sem_value (sems s' m) = sem_value (sems s m) + 1 \<and> threads s' = threads s \<and> tlists s' = tlists s
       | t # ts \<Rightarrow> sems s' = sems s \<and> tlists s' (Suspend (Sem m)) = ts
           \<and> state_of s' t \<in> {RT_THREAD_READY, RT_THREAD_RUNNING} \<and> rt_sem_take_end t s' = rt_sem_take_end t s)"
proof (cases "tlists s (Suspend (Sem m))")
  case Nil
  have "sem_ok m (set_sem m (sem_value (sems s m) + 1) s)"
    using ok Nil by (intro sem_okI [OF ok]) (auto simp: thread_ok_def is_thread_def is_timer_def
        rt_object_get_type_def rt_object_is_systemobject_def)
  then show ?thesis using Nil ok sched by (simp add: rt_sem_release_def sem_ok_def)
next
  case (Cons t ts)
  let ?q = "Suspend (Sem m)" and ?r = "snd (rt_thread_resume t s)"
  have t: "thread_ok t s" using ok Cons by (simp add: sem_ok_def)
  note r = resume_waiter [OF sched wait_queue_ref(1) Cons t]
  note fr = ipc_frameD [OF r(2)]
  have cr: "current ?r = Some c" using c fr(6) by simp
  have eq: "rt_sem_release m s = (RT_EOK, rt_schedule ?r)"
    using ok Cons by (simp add: rt_sem_release_def sem_ok_def rt_ipc_list_resume_eq [OF Cons])
  have l: "tlists (rt_schedule ?r) ?q = ts" using schedule_wait_queue [OF r(1) cr, of ?q] r(3) [of ?q] by simp
  have v: "sem_value (sems s m) = 0" using ok Cons by (simp add: sem_ok_def word_gt_0 split: if_splits)
  have "sem_ok m (rt_schedule ?r)"
  proof (rule sem_okI [OF ok])
    show "u \<in> set (tlists (rt_schedule ?r) ?q) \<Longrightarrow> thread_ok u s" for u using l ok Cons by (auto simp: sem_ok_def)
  qed (use fr v in simp_all)
  moreover have "state_of (rt_schedule ?r) t \<in> {1, 3}"
    using rt_schedule_state [OF r(1) cr, of t] r(4) [of t] by (auto split: if_splits)
  ultimately show ?thesis
    using rt_schedule_ok(1,2) [OF r(1) cr] Cons l fr r(5) by (simp add: eq rt_sem_take_end_def)
qed

text \<open>
  C13.  A wait for a semaphore that does not end with the semaphore reports it: after a timeout the take
  returns \<^verbatim>\<open>-RT_ETIMEOUT\<close> and the thread no longer waits; detaching the semaphore wakes every waiting
  thread, ends, and their takes return \<^verbatim>\<open>-RT_ERROR\<close>.
\<close>

theorem sem_wait_failures:
  assumes ok: "sem_ok m s" and sched: "sched_ok {} s" and c: "current s = Some c"
    and t: "t \<in> set (tlists s (Suspend (Sem m)))" and sys: "rt_object_is_systemobject (Sem m) s"
  shows "(let s' = rt_thread_timeout t s in sem_ok m s' \<and> sched_ok {} s' \<and> kpanic s' = kpanic s \<and> sems s' = sems s
        \<and> rt_sem_take_end t s' = - RT_ETIMEOUT
        \<and> tlists s' (Suspend (Sem m)) = removeAll t (tlists s (Suspend (Sem m))))
    \<and> (\<exists>s'. rt_sem_detach m s = Some (RT_EOK, s') \<and> sched_ok {} s' \<and> kpanic s' = kpanic s
        \<and> tlists s' (Suspend (Sem m)) = []
        \<and> (\<forall>u \<in> set (tlists s (Suspend (Sem m))). rt_sem_take_end u s' = - RT_ERROR
             \<and> state_of s' u \<in> {RT_THREAD_READY, RT_THREAD_RUNNING}))"
proof -
  let ?q = "Suspend (Sem m)" and ?s = "rt_thread_timeout t s"
  have tk: "thread_ok t s" using ok t by (simp add: sem_ok_def)
  note w = timeout_waiter [OF sched c wait_queue_ref(1) t tk]
  have v: "sem_value (sems s m) = 0" using ok t by (force simp: sem_ok_def word_gt_0)
  have "sem_ok m ?s"
  proof (rule sem_okI [OF ok])
    show "u \<in> set (tlists ?s ?q) \<Longrightarrow> thread_ok u s" for u using w(5) [of ?q] ok by (auto simp: sem_ok_def)
  qed (use w(6,11,12) v in simp_all)
  then have one: "let s' = ?s in sem_ok m s' \<and> sched_ok {} s' \<and> kpanic s' = kpanic s \<and> sems s' = sems s
        \<and> rt_sem_take_end t s' = - RT_ETIMEOUT \<and> tlists s' ?q = removeAll t (tlists s ?q)"
    using w(1,2,4,6) w(5) [of ?q] by (simp add: rt_sem_take_end_def)
  have "\<forall>u \<in> set (tlists s ?q). thread_ok u s" using ok by (simp add: sem_ok_def)
  from resume_all_woken [OF sched wait_queue_ref(1) this]
  obtain s1 where s1: "rt_ipc_list_resume_all ?q s = Some s1" "all_woken ?q s s1" by blast
  have "is_sem m s" using ok by (simp add: sem_ok_def)
  then have eq: "rt_sem_detach m s = Some (RT_EOK, rt_object_detach (Sem m) s1)" using s1(1) sys by (simp add: rt_sem_detach_def)
  have "kpanic s1 = kpanic s" using s1(2) ipc_frameD(10) by (simp add: all_woken_def)
  then show ?thesis using one eq s1(2) by (simp add: all_woken_def rt_sem_take_end_def)
qed

section \<open>The concrete system\<close>

lemma demo_sem_ok: "sem_ok 7 demo_system"
  by (simp add: sem_ok_def is_sem_def rt_object_get_type_def demo_types demo_waiter(4) demo_system_ok)

theorem sem_take_correct_witness:
  "fst (rt_sem_take 7 100 demo_system) = Blocked \<and> tlists (snd (rt_sem_take 7 100 demo_system)) (Suspend (Sem 7)) = [3, 1]
     \<and> Thread_timer 1 \<in> set (tmlists (snd (rt_sem_take 7 100 demo_system)) Hard_timers)"
  using sem_take_correct [of 7 demo_system 1 100] demo_can_block [of "Suspend (Sem 7)"] demo_timers
  by (simp add: demo_sem_ok demo_waiter case_prod_beta demo_system_ok(7) wait_insert_def)

theorem sem_release_correct_witness:
  "tlists (snd (rt_sem_release 7 demo_system)) (Suspend (Sem 7)) = [] \<and> rt_sem_take_end 3 (snd (rt_sem_release 7 demo_system)) = 0"
  using sem_release_correct [OF demo_sem_ok demo_system_ok(1,3)]
  by (simp add: case_prod_beta demo_system_ok(7) rt_sem_take_end_def demo_waiter)

theorem sem_wait_failures_witness:
  "rt_sem_take_end 3 (rt_thread_timeout 3 demo_system) = - 2 \<and> rt_sem_detach 7 demo_system \<noteq> None"
proof -
  have "3 \<in> set (tlists demo_system (Suspend (Sem 7)))" "rt_object_is_systemobject (Sem 7) demo_system"
    by (simp_all add: demo_system_ok(7) rt_object_is_systemobject_def demo_types)
  from sem_wait_failures [OF demo_sem_ok demo_system_ok(1,3) this] show ?thesis by (auto simp: Let_def)
qed

end
