(* ===== verification/RT_Mutex.thy ===== *)
theory RT_Mutex
  imports RT_Sem
begin

text \<open>The recursive mutexes of \<^verbatim>\<open>src/ipc.c\<close>, with priority inheritance.\<close>

section \<open>Operations\<close>

definition is_mutex :: "nat \<Rightarrow> kernel \<Rightarrow> bool" where
  "is_mutex m s \<longleftrightarrow> rt_object_get_type (Mtx m) s = RT_Object_Class_Mutex"

definition set_mutex :: "nat \<Rightarrow> rt_mutex \<Rightarrow> kernel \<Rightarrow> kernel" where
  "set_mutex m x s = s\<lparr>mutexes := (mutexes s)(m := x)\<rparr>"

definition fresh_mutex :: rt_mutex where
  "fresh_mutex = \<lparr>mtx_value = 1, original_priority = 0xff, hold = 0, owner = None\<rparr>"

definition rt_mutex_init :: "nat \<Rightarrow> string \<Rightarrow> u8 \<Rightarrow> kernel \<Rightarrow> rt_err_t \<times> kernel" where
  "rt_mutex_init m name flag s =
     (let s1 = rt_ipc_object_init (Mtx m) (rt_object_init (Mtx m) RT_Object_Class_Mutex name s)
      in (RT_EOK, set_obj_flag (Mtx m) flag (set_mutex m fresh_mutex s1)))"

definition rt_mutex_detach :: "nat \<Rightarrow> kernel \<Rightarrow> (rt_err_t \<times> kernel) option" where
  "rt_mutex_detach m s =
     (if \<not> is_mutex m s \<or> \<not> rt_object_is_systemobject (Mtx m) s then Some (RT_EOK, panic s)
      else map_option (\<lambda>s1. (RT_EOK, rt_object_detach (Mtx m) s1)) (rt_ipc_list_resume_all (Suspend (Mtx m)) s))"

definition rt_mutex_create :: "string \<Rightarrow> u8 \<Rightarrow> kernel \<Rightarrow> nat option \<times> kernel" where
  "rt_mutex_create name flag s =
     (if \<not> not_in_interrupt s then (None, panic s)
      else case rt_object_allocate RT_Object_Class_Mutex name s of
          (None, s1) \<Rightarrow> (None, s1)
        | (Some r, s1) \<Rightarrow>
            (let m = ref_addr r
             in (Some m, set_obj_flag (Mtx m) flag (set_mutex m fresh_mutex (rt_ipc_object_init (Mtx m) s1)))))"

definition rt_mutex_delete :: "nat \<Rightarrow> kernel \<Rightarrow> (rt_err_t \<times> kernel) option" where
  "rt_mutex_delete m s =
     (if \<not> not_in_interrupt s \<or> \<not> is_mutex m s \<or> rt_object_is_systemobject (Mtx m) s then Some (RT_EOK, panic s)
      else map_option (\<lambda>s1. (RT_EOK, rt_object_delete (Mtx m) s1)) (rt_ipc_list_resume_all (Suspend (Mtx m)) s))"

text \<open>From the label \<^verbatim>\<open>__again\<close> of \<^verbatim>\<open>rt_mutex_take\<close> to the reschedule.\<close>

definition mutex_try :: "nat \<Rightarrow> int \<Rightarrow> nat \<Rightarrow> kernel \<Rightarrow> rt_err_t outcome \<times> kernel" where
  "mutex_try m time t s =
     (let x = mutexes s m
      in if mtx_value x > 0
         then (Returned RT_EOK, set_mutex m (x\<lparr>mtx_value := mtx_value x - 1, owner := Some t,
                 original_priority := current_priority (threads s t), hold := hold x + 1\<rparr>) s)
         else if time = 0
         then (Returned (- RT_ETIMEOUT), upd_thread t (\<lambda>y. y\<lparr>error := - RT_ETIMEOUT\<rparr>) s)
         else case owner x of
             None \<Rightarrow> (Returned RT_EOK, panic s)
           | Some ow \<Rightarrow>
               (let s1 = (if current_priority (threads s t) < current_priority (threads s ow)
                          then snd (rt_thread_control ow (Change_priority (current_priority (threads s t))) s)
                          else s)
                in (Blocked, ipc_block (Suspend (Mtx m)) t (obj_flag (objs s1 (Mtx m))) time s1)))"

definition rt_mutex_take :: "nat \<Rightarrow> int \<Rightarrow> kernel \<Rightarrow> rt_err_t outcome \<times> kernel" where
  "rt_mutex_take m time s =
     (if \<not> in_thread_context s \<or> \<not> is_mutex m s then (Returned RT_EOK, panic s)
      else case rt_thread_self s of
          None \<Rightarrow> (Returned RT_EOK, panic s)
        | Some t \<Rightarrow>
            (let s1 = upd_thread t (\<lambda>y. y\<lparr>error := RT_EOK\<rparr>) s
             in if owner (mutexes s1 m) = Some t
                then (Returned RT_EOK, set_mutex m ((mutexes s1 m)\<lparr>hold := hold (mutexes s1 m) + 1\<rparr>) s1)
                else mutex_try m time t s1))"

text \<open>After the reschedule; a wait that a signal interrupted is tried again.\<close>

definition rt_mutex_take_end :: "nat \<Rightarrow> int \<Rightarrow> nat \<Rightarrow> kernel \<Rightarrow> rt_err_t outcome \<times> kernel" where
  "rt_mutex_take_end m time t s =
     (if error (threads s t) \<noteq> RT_EOK
      then (if error (threads s t) = - RT_EINTR then mutex_try m time t s else (Returned (error (threads s t)), s))
      else (Returned RT_EOK, s))"

text \<open>The last release gives the owner its own priority back.\<close>

definition unboosted :: "nat \<Rightarrow> nat \<Rightarrow> kernel \<Rightarrow> kernel" where
  "unboosted m t s =
     (if original_priority (mutexes s m) \<noteq> current_priority (threads s t)
      then snd (rt_thread_control t (Change_priority (original_priority (mutexes s m))) s) else s)"

definition rt_mutex_release :: "nat \<Rightarrow> kernel \<Rightarrow> rt_err_t \<times> kernel" where
  "rt_mutex_release m s =
     (if \<not> is_mutex m s \<or> \<not> in_thread_context s then (RT_EOK, panic s)
      else case rt_thread_self s of
          None \<Rightarrow> (RT_EOK, panic s)
        | Some t \<Rightarrow>
            if owner (mutexes s m) \<noteq> Some t
            then (- RT_ERROR, upd_thread t (\<lambda>y. y\<lparr>error := - RT_ERROR\<rparr>) s)
            else
              (let s1 = set_mutex m ((mutexes s m)\<lparr>hold := hold (mutexes s m) - 1\<rparr>) s
               in if hold (mutexes s1 m) \<noteq> 0 then (RT_EOK, s1)
                  else
                    (let s2 = unboosted m t s1;
                         x = mutexes s2 m
                     in case tlists s2 (Suspend (Mtx m)) of
                          u # _ \<Rightarrow>
                            (RT_EOK,
                             rt_schedule (rt_ipc_list_resume (Suspend (Mtx m))
                               (set_mutex m (x\<lparr>owner := Some u, original_priority := current_priority (threads s2 u),
                                               hold := hold x + 1\<rparr>) s2)))
                        | [] \<Rightarrow>
                            (RT_EOK, set_mutex m (x\<lparr>mtx_value := mtx_value x + 1, owner := None,
                                                    original_priority := 0xff\<rparr>) s2))))"

definition rt_mutex_control :: "nat \<Rightarrow> ipc_cmd \<Rightarrow> kernel \<Rightarrow> rt_err_t \<times> kernel" where
  "rt_mutex_control m cmd s = (if \<not> is_mutex m s then (RT_EOK, panic s) else (- RT_ERROR, s))"

section \<open>Changing a priority\<close>

lemma sched_ok_priority:
  assumes ok: "sched_ok X s" and n: "\<And>k. t \<notin> set (tlists s (Ready k))" and p: "p < 32" and st: "state_of s t \<noteq> 1"
  shows "sched_ok X (upd_thread t (\<lambda>x. x\<lparr>current_priority := p, number_mask := priority_mask p\<rparr>) s)" (is "sched_ok X ?s")
proof (rule sched_okI)
  have so: "state_of ?s = state_of s" by (auto simp: state_of_def)
  have po: "u \<noteq> t \<Longrightarrow> priority_ok ?s u = priority_ok s u" "priority_ok ?s t" for u using p by (simp_all add: priority_ok_def)
  have nt: "u \<in> set (tlists s (Ready k)) \<Longrightarrow> u \<noteq> t" for u k using n by auto
  show "store_ok (tlists ?s)" using sched_okD(1) [OF ok] by simp
  show "bit (ready_group ?s) k \<longleftrightarrow> tlists ?s (Ready k) \<noteq> []" for k using sched_okD(2) [OF ok] by simp
  show "u \<in> set (tlists ?s (Ready k)) \<Longrightarrow> priority_ok ?s u \<and> current_priority (threads ?s u) = k" for u k
    using sched_okD(3,4) [OF ok, of u k] po(1) [of u] nt [of u k] by simp
  show "u \<in> set (tlists ?s q) \<Longrightarrow> u \<notin> X \<Longrightarrow> state_of ?s u = queue_state q" for u q
    using sched_okD(5) [OF ok, of u q] so by simp
  show "u \<notin> X \<Longrightarrow> state_of ?s u = 1 \<Longrightarrow> u \<in> set (tlists ?s (Ready (current_priority (threads ?s u))))" for u
    using sched_okD(6) [OF ok, of u] so st by (cases "u = t") auto
  show "u \<notin> X \<Longrightarrow> state_of ?s u = 3 \<Longrightarrow> current ?s = Some u" for u using sched_okD(7) [OF ok, of u] so by simp
  show "current ?s = Some c \<Longrightarrow> c \<notin> X \<Longrightarrow> state_of ?s c \<noteq> 1" for c using sched_okD(8) [OF ok, of c] so by simp
  show "u \<notin> X \<Longrightarrow> state_of ?s u \<in> {1, 2, 3} \<Longrightarrow> priority_ok ?s u" for u
    using sched_okD(9) [OF ok, of u] so po by (cases "u = t") auto
qed

lemma change_priority_ok:
  assumes ok: "sched_ok {} s" and t: "is_thread t s" and p: "p < 32"
  defines "s' \<equiv> snd (rt_thread_control t (Change_priority p) s)"
  shows "sched_ok {} s'" "kpanic s' = kpanic s" "state_of s' = state_of s" "wait_queue q \<Longrightarrow> tlists s' q = tlists s q"
    "current_priority (threads s' u) = (if u = t then p else current_priority (threads s u))"
    "error (threads s' u) = error (threads s u)" "objs s' = objs s" "mutexes s' = mutexes s" "current s' = current s"
    "interrupt_nest s' = interrupt_nest s" "lock_nest s' = lock_nest s"
proof -
  let ?f = "\<lambda>x. x\<lparr>current_priority := p, number_mask := priority_mask p\<rparr>"
  have "sched_ok {} s' \<and> state_of s' = state_of s \<and> (wait_queue q \<longrightarrow> tlists s' q = tlists s q)"
  proof (cases "state_of s t = 1")
    case True
    let ?r = "rt_schedule_remove_thread t s"
    have s': "s' = rt_schedule_insert_thread t (upd_thread t ?f ?r)"
      using t True by (simp add: s'_def rt_thread_control_def)
    have "priority_ok s t" using sched_okD(9) [OF ok, of t] True by simp
    then have r: "sched_ok {t} ?r" "detached t (tlists ?r)"
      using rt_schedule_remove_thread_ok [OF ok, of t] by (auto simp: removable_def)
    have "sched_ok {t} (upd_thread t ?f ?r)" using r by (intro sched_ok_upd_thread) auto
    then have k: "sched_ok {} s'"
      unfolding s' using r(2) p by (intro rt_schedule_insert_thread_ok) (simp_all add: priority_ok_def)
    have c: "current s \<noteq> Some t" using sched_okD(8) [OF ok, of t] True by auto
    have so: "state_of (upd_thread t ?f ?r) = state_of s" by (auto simp: state_of_def)
    have st: "state_of s' u = state_of s u" for u
      unfolding s' insert_thread_state so using c True by simp
    have "tlists s' q = tlists s q" if "wait_queue q"
    proof -
      have "t \<notin> set (tlists s q)" using waiting_state [OF ok that] True by force
      then show ?thesis
        using wait_queueD(2) [OF that] c by (simp add: s' insert_thread_lists list_insert_before_def list_remove_def)
    qed
    then show ?thesis using k st by auto
  next
    case False
    have s': "s' = upd_thread t ?f s" using t False by (simp add: s'_def rt_thread_control_def)
    have "t \<notin> set (tlists s (Ready k))" for k using not_in_ready [OF ok] False by simp
    then have "sched_ok {} s'" unfolding s' using False by (intro sched_ok_priority [OF ok _ p])
    then show ?thesis by (auto simp: s' state_of_def)
  qed
  then show "sched_ok {} s'" "state_of s' = state_of s" "wait_queue q \<Longrightarrow> tlists s' q = tlists s q" by blast+
  show "kpanic s' = kpanic s" "current_priority (threads s' u) = (if u = t then p else current_priority (threads s u))"
    "error (threads s' u) = error (threads s u)" "objs s' = objs s" "mutexes s' = mutexes s" "current s' = current s"
    "interrupt_nest s' = interrupt_nest s" "lock_nest s' = lock_nest s"
    using t by (simp_all add: s'_def rt_thread_control_def)
qed

section \<open>Correctness\<close>

text \<open>
  A free mutex has value one, no owner and nobody waiting; a held one has value zero and an owner
  that holds it at least once and does not wait for it.
\<close>

definition mutex_ok :: "nat \<Rightarrow> kernel \<Rightarrow> bool" where
  "mutex_ok m s \<longleftrightarrow> is_mutex m s \<and> (\<forall>u \<in> set (tlists s (Suspend (Mtx m))). thread_ok u s)
     \<and> (case owner (mutexes s m) of
          None \<Rightarrow> mtx_value (mutexes s m) = 1 \<and> hold (mutexes s m) = 0 \<and> tlists s (Suspend (Mtx m)) = []
        | Some ow \<Rightarrow> mtx_value (mutexes s m) = 0 \<and> 0 < hold (mutexes s m) \<and> thread_ok ow s
            \<and> ow \<notin> set (tlists s (Suspend (Mtx m))) \<and> original_priority (mutexes s m) < 32)"

lemma set_mutex_sel [simp]:
  "mutexes (set_mutex m x s) = (mutexes s)(m := x)" "threads (set_mutex m x s) = threads s"
  "tlists (set_mutex m x s) = tlists s" "objs (set_mutex m x s) = objs s" "current (set_mutex m x s) = current s"
  "kpanic (set_mutex m x s) = kpanic s" "sched_ok X (set_mutex m x s) = sched_ok X s"
  "lock_nest (set_mutex m x s) = lock_nest s" "ready_group (set_mutex m x s) = ready_group s" "state_of (set_mutex m x s) = state_of s"
  "is_thread u (set_mutex m x s) = is_thread u s" "thread_ok u (set_mutex m x s) = thread_ok u s"
  "interrupt_nest (set_mutex m x s) = interrupt_nest s"
  by (simp_all add: set_mutex_def state_of_def fun_eq_iff is_thread_def thread_ok_def is_timer_def
      rt_object_get_type_def rt_object_is_systemobject_def)

lemma thread_ok_cong: "(\<And>r. obj_type (objs s' r) = obj_type (objs s r)) \<Longrightarrow> thread_ok u s' = thread_ok u s"
  by (simp add: thread_ok_def is_thread_def is_timer_def rt_object_get_type_def rt_object_is_systemobject_def)

lemma mutex_okI:
  assumes "mutex_ok m s" "\<And>r. obj_type (objs s' r) = obj_type (objs s r)"
    "\<And>u. u \<in> set (tlists s' (Suspend (Mtx m))) \<Longrightarrow> thread_ok u s"
    "case owner (mutexes s' m) of
          None \<Rightarrow> mtx_value (mutexes s' m) = 1 \<and> hold (mutexes s' m) = 0 \<and> tlists s' (Suspend (Mtx m)) = []
        | Some ow \<Rightarrow> mtx_value (mutexes s' m) = 0 \<and> 0 < hold (mutexes s' m) \<and> thread_ok ow s
            \<and> ow \<notin> set (tlists s' (Suspend (Mtx m))) \<and> original_priority (mutexes s' m) < 32"
  shows "mutex_ok m s'"
proof -
  have "is_mutex m s'" using assms(1,2) by (simp add: mutex_ok_def is_mutex_def rt_object_get_type_def)
  then show ?thesis using assms(3,4) thread_ok_cong [of s' s, OF assms(2)] unfolding mutex_ok_def by (simp split: option.splits)
qed

lemma mutex_owned: "mutex_ok m s \<Longrightarrow> owner (mutexes s m) = Some ow \<Longrightarrow>
    mtx_value (mutexes s m) = 0 \<and> 0 < hold (mutexes s m) \<and> thread_ok ow s
    \<and> ow \<notin> set (tlists s (Suspend (Mtx m))) \<and> original_priority (mutexes s m) < 32"
  by (simp add: mutex_ok_def)

lemma mutex_free: "mutex_ok m s \<Longrightarrow> owner (mutexes s m) = None \<Longrightarrow>
    mtx_value (mutexes s m) = 1 \<and> hold (mutexes s m) = 0 \<and> tlists s (Suspend (Mtx m)) = []"
  by (simp add: mutex_ok_def)

lemma mutex_waiters: "mutex_ok m s \<Longrightarrow> u \<in> set (tlists s (Suspend (Mtx m))) \<Longrightarrow> thread_ok u s"
  by (simp add: mutex_ok_def)

lemma hold_counts: "(h :: u8) < 255 \<Longrightarrow> 0 < h + 1"
proof -
  assume h: "h < 255"
  have "h + 1 \<noteq> 0"
  proof
    assume "h + 1 = 0"
    then have "h = - 1" by (simp add: eq_neg_iff_add_eq_0)
    then show False using h by simp
  qed
  then show ?thesis by (simp add: word_gt_0)
qed

text \<open>Waiting for a mutex somebody else holds: the owner inherits a higher priority.\<close>

lemma mutex_try_blocks:
  assumes ok: "mutex_ok m s" and b: "can_block s t (Suspend (Mtx m)) (obj_flag (objs s (Mtx m))) time"
    and ow: "owner (mutexes s m) = Some ow" "ow \<noteq> t" and time: "time \<noteq> 0"
  shows "case mutex_try m time t s of (r, s') \<Rightarrow> r = Blocked \<and> mutex_ok m s' \<and> sched_ok {} s' \<and> kpanic s' = kpanic s
    \<and> mutexes s' = mutexes s \<and> state_of s' t = RT_THREAD_SUSPEND \<and> t \<in> set (tlists s' (Suspend (Mtx m)))
    \<and> error (threads s' t) = error (threads s t)
    \<and> current_priority (threads s' ow) = min (current_priority (threads s ow)) (current_priority (threads s t))"
proof -
  let ?q = "Suspend (Mtx m)" and ?f = "obj_flag (objs s (Mtx m))"
  let ?boost = "current_priority (threads s t) < current_priority (threads s ow)"
  let ?c = "snd (rt_thread_control ow (Change_priority (current_priority (threads s t))) s)"
  let ?s1 = "if ?boost then ?c else s"
  note o = mutex_owned [OF ok ow(1)]
  have it: "is_thread ow s" using o by (simp add: thread_ok_def)
  have p: "current_priority (threads s t) < 32"
    using sched_okD(9) [OF can_blockD(1) [OF b], of t] can_blockD(3) [OF b] by (simp add: priority_ok_def)
  note cp = change_priority_ok [OF can_blockD(1) [OF b] it p]
  have f1: "sched_ok {} ?s1" "kpanic ?s1 = kpanic s" "state_of ?s1 = state_of s" "tlists ?s1 ?q = tlists s ?q"
    "objs ?s1 = objs s" "mutexes ?s1 = mutexes s" "current ?s1 = current s" "error (threads ?s1 t) = error (threads s t)"
    "current_priority (threads ?s1 ow) = min (current_priority (threads s ow)) (current_priority (threads s t))"
    using cp cp(4) [of ?q] can_blockD(1) [OF b] by simp_all
  have b1: "can_block ?s1 t ?q ?f time"
    using b f1(1,3,5,7) thread_ok_cong [of ?s1 s t]
    by (simp add: can_block_def waiter_ok_def soft_timer_def timer_flag_def)
  have v: "\<not> 0 < mtx_value (mutexes s m)" using o by simp
  have eq: "mutex_try m time t s = (Blocked, ipc_block ?q t ?f time ?s1)"
    using v time ow(1) f1(5) by (simp add: mutex_try_def Let_def cp(7))
  let ?s' = "ipc_block ?q t ?f time ?s1"
  note fr = block_frame [OF b1] and sc = block_sched [OF b1] and qu = block_queue [OF b1, of ?q] and ty = block_types [OF b1]
  have set: "set (tlists ?s' ?q) = insert t (set (tlists s ?q))" using qu f1(4) by simp
  have "mutex_ok m ?s'"
  proof (rule mutex_okI [OF ok])
    show "obj_type (objs ?s' r) = obj_type (objs s r)" for r using ty(1) f1(5) by simp
    show "u \<in> set (tlists ?s' ?q) \<Longrightarrow> thread_ok u s" for u using set can_blockD(8) [OF b] mutex_waiters [OF ok] by auto
  qed (use ow o fr(2) f1(6) set in simp)
  then show ?thesis using eq sc fr f1 set by simp
qed

text \<open>
  C14.  Taking a free mutex makes the running thread its owner; taking an owned one again only counts.
  While another thread owns it, a call without waiting time fails with \<^verbatim>\<open>-RT_ETIMEOUT\<close> and leaves the
  mutex alone, and any other call suspends the caller in the wait queue and raises the owner's priority
  to the caller's if that is higher.  The mutex keeps exactly one owner, and its invariant.
\<close>

theorem mutex_take_correct:
  assumes ok: "mutex_ok m s" and b: "can_block s t (Suspend (Mtx m)) (obj_flag (objs s (Mtx m))) time"
    and irq: "interrupt_nest s = 0"
  shows "case rt_mutex_take m time s of (r, s') \<Rightarrow> sched_ok {} s' \<and> kpanic s' = kpanic s
    \<and> (case owner (mutexes s m) of
         None \<Rightarrow> r = Returned RT_EOK \<and> mutex_ok m s' \<and> owner (mutexes s' m) = Some t \<and> hold (mutexes s' m) = 1
           \<and> original_priority (mutexes s' m) = current_priority (threads s t)
       | Some ow \<Rightarrow> owner (mutexes s' m) = Some ow
           \<and> (if ow = t then r = Returned RT_EOK \<and> hold (mutexes s' m) = hold (mutexes s m) + 1
                \<and> (hold (mutexes s m) < 255 \<longrightarrow> mutex_ok m s')
              else mutexes s' = mutexes s \<and> mutex_ok m s'
                \<and> (if time = 0 then r = Returned (- RT_ETIMEOUT) \<and> tlists s' = tlists s
                   else r = Blocked \<and> state_of s' t = RT_THREAD_SUSPEND \<and> t \<in> set (tlists s' (Suspend (Mtx m)))
                     \<and> current_priority (threads s' ow)
                         = min (current_priority (threads s ow)) (current_priority (threads s t)))))"
proof -
  let ?e = "upd_thread t (\<lambda>y. y\<lparr>error := RT_EOK\<rparr>) s"
  have be: "can_block ?e t (Suspend (Mtx m)) (obj_flag (objs ?e (Mtx m))) time" using can_block_error [OF b] by simp
  have oke: "mutex_ok m ?e" by (rule mutex_okI [OF ok]) (use ok in \<open>simp_all add: mutex_ok_def split: option.splits\<close>)
  have ctx: "in_thread_context s" "is_mutex m s" "rt_thread_self s = Some t"
    using can_blockD(2) [OF b] irq ok by (simp_all add: in_thread_context_def not_in_interrupt_def rt_thread_self_def mutex_ok_def)
  have p: "current_priority (threads s t) < 32"
    using sched_okD(9) [OF can_blockD(1) [OF b], of t] can_blockD(3) [OF b] by (simp add: priority_ok_def)
  have sch: "sched_ok {} ?e" by (rule can_blockD(1) [OF be])
  have tk: "thread_ok t ?e" by (rule can_blockD(8) [OF be])
  consider (free) "owner (mutexes s m) = None" | (own) "owner (mutexes s m) = Some t"
    | (other) ow where "owner (mutexes s m) = Some ow" "ow \<noteq> t" by blast
  then show ?thesis
  proof cases
    case free
    note fr = mutex_free [OF ok free]
    let ?s' = "set_mutex m ((mutexes s m)\<lparr>mtx_value := 0, owner := Some t,
        original_priority := current_priority (threads s t), hold := 1\<rparr>) ?e"
    have eq: "rt_mutex_take m time s = (Returned RT_EOK, ?s')"
      using ctx free fr by (simp add: rt_mutex_take_def mutex_try_def Let_def)
    have "mutex_ok m ?s'" by (rule mutex_okI [OF oke]) (use fr tk p in simp_all)
    then show ?thesis using free eq sch by simp
  next
    case own
    let ?s' = "set_mutex m ((mutexes s m)\<lparr>hold := hold (mutexes s m) + 1\<rparr>) ?e"
    have eq: "rt_mutex_take m time s = (Returned RT_EOK, ?s')"
      using ctx own by (simp add: rt_mutex_take_def Let_def)
    note o = mutex_owned [OF ok own]
    have "mutex_ok m ?s'" if h: "hold (mutexes s m) < 255"
    proof (rule mutex_okI [OF oke])
      have "0 < hold (mutexes s m) + 1" by (rule hold_counts [OF h])
      then show "case owner (mutexes ?s' m) of
          None \<Rightarrow> mtx_value (mutexes ?s' m) = 1 \<and> hold (mutexes ?s' m) = 0 \<and> tlists ?s' (Suspend (Mtx m)) = []
        | Some ow \<Rightarrow> mtx_value (mutexes ?s' m) = 0 \<and> 0 < hold (mutexes ?s' m) \<and> thread_ok ow ?e
            \<and> ow \<notin> set (tlists ?s' (Suspend (Mtx m))) \<and> original_priority (mutexes ?s' m) < 32"
        using own o tk by simp
      show "u \<in> set (tlists ?s' (Suspend (Mtx m))) \<Longrightarrow> thread_ok u ?e" for u using mutex_waiters [OF oke] by simp
    qed simp
    then show ?thesis using own eq sch by simp
  next
    case (other ow)
    have eq: "rt_mutex_take m time s = mutex_try m time t ?e"
      using ctx other by (simp add: rt_mutex_take_def Let_def)
    note o = mutex_owned [OF ok other(1)]
    show ?thesis
    proof (cases "time = 0")
      case True
      let ?s' = "upd_thread t (\<lambda>y. y\<lparr>error := - RT_ETIMEOUT\<rparr>) ?e"
      have eq': "rt_mutex_take m time s = (Returned (- RT_ETIMEOUT), ?s')"
        using eq o True by (simp add: mutex_try_def)
      have "mutex_ok m ?s'"
        by (rule mutex_okI [OF oke]) (use oke in \<open>simp_all add: mutex_ok_def split: option.splits\<close>)
      then show ?thesis using other True eq' sched_ok_error [OF sch] by simp
    next
      case False
      have ow: "owner (mutexes ?e m) = Some ow" using other(1) by simp
      show ?thesis
        using mutex_try_blocks [OF oke be ow other(2) False] False other unfolding eq
        by (auto simp: case_prod_beta split: if_splits)
    qed
  qed
qed

lemma unboosted_ok:
  assumes ok: "sched_ok {} s" and t: "is_thread t s" and p: "original_priority (mutexes s m) < 32"
  shows "sched_ok {} (unboosted m t s)" "kpanic (unboosted m t s) = kpanic s" "state_of (unboosted m t s) = state_of s"
    "wait_queue q \<Longrightarrow> tlists (unboosted m t s) q = tlists s q"
    "current_priority (threads (unboosted m t s) u) = (if u = t then original_priority (mutexes s m) else current_priority (threads s u))"
    "error (threads (unboosted m t s) u) = error (threads s u)" "objs (unboosted m t s) = objs s"
    "mutexes (unboosted m t s) = mutexes s" "current (unboosted m t s) = current s"
  using change_priority_ok [OF ok t p] ok by (simp_all add: unboosted_def)

text \<open>
  C15.  Only the owner can release a mutex: any other thread gets \<^verbatim>\<open>-RT_ERROR\<close> and the mutex stays as it
  is.  A nested release only counts down.  The last one gives the owner its original priority back and
  either frees the mutex or, when threads wait, makes the first of them the owner and wakes it, so that
  its take succeeds.
\<close>

theorem mutex_release_correct:
  assumes ok: "mutex_ok m s" and sched: "sched_ok {} s" and c: "current s = Some t" and t: "thread_ok t s"
    and irq: "interrupt_nest s = 0"
  shows "case rt_mutex_release m s of (e, s') \<Rightarrow> mutex_ok m s' \<and> sched_ok {} s' \<and> kpanic s' = kpanic s
    \<and> (if owner (mutexes s m) \<noteq> Some t then e = - RT_ERROR \<and> mutexes s' = mutexes s \<and> tlists s' = tlists s
       else e = RT_EOK
         \<and> (if hold (mutexes s m) \<noteq> 1
            then owner (mutexes s' m) = Some t \<and> hold (mutexes s' m) = hold (mutexes s m) - 1 \<and> threads s' = threads s
            else current_priority (threads s' t) = original_priority (mutexes s m)
              \<and> (case tlists s (Suspend (Mtx m)) of
                   [] \<Rightarrow> mtx_value (mutexes s' m) = 1 \<and> owner (mutexes s' m) = None
                 | u # us \<Rightarrow> owner (mutexes s' m) = Some u \<and> hold (mutexes s' m) = 1
                     \<and> tlists s' (Suspend (Mtx m)) = us \<and> state_of s' u \<in> {RT_THREAD_READY, RT_THREAD_RUNNING}
                     \<and> error (threads s' u) = error (threads s u))))"
proof -
  let ?q = "Suspend (Mtx m)" and ?x = "mutexes s m"
  have ctx: "in_thread_context s" "is_mutex m s" "rt_thread_self s = Some t"
    using c irq ok by (simp_all add: in_thread_context_def not_in_interrupt_def rt_thread_self_def mutex_ok_def)
  show ?thesis
  proof (cases "owner ?x = Some t")
    case False
    let ?s' = "upd_thread t (\<lambda>y. y\<lparr>error := - RT_ERROR\<rparr>) s"
    have "mutex_ok m ?s'" by (rule mutex_okI [OF ok]) (use ok in \<open>simp_all add: mutex_ok_def split: option.splits\<close>)
    then show ?thesis using ctx False sched_ok_error [OF sched] by (simp add: rt_mutex_release_def)
  next
    case own: True
    note o = mutex_owned [OF ok own]
    let ?s1 = "set_mutex m (?x\<lparr>hold := hold ?x - 1\<rparr>) s"
    show ?thesis
    proof (cases "hold ?x = 1")
      case False
      then have h: "hold ?x - 1 \<noteq> 0" by simp
      have eq: "rt_mutex_release m s = (RT_EOK, ?s1)"
        using ctx own False by (simp add: rt_mutex_release_def Let_def)
      have "mutex_ok m ?s1"
        by (rule mutex_okI [OF ok]) (use o own h mutex_waiters [OF ok] in \<open>simp_all add: word_gt_0\<close>)
      then show ?thesis using eq own False sched by simp
    next
      case True
      let ?s2 = "unboosted m t ?s1"
      have o1: "original_priority (mutexes ?s1 m) = original_priority ?x" "is_thread t ?s1"
        using t by (simp_all add: thread_ok_def)
      note ub = unboosted_ok [of ?s1 t m, OF _ o1(2)]
      have ub': "sched_ok {} ?s2" "kpanic ?s2 = kpanic s" "state_of ?s2 = state_of s" "tlists ?s2 ?q = tlists s ?q"
        "current_priority (threads ?s2 u) = (if u = t then original_priority ?x else current_priority (threads s u))"
        "error (threads ?s2 u) = error (threads s u)" "objs ?s2 = objs s"
        "mutexes ?s2 m = ?x\<lparr>hold := 0\<rparr>" "current ?s2 = Some t" for u
        using ub o sched c True by simp_all
      show ?thesis
      proof (cases "tlists s ?q")
        case Nil
        let ?s' = "set_mutex m (?x\<lparr>hold := 0, mtx_value := 1, owner := None, original_priority := 0xff\<rparr>) ?s2"
        have eq: "rt_mutex_release m s = (RT_EOK, ?s')"
          using ctx own True Nil o ub'(4,8)
          by (simp add: rt_mutex_release_def Let_def)
        have "mutex_ok m ?s'" by (rule mutex_okI [OF ok]) (use Nil ub'(4,7) in simp_all)
        then show ?thesis using eq own True Nil ub' by simp
      next
        case (Cons u us)
        let ?s3 = "set_mutex m (?x\<lparr>owner := Some u, original_priority := current_priority (threads ?s2 u), hold := 1\<rparr>) ?s2"
        let ?r = "snd (rt_thread_resume u ?s3)"
        have l3: "tlists ?s3 ?q = u # us" using Cons ub'(4) by simp
        have eq: "rt_mutex_release m s = (RT_EOK, rt_schedule ?r)"
          using ctx own True Cons ub'(4,8)
          by (simp add: rt_mutex_release_def Let_def rt_ipc_list_resume_def)
        have u3: "thread_ok u ?s3" using mutex_waiters [OF ok, of u] Cons thread_ok_cong [of ?s2 s u] ub'(7) by simp
        have ok3: "sched_ok {} ?s3" using ub'(1) by simp
        note r = resume_waiter [OF ok3 wait_queue_ref(1) l3 u3]
        note fr = ipc_frameD [OF r(2)]
        have cr: "current ?r = Some t" using fr(6) ub'(9) by simp
        have l: "tlists (rt_schedule ?r) ?q = us" using schedule_wait_queue [OF r(1) cr, of ?q] r(3) [of ?q] by simp
        have nu: "u \<notin> set us" using store_ok_distinct [OF sched_okD(1) [OF sched], of ?q] Cons by simp
        have pu: "current_priority (threads ?s2 u) < 32"
        proof -
          have "state_of s u = 2" using waiting_state [OF sched wait_queue_ref(1), of u "Mtx m"] Cons by simp
          then show ?thesis using sched_okD(9) [OF ub'(1), of u] ub'(3) by (simp add: priority_ok_def)
        qed
        have tu: "u \<noteq> t" using o Cons by auto
        have "mutex_ok m (rt_schedule ?r)"
        proof (rule mutex_okI [OF ok])
          show "obj_type (objs (rt_schedule ?r) z) = obj_type (objs s z)" for z using fr(11) ub'(7) by simp
          show "v \<in> set (tlists (rt_schedule ?r) ?q) \<Longrightarrow> thread_ok v s" for v using l mutex_waiters [OF ok, of v] Cons by simp
        qed (use fr(2) o l nu pu mutex_waiters [OF ok, of u] Cons in simp)
        moreover have "state_of (rt_schedule ?r) u \<in> {1, 3}"
          using rt_schedule_state [OF r(1) cr, of u] r(4) [of u] by (auto split: if_splits)
        ultimately show ?thesis
          using rt_schedule_ok(1,2) [OF r(1) cr] eq own True Cons l fr r(5) ub' tu by simp
      qed
    qed
  qed
qed

section \<open>Interrupted waits\<close>

text \<open>
  A signal that interrupts a wait leaves the error of the thread at \<^verbatim>\<open>-RT_EINTR\<close>, and \<^verbatim>\<open>rt_mutex_take\<close>
  tries again without clearing it.  When the mutex is handed over during the second wait, the thread takes
  the error for another interruption and waits for the mutex it owns itself.
\<close>

lemma mutex_retry_waits_for_itself:
  assumes "owner (mutexes s m) = Some t" "mtx_value (mutexes s m) = 0" "error (threads s t) = - RT_EINTR" "time \<noteq> 0"
  shows "rt_mutex_take_end m time t s = (Blocked, ipc_block (Suspend (Mtx m)) t (obj_flag (objs s (Mtx m))) time s)"
  using assms by (simp add: rt_mutex_take_end_def mutex_try_def Let_def)

section \<open>The concrete system\<close>

lemma demo_mutex_ok: "mutex_ok 4 demo_system"
  by (simp add: mutex_ok_def is_mutex_def rt_object_get_type_def demo_types demo_waiter demo_system_ok)

theorem mutex_take_correct_witness:
  "owner (mutexes (snd (rt_mutex_take 4 100 demo_system)) 4) = Some 1"
  using mutex_take_correct [of 4 demo_system 1 100] demo_can_block [of "Suspend (Mtx 4)"]
  by (simp add: demo_mutex_ok demo_waiter case_prod_beta)

text \<open>Mutex 7 held by the running thread, thread 3 waiting for it.\<close>

definition demo_held :: kernel where
  "demo_held = set_mutex 7 \<lparr>mtx_value = 0, original_priority = 10, hold = 1, owner = Some 1\<rparr> (demo_waits (Suspend (Mtx 7)))"

theorem mutex_release_correct_witness:
  "owner (mutexes (snd (rt_mutex_release 7 demo_held)) 7) = Some 3"
proof -
  have o: "objs demo_held = objs demo_system" "current demo_held = Some 1" "interrupt_nest demo_held = 0"
    "mutexes demo_held 7 = \<lparr>mtx_value = 0, original_priority = 10, hold = 1, owner = Some 1\<rparr>"
    "sched_ok {} demo_held" "thread_ok u demo_held"
    "tlists demo_held k = (if k = Ready 5 then [2] else if k = Suspend (Mtx 7) then [3] else [])" for u k
    by (simp_all add: demo_held_def demo_waits_sched demo_waits_lists)
  have "mutex_ok 7 demo_held"
    by (simp add: mutex_ok_def is_mutex_def rt_object_get_type_def o demo_types)
  from mutex_release_correct [OF this o(5,2,6,3)] show ?thesis by (simp add: case_prod_beta o)
qed

end
