(* ===== verification/RT_Event.thy ===== *)
theory RT_Event
  imports RT_Sem
begin

text \<open>The event sets of \<^verbatim>\<open>src/ipc.c\<close>.\<close>

section \<open>Operations\<close>

abbreviation (input) RT_EVENT_FLAG_AND :: u8 where "RT_EVENT_FLAG_AND \<equiv> 1"
abbreviation (input) RT_EVENT_FLAG_OR :: u8 where "RT_EVENT_FLAG_OR \<equiv> 2"
abbreviation (input) RT_EVENT_FLAG_CLEAR :: u8 where "RT_EVENT_FLAG_CLEAR \<equiv> 4"

definition is_event :: "nat \<Rightarrow> kernel \<Rightarrow> bool" where
  "is_event e s \<longleftrightarrow> rt_object_get_type (Evt e) s = RT_Object_Class_Event"

definition set_event :: "nat \<Rightarrow> u32 \<Rightarrow> kernel \<Rightarrow> kernel" where
  "set_event e v s = s\<lparr>events := (events s)(e := \<lparr>evt_set = v\<rparr>)\<rparr>"

definition rt_event_init :: "nat \<Rightarrow> string \<Rightarrow> u8 \<Rightarrow> kernel \<Rightarrow> rt_err_t \<times> kernel" where
  "rt_event_init e name flag s =
     (let s1 = set_obj_flag (Evt e) flag (rt_object_init (Evt e) RT_Object_Class_Event name s)
      in (RT_EOK, set_event e 0 (rt_ipc_object_init (Evt e) s1)))"

definition rt_event_detach :: "nat \<Rightarrow> kernel \<Rightarrow> (rt_err_t \<times> kernel) option" where
  "rt_event_detach e s =
     (if \<not> is_event e s \<or> \<not> rt_object_is_systemobject (Evt e) s then Some (RT_EOK, panic s)
      else map_option (\<lambda>s1. (RT_EOK, rt_object_detach (Evt e) s1)) (rt_ipc_list_resume_all (Suspend (Evt e)) s))"

definition rt_event_create :: "string \<Rightarrow> u8 \<Rightarrow> kernel \<Rightarrow> nat option \<times> kernel" where
  "rt_event_create name flag s =
     (if \<not> not_in_interrupt s then (None, panic s)
      else case rt_object_allocate RT_Object_Class_Event name s of
          (None, s1) \<Rightarrow> (None, s1)
        | (Some r, s1) \<Rightarrow>
            (let e = ref_addr r
             in (Some e, set_event e 0 (rt_ipc_object_init (Evt e) (set_obj_flag (Evt e) flag s1)))))"

definition rt_event_delete :: "nat \<Rightarrow> kernel \<Rightarrow> (rt_err_t \<times> kernel) option" where
  "rt_event_delete e s =
     (if \<not> is_event e s \<or> rt_object_is_systemobject (Evt e) s \<or> \<not> not_in_interrupt s then Some (RT_EOK, panic s)
      else map_option (\<lambda>s1. (RT_EOK, rt_object_delete (Evt e) s1)) (rt_ipc_list_resume_all (Suspend (Evt e)) s))"

text \<open>
  One waiting thread of the walk of \<^verbatim>\<open>rt_event_send\<close>; the flag tells whether a thread was woken.
\<close>

definition event_offer :: "nat \<Rightarrow> nat \<Rightarrow> bool \<times> kernel \<Rightarrow> bool \<times> kernel" where
  "event_offer e t = (\<lambda>(need_schedule, s).
     (let x = threads s t; have_set = evt_set (events s e);
          wake = (\<lambda>s1.
            (let s2 = (if event_info x AND RT_EVENT_FLAG_CLEAR \<noteq> 0
                       then set_event e (evt_set (events s1 e) AND NOT (event_set (threads s1 t))) s1 else s1)
             in (True, snd (rt_thread_resume t s2))))
      in if event_info x AND RT_EVENT_FLAG_AND \<noteq> 0
         then (if event_set x AND have_set = event_set x then wake s else (need_schedule, s))
         else if event_info x AND RT_EVENT_FLAG_OR \<noteq> 0
         then (if event_set x AND have_set \<noteq> 0
               then wake (upd_thread t (\<lambda>y. y\<lparr>event_set := event_set y AND have_set\<rparr>) s)
               else (need_schedule, s))
         else (need_schedule, s)))"

text \<open>
  The walk reads the next node before it wakes a thread, and waking takes only that thread out of the
  list, so it visits the nodes of the list at its start.
\<close>

fun event_walk :: "nat \<Rightarrow> nat list \<Rightarrow> bool \<times> kernel \<Rightarrow> bool \<times> kernel" where
  "event_walk e [] r = r"
| "event_walk e (t # ts) r = event_walk e ts (event_offer e t r)"

definition rt_event_send :: "nat \<Rightarrow> u32 \<Rightarrow> kernel \<Rightarrow> rt_err_t \<times> kernel" where
  "rt_event_send e v s =
     (if \<not> is_event e s then (RT_EOK, panic s)
      else if v = 0 then (- RT_ERROR, s)
      else
        (let s1 = set_event e (evt_set (events s e) OR v) s;
             (need_schedule, s2) = event_walk e (tlists s1 (Suspend (Evt e))) (False, s1)
         in (RT_EOK, if need_schedule then rt_schedule s2 else s2)))"

text \<open>The result is the error and, where the code writes it, the received set.\<close>

definition rt_event_recv ::
  "nat \<Rightarrow> u32 \<Rightarrow> u8 \<Rightarrow> int \<Rightarrow> kernel \<Rightarrow> (rt_err_t \<times> u32 option) outcome \<times> kernel" where
  "rt_event_recv e v opt timeout s =
     (if \<not> in_thread_context s \<or> \<not> is_event e s then (Returned (RT_EOK, None), panic s)
      else if v = 0 then (Returned (- RT_ERROR, None), s)
      else case rt_thread_self s of
          None \<Rightarrow> (Returned (RT_EOK, None), panic s)
        | Some t \<Rightarrow>
            (let s1 = upd_thread t (\<lambda>y. y\<lparr>error := RT_EOK\<rparr>) s;
                 have_set = evt_set (events s1 e);
                 status = (if opt AND RT_EVENT_FLAG_AND \<noteq> 0 then have_set AND v = v else have_set AND v \<noteq> 0)
             in if opt AND RT_EVENT_FLAG_AND = 0 \<and> opt AND RT_EVENT_FLAG_OR = 0
                then (Returned (RT_EOK, None), panic s1)
                else if status
                then (Returned (error (threads s1 t), Some (have_set AND v)),
                      if opt AND RT_EVENT_FLAG_CLEAR \<noteq> 0 then set_event e (have_set AND NOT v) s1 else s1)
                else if timeout = 0
                then (Returned (- RT_ETIMEOUT, None), upd_thread t (\<lambda>y. y\<lparr>error := - RT_ETIMEOUT\<rparr>) s1)
                else
                  (let s2 = upd_thread t (\<lambda>y. y\<lparr>event_set := v, event_info := opt\<rparr>) s1
                   in (Blocked, ipc_block (Suspend (Evt e)) t (obj_flag (objs s2 (Evt e))) timeout s2))))"

definition rt_event_recv_end :: "nat \<Rightarrow> kernel \<Rightarrow> rt_err_t \<times> u32 option" where
  "rt_event_recv_end t s =
     (if error (threads s t) \<noteq> RT_EOK then (error (threads s t), None)
      else (error (threads s t), Some (event_set (threads s t))))"

definition rt_event_control :: "nat \<Rightarrow> ipc_cmd \<Rightarrow> kernel \<Rightarrow> (rt_err_t \<times> kernel) option" where
  "rt_event_control e cmd s =
     (if \<not> is_event e s then Some (RT_EOK, panic s)
      else case cmd of
          Ipc_reset v \<Rightarrow>
            map_option (\<lambda>s1. (RT_EOK, rt_schedule (set_event e 0 s1))) (rt_ipc_list_resume_all (Suspend (Evt e)) s)
        | Other_ipc_cmd \<Rightarrow> Some (- RT_ERROR, s))"

section \<open>What a send does\<close>

definition satisfied :: "u8 \<Rightarrow> u32 \<Rightarrow> u32 \<Rightarrow> bool" where
  "satisfied info want have_set \<longleftrightarrow>
     (if info AND RT_EVENT_FLAG_AND \<noteq> 0 then want AND have_set = want
      else info AND RT_EVENT_FLAG_OR \<noteq> 0 \<and> want AND have_set \<noteq> 0)"

text \<open>The threads served in queue order, what each receives, and the set that remains.\<close>

fun serve :: "(nat \<Rightarrow> u8) \<Rightarrow> (nat \<Rightarrow> u32) \<Rightarrow> nat list \<Rightarrow> u32 \<Rightarrow> (nat \<times> u32) list \<times> u32" where
  "serve info want [] have_set = ([], have_set)"
| "serve info want (t # ts) have_set =
     (if satisfied (info t) (want t) have_set
      then
        (let got = want t AND have_set;
             (rest, left) = serve info want ts
               (if info t AND RT_EVENT_FLAG_CLEAR \<noteq> 0 then have_set AND NOT got else have_set)
         in ((t, got) # rest, left))
      else serve info want ts have_set)"

lemma satisfied_mono: "satisfied info want (have_set AND w) \<Longrightarrow> satisfied info want have_set"
proof -
  assume a: "satisfied info want (have_set AND w)"
  show ?thesis
  proof (cases "info AND 1 = 0")
    case True
    then have "want AND have_set \<noteq> 0" using a by (auto simp: satisfied_def and.assoc [symmetric])
    then show ?thesis using a True by (simp add: satisfied_def)
  next
    case False
    then have e: "want AND (have_set AND w) = want" using a by (simp add: satisfied_def)
    have "want AND have_set = want"
    proof (rule bit_word_eqI)
      fix n
      have "bit (want AND (have_set AND w)) n = bit want n" using e by simp
      then show "bit (want AND have_set) n = bit want n" by (auto simp: bit_simps)
    qed
    then show ?thesis using False by (simp add: satisfied_def)
  qed
qed

lemma serve_left: "\<exists>w. snd (serve info want ts have_set) = have_set AND w"
proof (induction ts arbitrary: have_set)
  case Nil
  then show ?case by (auto intro: exI [of _ "- 1"])
next
  case (Cons t ts)
  let ?h = "if info t AND 4 \<noteq> 0 then have_set AND NOT (want t AND have_set) else have_set"
  obtain m1 where m1: "snd (serve info want ts have_set) = have_set AND m1" using Cons by blast
  obtain m2 where m2: "snd (serve info want ts ?h) = ?h AND m2" using Cons by blast
  show ?case
  proof (cases "satisfied (info t) (want t) have_set")
    case True
    have "snd (serve info want (t # ts) have_set) = ?h AND m2" using True m2 by (simp add: Let_def case_prod_beta)
    then show ?thesis by (auto simp: and.assoc split: if_splits)
  next
    case False
    then show ?thesis using m1 by auto
  qed
qed

text \<open>No thread that is passed over could have been served from what remains.\<close>

lemma serve_unsatisfied:
  "t \<in> set ts \<Longrightarrow> t \<notin> fst ` set (fst (serve info want ts have_set)) \<Longrightarrow>
     \<not> satisfied (info t) (want t) (snd (serve info want ts have_set))"
proof (induction ts arbitrary: have_set)
  case (Cons u us)
  show ?case
  proof (cases "satisfied (info u) (want u) have_set")
    case True
    then show ?thesis using Cons by (auto simp: Let_def case_prod_beta)
  next
    case False
    obtain m where m: "snd (serve info want us have_set) = have_set AND m" using serve_left by blast
    have "\<not> satisfied (info u) (want u) (snd (serve info want us have_set))"
      unfolding m using False satisfied_mono by blast
    then show ?thesis using Cons False by auto
  qed
qed simp

lemma serve_subset: "fst ` set (fst (serve info want ts have_set)) \<subseteq> set ts"
proof (induction ts arbitrary: have_set)
  case (Cons t ts)
  show ?case
    using Cons.IH [of have_set] Cons.IH [of "have_set AND NOT (want t AND have_set)"] by (auto simp: Let_def case_prod_beta)
qed simp

lemma serve_cong:
  "(\<And>t. t \<in> set ts \<Longrightarrow> info t = info' t \<and> want t = want' t) \<Longrightarrow> serve info want ts h = serve info' want' ts h"
  by (induction ts arbitrary: h) (auto simp: Let_def)

section \<open>The walk\<close>

lemma set_event_sel [simp]:
  "events (set_event e v s) = (events s)(e := \<lparr>evt_set = v\<rparr>)" "threads (set_event e v s) = threads s"
  "tlists (set_event e v s) = tlists s" "objs (set_event e v s) = objs s" "current (set_event e v s) = current s"
  "kpanic (set_event e v s) = kpanic s" "sched_ok X (set_event e v s) = sched_ok X s"
  "lock_nest (set_event e v s) = lock_nest s" "state_of (set_event e v s) = state_of s"
  "thread_ok u (set_event e v s) = thread_ok u s"
  by (simp_all add: set_event_def state_of_def fun_eq_iff is_thread_def thread_ok_def is_timer_def
      rt_object_get_type_def rt_object_is_systemobject_def)

lemma set_event_same: "set_event e (evt_set (events s e)) s = s"
proof -
  have "\<lparr>evt_set = evt_set (events s e)\<rparr> = events s e" by (cases "events s e") simp
  then have "(events s)(e := \<lparr>evt_set = evt_set (events s e)\<rparr>) = events s" by (simp only: fun_upd_triv)
  then show ?thesis unfolding set_event_def by (simp only:) simp
qed

lemma event_set_same: "upd_thread t (\<lambda>y. y\<lparr>event_set := event_set (threads s t)\<rparr>) s = s"
  by (simp add: upd_thread_def)

definition offered :: "nat \<Rightarrow> nat \<Rightarrow> kernel \<Rightarrow> kernel" where
  "offered e t s =
     (let have_set = evt_set (events s e); got = event_set (threads s t) AND have_set
      in set_event e (if event_info (threads s t) AND 4 \<noteq> 0 then have_set AND NOT got else have_set)
           (upd_thread t (\<lambda>y. y\<lparr>event_set := got\<rparr>) s))"

lemma event_offer_eq:
  "event_offer e t (need, s)
    = (if satisfied (event_info (threads s t)) (event_set (threads s t)) (evt_set (events s e))
       then (True, snd (rt_thread_resume t (offered e t s))) else (need, s))"
proof -
  let ?x = "threads s t" and ?h = "evt_set (events s e)"
  have u: "upd_thread t (\<lambda>y. y\<lparr>event_set := event_set y AND ?h\<rparr>) s = upd_thread t (\<lambda>y. y\<lparr>event_set := event_set ?x AND ?h\<rparr>) s"
    by (simp add: upd_thread_def)
  have same: "event_set ?x AND ?h = event_set ?x \<Longrightarrow> upd_thread t (\<lambda>y. y\<lparr>event_set := event_set ?x AND ?h\<rparr>) s = s"
    by (simp add: event_set_same)
  have noclear: "set_event e ?h (upd_thread t f s) = upd_thread t f s" for f
    using set_event_same [of e "upd_thread t f s"] by simp
  show ?thesis
    using same unfolding event_offer_def satisfied_def offered_def
    by (auto simp: Let_def u noclear set_event_same)
qed

lemma offered_sel:
  "threads (offered e t s) = (threads s)(t := (threads s t)\<lparr>event_set := event_set (threads s t) AND evt_set (events s e)\<rparr>)"
  "tlists (offered e t s) = tlists s" "objs (offered e t s) = objs s" "current (offered e t s) = current s"
  "kpanic (offered e t s) = kpanic s" "lock_nest (offered e t s) = lock_nest s" "state_of (offered e t s) u = state_of s u"
  "thread_ok u (offered e t s) = thread_ok u s"
  "evt_set (events (offered e t s) e) = (if event_info (threads s t) AND 4 \<noteq> 0
     then evt_set (events s e) AND NOT (event_set (threads s t) AND evt_set (events s e)) else evt_set (events s e))"
  by (simp_all add: offered_def Let_def state_of_upd_thread) (simp_all add: state_of_def thread_ok_def)

lemma offered_ok: "sched_ok {} s \<Longrightarrow> sched_ok {} (offered e t s)"
  by (erule sched_ok_threads) (simp_all add: offered_sel offered_def Let_def set_event_def)

text \<open>What the walk over a part of the queue does.\<close>

definition walked :: "nat \<Rightarrow> nat list \<Rightarrow> (nat \<times> u32) list \<Rightarrow> kernel \<Rightarrow> kernel \<Rightarrow> bool" where
  "walked e waiting served s s' \<longleftrightarrow> sched_ok {} s' \<and> kpanic s' = kpanic s \<and> current s' = current s
     \<and> (\<forall>r. obj_type (objs s' r) = obj_type (objs s r))
     \<and> tlists s' (Suspend (Evt e)) = filter (\<lambda>u. u \<notin> fst ` set served) waiting
     \<and> (\<forall>(u, got) \<in> set served. event_set (threads s' u) = got \<and> state_of s' u \<in> {1, 3})
     \<and> (\<forall>u. u \<notin> fst ` set served \<longrightarrow> event_set (threads s' u) = event_set (threads s u) \<and> state_of s' u = state_of s u)
     \<and> (\<forall>u. event_info (threads s' u) = event_info (threads s u) \<and> error (threads s' u) = error (threads s u))"

lemma filter_absent: "t \<notin> set xs \<Longrightarrow> filter (\<lambda>u. u \<noteq> t \<and> P u) xs = filter P xs"
  by (induction xs) auto

lemma walkedD:
  assumes "walked e waiting served s s'"
  shows "sched_ok {} s'" "kpanic s' = kpanic s" "current s' = current s" "obj_type (objs s' r) = obj_type (objs s r)"
    "tlists s' (Suspend (Evt e)) = filter (\<lambda>u. u \<notin> fst ` set served) waiting"
    "(u, got) \<in> set served \<Longrightarrow> event_set (threads s' u) = got" "(u, got) \<in> set served \<Longrightarrow> state_of s' u \<in> {1, 3}"
    "u \<notin> fst ` set served \<Longrightarrow> event_set (threads s' u) = event_set (threads s u)"
    "u \<notin> fst ` set served \<Longrightarrow> state_of s' u = state_of s u"
    "event_info (threads s' u) = event_info (threads s u)" "error (threads s' u) = error (threads s u)"
  using assms unfolding walked_def by auto

lemma event_walk_serves:
  assumes "sched_ok {} s" "tlists s (Suspend (Evt e)) = pre @ ts" "\<forall>u \<in> set ts. thread_ok u s"
  defines "out \<equiv> serve (\<lambda>u. event_info (threads s u)) (\<lambda>u. event_set (threads s u)) ts (evt_set (events s e))"
  shows "\<exists>s'. event_walk e ts (need, s) = (need \<or> fst out \<noteq> [], s') \<and> walked e (pre @ ts) (fst out) s s'
    \<and> evt_set (events s' e) = snd out"
  using assms(1-3) unfolding out_def
proof (induction ts arbitrary: s pre need)
  case Nil
  then show ?case by (simp add: walked_def)
next
  case (Cons t ts)
  let ?q = "Suspend (Evt e)" and ?i = "\<lambda>u. event_info (threads s u)" and ?w = "\<lambda>u. event_set (threads s u)"
  let ?h = "evt_set (events s e)"
  have d: "distinct (pre @ t # ts)" using store_ok_distinct [OF sched_okD(1) [OF Cons.prems(1)], of ?q] Cons.prems(2) by simp
  show ?case
  proof (cases "satisfied (?i t) (?w t) ?h")
    case False
    have v: "\<forall>u \<in> set ts. thread_ok u s" using Cons.prems(3) by simp
    have l: "tlists s ?q = (pre @ [t]) @ ts" using Cons.prems(2) by simp
    obtain s' where s': "event_walk e ts (need, s) = (need \<or> fst (serve ?i ?w ts ?h) \<noteq> [], s')"
      "walked e ((pre @ [t]) @ ts) (fst (serve ?i ?w ts ?h)) s s'" "evt_set (events s' e) = snd (serve ?i ?w ts ?h)"
      using Cons.IH [OF Cons.prems(1) l v] by blast
    then show ?thesis using False by (auto simp: event_offer_eq)
  next
    case True
    let ?o = "offered e t s"
    let ?r = "snd (rt_thread_resume t ?o)" and ?got = "?w t AND ?h"
    let ?h' = "if ?i t AND 4 \<noteq> 0 then ?h AND NOT ?got else ?h"
    have ok: "sched_ok {} ?o" by (rule offered_ok [OF Cons.prems(1)])
    have m: "t \<in> set (tlists ?o ?q)" using Cons.prems(2) by (simp add: offered_sel)
    have vt: "thread_ok t ?o" using Cons.prems(3) by (simp add: offered_sel)
    note r = resume_member [OF ok wait_queue_ref(1) m vt]
    note fr = ipc_frameD [OF r(2)]
    have lr: "tlists ?r ?q = pre @ ts" using r(3) [of ?q] Cons.prems(2) d by (simp add: offered_sel)
    have vr: "\<forall>u \<in> set ts. thread_ok u ?r" using Cons.prems(3) fr(15) by (simp add: offered_sel)
    have same: "event_info (threads ?r u) = ?i u" "u \<noteq> t \<Longrightarrow> event_set (threads ?r u) = ?w u" "event_set (threads ?r t) = ?got" for u
      using fr(13,14) by (simp_all add: offered_sel)
    have hr: "evt_set (events ?r e) = ?h'" using fr(3) by (simp add: offered_sel)
    have sv: "serve (\<lambda>u. event_info (threads ?r u)) (\<lambda>u. event_set (threads ?r u)) ts ?h' = serve ?i ?w ts ?h'"
    proof (rule serve_cong)
      fix u
      assume "u \<in> set ts"
      then have "u \<noteq> t" using d by auto
      then show "event_info (threads ?r u) = ?i u \<and> event_set (threads ?r u) = ?w u" using same by simp
    qed
    obtain s' where s': "event_walk e ts (True, ?r) = (True, s')"
      "walked e (pre @ ts) (fst (serve ?i ?w ts ?h')) ?r s'" "evt_set (events s' e) = snd (serve ?i ?w ts ?h')"
      using Cons.IH [OF r(1) lr vr, of True] unfolding hr sv by auto
    have out: "serve ?i ?w (t # ts) ?h = ((t, ?got) # fst (serve ?i ?w ts ?h'), snd (serve ?i ?w ts ?h'))"
      using True by (simp add: Let_def case_prod_beta)
    let ?sv = "fst (serve ?i ?w ts ?h')"
    have nt: "t \<notin> fst ` set ?sv" by (rule contra_subsetD [OF serve_subset]) (use d in simp)
    have st: "state_of ?r t \<in> {1, 3}" "u \<noteq> t \<Longrightarrow> state_of ?r u = state_of s u" for u
      using r(4) [of t] r(4) [of u] by (simp_all add: offered_sel)
    note W = walkedD [OF s'(2)]
    have "walked e (pre @ t # ts) ((t, ?got) # ?sv) s s'"
      unfolding walked_def
    proof (intro conjI)
      show "sched_ok {} s'" by (rule W(1))
      show "kpanic s' = kpanic s" "current s' = current s" using W(2,3) fr(6,10) by (simp_all add: offered_sel)
      show "\<forall>r'. obj_type (objs s' r') = obj_type (objs s r')" using W(4) fr(11) by (simp add: offered_sel)
      show "tlists s' ?q = filter (\<lambda>u. u \<notin> fst ` set ((t, ?got) # ?sv)) (pre @ t # ts)"
        unfolding W(5) using d by (simp add: filter_absent)
      show "\<forall>(u, got) \<in> set ((t, ?got) # ?sv). event_set (threads s' u) = got \<and> state_of s' u \<in> {1, 3}"
      proof clarify
        fix u got
        assume "(u, got) \<in> set ((t, ?got) # ?sv)"
        then consider "u = t" "got = ?got" | "(u, got) \<in> set ?sv" by auto
        then show "event_set (threads s' u) = got \<and> state_of s' u \<in> {1, 3}"
        proof cases
          case 1
          then show ?thesis using W(8,9) [OF nt] same(3) st(1) by simp
        next
          case 2
          then show ?thesis using W(6,7) by blast
        qed
      qed
      show "\<forall>u. u \<notin> fst ` set ((t, ?got) # ?sv) \<longrightarrow> event_set (threads s' u) = ?w u \<and> state_of s' u = state_of s u"
      proof (intro allI impI)
        fix u
        assume "u \<notin> fst ` set ((t, ?got) # ?sv)"
        then have u: "u \<noteq> t" "u \<notin> fst ` set ?sv" by auto
        show "event_set (threads s' u) = ?w u \<and> state_of s' u = state_of s u"
          using W(8,9) [OF u(2)] same(2) [OF u(1)] st(2) [OF u(1)] by simp
      qed
      show "\<forall>u. event_info (threads s' u) = ?i u \<and> error (threads s' u) = error (threads s u)"
        using W(10,11) same(1) r(5) by (simp add: offered_sel)
    qed
    then show ?thesis using s'(1,3) out True by (simp add: event_offer_eq)
  qed
qed

section \<open>Correctness\<close>

text \<open>No thread waits for events that are all there.\<close>

definition event_ok :: "nat \<Rightarrow> kernel \<Rightarrow> bool" where
  "event_ok e s \<longleftrightarrow> is_event e s \<and> (\<forall>u \<in> set (tlists s (Suspend (Evt e))). thread_ok u s
     \<and> \<not> satisfied (event_info (threads s u)) (event_set (threads s u)) (evt_set (events s e)))"

lemma is_event_frame:
  "(\<And>r. obj_type (objs s' r) = obj_type (objs s r)) \<Longrightarrow> is_event e s' = is_event e s"
  "(\<And>r. obj_type (objs s' r) = obj_type (objs s r)) \<Longrightarrow> thread_ok u s' = thread_ok u s"
  by (simp_all add: is_event_def rt_object_get_type_def thread_ok_def is_thread_def is_timer_def
      rt_object_is_systemobject_def)

lemma event_send_facts:
  fixes v :: u32
  assumes ok: "event_ok e s" and sched: "sched_ok {} s" and c: "current s = Some c"
  defines "out \<equiv> serve (\<lambda>u. event_info (threads s u)) (\<lambda>u. event_set (threads s u)) (tlists s (Suspend (Evt e)))
      (evt_set (events s e) OR v)"
  shows "case rt_event_send e v s of (r, s') \<Rightarrow>
    if v = 0 then r = - RT_ERROR \<and> s' = s
    else r = RT_EOK \<and> event_ok e s' \<and> sched_ok {} s' \<and> kpanic s' = kpanic s \<and> evt_set (events s' e) = snd out
      \<and> tlists s' (Suspend (Evt e)) = filter (\<lambda>u. u \<notin> fst ` set (fst out)) (tlists s (Suspend (Evt e)))
      \<and> (\<forall>(u, got) \<in> set (fst out). event_set (threads s' u) = got \<and> state_of s' u \<in> {RT_THREAD_READY, RT_THREAD_RUNNING}
           \<and> error (threads s' u) = error (threads s u))"
proof (cases "v = 0")
  case True
  then show ?thesis using ok by (simp add: rt_event_send_def event_ok_def)
next
  case False
  let ?q = "Suspend (Evt e)" and ?s1 = "set_event e (evt_set (events s e) OR v) s"
  have pre: "sched_ok {} ?s1" "tlists ?s1 ?q = [] @ tlists s ?q" "\<forall>u \<in> set (tlists s ?q). thread_ok u ?s1"
    using ok sched by (simp_all add: event_ok_def)
  obtain s2 where s2: "event_walk e (tlists s ?q) (False, ?s1) = (fst out \<noteq> [], s2)"
    "walked e (tlists s ?q) (fst out) ?s1 s2" "evt_set (events s2 e) = snd out"
    using event_walk_serves [OF pre, of False] by (auto simp: out_def)
  let ?s' = "if fst out \<noteq> [] then rt_schedule s2 else s2"
  have eq: "rt_event_send e v s = (RT_EOK, ?s')"
    using ok False s2(1) by (simp add: rt_event_send_def event_ok_def Let_def)
  note W = walkedD [OF s2(2)]
  have c2: "current s2 = Some c" using W(3) c by simp
  have S: "sched_ok {} ?s'" "kpanic ?s' = kpanic s" "tlists ?s' ?q = tlists s2 ?q" "events ?s' = events s2"
    "event_set (threads ?s' u) = event_set (threads s2 u)" "event_info (threads ?s' u) = event_info (threads s2 u)"
    "error (threads ?s' u) = error (threads s2 u)" "obj_type (objs ?s' r) = obj_type (objs s r)"
    "state_of s2 u \<in> {1, 3} \<Longrightarrow> state_of ?s' u \<in> {1, 3}" for u r
    using rt_schedule_ok(1,2) [OF W(1) c2] schedule_wait_queue [OF W(1) c2, of ?q] rt_schedule_state [OF W(1) c2, of u] W(1,2,4)
    by auto
  have ns: "\<not> satisfied (event_info (threads ?s' u)) (event_set (threads ?s' u)) (evt_set (events ?s' e))"
    if u: "u \<in> set (tlists ?s' ?q)" for u
  proof -
    have "u \<in> set (tlists s ?q)" "u \<notin> fst ` set (fst out)" using u unfolding S(3) W(5) by auto
    from serve_unsatisfied [OF this(1) this(2) [unfolded out_def]] show ?thesis
      using W(8) [OF \<open>u \<notin> fst ` set (fst out)\<close>] unfolding S(4,5,6) s2(3) W(10) by (simp add: out_def)
  qed
  have tk: "thread_ok u ?s' = thread_ok u s" "is_event e ?s' = is_event e s" for u
    using is_event_frame [of ?s' s] S(8) by blast+
  have sub: "u \<in> set (tlists s ?q)" if "u \<in> set (tlists ?s' ?q)" for u using that unfolding S(3) W(5) by simp
  have "event_ok e ?s'"
    unfolding event_ok_def tk
  proof (intro conjI ballI)
    show "is_event e s" using ok by (simp add: event_ok_def)
    show "thread_ok u s" if "u \<in> set (tlists ?s' ?q)" for u using ok sub [OF that] by (simp add: event_ok_def)
  qed (rule ns)
  moreover have "\<forall>(u, got) \<in> set (fst out). event_set (threads ?s' u) = got \<and> state_of ?s' u \<in> {1, 3}
      \<and> error (threads ?s' u) = error (threads s u)"
  proof clarify
    fix u got
    assume u: "(u, got) \<in> set (fst out)"
    show "event_set (threads ?s' u) = got \<and> state_of ?s' u \<in> {1, 3} \<and> error (threads ?s' u) = error (threads s u)"
      using W(6) [OF u] S(9) [OF W(7) [OF u]] W(11) [of u] unfolding S(5,7) by simp
  qed
  ultimately show ?thesis using False eq S(1-4) s2(3) W(2,5) by simp
qed

text \<open>
  C16.  Sending events serves the waiting threads in queue order: each thread whose condition (all or any
  of its events) holds when its turn comes is woken with the events it received, which are removed from
  the set if it asked for that; the others keep waiting in their order.  Afterwards no thread waits for
  events that are all there, so no wake-up is lost.
\<close>

theorem event_send_correct:
  fixes v :: u32
  assumes ok: "event_ok e s" and sched: "sched_ok {} s" and c: "current s = Some c"
  defines "out \<equiv> serve (\<lambda>u. event_info (threads s u)) (\<lambda>u. event_set (threads s u)) (tlists s (Suspend (Evt e)))
      (evt_set (events s e) OR v)"
  shows "case rt_event_send e v s of (r, s') \<Rightarrow>
    if v = 0 then r = - RT_ERROR \<and> s' = s
    else r = RT_EOK \<and> event_ok e s' \<and> sched_ok {} s' \<and> kpanic s' = kpanic s \<and> evt_set (events s' e) = snd out
      \<and> tlists s' (Suspend (Evt e)) = filter (\<lambda>u. u \<notin> fst ` set (fst out)) (tlists s (Suspend (Evt e)))
      \<and> (\<forall>(u, got) \<in> set (fst out). event_set (threads s' u) = got \<and> state_of s' u \<in> {RT_THREAD_READY, RT_THREAD_RUNNING}
           \<and> error (threads s' u) = error (threads s u))"
  unfolding out_def using ok sched c by (rule event_send_facts)

text \<open>
  C17.  Receiving events: an empty request fails with \<^verbatim>\<open>-RT_ERROR\<close>; if the requested events are there
  (all or any, as the option asks) the call returns them at once, and removes them if asked to; otherwise
  a call without waiting time fails with \<^verbatim>\<open>-RT_ETIMEOUT\<close> and leaves the set alone, and any other call
  suspends the running thread with its request recorded.  No thread ever waits for events that are there.
\<close>

theorem event_recv_correct:
  assumes ok: "event_ok e s" and b: "can_block s t (Suspend (Evt e)) (obj_flag (objs s (Evt e))) timeout"
    and irq: "interrupt_nest s = 0" and opt: "opt AND RT_EVENT_FLAG_AND \<noteq> 0 \<or> opt AND RT_EVENT_FLAG_OR \<noteq> 0"
  shows "case rt_event_recv e v opt timeout s of (r, s') \<Rightarrow> event_ok e s' \<and> sched_ok {} s' \<and> kpanic s' = kpanic s
    \<and> (if v = 0 then r = Returned (- RT_ERROR, None) \<and> s' = s
       else if satisfied opt v (evt_set (events s e))
       then r = Returned (RT_EOK, Some (evt_set (events s e) AND v)) \<and> tlists s' = tlists s
         \<and> evt_set (events s' e) = (if opt AND RT_EVENT_FLAG_CLEAR \<noteq> 0 then evt_set (events s e) AND NOT v
              else evt_set (events s e))
       else events s' = events s
         \<and> (if timeout = 0 then r = Returned (- RT_ETIMEOUT, None) \<and> tlists s' = tlists s
            else r = Blocked \<and> state_of s' t = RT_THREAD_SUSPEND \<and> event_set (threads s' t) = v
              \<and> event_info (threads s' t) = opt \<and> error (threads s' t) = RT_EOK \<and> t \<in> set (tlists s' (Suspend (Evt e)))))"
proof -
  let ?q = "Suspend (Evt e)" and ?h = "evt_set (events s e)" and ?f = "obj_flag (objs s (Evt e))"
  let ?e = "upd_thread t (\<lambda>y. y\<lparr>error := RT_EOK\<rparr>) s"
  have ctx: "in_thread_context s" "is_event e s" "rt_thread_self s = Some t"
    using can_blockD(2) [OF b] irq ok by (simp_all add: in_thread_context_def not_in_interrupt_def rt_thread_self_def event_ok_def)
  have nt: "t \<notin> set (tlists s ?q)"
    using running_detached [OF can_blockD(1) [OF b] _ can_blockD(3) [OF b]] by (simp add: detached_def)
  have sat: "satisfied opt v ?h \<longleftrightarrow> (if opt AND 1 \<noteq> 0 then ?h AND v = v else ?h AND v \<noteq> 0)"
    using opt by (auto simp: satisfied_def and.commute)
  have okf: "event_ok e s'" if f: "\<And>r. obj_type (objs s' r) = obj_type (objs s r)" "tlists s' = tlists s"
    "\<And>u. u \<noteq> t \<Longrightarrow> event_set (threads s' u) = event_set (threads s u) \<and> event_info (threads s' u) = event_info (threads s u)"
    "\<exists>w. evt_set (events s' e) = ?h AND w" for s'
  proof -
    obtain w where w: "evt_set (events s' e) = ?h AND w" using f(4) by blast
    have tk: "thread_ok u s' = thread_ok u s" "is_event e s' = is_event e s" for u
      using is_event_frame [of s' s] f(1) by blast+
    show ?thesis
      unfolding event_ok_def tk f(2) w
    proof (intro conjI ballI)
      show "is_event e s" by (rule ctx(2))
      fix u assume u: "u \<in> set (tlists s ?q)"
      then have "u \<noteq> t" using nt by auto
      then show "thread_ok u s" "\<not> satisfied (event_info (threads s' u)) (event_set (threads s' u)) (?h AND w)"
        using ok u f(3) [of u] satisfied_mono [of "event_info (threads s u)" "event_set (threads s u)" ?h w]
        by (auto simp: event_ok_def)
    qed
  qed
  have all: "\<exists>w. ?h = ?h AND w" by (rule exI [of _ "- 1"]) simp
  consider (zero) "v = 0" | (got) "v \<noteq> 0" "satisfied opt v ?h" | (now) "v \<noteq> 0" "\<not> satisfied opt v ?h" "timeout = 0"
    | (wait) "v \<noteq> 0" "\<not> satisfied opt v ?h" "timeout \<noteq> 0" by blast
  then show ?thesis
  proof cases
    case zero
    then show ?thesis using ctx ok can_blockD(1) [OF b] by (simp add: rt_event_recv_def)
  next
    case got
    let ?s' = "if opt AND 4 \<noteq> 0 then set_event e (?h AND NOT v) ?e else ?e"
    have eq: "rt_event_recv e v opt timeout s = (Returned (RT_EOK, Some (?h AND v)), ?s')"
      using ctx got opt unfolding sat by (auto simp: rt_event_recv_def Let_def)
    have "event_ok e ?s'" by (rule okf) (use all in auto)
    then show ?thesis using got eq sched_ok_error [OF can_blockD(1) [OF b]] by simp
  next
    case now
    let ?s' = "upd_thread t (\<lambda>y. y\<lparr>error := - RT_ETIMEOUT\<rparr>) ?e"
    have eq: "rt_event_recv e v opt timeout s = (Returned (- RT_ETIMEOUT, None), ?s')"
      using ctx now opt unfolding sat by (auto simp: rt_event_recv_def Let_def)
    have "event_ok e ?s'" by (rule okf) (use all in auto)
    then show ?thesis using now eq sched_ok_error [OF sched_ok_error [OF can_blockD(1) [OF b]]] by simp
  next
    case wait
    let ?s2 = "upd_thread t (\<lambda>y. y\<lparr>event_set := v, event_info := opt\<rparr>) ?e"
    have st2: "state_of ?s2 = state_of s" by (auto simp: state_of_def)
    have s2: "sched_ok {} ?s2" by (rule sched_ok_threads [OF can_blockD(1) [OF b]]) (simp_all add: upd_thread_def)
    have b2: "can_block ?s2 t ?q ?f timeout"
      using b st2 s2 by (simp add: can_block_def waiter_ok_def thread_ok_def)
    have eq: "rt_event_recv e v opt timeout s = (Blocked, ipc_block ?q t ?f timeout ?s2)"
      using ctx wait opt unfolding sat by (auto simp: rt_event_recv_def Let_def)
    let ?s' = "ipc_block ?q t ?f timeout ?s2"
    note fr = block_frame [OF b2] and sc = block_sched [OF b2] and qu = block_queue [OF b2, of ?q] and ty = block_types [OF b2]
    have set: "set (tlists ?s' ?q) = insert t (set (tlists s ?q))" using qu by simp
    have th: "event_set (threads ?s' u) = (if u = t then v else event_set (threads s u))"
      "event_info (threads ?s' u) = (if u = t then opt else event_info (threads s u))" for u
      using fr(8,9) by simp_all
    have tk: "thread_ok u ?s' = thread_ok u s" "is_event e ?s' = is_event e s" for u
      using is_event_frame [of ?s' s] ty(1) by simp_all
    have "event_ok e ?s'"
      unfolding event_ok_def tk set th fr(3)
    proof (intro conjI ballI)
      show "is_event e s" by (rule ctx(2))
      fix u assume u: "u \<in> insert t (set (tlists s ?q))"
      show "thread_ok u s" using u ok can_blockD(8) [OF b] by (auto simp: event_ok_def)
      show "\<not> satisfied (if u = t then opt else event_info (threads s u)) (if u = t then v else event_set (threads s u))
          (evt_set (events ?s2 e))"
        using u ok wait(2) by (auto simp: event_ok_def)
    qed
    then show ?thesis using wait eq sc fr set th by simp
  qed
qed

section \<open>The concrete system\<close>

lemma demo_event_ok: "event_ok 2 demo_system"
  by (simp add: event_ok_def is_event_def rt_object_get_type_def demo_types demo_system_ok)

theorem event_recv_correct_witness:
  "fst (rt_event_recv 2 5 1 100 demo_system) = Blocked"
proof -
  have "can_block demo_system 1 (Suspend (Evt 2)) (obj_flag (objs demo_system (Evt 2))) 100"
    using demo_can_block by (simp add: demo_waiter)
  moreover have "(1 :: u8) AND 1 \<noteq> 0 \<or> (1 :: u8) AND 2 \<noteq> 0" by simp
  moreover have "\<not> satisfied 1 5 (evt_set (events demo_system 2))" by (simp add: satisfied_def demo_waiter)
  ultimately show ?thesis
    using event_recv_correct [OF demo_event_ok _ demo_waiter(2), of 1 100 1 5] by (simp add: case_prod_beta)
qed

text \<open>Thread 3 waits for any of the events 1 and 4, which it wants cleared.\<close>

definition demo_event :: kernel where
  "demo_event = upd_thread 3 (\<lambda>y. y\<lparr>event_set := 5, event_info := 6\<rparr>) (demo_waits (Suspend (Evt 2)))"

theorem event_send_correct_witness:
  "event_set (threads (snd (rt_event_send 2 12 demo_event)) 3) = 4 \<and> evt_set (events (snd (rt_event_send 2 12 demo_event)) 2) = 8"
proof -
  have o: "events demo_event = events demo_system" "current demo_event = Some 1" "objs demo_event = objs demo_system"
    "event_set (threads demo_event 3) = 5" "event_info (threads demo_event 3) = 6"
    "tlists demo_event (Suspend (Evt 2)) = [3]" "thread_ok u demo_event" for u
    by (simp_all add: demo_event_def demo_waits_lists) (simp add: thread_ok_def [of _ "upd_thread _ _ _"] thread_ok_def [symmetric])
  have s: "sched_ok {} demo_event"
    by (rule sched_ok_threads [OF demo_waits_sched [of "Suspend (Evt 2)"]]) (simp_all add: demo_event_def upd_thread_def)
  have "event_ok 2 demo_event"
    by (simp add: event_ok_def is_event_def rt_object_get_type_def o demo_types demo_waiter satisfied_def)
  from event_send_correct [OF this s o(2), of 12] show ?thesis
    by (simp add: case_prod_beta o demo_waiter satisfied_def Let_def)
qed

end
