(* ===== verification/RT_Fifo.thy ===== *)
theory RT_Fifo
  imports RT_Prelude
begin

text \<open>
  The contract of a bounded first-in-first-out buffer, which mailboxes, message queues and ring
  buffers promise, and what follows from it for any sequence of exchanges.  The second part holds the
  arithmetic of a circular buffer.
\<close>

section \<open>Bounded queues\<close>

text \<open>
  A run of a queue: the values put in, the values taken out.  Nobody puts into a full queue or takes
  from an empty one, and the values put in fit the queue.
\<close>

inductive fifo_run :: "('a \<Rightarrow> 'q \<Rightarrow> 'q) \<Rightarrow> ('q \<Rightarrow> 'a \<times> 'q) \<Rightarrow> ('q \<Rightarrow> bool) \<Rightarrow> ('q \<Rightarrow> bool) \<Rightarrow> ('q \<Rightarrow> 'a \<Rightarrow> bool)
    \<Rightarrow> 'q \<Rightarrow> 'a list \<Rightarrow> 'a list \<Rightarrow> 'q \<Rightarrow> bool"
  for put get full empty fits where
  Idle: "fifo_run put get full empty fits q [] [] q"
| Put: "fifo_run put get full empty fits q xs ys q' \<Longrightarrow> \<not> full q' \<Longrightarrow> fits q' x
    \<Longrightarrow> fifo_run put get full empty fits q (xs @ [x]) ys (put x q')"
| Get: "fifo_run put get full empty fits q xs ys q' \<Longrightarrow> \<not> empty q' \<Longrightarrow> get q' = (y, q'')
    \<Longrightarrow> fifo_run put get full empty fits q xs (ys @ [y]) q''"

locale bounded_fifo =
  fixes ok :: "'q \<Rightarrow> bool"
    and put :: "'a \<Rightarrow> 'q \<Rightarrow> 'q"
    and get :: "'q \<Rightarrow> 'a \<times> 'q"
    and full :: "'q \<Rightarrow> bool"
    and empty :: "'q \<Rightarrow> bool"
    and fits :: "'q \<Rightarrow> 'a \<Rightarrow> bool"
    and content :: "'q \<Rightarrow> 'a list"
    and capacity :: "'q \<Rightarrow> nat"
  assumes bounded: "ok q \<Longrightarrow> length (content q) \<le> capacity q"
    and full_iff: "ok q \<Longrightarrow> full q \<longleftrightarrow> length (content q) = capacity q"
    and empty_iff: "ok q \<Longrightarrow> empty q \<longleftrightarrow> content q = []"
    and put_ok: "ok q \<Longrightarrow> \<not> full q \<Longrightarrow> fits q x \<Longrightarrow> ok (put x q)"
    and put_content: "ok q \<Longrightarrow> \<not> full q \<Longrightarrow> fits q x \<Longrightarrow> content (put x q) = content q @ [x]"
    and put_capacity: "ok q \<Longrightarrow> \<not> full q \<Longrightarrow> fits q x \<Longrightarrow> capacity (put x q) = capacity q"
    and get_ok: "ok q \<Longrightarrow> \<not> empty q \<Longrightarrow> ok (snd (get q))"
    and get_content: "ok q \<Longrightarrow> \<not> empty q \<Longrightarrow> content q = fst (get q) # content (snd (get q))"
    and get_capacity: "ok q \<Longrightarrow> \<not> empty q \<Longrightarrow> capacity (snd (get q)) = capacity q"
begin

lemma run_fifo:
  assumes "fifo_run put get full empty fits q xs ys q'" "ok q"
  shows "ok q' \<and> content q @ xs = ys @ content q' \<and> capacity q' = capacity q"
  using assms
proof (induction rule: fifo_run.induct)
  case (Put q xs ys q' x)
  then have ok: "ok q'" and eq: "content q @ xs = ys @ content q'" and cp: "capacity q' = capacity q" by simp_all
  have "content q @ xs @ [x] = (content q @ xs) @ [x]" by (simp only: append_assoc)
  also have "\<dots> = ys @ content (put x q')" unfolding eq put_content [OF ok Put.hyps(2,3)] by (simp only: append_assoc)
  finally show ?case using put_ok [OF ok Put.hyps(2,3)] put_capacity [OF ok Put.hyps(2,3)] cp by simp
next
  case (Get q xs ys q' y q'')
  then have ok: "ok q'" and eq: "content q @ xs = ys @ content q'" and cp: "capacity q' = capacity q" by simp_all
  have "content q' = y # content q''" using get_content [OF ok Get.hyps(2)] Get.hyps(3) by simp
  then show ?case using get_ok [OF ok Get.hyps(2)] get_capacity [OF ok Get.hyps(2)] eq cp Get.hyps(3) by simp
qed simp

text \<open>Nothing is lost, duplicated or reordered: the values taken out are those put in, in that order.\<close>

lemma run_prefix:
  assumes "fifo_run put get full empty fits q xs ys q'" "ok q" "content q = []"
  shows "ys = take (length ys) xs" "length xs \<le> length ys + capacity q"
proof -
  note r = run_fifo [OF assms(1,2)]
  then have xs: "xs = ys @ content q'" using assms(3) by simp
  then show "ys = take (length ys) xs" by simp
  show "length xs \<le> length ys + capacity q" using bounded [of q'] r xs by simp
qed

end

text \<open>A queue that also takes values in at its front.\<close>

locale urgent_fifo = bounded_fifo +
  fixes push :: "'b \<Rightarrow> 'a \<Rightarrow> 'a"
  assumes push_ok: "ok q \<Longrightarrow> \<not> full q \<Longrightarrow> fits q x \<Longrightarrow> ok (push x q)"
    and push_content: "ok q \<Longrightarrow> \<not> full q \<Longrightarrow> fits q x \<Longrightarrow> content (push x q) = x # content q"
    and push_capacity: "ok q \<Longrightarrow> \<not> full q \<Longrightarrow> fits q x \<Longrightarrow> capacity (push x q) = capacity q"
begin

lemma push_get:
  assumes "ok q" "\<not> full q" "fits q x"
  shows "fst (get (push x q)) = x" "content (snd (get (push x q))) = content q" "ok (snd (get (push x q)))"
proof -
  note p = push_ok [OF assms] push_content [OF assms]
  have e: "\<not> empty (push x q)" using empty_iff [OF p(1)] p(2) by simp
  show "fst (get (push x q)) = x" "content (snd (get (push x q))) = content q" "ok (snd (get (push x q)))"
    using get_content [OF p(1) e] get_ok [OF p(1) e] p(2) by simp_all
qed

end

section \<open>Circular buffers\<close>

text \<open>The \<open>n\<close> values from position \<open>out\<close> on in a buffer of \<open>sz\<close> cells.\<close>

definition ring :: "'a list \<Rightarrow> nat \<Rightarrow> nat \<Rightarrow> nat \<Rightarrow> 'a list" where
  "ring xs sz out n = map (\<lambda>i. xs ! ((out + i) mod sz)) [0..<n]"

lemma ring_length [simp]: "length (ring xs sz out n) = n"
  by (simp add: ring_def)

lemma ring_nil [simp]: "ring xs sz out 0 = []"
  by (simp add: ring_def)

lemma ring_distinct: "i < n \<Longrightarrow> n < sz \<Longrightarrow> (out + i) mod sz \<noteq> (out + n) mod (sz :: nat)"
proof
  assume a: "i < n" "n < sz" "(out + i) mod sz = (out + n) mod sz"
  then have "sz dvd (out + n) - (out + i)" using mod_eq_dvd_iff_nat [of "out + i" "out + n" sz] by simp
  then have "sz \<le> n - i" using a(1) by (intro dvd_imp_le) simp_all
  then show False using a(1,2) by simp
qed

lemma ring_push:
  assumes "n < sz" "sz \<le> length xs"
  shows "ring (xs[(out + n) mod sz := v]) sz out (Suc n) = ring xs sz out n @ [v]"
proof -
  have "(out + n) mod sz < length xs" using assms mod_less_divisor [of sz "out + n"] by linarith
  moreover have "map (\<lambda>i. xs[(out + n) mod sz := v] ! ((out + i) mod sz)) [0..<n] = map (\<lambda>i. xs ! ((out + i) mod sz)) [0..<n]"
    by (rule map_cong [OF refl]) (simp add: ring_distinct [OF _ assms(1), THEN not_sym])
  ultimately show ?thesis by (simp add: ring_def)
qed

lemma ring_pop:
  assumes "0 < n" "out < sz"
  shows "ring xs sz out n = xs ! out # ring xs sz (Suc out mod sz) (n - 1)"
proof (rule nth_equalityI)
  show "length (ring xs sz out n) = length (xs ! out # ring xs sz (Suc out mod sz) (n - 1))" using assms(1) by simp
  fix i assume i: "i < length (ring xs sz out n)"
  have m: "(Suc out mod sz + j) mod sz = (out + Suc j) mod sz" for j using mod_add_left_eq [of "Suc out" sz j] by simp
  show "ring xs sz out n ! i = (xs ! out # ring xs sz (Suc out mod sz) (n - 1)) ! i"
  proof (cases i)
    case 0
    then show ?thesis using assms by (simp add: ring_def)
  next
    case (Suc j)
    then have "j < n - 1" "i < n" using i by simp_all
    then show ?thesis unfolding Suc nth_Cons_Suc ring_def by (simp only: nth_map length_upt nth_upt m diff_zero add_0)
  qed
qed

lemma ring_step: "i < sz \<Longrightarrow> (if Suc i \<ge> sz then 0 else Suc i) = Suc i mod sz"
  by (cases "Suc i = sz") auto

end
