(* ===== verification/RT_Mailbox.thy ===== *)
theory RT_Mailbox
  imports RT_Sem RT_Fifo
begin

text \<open>
  The mailboxes of \<^verbatim>\<open>src/ipc.c\<close>: a circular buffer of machine words with a wait queue for receivers
  and one for senders.  The 16-bit counters and offsets are naturals, with the wrap-around written out.
\<close>

section \<open>Operations\<close>

definition is_mb :: "nat \<Rightarrow> kernel \<Rightarrow> bool" where
  "is_mb m s \<longleftrightarrow> rt_object_get_type (Mbx m) s = RT_Object_Class_MailBox"

definition set_mb :: "nat \<Rightarrow> rt_mailbox \<Rightarrow> kernel \<Rightarrow> kernel" where
  "set_mb m b s = s\<lparr>mailboxes := (mailboxes s)(m := b)\<rparr>"

text \<open>\<open>pool\<close> is what the buffer at address \<open>addr\<close> holds.\<close>

definition fresh_mb :: "nat \<Rightarrow> u32 list \<Rightarrow> nat \<Rightarrow> rt_mailbox" where
  "fresh_mb addr pool sz = \<lparr>msg_pool = addr, mb_pool = pool, mb_size = sz mod 2 ^ 16, mb_entry = 0, in_offset = 0, out_offset = 0\<rparr>"

definition rt_mb_init :: "nat \<Rightarrow> string \<Rightarrow> nat \<Rightarrow> u32 list \<Rightarrow> nat \<Rightarrow> u8 \<Rightarrow> kernel \<Rightarrow> rt_err_t \<times> kernel" where
  "rt_mb_init m name addr pool sz flag s =
     (let s1 = rt_object_init (Mbx m) RT_Object_Class_MailBox name s;
          s2 = rt_ipc_object_init (Mbx m) (set_obj_flag (Mbx m) flag s1);
          s3 = set_mb m (fresh_mb addr pool sz) s2
      in (RT_EOK, upd_tlists (\<lambda>S. S(Sender m := [])) s3))"

definition rt_mb_detach :: "nat \<Rightarrow> kernel \<Rightarrow> (rt_err_t \<times> kernel) option" where
  "rt_mb_detach m s =
     (if \<not> is_mb m s \<or> \<not> rt_object_is_systemobject (Mbx m) s then Some (RT_EOK, panic s)
      else case rt_ipc_list_resume_all (Suspend (Mbx m)) s of
          None \<Rightarrow> None
        | Some s1 \<Rightarrow> map_option (\<lambda>s2. (RT_EOK, rt_object_detach (Mbx m) s2)) (rt_ipc_list_resume_all (Sender m) s1))"

text \<open>The words the allocated buffer happens to hold are an argument.\<close>

definition rt_mb_create :: "string \<Rightarrow> nat \<Rightarrow> u8 \<Rightarrow> u32 list \<Rightarrow> kernel \<Rightarrow> nat option \<times> kernel" where
  "rt_mb_create name sz flag pool s =
     (if \<not> not_in_interrupt s then (None, panic s)
      else case rt_object_allocate RT_Object_Class_MailBox name s of
          (None, s1) \<Rightarrow> (None, s1)
        | (Some r, s1) \<Rightarrow>
            (let m = ref_addr r; s2 = rt_ipc_object_init (Mbx m) (set_obj_flag (Mbx m) flag s1)
             in case kernel_malloc (sz mod 2 ^ 16 * 4) s2 of
                  (None, s3) \<Rightarrow> (None, rt_object_delete (Mbx m) s3)
                | (Some a, s3) \<Rightarrow>
                    (Some m, upd_tlists (\<lambda>S. S(Sender m := [])) (set_mb m (fresh_mb a pool sz) s3))))"

definition rt_mb_delete :: "nat \<Rightarrow> kernel \<Rightarrow> (rt_err_t \<times> kernel) option" where
  "rt_mb_delete m s =
     (if \<not> not_in_interrupt s \<or> \<not> is_mb m s \<or> rt_object_is_systemobject (Mbx m) s then Some (RT_EOK, panic s)
      else case rt_ipc_list_resume_all (Suspend (Mbx m)) s of
          None \<Rightarrow> None
        | Some s1 \<Rightarrow>
            map_option (\<lambda>s2. (RT_EOK, rt_object_delete (Mbx m) (kernel_free (msg_pool (mailboxes s2 m)) s2)))
              (rt_ipc_list_resume_all (Sender m) s1))"

text \<open>Storing a mail at the input offset, and fetching one from the output offset.\<close>

definition mb_put :: "u32 \<Rightarrow> rt_mailbox \<Rightarrow> rt_mailbox" where
  "mb_put v b =
     (let i = (in_offset b + 1) mod 2 ^ 16
      in b\<lparr>mb_pool := (mb_pool b)[in_offset b := v], in_offset := (if i \<ge> mb_size b then 0 else i),
           mb_entry := (mb_entry b + 1) mod 2 ^ 16\<rparr>)"

definition mb_get :: "rt_mailbox \<Rightarrow> u32 \<times> rt_mailbox" where
  "mb_get b =
     (let i = (out_offset b + 1) mod 2 ^ 16
      in (mb_pool b ! out_offset b,
          b\<lparr>out_offset := (if i \<ge> mb_size b then 0 else i), mb_entry := (mb_entry b + (2 ^ 16 - 1)) mod 2 ^ 16\<rparr>))"

text \<open>
  One turn of the loop of a send by the thread \<open>t\<close>: wait while the mailbox is full, else store the mail
  and wake the first receiver.  An access outside the buffer is a wild access.
\<close>

definition mb_send_try :: "nat \<Rightarrow> u32 \<Rightarrow> int \<Rightarrow> nat option \<Rightarrow> kernel \<Rightarrow> rt_err_t outcome \<times> kernel" where
  "mb_send_try m v timeout self s =
     (let b = mailboxes s m
      in if mb_entry b = mb_size b then
           (case self of
              None \<Rightarrow> (Returned RT_EOK, panic s)
            | Some t \<Rightarrow>
                (let s1 = upd_thread t (\<lambda>x. x\<lparr>error := RT_EOK\<rparr>) s
                 in if timeout = 0 then (Returned (- RT_EFULL), s1)
                    else if \<not> in_thread_context s1 then (Returned RT_EOK, panic s1)
                    else (Blocked, ipc_block (Sender m) t (obj_flag (objs s1 (Mbx m))) timeout s1)))
         else if in_offset b \<ge> length (mb_pool b) then (Returned RT_EOK, panic s)
         else
           (let s1 = set_mb m (mb_put v b) s
            in (Returned RT_EOK,
                if tlists s1 (Suspend (Mbx m)) \<noteq> [] then rt_schedule (rt_ipc_list_resume (Suspend (Mbx m)) s1) else s1)))"

definition rt_mb_send_wait :: "nat \<Rightarrow> u32 \<Rightarrow> int \<Rightarrow> kernel \<Rightarrow> rt_err_t outcome \<times> kernel" where
  "rt_mb_send_wait m v timeout s =
     (if \<not> is_mb m s then (Returned RT_EOK, panic s)
      else if mb_entry (mailboxes s m) = mb_size (mailboxes s m) \<and> timeout = 0 then (Returned (- RT_EFULL), s)
      else mb_send_try m v timeout (rt_thread_self s) s)"

text \<open>The rest of the call, once the thread that went to sleep at tick \<open>start\<close> runs again.\<close>

definition rt_mb_send_wait_end :: "nat \<Rightarrow> u32 \<Rightarrow> int \<Rightarrow> u32 \<Rightarrow> nat \<Rightarrow> kernel \<Rightarrow> rt_err_t outcome \<times> kernel" where
  "rt_mb_send_wait_end m v timeout start t s =
     (if error (threads s t) \<noteq> RT_EOK then (Returned (error (threads s t)), s)
      else mb_send_try m v (left_time timeout start (rt_tick s)) (Some t) s)"

definition rt_mb_send :: "nat \<Rightarrow> u32 \<Rightarrow> kernel \<Rightarrow> rt_err_t outcome \<times> kernel" where
  "rt_mb_send m v s = rt_mb_send_wait m v 0 s"

definition mb_recv_try :: "nat \<Rightarrow> int \<Rightarrow> nat option \<Rightarrow> kernel \<Rightarrow> (rt_err_t \<times> u32 option) outcome \<times> kernel" where
  "mb_recv_try m timeout self s =
     (let b = mailboxes s m
      in if mb_entry b = 0 then
           (case self of
              None \<Rightarrow> (Returned (RT_EOK, None), panic s)
            | Some t \<Rightarrow>
                (let s1 = upd_thread t (\<lambda>x. x\<lparr>error := RT_EOK\<rparr>) s
                 in if timeout = 0
                    then (Returned (- RT_ETIMEOUT, None), upd_thread t (\<lambda>x. x\<lparr>error := - RT_ETIMEOUT\<rparr>) s1)
                    else if \<not> in_thread_context s1 then (Returned (RT_EOK, None), panic s1)
                    else (Blocked, ipc_block (Suspend (Mbx m)) t (obj_flag (objs s1 (Mbx m))) timeout s1)))
         else if out_offset b \<ge> length (mb_pool b) then (Returned (RT_EOK, None), panic s)
         else
           (let s1 = set_mb m (snd (mb_get b)) s
            in (Returned (RT_EOK, Some (fst (mb_get b))),
                if tlists s1 (Sender m) \<noteq> [] then rt_schedule (rt_ipc_list_resume (Sender m) s1) else s1)))"

definition rt_mb_recv :: "nat \<Rightarrow> int \<Rightarrow> kernel \<Rightarrow> (rt_err_t \<times> u32 option) outcome \<times> kernel" where
  "rt_mb_recv m timeout s =
     (if \<not> is_mb m s then (Returned (RT_EOK, None), panic s)
      else if mb_entry (mailboxes s m) = 0 \<and> timeout = 0 then (Returned (- RT_ETIMEOUT, None), s)
      else mb_recv_try m timeout (rt_thread_self s) s)"

definition rt_mb_recv_end :: "nat \<Rightarrow> int \<Rightarrow> u32 \<Rightarrow> nat \<Rightarrow> kernel \<Rightarrow> (rt_err_t \<times> u32 option) outcome \<times> kernel" where
  "rt_mb_recv_end m timeout start t s =
     (if error (threads s t) \<noteq> RT_EOK then (Returned (error (threads s t), None), s)
      else mb_recv_try m (left_time timeout start (rt_tick s)) (Some t) s)"

definition rt_mb_control :: "nat \<Rightarrow> ipc_cmd \<Rightarrow> kernel \<Rightarrow> (rt_err_t \<times> kernel) option" where
  "rt_mb_control m cmd s =
     (if \<not> is_mb m s then Some (RT_EOK, panic s)
      else case cmd of
          Ipc_reset _ \<Rightarrow>
            (case rt_ipc_list_resume_all (Suspend (Mbx m)) s of
               None \<Rightarrow> None
             | Some s1 \<Rightarrow>
                 map_option (\<lambda>s2. (RT_EOK, rt_schedule
                     (set_mb m ((mailboxes s2 m)\<lparr>mb_entry := 0, in_offset := 0, out_offset := 0\<rparr>) s2)))
                   (rt_ipc_list_resume_all (Sender m) s1))
        | Other_ipc_cmd \<Rightarrow> Some (- RT_ERROR, s))"

section \<open>The buffer is a bounded queue\<close>

definition mb_content :: "rt_mailbox \<Rightarrow> u32 list" where
  "mb_content b = ring (mb_pool b) (mb_size b) (out_offset b) (mb_entry b)"

definition mb_wf :: "rt_mailbox \<Rightarrow> bool" where
  "mb_wf b \<longleftrightarrow> mb_size b < 2 ^ 16 \<and> mb_size b \<le> length (mb_pool b) \<and> mb_entry b \<le> mb_size b
     \<and> (0 < mb_size b \<longrightarrow> out_offset b < mb_size b \<and> in_offset b = (out_offset b + mb_entry b) mod mb_size b)"

definition mb_full :: "rt_mailbox \<Rightarrow> bool" where
  "mb_full b \<longleftrightarrow> mb_entry b = mb_size b"

definition mb_empty :: "rt_mailbox \<Rightarrow> bool" where
  "mb_empty b \<longleftrightarrow> mb_entry b = 0"

text \<open>Every word fits into a mailbox.\<close>

abbreviation (input) mb_fits :: "rt_mailbox \<Rightarrow> u32 \<Rightarrow> bool" where
  "mb_fits \<equiv> \<lambda>_ _. True"

lemma mb_put_facts:
  assumes wf: "mb_wf b" and nf: "\<not> mb_full b"
  shows "in_offset b < length (mb_pool b)" "mb_wf (mb_put v b)" "mb_content (mb_put v b) = mb_content b @ [v]"
    "mb_size (mb_put v b) = mb_size b"
proof -
  let ?z = "mb_size b" and ?o = "out_offset b" and ?n = "mb_entry b" and ?i = "in_offset b"
  have z: "?n < ?z" "?z \<le> length (mb_pool b)" "?z < 2 ^ 16" "?o < ?z" "?i = (?o + ?n) mod ?z"
    using wf nf by (auto simp: mb_wf_def mb_full_def)
  have i: "?i < ?z" using z(1) by (simp add: z(5))
  show l: "?i < length (mb_pool b)" using i z(2) by simp
  have "(?i + 1) mod 2 ^ 16 = Suc ?i" "(?n + 1) mod 2 ^ 16 = Suc ?n" using i z(1,3) by simp_all
  then have eq: "mb_put v b = b\<lparr>mb_pool := (mb_pool b)[?i := v], in_offset := Suc ?i mod ?z, mb_entry := Suc ?n\<rparr>"
    using ring_step [OF i] by (simp add: mb_put_def Let_def)
  show "mb_size (mb_put v b) = ?z" by (simp add: eq)
  show "mb_wf (mb_put v b)" using z by (simp add: eq mb_wf_def mod_Suc_eq)
  show "mb_content (mb_put v b) = mb_content b @ [v]" using ring_push [OF z(1,2)] z(5) by (simp add: eq mb_content_def)
qed

lemma mb_get_facts:
  assumes wf: "mb_wf b" and ne: "\<not> mb_empty b"
  shows "out_offset b < length (mb_pool b)" "mb_wf (snd (mb_get b))" "mb_content b = fst (mb_get b) # mb_content (snd (mb_get b))"
    "mb_size (snd (mb_get b)) = mb_size b"
proof -
  let ?z = "mb_size b" and ?o = "out_offset b" and ?n = "mb_entry b"
  have z: "0 < ?n" "?n \<le> ?z" "?z \<le> length (mb_pool b)" "?z < 2 ^ 16" "?o < ?z" "in_offset b = (?o + ?n) mod ?z"
    using wf ne by (auto simp: mb_wf_def mb_empty_def)
  show "?o < length (mb_pool b)" using z(3,5) by simp
  have "?n + (2 ^ 16 - 1) = (?n - 1) + 2 ^ 16" using z(1) by simp
  then have "(?n + (2 ^ 16 - 1)) mod 2 ^ 16 = ?n - 1" using z(1,2,4) by (simp only: mod_add_self2) simp
  moreover have "(?o + 1) mod 2 ^ 16 = Suc ?o" using z(4,5) by simp
  ultimately have eq: "mb_get b = (mb_pool b ! ?o, b\<lparr>out_offset := Suc ?o mod ?z, mb_entry := ?n - 1\<rparr>)"
    using ring_step [OF z(5)] by (simp add: mb_get_def Let_def)
  show "mb_size (snd (mb_get b)) = ?z" by (simp add: eq)
  have "(Suc ?o mod ?z + (?n - 1)) mod ?z = (?o + ?n) mod ?z" using mod_add_left_eq [of "Suc ?o" ?z "?n - 1"] z(1) by simp
  then show "mb_wf (snd (mb_get b))" using z by (simp add: eq mb_wf_def)
  show "mb_content b = fst (mb_get b) # mb_content (snd (mb_get b))"
    using ring_pop [OF z(1,5)] by (simp add: eq mb_content_def)
qed

interpretation mb: bounded_fifo mb_wf mb_put mb_get mb_full mb_empty mb_fits mb_content mb_size
proof
  show "length (mb_content q) \<le> mb_size q" "mb_full q \<longleftrightarrow> length (mb_content q) = mb_size q"
    "mb_empty q \<longleftrightarrow> mb_content q = []" if "mb_wf q" for q
    using that ring_length [of "mb_pool q" "mb_size q" "out_offset q" "mb_entry q"]
    by (auto simp: mb_wf_def mb_content_def mb_full_def mb_empty_def simp flip: length_0_conv)
qed (use mb_put_facts mb_get_facts in simp_all)

section \<open>Mails arrive in order\<close>

lemma set_mb_sel [simp]:
  "mailboxes (set_mb m b s) = (mailboxes s)(m := b)" "threads (set_mb m b s) = threads s" "tlists (set_mb m b s) = tlists s"
  "objs (set_mb m b s) = objs s" "current (set_mb m b s) = current s" "kpanic (set_mb m b s) = kpanic s"
  "sched_ok X (set_mb m b s) = sched_ok X s" "state_of (set_mb m b s) = state_of s" "thread_ok u (set_mb m b s) = thread_ok u s"
  by (simp_all add: set_mb_def state_of_def fun_eq_iff thread_ok_def is_thread_def is_timer_def rt_object_get_type_def
      rt_object_is_systemobject_def)

text \<open>The mail a send has stored, and the mail a receive has fetched.\<close>

definition stored :: "u32 \<Rightarrow> rt_err_t outcome \<Rightarrow> u32 list" where
  "stored v r = (if r = Returned RT_EOK then [v] else [])"

definition fetched :: "(rt_err_t \<times> u32 option) outcome \<Rightarrow> u32 list" where
  "fetched r = (case r of Returned (e, Some v) \<Rightarrow> [v] | _ \<Rightarrow> [])"

text \<open>
  Any interleaving of the parts of send and receive calls of any number of threads with other steps of
  the system: those that leave the buffer of the mailbox alone.
\<close>

inductive mb_run :: "nat \<Rightarrow> kernel \<Rightarrow> u32 list \<Rightarrow> u32 list \<Rightarrow> kernel \<Rightarrow> bool" for m where
  Start: "mb_run m s [] [] s"
| Send: "mb_run m s xs ys s1 \<Longrightarrow> rt_mb_send_wait m v timeout s1 = (r, s2) \<Longrightarrow> \<not> kpanic s2
    \<Longrightarrow> mb_run m s (xs @ stored v r) ys s2"
| Send_end: "mb_run m s xs ys s1 \<Longrightarrow> rt_mb_send_wait_end m v timeout start t s1 = (r, s2) \<Longrightarrow> \<not> kpanic s2
    \<Longrightarrow> mb_run m s (xs @ stored v r) ys s2"
| Recv: "mb_run m s xs ys s1 \<Longrightarrow> rt_mb_recv m timeout s1 = (q, s2) \<Longrightarrow> \<not> kpanic s2
    \<Longrightarrow> mb_run m s xs (ys @ fetched q) s2"
| Recv_end: "mb_run m s xs ys s1 \<Longrightarrow> rt_mb_recv_end m timeout start t s1 = (q, s2) \<Longrightarrow> \<not> kpanic s2
    \<Longrightarrow> mb_run m s xs (ys @ fetched q) s2"
| Other: "mb_run m s xs ys s1 \<Longrightarrow> mailboxes s2 m = mailboxes s1 m \<Longrightarrow> mb_run m s xs ys s2"

lemma panic_stops [simp]: "kpanic (panic s)"
  by (simp add: panic_def)

lemma mb_send_try_step:
  assumes "mb_send_try m v timeout self s = (r, s')" "\<not> kpanic s'"
  shows "r = Returned RT_EOK \<and> \<not> mb_full (mailboxes s m) \<and> mailboxes s' m = mb_put v (mailboxes s m)
    \<or> r \<noteq> Returned RT_EOK \<and> mailboxes s' = mailboxes s"
  using assms by (auto simp: mb_send_try_def mb_full_def Let_def split: if_splits option.splits)

lemma mb_recv_try_step:
  assumes "mb_recv_try m timeout self s = (r, s')" "\<not> kpanic s'"
  shows "\<not> mb_empty (mailboxes s m) \<and> fetched r = [fst (mb_get (mailboxes s m))] \<and> mailboxes s' m = snd (mb_get (mailboxes s m))
    \<or> fetched r = [] \<and> mailboxes s' = mailboxes s"
  using assms by (auto simp: mb_recv_try_def mb_empty_def fetched_def Let_def split: if_splits option.splits)

lemma mb_send_step:
  assumes "rt_mb_send_wait m v timeout s = (r, s') \<or> rt_mb_send_wait_end m v timeout start t s = (r, s')" "\<not> kpanic s'"
  shows "stored v r = [v] \<and> \<not> mb_full (mailboxes s m) \<and> mailboxes s' m = mb_put v (mailboxes s m)
    \<or> stored v r = [] \<and> mailboxes s' = mailboxes s"
proof -
  have "(\<exists>n self. mb_send_try m v n self s = (r, s')) \<or> r \<noteq> Returned RT_EOK \<and> s' = s"
    using assms by (auto simp: rt_mb_send_wait_def rt_mb_send_wait_end_def split: if_splits)
  then show ?thesis using mb_send_try_step [OF _ assms(2)] by (fastforce simp: stored_def)
qed

lemma mb_recv_step:
  assumes "rt_mb_recv m timeout s = (r, s') \<or> rt_mb_recv_end m timeout start t s = (r, s')" "\<not> kpanic s'"
  shows "\<not> mb_empty (mailboxes s m) \<and> fetched r = [fst (mb_get (mailboxes s m))] \<and> mailboxes s' m = snd (mb_get (mailboxes s m))
    \<or> fetched r = [] \<and> mailboxes s' = mailboxes s"
proof -
  have "(\<exists>n self. mb_recv_try m n self s = (r, s')) \<or> fetched r = [] \<and> s' = s"
    using assms by (auto simp: rt_mb_recv_def rt_mb_recv_end_def fetched_def split: if_splits)
  then show ?thesis using mb_recv_try_step [OF _ assms(2)] by blast
qed

lemma mb_run_refines:
  assumes "mb_run m s xs ys s'"
  shows "fifo_run mb_put mb_get mb_full mb_empty mb_fits (mailboxes s m) xs ys (mailboxes s' m)"
  using assms
proof (induction rule: mb_run.induct)
  case (Start s)
  show ?case by (rule fifo_run.Idle)
next
  case (Send s xs ys s1 v timeout r s2)
  then show ?case using mb_send_step [of m v timeout s1 r s2] fifo_run.Put [OF Send.IH, of v] by auto
next
  case (Send_end s xs ys s1 v timeout start t r s2)
  then show ?case using mb_send_step [of m v timeout s1 r s2 start t] fifo_run.Put [OF Send_end.IH, of v] by auto
next
  case (Recv s xs ys s1 timeout q s2)
  then show ?case using mb_recv_step [of m timeout s1 q s2] fifo_run.Get [OF Recv.IH, of "fst (mb_get (mailboxes s1 m))"] by auto
next
  case (Recv_end s xs ys s1 timeout start t q s2)
  then show ?case
    using mb_recv_step [of m timeout s1 q s2 start t] fifo_run.Get [OF Recv_end.IH, of "fst (mb_get (mailboxes s1 m))"] by auto
qed simp

text \<open>
  C18.  However the calls of any number of senders and receivers, blocking or not, interleave with each
  other and with the rest of the system: the mails fetched from a mailbox followed by those still in
  it are the mails it held at first followed by those stored.  No mail is lost, duplicated or
  overtaken, and the buffer never holds more than its size.
\<close>

theorem mailbox_fifo:
  assumes "mb_run m s sent received s'" "mb_wf (mailboxes s m)"
  shows "mb_content (mailboxes s m) @ sent = received @ mb_content (mailboxes s' m) \<and> mb_wf (mailboxes s' m)
    \<and> length (mb_content (mailboxes s' m)) \<le> mb_size (mailboxes s m)"
  using mb.run_fifo [OF mb_run_refines [OF assms(1)] assms(2)] mb.bounded [of "mailboxes s' m"] by simp

section \<open>Sending and receiving\<close>

definition mb_ok :: "nat \<Rightarrow> kernel \<Rightarrow> bool" where
  "mb_ok m s \<longleftrightarrow> is_mb m s \<and> mb_wf (mailboxes s m)
     \<and> (\<forall>u \<in> set (tlists s (Suspend (Mbx m))) \<union> set (tlists s (Sender m)). thread_ok u s)"

lemma mb_okI:
  assumes "mb_ok m s" "\<And>r. obj_type (objs s' r) = obj_type (objs s r)" "\<And>u. thread_ok u s' = thread_ok u s"
    "mb_wf (mailboxes s' m)"
    "\<And>u. u \<in> set (tlists s' (Suspend (Mbx m))) \<Longrightarrow> u \<in> set (tlists s (Suspend (Mbx m))) \<or> thread_ok u s"
    "\<And>u. u \<in> set (tlists s' (Sender m)) \<Longrightarrow> u \<in> set (tlists s (Sender m)) \<or> thread_ok u s"
  shows "mb_ok m s'"
proof -
  have "is_mb m s' = is_mb m s" using assms(2) by (simp add: is_mb_def rt_object_get_type_def)
  then show ?thesis using assms(1,3-6) unfolding mb_ok_def by blast
qed

text \<open>What a buffer exchange by the running thread, followed by waking a waiter, keeps.\<close>

lemma mb_exchange:
  assumes ok: "mb_ok m s" and sched: "sched_ok {} s" and c: "current s = Some c" and wf: "mb_wf b"
    and q: "q = Suspend (Mbx m) \<or> q = Sender m"
  defines "s' \<equiv> woken q (set_mb m b s)"
  shows "mb_ok m s'" "sched_ok {} s'" "kpanic s' = kpanic s" "mailboxes s' m = b"
    "tlists s q = v # vs \<Longrightarrow> tlists s' q = vs \<and> state_of s' v \<in> {RT_THREAD_READY, RT_THREAD_RUNNING}"
    "tlists s q = [] \<Longrightarrow> tlists s' = tlists s \<and> threads s' = threads s"
proof -
  let ?s = "set_mb m b s"
  have w: "wait_queue q" using q by auto
  have sc: "sched_ok {} ?s" "current ?s = Some c" using sched c by simp_all
  have th: "\<forall>u \<in> set (tlists ?s q). thread_ok u ?s" using ok q by (auto simp: mb_ok_def)
  note f = woken_facts [OF sc w th]
  show "sched_ok {} s'" "kpanic s' = kpanic s" "mailboxes s' m = b" using f by (simp_all add: s'_def)
  have "u \<in> set (tlists s' k) \<Longrightarrow> u \<in> set (tlists s k)" if "wait_queue k" for u k
    using f(3) [OF that] by (auto simp: s'_def split: if_splits dest: in_set_tlD)
  then show "mb_ok m s'" using f(4,5) wf by (intro mb_okI [OF ok]) (simp_all add: s'_def)
  show "tlists s q = v # vs \<Longrightarrow> tlists s' q = vs \<and> state_of s' v \<in> {1, 3}" using f(3) [OF w] f(6) by (simp add: s'_def)
  show "tlists s q = [] \<Longrightarrow> tlists s' = tlists s \<and> threads s' = threads s" by (simp add: s'_def woken_def)
qed

lemma mb_wait:
  assumes ok: "mb_ok m s" and b: "can_block s t q f timeout" and q: "q = Suspend (Mbx m) \<or> q = Sender m"
  defines "s' \<equiv> ipc_block q t f timeout (upd_thread t (\<lambda>x. x\<lparr>error := RT_EOK\<rparr>) s)"
  shows "mb_ok m s'" "sched_ok {} s'" "kpanic s' = kpanic s" "mailboxes s' = mailboxes s" "state_of s' t = RT_THREAD_SUSPEND"
    "tlists s' q = wait_insert f (\<lambda>u. current_priority (threads s u)) t (tlists s q)"
proof -
  note w = wait_facts [OF b]
  show "sched_ok {} s'" "kpanic s' = kpanic s" "mailboxes s' = mailboxes s" "state_of s' t = 2"
    "tlists s' q = wait_insert f (\<lambda>u. current_priority (threads s u)) t (tlists s q)" using w by (simp_all add: s'_def)
  show "mb_ok m s'" using w(5-7) ok by (intro mb_okI [OF ok]) (simp_all add: s'_def mb_ok_def)
qed

text \<open>
  Sending to a mailbox with room stores the mail behind those it holds and wakes the first waiting
  receiver.  If the mailbox is full, a call without waiting time fails with \<^verbatim>\<open>-RT_EFULL\<close> and changes
  nothing, and any other call suspends the running thread among the waiting senders at the place the
  mailbox's flag asks for.  The call keeps the invariants of the mailbox and of the scheduler.
\<close>

theorem mailbox_send_correct:
  assumes ok: "mb_ok m s" and b: "can_block s t (Sender m) (obj_flag (objs s (Mbx m))) timeout" and irq: "interrupt_nest s = 0"
  shows "case rt_mb_send_wait m v timeout s of (r, s') \<Rightarrow> mb_ok m s' \<and> sched_ok {} s' \<and> kpanic s' = kpanic s
    \<and> (if mb_full (mailboxes s m) then
         mailboxes s' = mailboxes s
         \<and> (if timeout = 0 then r = Returned (- RT_EFULL) \<and> s' = s
            else r = Blocked \<and> state_of s' t = RT_THREAD_SUSPEND
              \<and> tlists s' (Sender m) = wait_insert (obj_flag (objs s (Mbx m))) (\<lambda>u. current_priority (threads s u)) t (tlists s (Sender m)))
       else r = Returned RT_EOK \<and> mb_content (mailboxes s' m) = mb_content (mailboxes s m) @ [v]
         \<and> (case tlists s (Suspend (Mbx m)) of
              [] \<Rightarrow> tlists s' = tlists s \<and> threads s' = threads s
            | u # us \<Rightarrow> tlists s' (Suspend (Mbx m)) = us \<and> state_of s' u \<in> {RT_THREAD_READY, RT_THREAD_RUNNING}))"
proof -
  let ?b = "mailboxes s m" and ?f = "obj_flag (objs s (Mbx m))"
  have mb: "is_mb m s" "mb_wf ?b" using ok by (simp_all add: mb_ok_def)
  note sc = can_blockD(1,2) [OF b]
  have self: "rt_thread_self s = Some t" "in_thread_context s"
    using sc(2) irq by (simp_all add: in_thread_context_def not_in_interrupt_def rt_thread_self_def)
  consider (now) "mb_full ?b" "timeout = 0" | (wait) "mb_full ?b" "timeout \<noteq> 0" | (room) "\<not> mb_full ?b" by blast
  then show ?thesis
  proof cases
    case now
    then show ?thesis using ok mb sc by (simp add: rt_mb_send_wait_def mb_full_def)
  next
    case wait
    have ctx: "in_thread_context (upd_thread t (\<lambda>x. x\<lparr>error := 0\<rparr>) s)"
      using self(2) by (simp add: in_thread_context_def not_in_interrupt_def rt_thread_self_def)
    have eq: "rt_mb_send_wait m v timeout s = (Blocked, ipc_block (Sender m) t ?f timeout (upd_thread t (\<lambda>x. x\<lparr>error := 0\<rparr>) s))"
      using wait mb(1) self(1) ctx by (simp add: rt_mb_send_wait_def mb_send_try_def mb_full_def Let_def)
    show ?thesis using mb_wait [OF ok b disjI2 [OF refl]] wait by (simp add: eq)
  next
    case room
    note p = mb_put_facts(1) [OF mb(2) room] mb_put_facts(2,3) [OF mb(2) room, of v]
    have eq: "rt_mb_send_wait m v timeout s = (Returned 0, woken (Suspend (Mbx m)) (set_mb m (mb_put v ?b) s))"
      using room mb(1) p(1) by (simp add: rt_mb_send_wait_def mb_send_try_def mb_full_def Let_def woken_def)
    note x = mb_exchange [OF ok sc p(2) disjI1 [OF refl]]
    show ?thesis using x p(3) room by (simp add: eq split: list.split)
  qed
qed

text \<open>
  Receiving from a mailbox that holds mails returns the oldest one, removes it and wakes the first
  waiting sender.  If the mailbox is empty, a call without waiting time fails with \<^verbatim>\<open>-RT_ETIMEOUT\<close> and
  changes nothing, and any other call suspends the running thread among the waiting receivers.  The
  call keeps the invariants of the mailbox and of the scheduler.
\<close>

theorem mailbox_recv_correct:
  assumes ok: "mb_ok m s" and b: "can_block s t (Suspend (Mbx m)) (obj_flag (objs s (Mbx m))) timeout" and irq: "interrupt_nest s = 0"
  shows "case rt_mb_recv m timeout s of (r, s') \<Rightarrow> mb_ok m s' \<and> sched_ok {} s' \<and> kpanic s' = kpanic s
    \<and> (case mb_content (mailboxes s m) of
         [] \<Rightarrow> mailboxes s' = mailboxes s
           \<and> (if timeout = 0 then r = Returned (- RT_ETIMEOUT, None) \<and> s' = s
              else r = Blocked \<and> state_of s' t = RT_THREAD_SUSPEND
                \<and> tlists s' (Suspend (Mbx m)) = wait_insert (obj_flag (objs s (Mbx m))) (\<lambda>u. current_priority (threads s u)) t
                    (tlists s (Suspend (Mbx m))))
       | v # vs \<Rightarrow> r = Returned (RT_EOK, Some v) \<and> mb_content (mailboxes s' m) = vs
         \<and> (case tlists s (Sender m) of
              [] \<Rightarrow> tlists s' = tlists s \<and> threads s' = threads s
            | u # us \<Rightarrow> tlists s' (Sender m) = us \<and> state_of s' u \<in> {RT_THREAD_READY, RT_THREAD_RUNNING}))"
proof -
  let ?b = "mailboxes s m" and ?f = "obj_flag (objs s (Mbx m))"
  have mb: "is_mb m s" "mb_wf ?b" using ok by (simp_all add: mb_ok_def)
  note sc = can_blockD(1,2) [OF b] and em = mb.empty_iff [OF mb(2)]
  have self: "rt_thread_self s = Some t" "in_thread_context (upd_thread t (\<lambda>x. x\<lparr>error := 0\<rparr>) s)"
    using sc(2) irq by (simp_all add: in_thread_context_def not_in_interrupt_def rt_thread_self_def)
  consider (now) "mb_empty ?b" "timeout = 0" | (wait) "mb_empty ?b" "timeout \<noteq> 0" | (some) "\<not> mb_empty ?b" by blast
  then show ?thesis
  proof cases
    case now
    then have "mb_content ?b = []" using em by simp
    then show ?thesis using now ok mb sc by (simp add: rt_mb_recv_def mb_empty_def)
  next
    case wait
    then have c: "mb_content ?b = []" using em by simp
    have eq: "rt_mb_recv m timeout s = (Blocked, ipc_block (Suspend (Mbx m)) t ?f timeout (upd_thread t (\<lambda>x. x\<lparr>error := 0\<rparr>) s))"
      using wait mb(1) self by (simp add: rt_mb_recv_def mb_recv_try_def mb_empty_def Let_def)
    show ?thesis using mb_wait [OF ok b disjI1 [OF refl]] wait c by (simp add: eq)
  next
    case some
    note g = mb_get_facts [OF mb(2) some]
    have eq: "rt_mb_recv m timeout s = (Returned (0, Some (fst (mb_get ?b))), woken (Sender m) (set_mb m (snd (mb_get ?b)) s))"
      using some mb(1) g(1) by (simp add: rt_mb_recv_def mb_recv_try_def mb_empty_def Let_def woken_def)
    note x = mb_exchange [OF ok sc g(2) disjI2 [OF refl]]
    show ?thesis using x by (simp add: eq g(3) split: list.split)
  qed
qed

section \<open>The concrete system\<close>

text \<open>Mailbox 6 with room for two mails, one of them in it, and thread 3 waiting in queue \<open>q\<close>.\<close>

definition demo_box :: "thread_queue \<Rightarrow> kernel" where
  "demo_box q = set_mb 6 \<lparr>msg_pool = 4096, mb_pool = [0, 41], mb_size = 2, mb_entry = 1, in_offset = 0, out_offset = 1\<rparr> (demo_waits q)"

lemma demo_box_ok:
  assumes "wait_queue q"
  shows "mb_ok 6 (demo_box q)" "wait_queue k \<Longrightarrow> can_block (demo_box q) 1 k 0 100"
proof -
  note l = demo_waits_lists [OF assms] and sc = demo_waits_sched [OF assms]
  show "mb_ok 6 (demo_box q)"
    by (simp add: mb_ok_def demo_box_def is_mb_def rt_object_get_type_def demo_types mb_wf_def)
  have "state_of (demo_box q) 1 = 3" by (simp add: demo_box_def state_of_def demo_waits_def) (simp add: demo_system_ok flip: state_of_def)
  moreover have "waiter_ok 1 (demo_box q)"
    using demo_waiter(1) [of 1] by (simp add: waiter_ok_def demo_box_def soft_timer_def timer_flag_def)
  ultimately show "wait_queue k \<Longrightarrow> can_block (demo_box q) 1 k 0 100" using sc by (simp add: can_block_def demo_box_def)
qed

lemma demo_box_sel: "obj_flag (objs (demo_box q) r) = 0" "interrupt_nest (demo_box q) = 0"
  "mb_content (mailboxes (demo_box q) 6) = [41]" "\<not> mb_full (mailboxes (demo_box q) 6)" "mb_wf (mailboxes (demo_box q) 6)"
  "wait_queue q \<Longrightarrow> tlists (demo_box q) q = [3]" "kpanic (demo_box q) = False"
  using wait_queueD(2) [of q 5]
  by (simp_all add: demo_box_def demo_waiter demo_waits_lists mb_content_def mb_full_def mb_wf_def ring_def) (simp add: set_mb_def)

theorem mailbox_send_correct_witness:
  "let s = demo_box (Suspend (Mbx 6)) in fst (rt_mb_send_wait 6 42 100 s) = Returned 0
     \<and> mb_content (mailboxes (snd (rt_mb_send_wait 6 42 100 s)) 6) = [41, 42]
     \<and> tlists (snd (rt_mb_send_wait 6 42 100 s)) (Suspend (Mbx 6)) = []"
  using mailbox_send_correct [of 6 "demo_box (Suspend (Mbx 6))" 1 100 42] demo_box_ok(1) [of "Suspend (Mbx 6)"]
    demo_box_ok(2) [of "Suspend (Mbx 6)" "Sender 6"]
  by (simp add: demo_box_sel case_prod_beta Let_def)

theorem mailbox_recv_correct_witness:
  "let s = demo_box (Sender 6) in fst (rt_mb_recv 6 100 s) = Returned (0, Some 41)
     \<and> tlists (snd (rt_mb_recv 6 100 s)) (Sender 6) = []"
  using mailbox_recv_correct [of 6 "demo_box (Sender 6)" 1 100] demo_box_ok(1) [of "Sender 6"]
    demo_box_ok(2) [of "Sender 6" "Suspend (Mbx 6)"]
  by (simp add: demo_box_sel case_prod_beta Let_def)

theorem mailbox_fifo_witness:
  "\<exists>s'. mb_run 6 (demo_box (Suspend (Sem 7))) [42] [41] s' \<and> mb_content (mailboxes s' 6) = [42]"
proof -
  let ?s = "demo_box (Suspend (Sem 7))" and ?b = "\<lparr>msg_pool = 4096, mb_pool = [42, 41], mb_size = 2, mb_entry = 2, in_offset = 1, out_offset = 1\<rparr>"
  let ?s1 = "set_mb 6 ?b ?s" and ?s2 = "set_mb 6 (?b\<lparr>mb_entry := 1, out_offset := 0\<rparr>) (set_mb 6 ?b ?s)"
  have mb: "is_mb 6 ?s" "is_mb 6 ?s1" by (simp_all add: is_mb_def rt_object_get_type_def demo_box_def demo_types)
  have e: "rt_mb_send_wait 6 42 0 ?s = (Returned 0, ?s1)"
    using mb(1) by (simp add: rt_mb_send_wait_def mb_send_try_def mb_put_def demo_box_def demo_waits_lists Let_def) (simp add: numeral_2_eq_2)
  have f: "rt_mb_recv 6 0 ?s1 = (Returned (0, Some 41), ?s2)"
    using mb(2) by (simp add: rt_mb_recv_def mb_recv_try_def mb_get_def demo_box_def demo_waits_lists Let_def)
  have "mb_run 6 ?s ([] @ stored 42 (Returned 0)) [] ?s1"
    by (rule mb_run.Send [OF mb_run.Start e]) (simp add: demo_box_sel)
  from mb_run.Recv [OF this f] have r: "mb_run 6 ?s [42] [41] ?s2" by (simp add: demo_box_sel stored_def fetched_def)
  with mailbox_fifo [OF r] show ?thesis by (intro exI [of _ ?s2]) (simp add: demo_box_sel)
qed

end
