(* ===== verification/RT_Queue.thy ===== *)
theory RT_Queue
  imports RT_Sem RT_Fifo
begin

text \<open>
  The message queues of \<^verbatim>\<open>src/ipc.c\<close>: a pool of message nodes, each in the free list, in the queue, or in
  the hands of a sender or receiver that copies its contents with the interrupts enabled.  The parts of
  an operation that run with the interrupts disabled are definitions of their own, so that they can be
  interleaved.  Nodes are numbered by their position in the pool.
\<close>

section \<open>Operations\<close>

definition is_mq :: "nat \<Rightarrow> kernel \<Rightarrow> bool" where
  "is_mq m s \<longleftrightarrow> rt_object_get_type (Msq m) s = RT_Object_Class_MessageQueue"

definition set_mq :: "nat \<Rightarrow> rt_messagequeue \<Rightarrow> kernel \<Rightarrow> kernel" where
  "set_mq m q s = s\<lparr>queues := (queues s)(m := q)\<rparr>"

text \<open>Putting a node in front of the free list: the body of the loop that sets up the pool, and the end of a receive.\<close>

definition mq_release :: "nat \<Rightarrow> rt_messagequeue \<Rightarrow> rt_messagequeue" where
  "mq_release n q = q\<lparr>mq_next := (mq_next q)(n := mq_free q), mq_free := Some n\<rparr>"

text \<open>\<open>pool\<close> is what the nodes of the buffer at address \<open>addr\<close> hold.\<close>

definition fresh_mq :: "nat \<Rightarrow> (nat \<Rightarrow> u8 list) \<Rightarrow> nat \<Rightarrow> nat \<Rightarrow> rt_messagequeue" where
  "fresh_mq addr pool msz cnt =
     (let q = fold mq_release [0..<cnt]
                \<lparr>mq_pool = addr, msg_size = msz, max_msgs = cnt, mq_entry = 0, mq_head = None, mq_tail = None, mq_free = None,
                 mq_next = (\<lambda>_. None), mq_data = pool\<rparr>
      in q\<lparr>mq_entry := 0\<rparr>)"

definition rt_mq_init :: "nat \<Rightarrow> string \<Rightarrow> nat \<Rightarrow> (nat \<Rightarrow> u8 list) \<Rightarrow> nat \<Rightarrow> nat \<Rightarrow> u8 \<Rightarrow> kernel \<Rightarrow> rt_err_t \<times> kernel" where
  "rt_mq_init m name addr pool msz pool_size flag s =
     (let s1 = rt_object_init (Msq m) RT_Object_Class_MessageQueue name s;
          s2 = rt_ipc_object_init (Msq m) (set_obj_flag (Msq m) flag s1);
          mz = rt_align msz mod 2 ^ 16
      in (RT_EOK, set_mq m (fresh_mq addr pool mz (pool_size div (mz + 4) mod 2 ^ 16)) s2))"

definition rt_mq_detach :: "nat \<Rightarrow> kernel \<Rightarrow> (rt_err_t \<times> kernel) option" where
  "rt_mq_detach m s =
     (if \<not> is_mq m s \<or> \<not> rt_object_is_systemobject (Msq m) s then Some (RT_EOK, panic s)
      else map_option (\<lambda>s1. (RT_EOK, rt_object_detach (Msq m) s1)) (rt_ipc_list_resume_all (Suspend (Msq m)) s))"

definition rt_mq_delete :: "nat \<Rightarrow> kernel \<Rightarrow> (rt_err_t \<times> kernel) option" where
  "rt_mq_delete m s =
     (if \<not> not_in_interrupt s \<or> \<not> is_mq m s \<or> rt_object_is_systemobject (Msq m) s then Some (RT_EOK, panic s)
      else
        map_option (\<lambda>s1. (RT_EOK, rt_object_delete (Msq m)
            (if mq_pool (queues s1 m) = 0 then s1 else kernel_free (mq_pool (queues s1 m)) s1)))
          (rt_ipc_list_resume_all (Suspend (Msq m)) s))"

text \<open>The contents the allocated pool happens to have are an argument.\<close>

definition rt_mq_create ::
  "string \<Rightarrow> nat \<Rightarrow> nat \<Rightarrow> u8 \<Rightarrow> (nat \<Rightarrow> u8 list) \<Rightarrow> kernel \<Rightarrow> (nat option \<times> kernel) option" where
  "rt_mq_create name msz cnt flag pool s =
     (if \<not> not_in_interrupt s then Some (None, panic s)
      else case rt_object_allocate RT_Object_Class_MessageQueue name s of
          (None, s1) \<Rightarrow> Some (None, s1)
        | (Some r, s1) \<Rightarrow>
            (let m = ref_addr r;
                 s2 = rt_ipc_object_init (Msq m) (set_obj_flag (Msq m) flag s1);
                 mz = rt_align msz mod 2 ^ 16;
                 c = cnt mod 2 ^ 16
             in case kernel_malloc (wmul (mz + 4) c) s2 of
                  (None, s3) \<Rightarrow>
                    map_option (\<lambda>(_, s4). (None, s4))
                      (rt_mq_delete m (set_mq m ((queues s3 m)\<lparr>msg_size := mz, max_msgs := c, mq_pool := 0\<rparr>) s3))
                | (Some a, s3) \<Rightarrow> Some (Some m, set_mq m (fresh_mq a pool mz c) s3)))"

text \<open>Taking a node from the free list, and copying a message into a node nobody else uses.\<close>

definition mq_alloc :: "rt_messagequeue \<Rightarrow> (nat \<times> rt_messagequeue) option" where
  "mq_alloc q = (case mq_free q of None \<Rightarrow> None | Some n \<Rightarrow> Some (n, q\<lparr>mq_free := mq_next q n\<rparr>))"

definition mq_fill :: "nat \<Rightarrow> u8 list \<Rightarrow> rt_messagequeue \<Rightarrow> rt_messagequeue" where
  "mq_fill n buf q = q\<lparr>mq_data := (mq_data q)(n := buf @ drop (length buf) (mq_data q n))\<rparr>"

definition mq_seal :: "nat \<Rightarrow> rt_messagequeue \<Rightarrow> rt_messagequeue" where
  "mq_seal n q = q\<lparr>mq_next := (mq_next q)(n := None)\<rparr>"

text \<open>Linking a node at the tail, or at the head.\<close>

definition mq_link :: "nat \<Rightarrow> rt_messagequeue \<Rightarrow> rt_messagequeue" where
  "mq_link n q =
     (let q1 = (case mq_tail q of Some t \<Rightarrow> q\<lparr>mq_next := (mq_next q)(t := Some n)\<rparr> | None \<Rightarrow> q);
          q2 = q1\<lparr>mq_tail := Some n\<rparr>;
          q3 = (if mq_head q2 = None then q2\<lparr>mq_head := Some n\<rparr> else q2)
      in q3\<lparr>mq_entry := (mq_entry q3 + 1) mod 2 ^ 16\<rparr>)"

definition mq_push :: "nat \<Rightarrow> rt_messagequeue \<Rightarrow> rt_messagequeue" where
  "mq_push n q =
     (let q1 = q\<lparr>mq_next := (mq_next q)(n := mq_head q), mq_head := Some n\<rparr>;
          q2 = (if mq_tail q1 = None then q1\<lparr>mq_tail := Some n\<rparr> else q1)
      in q2\<lparr>mq_entry := (mq_entry q2 + 1) mod 2 ^ 16\<rparr>)"

text \<open>Taking the first node off the queue; an empty list is a null pointer.\<close>

definition mq_behead :: "nat \<Rightarrow> rt_messagequeue \<Rightarrow> rt_messagequeue" where
  "mq_behead n q =
     (let q1 = q\<lparr>mq_head := mq_next q n\<rparr>
      in if mq_tail q1 = Some n then q1\<lparr>mq_tail := None\<rparr> else q1)"

definition mq_unlink :: "rt_messagequeue \<Rightarrow> (nat \<times> rt_messagequeue) option" where
  "mq_unlink q =
     (case mq_head q of
        None \<Rightarrow> None
      | Some n \<Rightarrow> (let q1 = mq_behead n q in Some (n, q1\<lparr>mq_entry := (mq_entry q1 + (2 ^ 16 - 1)) mod 2 ^ 16\<rparr>)))"

definition mq_read :: "nat \<Rightarrow> nat \<Rightarrow> rt_messagequeue \<Rightarrow> u8 list" where
  "mq_read n sz q = take (if sz > msg_size q then msg_size q else sz) (mq_data q n)"

text \<open>\<^verbatim>\<open>rt_mq_send\<close> and \<^verbatim>\<open>rt_mq_urgent\<close>; the caller's buffer is the list \<open>buf\<close>.\<close>

definition rt_mq_send :: "nat \<Rightarrow> u8 list \<Rightarrow> kernel \<Rightarrow> rt_err_t \<times> kernel" where
  "rt_mq_send m buf s =
     (if \<not> is_mq m s \<or> buf = [] then (RT_EOK, panic s)
      else if length buf > msg_size (queues s m) then (- RT_ERROR, s)
      else case mq_alloc (queues s m) of
          None \<Rightarrow> (- RT_EFULL, s)
        | Some (n, q) \<Rightarrow>
            (let s1 = set_mq m (mq_link n (mq_fill n buf (mq_seal n q))) s
             in (RT_EOK, if tlists s1 (Suspend (Msq m)) \<noteq> []
                         then rt_schedule (rt_ipc_list_resume (Suspend (Msq m)) s1) else s1)))"

definition rt_mq_urgent :: "nat \<Rightarrow> u8 list \<Rightarrow> kernel \<Rightarrow> rt_err_t \<times> kernel" where
  "rt_mq_urgent m buf s =
     (if \<not> is_mq m s \<or> buf = [] then (RT_EOK, panic s)
      else if length buf > msg_size (queues s m) then (- RT_ERROR, s)
      else case mq_alloc (queues s m) of
          None \<Rightarrow> (- RT_EFULL, s)
        | Some (n, q) \<Rightarrow>
            (let s1 = set_mq m (mq_push n (mq_fill n buf q)) s
             in (RT_EOK, if tlists s1 (Suspend (Msq m)) \<noteq> []
                         then rt_schedule (rt_ipc_list_resume (Suspend (Msq m)) s1) else s1)))"

text \<open>One turn of the loop of a receive by the thread \<open>self\<close>, into a buffer of \<open>sz\<close> bytes.\<close>

definition mq_recv_try :: "nat \<Rightarrow> nat \<Rightarrow> int \<Rightarrow> nat option \<Rightarrow> kernel \<Rightarrow> (rt_err_t \<times> u8 list option) outcome \<times> kernel" where
  "mq_recv_try m sz timeout self s =
     (if mq_entry (queues s m) = 0 then
        (if \<not> in_thread_context s then (Returned (RT_EOK, None), panic s)
         else case self of
             None \<Rightarrow> (Returned (RT_EOK, None), panic s)
           | Some t \<Rightarrow>
               (let s1 = upd_thread t (\<lambda>x. x\<lparr>error := RT_EOK\<rparr>) s
                in if timeout = 0
                   then (Returned (- RT_ETIMEOUT, None), upd_thread t (\<lambda>x. x\<lparr>error := - RT_ETIMEOUT\<rparr>) s1)
                   else (Blocked, ipc_block (Suspend (Msq m)) t (obj_flag (objs s1 (Msq m))) timeout s1)))
      else case mq_unlink (queues s m) of
          None \<Rightarrow> (Returned (RT_EOK, None), panic s)
        | Some (n, q) \<Rightarrow> (Returned (RT_EOK, Some (mq_read n sz q)), set_mq m (mq_release n q) s))"

definition rt_mq_recv :: "nat \<Rightarrow> nat \<Rightarrow> int \<Rightarrow> kernel \<Rightarrow> (rt_err_t \<times> u8 list option) outcome \<times> kernel" where
  "rt_mq_recv m sz timeout s =
     (if \<not> is_mq m s \<or> sz = 0 then (Returned (RT_EOK, None), panic s)
      else if mq_entry (queues s m) = 0 \<and> timeout = 0 then (Returned (- RT_ETIMEOUT, None), s)
      else mq_recv_try m sz timeout (rt_thread_self s) s)"

definition rt_mq_recv_end :: "nat \<Rightarrow> nat \<Rightarrow> int \<Rightarrow> u32 \<Rightarrow> nat \<Rightarrow> kernel \<Rightarrow> (rt_err_t \<times> u8 list option) outcome \<times> kernel" where
  "rt_mq_recv_end m sz timeout start t s =
     (if error (threads s t) \<noteq> RT_EOK then (Returned (error (threads s t), None), s)
      else mq_recv_try m sz (left_time timeout start (rt_tick s)) (Some t) s)"

text \<open>The loop of the reset, which moves every queued node to the free list.\<close>

partial_function (option) mq_drain :: "rt_messagequeue \<Rightarrow> rt_messagequeue option" where
  [code]: "mq_drain q =
     (case mq_head q of None \<Rightarrow> Some q | Some n \<Rightarrow> mq_drain (mq_release n (mq_behead n q)))"

definition rt_mq_control :: "nat \<Rightarrow> ipc_cmd \<Rightarrow> kernel \<Rightarrow> (rt_err_t \<times> kernel) option" where
  "rt_mq_control m cmd s =
     (if \<not> is_mq m s then Some (RT_EOK, panic s)
      else case cmd of
          Ipc_reset _ \<Rightarrow>
            (case rt_ipc_list_resume_all (Suspend (Msq m)) s of
               None \<Rightarrow> None
             | Some s1 \<Rightarrow>
                 map_option (\<lambda>q. (RT_EOK, rt_schedule (set_mq m (q\<lparr>mq_entry := 0\<rparr>) s1))) (mq_drain (queues s1 m)))
        | Other_ipc_cmd \<Rightarrow> Some (- RT_ERROR, s))"

section \<open>The nodes\<close>

text \<open>The list of nodes a pointer leads to.\<close>

fun chain :: "(nat \<Rightarrow> nat option) \<Rightarrow> nat option \<Rightarrow> nat list \<Rightarrow> bool" where
  "chain nx p [] \<longleftrightarrow> p = None"
| "chain nx p (n # ns) \<longleftrightarrow> p = Some n \<and> chain nx (nx n) ns"

fun nodes :: "(nat \<Rightarrow> nat option) \<Rightarrow> nat \<Rightarrow> nat option \<Rightarrow> nat list" where
  "nodes nx 0 p = []"
| "nodes nx (Suc k) None = []"
| "nodes nx (Suc k) (Some n) = n # nodes nx k (nx n)"

lemma chain_nodes: "chain nx p ns \<Longrightarrow> nodes nx (length ns) p = ns"
  by (induction ns arbitrary: p) simp_all

lemma chain_upd [simp]: "n \<notin> set ns \<Longrightarrow> chain (nx(n := v)) p ns = chain nx p ns"
  by (induction ns arbitrary: p) auto

lemma chain_snoc:
  "chain nx p ns \<Longrightarrow> distinct ns \<Longrightarrow> ns \<noteq> [] \<Longrightarrow> m \<notin> set ns \<Longrightarrow> nx m = None \<Longrightarrow> chain (nx(last ns := Some m)) p (ns @ [m])"
proof (induction ns arbitrary: p)
  case (Cons n ns)
  then show ?case by (cases ns) auto
qed simp

text \<open>
  The queue holds the nodes \<open>qs\<close>, the free list the nodes \<open>fs\<close>, and senders and receivers at work hold
  the nodes \<open>F\<close>: every node of the pool is in exactly one of them.
\<close>

definition mq_inv :: "nat set \<Rightarrow> nat list \<Rightarrow> nat list \<Rightarrow> rt_messagequeue \<Rightarrow> bool" where
  "mq_inv F qs fs q \<longleftrightarrow> chain (mq_next q) (mq_head q) qs \<and> chain (mq_next q) (mq_free q) fs \<and> distinct (qs @ fs)
     \<and> F \<inter> set (qs @ fs) = {} \<and> set (qs @ fs) \<union> F = {..<max_msgs q}
     \<and> mq_tail q = (if qs = [] then None else Some (last qs)) \<and> mq_entry q = length qs \<and> max_msgs q < 2 ^ 16
     \<and> (\<forall>n < max_msgs q. length (mq_data q n) = msg_size q)"

lemma mq_invD:
  assumes "mq_inv F qs fs q"
  shows "chain (mq_next q) (mq_head q) qs" "chain (mq_next q) (mq_free q) fs" "distinct (qs @ fs)" "F \<inter> set (qs @ fs) = {}"
    "set (qs @ fs) \<union> F = {..<max_msgs q}" "mq_tail q = (if qs = [] then None else Some (last qs))" "mq_entry q = length qs"
    "max_msgs q < 2 ^ 16" "n < max_msgs q \<Longrightarrow> length (mq_data q n) = msg_size q"
  using assms by (simp_all add: mq_inv_def)

lemma mq_inv_finite: "mq_inv F qs fs q \<Longrightarrow> finite F"
  using mq_invD(5) [of F qs fs q] finite_subset [of F "{..<max_msgs q}"] by auto

lemma mq_inv_bound:
  assumes i: "mq_inv F qs fs q"
  shows "length qs + length fs + card F = max_msgs q"
proof -
  note d = mq_invD(3-5) [OF i]
  have "set (qs @ fs) \<inter> F = {}" using d(2) by (simp only: Int_commute)
  then have "card (set (qs @ fs) \<union> F) = card (set (qs @ fs)) + card F"
    by (rule card_Un_disjoint [OF finite_set mq_inv_finite [OF i]])
  then show ?thesis unfolding d(3) distinct_card [OF d(1)] by simp
qed

lemma mq_inv_entry:
  assumes i: "mq_inv F qs fs q" and n: "n \<in> F"
  shows "length qs + 1 < 2 ^ 16"
proof -
  have "0 < card F" using n mq_inv_finite [OF i] by (auto simp: card_gt_0_iff)
  then show ?thesis using mq_inv_bound [OF i] mq_invD(8) [OF i] by linarith
qed

text \<open>What each part of an operation does to the nodes.\<close>

lemma mq_alloc_none: "mq_inv F qs fs q \<Longrightarrow> mq_free q = None \<longleftrightarrow> fs = []"
  using mq_invD(2) [of F qs fs q] by (cases fs) auto

lemma mq_alloc_inv:
  assumes i: "mq_inv F qs (n # fs) q"
  shows "mq_alloc q = Some (n, q\<lparr>mq_free := mq_next q n\<rparr>)" "mq_inv (insert n F) qs fs (q\<lparr>mq_free := mq_next q n\<rparr>)" "n \<notin> F"
proof -
  note d = mq_invD [OF i]
  show "mq_alloc q = Some (n, q\<lparr>mq_free := mq_next q n\<rparr>)" "n \<notin> F" using d(2,4) by (simp_all add: mq_alloc_def)
  have "set (qs @ fs) \<union> insert n F = {..<max_msgs q}" using d(5) by auto
  then show "mq_inv (insert n F) qs fs (q\<lparr>mq_free := mq_next q n\<rparr>)" using d by (simp add: mq_inv_def)
qed

lemma mq_fill_inv:
  assumes i: "mq_inv F qs fs q" and n: "n \<in> F" and b: "length buf \<le> msg_size q"
  shows "mq_inv F qs fs (mq_fill n buf q)" "take (length buf) (mq_data (mq_fill n buf q) n) = buf"
    "k \<noteq> n \<Longrightarrow> mq_data (mq_fill n buf q) k = mq_data q k"
proof -
  have "n < max_msgs q" using n mq_invD(5) [OF i] by auto
  then show "mq_inv F qs fs (mq_fill n buf q)" using i b by (auto simp: mq_inv_def mq_fill_def)
qed (simp_all add: mq_fill_def)

lemma mq_seal_inv:
  assumes i: "mq_inv F qs fs q" and n: "n \<in> F"
  shows "mq_inv F qs fs (mq_seal n q)" "mq_next (mq_seal n q) n = None" "mq_data (mq_seal n q) = mq_data q" "msg_size (mq_seal n q) = msg_size q"
proof -
  have "n \<notin> set qs" "n \<notin> set fs" using n mq_invD(4) [OF i] by auto
  then show "mq_inv F qs fs (mq_seal n q)" using i by (simp add: mq_inv_def mq_seal_def)
qed (simp_all add: mq_seal_def)

lemma mq_link_inv:
  assumes i: "mq_inv F qs fs q" and n: "n \<in> F" "mq_next q n = None"
  shows "mq_inv (F - {n}) (qs @ [n]) fs (mq_link n q)" "mq_data (mq_link n q) = mq_data q"
proof -
  note d = mq_invD [OF i]
  have fr: "n \<notin> set qs" "n \<notin> set fs" using n(1) d(4) by auto
  have u: "set ((qs @ [n]) @ fs) \<union> (F - {n}) = {..<max_msgs q}" using d(5) n(1) by auto
  have e: "(length qs + 1) mod 2 ^ 16 = length qs + 1" using mq_inv_entry [OF i n(1)] by simp
  show "mq_data (mq_link n q) = mq_data q" by (simp add: mq_link_def Let_def split: option.split)
  show "mq_inv (F - {n}) (qs @ [n]) fs (mq_link n q)"
  proof (cases "qs = []")
    case True
    then have "mq_head q = None" "mq_tail q = None" using d(1,6) by simp_all
    then have "mq_link n q = q\<lparr>mq_tail := Some n, mq_head := Some n, mq_entry := 1\<rparr>" using d(7) True by (simp add: mq_link_def)
    then show ?thesis using d n(2) fr u True by (auto simp: mq_inv_def)
  next
    case False
    then obtain h where h: "mq_head q = Some h" using d(1) by (cases qs) auto
    let ?nx = "(mq_next q)(last qs := Some n)"
    have l: "last qs \<in> set qs" using False by simp
    have eq: "mq_link n q = q\<lparr>mq_next := ?nx, mq_tail := Some n, mq_entry := length qs + 1\<rparr>"
      using d(6,7) False h e by (simp add: mq_link_def)
    have "last qs \<notin> set fs" using l d(3) by auto
    then have c: "chain ?nx (mq_head q) (qs @ [n])" "chain ?nx (mq_free q) fs"
      using chain_snoc [OF d(1) _ False fr(1) n(2)] d(2,3) by simp_all
    show ?thesis using c d(3,4,8,9) fr u by (auto simp: eq mq_inv_def)
  qed
qed

lemma mq_push_inv:
  assumes i: "mq_inv F qs fs q" and n: "n \<in> F"
  shows "mq_inv (F - {n}) (n # qs) fs (mq_push n q)" "mq_data (mq_push n q) = mq_data q"
proof -
  note d = mq_invD [OF i]
  have fr: "n \<notin> set qs" "n \<notin> set fs" using n(1) d(4) by auto
  have u: "set ((n # qs) @ fs) \<union> (F - {n}) = {..<max_msgs q}" using d(5) n(1) by auto
  have e: "(length qs + 1) mod 2 ^ 16 = length qs + 1" using mq_inv_entry [OF i n(1)] by simp
  show "mq_data (mq_push n q) = mq_data q" by (simp add: mq_push_def Let_def)
  have "mq_push n q = q\<lparr>mq_next := (mq_next q)(n := mq_head q), mq_head := Some n, mq_tail := Some (last (n # qs)),
      mq_entry := length qs + 1\<rparr>"
    using d(6,7) e by (simp add: mq_push_def Let_def)
  then show "mq_inv (F - {n}) (n # qs) fs (mq_push n q)" using d fr u by (auto simp: mq_inv_def)
qed

lemma mq_behead_inv:
  assumes i: "mq_inv F (n # qs) fs q"
  shows "mq_inv (insert n F) qs fs ((mq_behead n q)\<lparr>mq_entry := length qs\<rparr>)" "mq_data (mq_behead n q) = mq_data q"
    "msg_size (mq_behead n q) = msg_size q" "mq_entry (mq_behead n q) = Suc (length qs)" "n \<notin> F"
proof -
  note d = mq_invD [OF i]
  have u: "set (qs @ fs) \<union> insert n F = {..<max_msgs q}" using d(5) by auto
  have "last qs \<noteq> n" if "qs \<noteq> []" using d(3) last_in_set [OF that] by auto
  then have eq: "mq_behead n q = q\<lparr>mq_head := mq_next q n, mq_tail := (if qs = [] then None else Some (last qs))\<rparr>"
    using d(6) by (auto simp: mq_behead_def)
  show "mq_inv (insert n F) qs fs ((mq_behead n q)\<lparr>mq_entry := length qs\<rparr>)" using d u by (auto simp: eq mq_inv_def)
qed (use mq_invD(4,7) [OF i] in \<open>auto simp: mq_behead_def Let_def\<close>)

lemma mq_unlink_inv:
  assumes i: "mq_inv F (n # qs) fs q"
  obtains q' where "mq_unlink q = Some (n, q')" "mq_inv (insert n F) qs fs q'" "mq_data q' = mq_data q" "msg_size q' = msg_size q" "n \<notin> F"
proof -
  note b = mq_behead_inv [OF i]
  have "Suc (length qs) + (2 ^ 16 - 1) = length qs + 2 ^ 16" by simp
  then have "(Suc (length qs) + (2 ^ 16 - 1)) mod 2 ^ 16 = length qs" using mq_inv_bound [OF i] mq_invD(8) [OF i]
    by (simp only: mod_add_self2) simp
  then have "mq_unlink q = Some (n, (mq_behead n q)\<lparr>mq_entry := length qs\<rparr>)"
    using mq_invD(1) [OF i] b(4) by (simp add: mq_unlink_def)
  then show thesis using that b by simp
qed

lemma mq_release_inv:
  assumes i: "mq_inv F qs fs q" and n: "n \<in> F"
  shows "mq_inv (F - {n}) qs (n # fs) (mq_release n q)" "mq_data (mq_release n q) = mq_data q" "msg_size (mq_release n q) = msg_size q"
proof -
  note d = mq_invD [OF i]
  have fr: "n \<notin> set qs" "n \<notin> set fs" using n d(4) by auto
  have u: "set (qs @ n # fs) \<union> (F - {n}) = {..<max_msgs q}" using d(5) n by auto
  show "mq_inv (F - {n}) qs (n # fs) (mq_release n q)" using d fr u by (auto simp: mq_inv_def mq_release_def)
qed (simp_all add: mq_release_def)

lemma fresh_mq_inv:
  assumes "cnt < 2 ^ 16" "\<forall>n < cnt. length (pool n) = msz"
  shows "mq_inv {} [] (rev [0..<cnt]) (fresh_mq addr pool msz cnt)"
proof -
  let ?q = "\<lparr>mq_pool = addr, msg_size = msz, max_msgs = cnt, mq_entry = 0, mq_head = None, mq_tail = None, mq_free = None,
    mq_next = (\<lambda>_. None), mq_data = pool\<rparr>"
  have "mq_inv {k..<cnt} [] (rev [0..<k]) (fold mq_release [0..<k] ?q)" if "k \<le> cnt" for k
    using that
  proof (induction k)
    case 0
    then show ?case using assms by (auto simp: mq_inv_def)
  next
    case (Suc k)
    have "{k..<cnt} - {k} = {Suc k..<cnt}" by auto
    then show ?case using mq_release_inv(1) [OF Suc.IH, of k] Suc.prems by simp
  qed
  from this [of cnt] have i: "mq_inv {} [] (rev [0..<cnt]) (fold mq_release [0..<cnt] ?q)" by simp
  then show ?thesis by (simp add: fresh_mq_def Let_def mq_inv_def)
qed

section \<open>Interleaved senders and receivers\<close>

text \<open>
  The contents of the queue, and what a thread that is between two critical sections does with its
  node: it has claimed it, has written a message that goes to the tail or to the head, or has taken it
  off the queue to read the message.
\<close>

definition mq_content :: "rt_messagequeue \<Rightarrow> u8 list list" where
  "mq_content q = map (mq_data q) (nodes (mq_next q) (mq_entry q) (mq_head q))"

datatype node_use = Claimed | Written "u8 list" | Written_urgent "u8 list" | Taken "u8 list"

text \<open>
  \<open>mq_reach q0 q fl msgs\<close>: threads that run the parts of \<^verbatim>\<open>rt_mq_send\<close>, \<^verbatim>\<open>rt_mq_urgent\<close> and \<^verbatim>\<open>rt_mq_recv\<close>
  in any order lead from the queue \<open>q0\<close> to \<open>q\<close>; \<open>fl\<close> are the nodes in use, and \<open>msgs\<close> the messages sent and
  not yet received, in the order in which they are to be received.
\<close>

inductive mq_reach :: "rt_messagequeue \<Rightarrow> rt_messagequeue \<Rightarrow> (nat \<Rightarrow> node_use option) \<Rightarrow> u8 list list \<Rightarrow> bool" for q0 where
  Start: "mq_reach q0 q0 (\<lambda>_. None) []"
| Claim: "mq_reach q0 q fl msgs \<Longrightarrow> mq_alloc q = Some (n, q') \<Longrightarrow> mq_reach q0 q' (fl(n := Some Claimed)) msgs"
| Write: "mq_reach q0 q fl msgs \<Longrightarrow> fl n = Some Claimed \<Longrightarrow> length buf \<le> msg_size q
    \<Longrightarrow> mq_reach q0 (mq_fill n buf (mq_seal n q)) (fl(n := Some (Written buf))) msgs"
| Write_urgent: "mq_reach q0 q fl msgs \<Longrightarrow> fl n = Some Claimed \<Longrightarrow> length buf \<le> msg_size q
    \<Longrightarrow> mq_reach q0 (mq_fill n buf q) (fl(n := Some (Written_urgent buf))) msgs"
| Link: "mq_reach q0 q fl msgs \<Longrightarrow> fl n = Some (Written buf) \<Longrightarrow> mq_reach q0 (mq_link n q) (fl(n := None)) (msgs @ [buf])"
| Push: "mq_reach q0 q fl msgs \<Longrightarrow> fl n = Some (Written_urgent buf) \<Longrightarrow> mq_reach q0 (mq_push n q) (fl(n := None)) (buf # msgs)"
| Unlink: "mq_reach q0 q fl (msg # msgs) \<Longrightarrow> mq_entry q \<noteq> 0 \<Longrightarrow> mq_unlink q = Some (n, q')
    \<Longrightarrow> mq_reach q0 q' (fl(n := Some (Taken msg))) msgs"
| Release: "mq_reach q0 q fl msgs \<Longrightarrow> fl n = Some (Taken msg) \<Longrightarrow> mq_reach q0 (mq_release n q) (fl(n := None)) msgs"

text \<open>The message a node holds is a prefix of its bytes.\<close>

definition holds :: "rt_messagequeue \<Rightarrow> nat \<Rightarrow> u8 list \<Rightarrow> bool" where
  "holds q n msg \<longleftrightarrow> take (length msg) (mq_data q n) = msg"

definition use_ok :: "rt_messagequeue \<Rightarrow> nat \<Rightarrow> node_use \<Rightarrow> bool" where
  "use_ok q n u = (case u of Claimed \<Rightarrow> True | Written msg \<Rightarrow> holds q n msg \<and> mq_next q n = None
     | Written_urgent msg \<Rightarrow> holds q n msg | Taken msg \<Rightarrow> holds q n msg)"

definition mq_sys :: "rt_messagequeue \<Rightarrow> (nat \<Rightarrow> node_use option) \<Rightarrow> u8 list list \<Rightarrow> bool" where
  "mq_sys q fl msgs \<longleftrightarrow> (\<exists>qs fs. mq_inv (dom fl) qs fs q \<and> list_all2 (holds q) qs msgs) \<and> (\<forall>n u. fl n = Some u \<longrightarrow> use_ok q n u)"

lemma mq_sysI:
  assumes old: "\<forall>n u. fl n = Some u \<longrightarrow> use_ok q n u"
    and i: "mq_inv (dom (fl(n := v))) qs' fs' q'" and q: "list_all2 (holds q') qs' msgs'"
    and n: "\<And>u. v = Some u \<Longrightarrow> use_ok q' n u"
    and others: "\<And>k. k \<noteq> n \<Longrightarrow> k \<in> dom fl \<Longrightarrow> mq_data q' k = mq_data q k \<and> mq_next q' k = mq_next q k"
  shows "mq_sys q' (fl(n := v)) msgs'"
proof -
  have "use_ok q' k u" if k: "(fl(n := v)) k = Some u" for k u
  proof (cases "k = n")
    case False
    then have "use_ok q k u" "mq_data q' k = mq_data q k \<and> mq_next q' k = mq_next q k" using old others [OF False] k by auto
    then show ?thesis by (cases u) (simp_all add: use_ok_def holds_def)
  qed (use n k in simp)
  then show ?thesis using i q unfolding mq_sys_def by blast
qed

lemma holds_all:
  assumes "list_all2 (holds q) qs msgs" "\<And>k. k \<in> set qs \<Longrightarrow> mq_data q' k = mq_data q k"
  shows "list_all2 (holds q') qs msgs"
  by (rule list.rel_mono_strong [OF assms(1)]) (simp add: holds_def assms(2))

lemma dom_in [simp]: "dom (fl(n := Some u)) = insert n (dom fl)" "dom (fl(n := None)) = dom fl - {n}"
  by auto

lemma mq_link_next: "mq_inv F qs fs q \<Longrightarrow> k \<in> F \<Longrightarrow> mq_next (mq_link n q) k = mq_next q k"
  using mq_invD(4,6) [of F qs fs q] by (cases "qs = []") (auto simp: mq_link_def Let_def)

lemma mq_reach_sys:
  assumes "mq_reach q0 q fl msgs" "mq_sys q0 (\<lambda>_. None) []"
  shows "mq_sys q fl msgs"
  using assms
proof (induction rule: mq_reach.induct)
  case (Claim q fl msgs n q')
  then obtain qs fs where i: "mq_inv (dom fl) qs fs q" "list_all2 (holds q) qs msgs" "\<forall>n u. fl n = Some u \<longrightarrow> use_ok q n u"
    by (auto simp: mq_sys_def)
  obtain fs' where fs: "fs = n # fs'" using Claim.hyps(2) mq_invD(2) [OF i(1)] by (cases fs) (auto simp: mq_alloc_def)
  note a = mq_alloc_inv [OF i(1) [unfolded fs]]
  have q': "q' = q\<lparr>mq_free := mq_next q n\<rparr>" using a(1) Claim.hyps(2) by simp
  show ?case
    by (rule mq_sysI [OF i(3), where qs' = qs and fs' = fs']) (use a(2) holds_all [OF i(2)] in \<open>simp_all add: q' use_ok_def\<close>)
next
  case (Write q fl msgs n buf)
  then obtain qs fs where i: "mq_inv (dom fl) qs fs q" "list_all2 (holds q) qs msgs" "\<forall>n u. fl n = Some u \<longrightarrow> use_ok q n u"
    by (auto simp: mq_sys_def)
  have n: "n \<in> dom fl" using Write.hyps(2) by auto
  note c = mq_seal_inv [OF i(1) n]
  note f = mq_fill_inv [OF c(1) n, of buf]
  have nq: "n \<notin> set qs" using n mq_invD(4) [OF i(1)] by auto
  show ?case
  proof (rule mq_sysI [OF i(3), where qs' = qs and fs' = fs])
    show "list_all2 (holds (mq_fill n buf (mq_seal n q))) qs msgs" by (rule holds_all [OF i(2)]) (use nq in \<open>auto simp: mq_fill_def mq_seal_def\<close>)
  qed (use f c Write.hyps(3) n in \<open>auto simp: use_ok_def holds_def insert_absorb\<close>, simp_all add: mq_fill_def mq_seal_def)
next
  case (Write_urgent q fl msgs n buf)
  then obtain qs fs where i: "mq_inv (dom fl) qs fs q" "list_all2 (holds q) qs msgs" "\<forall>n u. fl n = Some u \<longrightarrow> use_ok q n u"
    by (auto simp: mq_sys_def)
  have n: "n \<in> dom fl" using Write_urgent.hyps(2) by auto
  note f = mq_fill_inv [OF i(1) n, of buf]
  have nq: "n \<notin> set qs" using n mq_invD(4) [OF i(1)] by auto
  show ?case
  proof (rule mq_sysI [OF i(3), where qs' = qs and fs' = fs])
    show "list_all2 (holds (mq_fill n buf q)) qs msgs" by (rule holds_all [OF i(2)]) (use nq in \<open>auto simp: mq_fill_def\<close>)
  qed (use f Write_urgent.hyps(3) n in \<open>auto simp: use_ok_def holds_def insert_absorb\<close>, simp_all add: mq_fill_def)
next
  case (Link q fl msgs n buf)
  then obtain qs fs where i: "mq_inv (dom fl) qs fs q" "list_all2 (holds q) qs msgs" "\<forall>n u. fl n = Some u \<longrightarrow> use_ok q n u"
    by (auto simp: mq_sys_def)
  have n: "n \<in> dom fl" "holds q n buf" "mq_next q n = None" using Link.hyps(2) i(3) [rule_format, OF Link.hyps(2)] by (auto simp: use_ok_def)
  note l = mq_link_inv [OF i(1) n(1,3)]
  have "list_all2 (holds q) (qs @ [n]) (msgs @ [buf])" using i(2) n(2) by (simp add: list_all2_appendI)
  then have "list_all2 (holds (mq_link n q)) (qs @ [n]) (msgs @ [buf])" by (rule holds_all) (simp add: l(2))
  then show ?case
    by (intro mq_sysI [OF i(3), where qs' = "qs @ [n]" and fs' = fs]) (use l mq_link_next [OF i(1)] in simp_all)
next
  case (Push q fl msgs n buf)
  then obtain qs fs where i: "mq_inv (dom fl) qs fs q" "list_all2 (holds q) qs msgs" "\<forall>n u. fl n = Some u \<longrightarrow> use_ok q n u"
    by (auto simp: mq_sys_def)
  have n: "n \<in> dom fl" "holds q n buf" using Push.hyps(2) i(3) [rule_format, OF Push.hyps(2)] by (auto simp: use_ok_def)
  note l = mq_push_inv [OF i(1) n(1)]
  have "list_all2 (holds q) (n # qs) (buf # msgs)" using i(2) n(2) by simp
  then have "list_all2 (holds (mq_push n q)) (n # qs) (buf # msgs)" by (rule holds_all) (simp add: l(2))
  then show ?case
    by (intro mq_sysI [OF i(3), where qs' = "n # qs" and fs' = fs]) (use l in \<open>simp_all add: mq_push_def Let_def\<close>)
next
  case (Unlink q fl msg msgs n q')
  then obtain qs fs where i: "mq_inv (dom fl) qs fs q" "list_all2 (holds q) qs (msg # msgs)" "\<forall>n u. fl n = Some u \<longrightarrow> use_ok q n u"
    by (auto simp: mq_sys_def)
  obtain k qs' where qs: "qs = k # qs'" "holds q k msg" "list_all2 (holds q) qs' msgs" using i(2) by (auto simp: list_all2_Cons2)
  obtain q'' where u: "mq_unlink q = Some (k, q'')" "mq_inv (insert k (dom fl)) qs' fs q''" "mq_data q'' = mq_data q"
    using mq_unlink_inv [OF i(1) [unfolded qs(1)]] by blast
  have e: "k = n" "q'' = q'" using u(1) Unlink.hyps(3) by simp_all
  have nx: "mq_next q' = mq_next q" using Unlink.hyps(3) by (auto simp: mq_unlink_def mq_behead_def Let_def split: option.splits if_splits)
  show ?case
    by (rule mq_sysI [OF i(3), where qs' = qs' and fs' = fs])
      (use u e qs(2) holds_all [OF qs(3)] nx in \<open>simp_all add: use_ok_def holds_def\<close>)
next
  case (Release q fl msgs n msg)
  then obtain qs fs where i: "mq_inv (dom fl) qs fs q" "list_all2 (holds q) qs msgs" "\<forall>n u. fl n = Some u \<longrightarrow> use_ok q n u"
    by (auto simp: mq_sys_def)
  have n: "n \<in> dom fl" using Release.hyps(2) by auto
  note r = mq_release_inv [OF i(1) n]
  show ?case
    by (rule mq_sysI [OF i(3), where qs' = qs and fs' = "n # fs"])
      (use r holds_all [OF i(2)] in \<open>simp_all add: mq_release_def\<close>)
qed

lemma mq_reach_size: "mq_reach q0 q fl msgs \<Longrightarrow> max_msgs q = max_msgs q0"
  by (induction rule: mq_reach.induct)
    (auto simp: mq_alloc_def mq_fill_def mq_seal_def mq_link_def mq_push_def mq_unlink_def mq_behead_def mq_release_def Let_def
      split: option.splits if_splits)

lemma mq_content_nodes: "mq_inv F qs fs q \<Longrightarrow> mq_content q = map (mq_data q) qs"
  using chain_nodes [OF mq_invD(1)] mq_invD(7) by (simp add: mq_content_def)

lemma read_holds: "holds q n msg \<Longrightarrow> length (mq_data q n) = msg_size q \<Longrightarrow> take (length msg) (mq_read n sz q) = take sz msg"
proof -
  assume h: "holds q n msg" and l: "length (mq_data q n) = msg_size q"
  have le: "length msg \<le> msg_size q" using h l by (metis holds_def length_take min.cobounded1 min.commute)
  have "take (length msg) (mq_read n sz q) = take (min (length msg) (min sz (msg_size q))) (mq_data q n)"
    by (simp add: mq_read_def min_def)
  also have "\<dots> = take (min sz (length msg)) (mq_data q n)" using le by (simp add: min_def)
  also have "\<dots> = take sz (take (length msg) (mq_data q n))" by (simp only: take_take)
  also have "\<dots> = take sz msg" using h by (simp only: holds_def)
  finally show ?thesis .
qed

text \<open>
  C19.  Threads that send, send urgently and receive run the critical sections of their calls in any
  order, and copy messages in and out between them.  At every moment the queue holds the messages sent
  and not yet received, first the urgent ones, latest first, then the others in the order of sending; its
  counter is their number; a receiver never meets a null pointer; the copy a receiver makes is the
  message, cut to its buffer; and a send reports a full queue only if all nodes are in use.
\<close>

theorem message_queue_interleaved:
  assumes "mq_reach (fresh_mq addr pool msz cnt) q fl msgs" "cnt < 2 ^ 16" "\<forall>n < cnt. length (pool n) = msz"
  shows "list_all2 (\<lambda>bytes msg. take (length msg) bytes = msg) (mq_content q) msgs \<and> mq_entry q = length msgs
    \<and> (mq_entry q \<noteq> 0 \<longrightarrow> mq_unlink q \<noteq> None)
    \<and> (\<forall>n msg sz. fl n = Some (Taken msg) \<longrightarrow> take (length msg) (mq_read n sz q) = take sz msg)
    \<and> length msgs + card (dom fl) \<le> cnt \<and> (mq_alloc q = None \<longleftrightarrow> length msgs + card (dom fl) = cnt)"
proof -
  let ?q0 = "fresh_mq addr pool msz cnt"
  have i0: "mq_inv {} [] (rev [0..<cnt]) ?q0" by (rule fresh_mq_inv [OF assms(2,3)])
  then have "mq_sys ?q0 (\<lambda>_. None) []" by (auto simp: mq_sys_def)
  then have "mq_sys q fl msgs" by (rule mq_reach_sys [OF assms(1)])
  then obtain qs fs where i: "mq_inv (dom fl) qs fs q" and h: "list_all2 (holds q) qs msgs"
    and u: "\<And>n u. fl n = Some u \<Longrightarrow> use_ok q n u" by (auto simp: mq_sys_def)
  have l: "length qs = length msgs" by (rule list_all2_lengthD [OF h])
  have b: "length msgs + length fs + card (dom fl) = cnt"
    using mq_inv_bound [OF i] mq_inv_bound [OF i0] mq_reach_size [OF assms(1)] l by simp
  have "list_all2 (\<lambda>bytes msg. take (length msg) bytes = msg) (mq_content q) msgs"
    unfolding mq_content_nodes [OF i] list_all2_map1 using h by (rule list.rel_mono_strong) (simp add: holds_def)
  moreover have "mq_entry q = length msgs" using mq_invD(7) [OF i] l by simp
  moreover have "mq_unlink q \<noteq> None" if "mq_entry q \<noteq> 0"
    using that mq_invD(1,7) [OF i] by (cases qs) (auto simp: mq_unlink_def Let_def)
  moreover have "take (length msg) (mq_read n sz q) = take sz msg" if "fl n = Some (Taken msg)" for n msg sz
  proof -
    have "n < max_msgs q" using that mq_invD(5) [OF i] by auto
    then show ?thesis using u [OF that] mq_invD(9) [OF i, of n] by (intro read_holds) (simp_all add: use_ok_def)
  qed
  moreover have "mq_alloc q = None \<longleftrightarrow> fs = []" using mq_alloc_none [OF i] by (cases "mq_free q") (simp_all add: mq_alloc_def)
  ultimately show ?thesis using b by auto
qed

section \<open>A message queue is a bounded queue\<close>

definition mq_put :: "u8 list \<Rightarrow> rt_messagequeue \<Rightarrow> rt_messagequeue" where
  "mq_put buf q = (case mq_alloc q of None \<Rightarrow> q | Some (n, q1) \<Rightarrow> mq_link n (mq_fill n buf (mq_seal n q1)))"

definition mq_put_urgent :: "u8 list \<Rightarrow> rt_messagequeue \<Rightarrow> rt_messagequeue" where
  "mq_put_urgent buf q = (case mq_alloc q of None \<Rightarrow> q | Some (n, q1) \<Rightarrow> mq_push n (mq_fill n buf q1))"

definition mq_get :: "rt_messagequeue \<Rightarrow> u8 list \<times> rt_messagequeue" where
  "mq_get q = (case mq_unlink q of None \<Rightarrow> ([], q) | Some (n, q1) \<Rightarrow> (mq_read n (msg_size q1) q1, mq_release n q1))"

text \<open>The nodes \<open>F\<close> are in the hands of other threads.\<close>

definition mq_wf :: "nat set \<Rightarrow> rt_messagequeue \<Rightarrow> bool" where
  "mq_wf F q \<longleftrightarrow> (\<exists>qs fs. mq_inv F qs fs q)"

lemma mq_put_facts:
  assumes wf: "mq_wf F q" and nf: "mq_free q \<noteq> None" and fit: "length buf \<le> msg_size q"
  shows "mq_wf F (mq_put buf q)" "max_msgs (mq_put buf q) = max_msgs q" "msg_size (mq_put buf q) = msg_size q"
    "\<exists>tail. mq_content (mq_put buf q) = mq_content q @ [buf @ tail] \<and> length (buf @ tail) = msg_size q"
    "mq_wf F (mq_put_urgent buf q)" "max_msgs (mq_put_urgent buf q) = max_msgs q" "msg_size (mq_put_urgent buf q) = msg_size q"
    "\<exists>tail. mq_content (mq_put_urgent buf q) = (buf @ tail) # mq_content q \<and> length (buf @ tail) = msg_size q"
proof -
  obtain qs fs where i: "mq_inv F qs fs q" using wf by (auto simp: mq_wf_def)
  then obtain n fs' where fs: "fs = n # fs'" using nf mq_alloc_none [OF i] by (cases fs) auto
  note a = mq_alloc_inv [OF i [unfolded fs]]
  let ?q1 = "q\<lparr>mq_free := mq_next q n\<rparr>"
  have n: "n \<in> insert n F" "n < max_msgs q" "n \<notin> set qs" using mq_invD(3,5) [OF i] fs by auto
  have F: "insert n F - {n} = F" using a(3) by simp
  have b: "length buf \<le> msg_size ?q1" using fit by simp
  define tail where "tail = drop (length buf) (mq_data q n)"
  have tl: "length (buf @ tail) = msg_size q" using fit mq_invD(9) [OF i n(2)] by (simp add: tail_def)
  note sl = mq_seal_inv [OF a(2) n(1)]
  have b': "length buf \<le> msg_size (mq_seal n ?q1)" using b sl(4) by simp
  note f = mq_fill_inv [OF sl(1) n(1) b'] and g = mq_fill_inv [OF a(2) n(1) b]
  have nx: "mq_next (mq_fill n buf (mq_seal n ?q1)) n = None" by (simp add: mq_fill_def mq_seal_def)
  note l = mq_link_inv [OF f(1) n(1) nx, unfolded F] and p = mq_push_inv [OF g(1) n(1), unfolded F]
  have eq: "mq_put buf q = mq_link n (mq_fill n buf (mq_seal n ?q1))" "mq_put_urgent buf q = mq_push n (mq_fill n buf ?q1)"
    using a(1) by (simp_all add: mq_put_def mq_put_urgent_def)
  have d: "mq_data (mq_fill n buf (mq_seal n ?q1)) = (mq_data q)(n := buf @ tail)" "mq_data (mq_fill n buf ?q1) = (mq_data q)(n := buf @ tail)"
    by (simp_all add: mq_fill_def mq_seal_def tail_def)
  show "mq_wf F (mq_put buf q)" "mq_wf F (mq_put_urgent buf q)" using l(1) p(1) by (auto simp: mq_wf_def eq)
  show "max_msgs (mq_put buf q) = max_msgs q" "msg_size (mq_put buf q) = msg_size q"
    "max_msgs (mq_put_urgent buf q) = max_msgs q" "msg_size (mq_put_urgent buf q) = msg_size q"
    by (simp_all add: eq mq_link_def mq_push_def mq_fill_def mq_seal_def Let_def split: option.split)
  have m: "map ((mq_data q)(n := buf @ tail)) qs = map (mq_data q) qs" using n(3) by simp
  show "\<exists>tail. mq_content (mq_put buf q) = mq_content q @ [buf @ tail] \<and> length (buf @ tail) = msg_size q"
    "\<exists>tail. mq_content (mq_put_urgent buf q) = (buf @ tail) # mq_content q \<and> length (buf @ tail) = msg_size q"
    using tl m by (auto simp: eq mq_content_nodes [OF l(1)] mq_content_nodes [OF p(1)] mq_content_nodes [OF i] l(2) p(2) d intro!: exI [of _ tail])
qed

lemma mq_get_facts:
  assumes wf: "mq_wf F q" and ne: "mq_entry q \<noteq> 0"
  obtains n q1 where "mq_unlink q = Some (n, q1)" "mq_wf F (mq_release n q1)" "max_msgs (mq_release n q1) = max_msgs q"
    "msg_size q1 = msg_size q" "mq_content q = mq_data q1 n # mq_content (mq_release n q1)" "length (mq_data q1 n) = msg_size q"
    "mq_free (mq_release n q1) \<noteq> None"
proof -
  obtain qs fs where i: "mq_inv F qs fs q" using wf by (auto simp: mq_wf_def)
  then obtain n qs' where qs: "qs = n # qs'" using ne mq_invD(7) [OF i] by (cases qs) auto
  obtain q1 where u: "mq_unlink q = Some (n, q1)" "mq_inv (insert n F) qs' fs q1" "mq_data q1 = mq_data q" "msg_size q1 = msg_size q" "n \<notin> F"
    using mq_unlink_inv [OF i [unfolded qs]] by blast
  have F: "insert n F - {n} = F" using u(5) by simp
  note r = mq_release_inv [OF u(2) insertI1, unfolded F]
  have mx: "max_msgs (mq_release n q1) = max_msgs q" using mq_inv_bound [OF r(1)] mq_inv_bound [OF i] qs by simp
  have "n < max_msgs q" using mq_invD(5) [OF i] qs by auto
  then have len: "length (mq_data q1 n) = msg_size q" using mq_invD(9) [OF i] u(3) by simp
  have "mq_content q = mq_data q1 n # mq_content (mq_release n q1)"
    using mq_content_nodes [OF i] mq_content_nodes [OF r(1)] qs r(2) u(3) by simp
  moreover have "mq_wf F (mq_release n q1)" using r(1) by (auto simp: mq_wf_def)
  ultimately show thesis using that u(1,4) mx len by (simp add: mq_release_def)
qed

text \<open>Messages of the full message size are returned as they were sent.\<close>

abbreviation (input) mq_full :: "rt_messagequeue \<Rightarrow> bool" where "mq_full q \<equiv> mq_free q = None"
abbreviation (input) mq_empty :: "rt_messagequeue \<Rightarrow> bool" where "mq_empty q \<equiv> mq_entry q = 0"
abbreviation (input) mq_fits :: "rt_messagequeue \<Rightarrow> u8 list \<Rightarrow> bool" where "mq_fits q msg \<equiv> length msg = msg_size q"

interpretation mq: urgent_fifo "mq_wf {}" mq_put mq_get mq_full mq_empty mq_fits mq_content max_msgs mq_put_urgent
proof
  fix q x assume wf: "mq_wf {} q"
  then obtain qs fs where i: "mq_inv {} qs fs q" by (auto simp: mq_wf_def)
  show "length (mq_content q) \<le> max_msgs q" "mq_full q \<longleftrightarrow> length (mq_content q) = max_msgs q" "mq_empty q \<longleftrightarrow> mq_content q = []"
    using mq_inv_bound [OF i] mq_alloc_none [OF i] mq_content_nodes [OF i] mq_invD(7) [OF i] by auto
  show "mq_wf {} (mq_put x q)" "mq_content (mq_put x q) = mq_content q @ [x]" "max_msgs (mq_put x q) = max_msgs q"
    "mq_wf {} (mq_put_urgent x q)" "mq_content (mq_put_urgent x q) = x # mq_content q" "max_msgs (mq_put_urgent x q) = max_msgs q"
    if "\<not> mq_full q" "mq_fits q x"
    using mq_put_facts [OF wf that(1), of x] that(2) by auto
  assume ne: "\<not> mq_empty q"
  obtain n q1 where g: "mq_unlink q = Some (n, q1)" "mq_wf {} (mq_release n q1)" "max_msgs (mq_release n q1) = max_msgs q"
    "msg_size q1 = msg_size q" "mq_content q = mq_data q1 n # mq_content (mq_release n q1)" "length (mq_data q1 n) = msg_size q"
    using mq_get_facts [OF wf ne] by blast
  have "mq_get q = (mq_data q1 n, mq_release n q1)" using g(1,4,6) by (simp add: mq_get_def mq_read_def)
  then show "mq_wf {} (snd (mq_get q))" "mq_content q = fst (mq_get q) # mq_content (snd (mq_get q))"
    "max_msgs (snd (mq_get q)) = max_msgs q" using g by simp_all
qed

section \<open>Sending and receiving\<close>

definition mq_ok :: "nat set \<Rightarrow> nat \<Rightarrow> kernel \<Rightarrow> bool" where
  "mq_ok F m s \<longleftrightarrow> is_mq m s \<and> mq_wf F (queues s m) \<and> (\<forall>u \<in> set (tlists s (Suspend (Msq m))). thread_ok u s)"

lemma set_mq_sel [simp]:
  "queues (set_mq m q s) = (queues s)(m := q)" "threads (set_mq m q s) = threads s" "tlists (set_mq m q s) = tlists s"
  "objs (set_mq m q s) = objs s" "current (set_mq m q s) = current s" "kpanic (set_mq m q s) = kpanic s"
  "sched_ok X (set_mq m q s) = sched_ok X s" "state_of (set_mq m q s) = state_of s" "thread_ok u (set_mq m q s) = thread_ok u s"
  by (simp_all add: set_mq_def state_of_def fun_eq_iff thread_ok_def is_thread_def is_timer_def rt_object_get_type_def
      rt_object_is_systemobject_def)

lemma mq_okI:
  assumes "mq_ok F m s" "\<And>r. obj_type (objs s' r) = obj_type (objs s r)" "\<And>u. thread_ok u s' = thread_ok u s"
    "mq_wf F (queues s' m)" "\<And>u. u \<in> set (tlists s' (Suspend (Msq m))) \<Longrightarrow> u \<in> set (tlists s (Suspend (Msq m))) \<or> thread_ok u s"
  shows "mq_ok F m s'"
proof -
  have "is_mq m s' = is_mq m s" using assms(2) by (simp add: is_mq_def rt_object_get_type_def)
  then show ?thesis using assms(1,3-5) unfolding mq_ok_def by blast
qed

text \<open>What a send by the running thread, followed by waking the first receiver, keeps.\<close>

lemma mq_deliver:
  assumes ok: "mq_ok F m s" and sched: "sched_ok {} s" and c: "current s = Some c" and wf: "mq_wf F q"
  defines "s' \<equiv> woken (Suspend (Msq m)) (set_mq m q s)"
  shows "mq_ok F m s'" "sched_ok {} s'" "kpanic s' = kpanic s" "queues s' m = q"
    "tlists s (Suspend (Msq m)) = v # vs \<Longrightarrow> tlists s' (Suspend (Msq m)) = vs \<and> state_of s' v \<in> {RT_THREAD_READY, RT_THREAD_RUNNING}"
    "tlists s (Suspend (Msq m)) = [] \<Longrightarrow> tlists s' = tlists s \<and> threads s' = threads s"
proof -
  let ?s = "set_mq m q s" and ?q = "Suspend (Msq m)"
  have sc: "sched_ok {} ?s" "current ?s = Some c" using sched c by simp_all
  have th: "\<forall>u \<in> set (tlists ?s ?q). thread_ok u ?s" using ok by (simp add: mq_ok_def)
  note f = woken_facts [OF sc wait_queue_ref(1) th]
  show "sched_ok {} s'" "kpanic s' = kpanic s" "queues s' m = q" using f by (simp_all add: s'_def)
  have "u \<in> set (tlists s' ?q) \<Longrightarrow> u \<in> set (tlists s ?q)" for u
    using f(3) [of ?q] by (auto simp: s'_def dest: in_set_tlD)
  then show "mq_ok F m s'" using f(4,5) wf by (intro mq_okI [OF ok]) (simp_all add: s'_def)
  show "tlists s ?q = v # vs \<Longrightarrow> tlists s' ?q = vs \<and> state_of s' v \<in> {1, 3}" using f(3) [of ?q] f(6) by (simp add: s'_def)
  show "tlists s ?q = [] \<Longrightarrow> tlists s' = tlists s \<and> threads s' = threads s" by (simp add: s'_def woken_def)
qed

text \<open>
  A message longer than the message size is refused with \<^verbatim>\<open>-RT_ERROR\<close>, and any message with
  \<^verbatim>\<open>-RT_EFULL\<close> if there is no free node; nothing changes then.  Otherwise the message is stored behind
  the others, or in front of them if it is urgent, and the first waiting receiver is woken.  The
  invariants of the queue and of the scheduler are kept, with any nodes in the hands of other threads.
\<close>

theorem message_queue_send_correct:
  assumes ok: "mq_ok F m s" and sched: "sched_ok {} s" and c: "current s = Some c" and ne: "msg \<noteq> []"
  shows "case (if urgent then rt_mq_urgent else rt_mq_send) m msg s of (e, s') \<Rightarrow>
      mq_ok F m s' \<and> sched_ok {} s' \<and> kpanic s' = kpanic s
      \<and> (if length msg > msg_size (queues s m) then e = - RT_ERROR \<and> s' = s
         else if mq_free (queues s m) = None then e = - RT_EFULL \<and> s' = s
         else e = RT_EOK
           \<and> (\<exists>tail. mq_content (queues s' m) = (if urgent then (msg @ tail) # mq_content (queues s m) else mq_content (queues s m) @ [msg @ tail]))
           \<and> (case tlists s (Suspend (Msq m)) of
                [] \<Rightarrow> tlists s' = tlists s \<and> threads s' = threads s
              | u # us \<Rightarrow> tlists s' (Suspend (Msq m)) = us \<and> state_of s' u \<in> {RT_THREAD_READY, RT_THREAD_RUNNING}))"
proof -
  let ?q = "queues s m" and ?put = "if urgent then mq_put_urgent else mq_put"
  have mq: "is_mq m s" "mq_wf F ?q" using ok by (simp_all add: mq_ok_def)
  consider (long) "msg_size ?q < length msg" | (none) "length msg \<le> msg_size ?q" "mq_free ?q = None"
    | (room) "length msg \<le> msg_size ?q" "mq_free ?q \<noteq> None" by linarith
  then show ?thesis
  proof cases
    case room
    note p = mq_put_facts [OF mq(2) room(2,1)]
    have wf: "mq_wf F (?put msg ?q)" using p(1,5) by simp
    obtain n q1 where a: "mq_alloc ?q = Some (n, q1)" using room(2) by (auto simp: mq_alloc_def)
    define s' where "s' = woken (Suspend (Msq m)) (set_mq m (?put msg ?q) s)"
    have eq: "(if urgent then rt_mq_urgent else rt_mq_send) m msg s = (RT_EOK, s')"
      using mq(1) room(1) a ne
      by (cases urgent) (simp_all add: rt_mq_send_def rt_mq_urgent_def mq_put_def mq_put_urgent_def Let_def woken_def s'_def)
    note x = mq_deliver [OF ok sched c wf, folded s'_def]
    have ct: "\<exists>tail. mq_content (queues s' m) = (if urgent then (msg @ tail) # mq_content ?q else mq_content ?q @ [msg @ tail])"
      unfolding x(4) using p(4,8) by auto
    have w: "case tlists s (Suspend (Msq m)) of [] \<Rightarrow> tlists s' = tlists s \<and> threads s' = threads s
        | u # us \<Rightarrow> tlists s' (Suspend (Msq m)) = us \<and> state_of s' u \<in> {1, 3}"
      using x(5,6) by (simp split: list.split)
    show ?thesis unfolding eq prod.case using x(1-3) room ct w by (simp del: insert_iff)
  qed (use mq sched ok ne in \<open>simp_all add: rt_mq_send_def rt_mq_urgent_def mq_alloc_def\<close>)
qed

text \<open>
  Receiving from a queue that holds messages returns the first one, cut to the receiver's buffer,
  removes it and frees its node.  If the queue is empty, a call without waiting time fails with
  \<^verbatim>\<open>-RT_ETIMEOUT\<close> and changes nothing, and any other call suspends the running thread among the waiting
  receivers.  The invariants of the queue and of the scheduler are kept.
\<close>

theorem message_queue_recv_correct:
  assumes ok: "mq_ok F m s" and b: "can_block s t (Suspend (Msq m)) (obj_flag (objs s (Msq m))) timeout"
    and irq: "interrupt_nest s = 0" and sz: "0 < sz"
  shows "case rt_mq_recv m sz timeout s of (r, s') \<Rightarrow> mq_ok F m s' \<and> sched_ok {} s' \<and> kpanic s' = kpanic s
    \<and> (case mq_content (queues s m) of
         [] \<Rightarrow> queues s' = queues s
           \<and> (if timeout = 0 then r = Returned (- RT_ETIMEOUT, None) \<and> s' = s
              else r = Blocked \<and> state_of s' t = RT_THREAD_SUSPEND
                \<and> tlists s' (Suspend (Msq m)) = wait_insert (obj_flag (objs s (Msq m))) (\<lambda>u. current_priority (threads s u)) t
                    (tlists s (Suspend (Msq m))))
       | msg # msgs \<Rightarrow> r = Returned (RT_EOK, Some (take sz msg)) \<and> mq_content (queues s' m) = msgs \<and> mq_free (queues s' m) \<noteq> None
           \<and> threads s' = threads s \<and> tlists s' = tlists s)"
proof -
  let ?q = "queues s m" and ?f = "obj_flag (objs s (Msq m))"
  have mq: "is_mq m s" "mq_wf F ?q" using ok by (simp_all add: mq_ok_def)
  then obtain qs fs where i: "mq_inv F qs fs ?q" by (auto simp: mq_wf_def)
  have em: "mq_entry ?q = 0 \<longleftrightarrow> mq_content ?q = []" using mq_invD(7) [OF i] mq_content_nodes [OF i] by simp
  note sc = can_blockD(1,2) [OF b]
  have self: "rt_thread_self s = Some t" "in_thread_context s"
    using sc(2) irq by (simp_all add: in_thread_context_def not_in_interrupt_def rt_thread_self_def)
  consider (now) "mq_entry ?q = 0" "timeout = 0" | (wait) "mq_entry ?q = 0" "timeout \<noteq> 0" | (some) "mq_entry ?q \<noteq> 0" by blast
  then show ?thesis
  proof cases
    case now
    then have eq: "rt_mq_recv m sz timeout s = (Returned (- 2, None), s)" using mq(1) sz by (simp add: rt_mq_recv_def)
    have c: "mq_content ?q = []" using em now(1) by blast
    show ?thesis unfolding eq prod.case c list.case using ok sc(1) now(2) by simp
  next
    case wait
    let ?s = "ipc_block (Suspend (Msq m)) t ?f timeout (upd_thread t (\<lambda>x. x\<lparr>error := 0\<rparr>) s)"
    note w = wait_facts [OF b]
    have eq: "rt_mq_recv m sz timeout s = (Blocked, ?s)"
      using wait mq(1) self sz by (simp add: rt_mq_recv_def mq_recv_try_def Let_def)
    have o: "mq_ok F m ?s"
    proof (rule mq_okI [OF ok w(7,6)])
      show "mq_wf F (queues ?s m)" using mq(2) by simp
    qed (rule w(5) [OF wait_queue_ref(1)])
    have c: "mq_content ?q = []" using em wait(1) by blast
    show ?thesis unfolding eq prod.case c list.case using o w(1-4) wait(2) by simp
  next
    case some
    obtain n q1 where g: "mq_unlink ?q = Some (n, q1)" "mq_wf F (mq_release n q1)" "max_msgs (mq_release n q1) = max_msgs ?q"
      "msg_size q1 = msg_size ?q" "mq_content ?q = mq_data q1 n # mq_content (mq_release n q1)" "length (mq_data q1 n) = msg_size ?q"
      "mq_free (mq_release n q1) \<noteq> None"
      by (rule mq_get_facts [OF mq(2) some])
    have rd: "mq_read n sz q1 = take sz (mq_data q1 n)" using g(4,6) by (simp add: mq_read_def)
    have eq: "rt_mq_recv m sz timeout s = (Returned (0, Some (take sz (mq_data q1 n))), set_mq m (mq_release n q1) s)"
      using some mq(1) g(1) sz rd by (simp add: rt_mq_recv_def mq_recv_try_def)
    have o: "mq_ok F m (set_mq m (mq_release n q1) s)" by (rule mq_okI [OF ok]) (use g(2) in simp_all)
    show ?thesis unfolding eq prod.case g(5) list.case using o g(7) sc(1) by simp
  qed
qed

section \<open>Reset\<close>

lemma mq_drain_inv:
  assumes "mq_inv F qs fs (q\<lparr>mq_entry := length qs\<rparr>)"
  shows "\<exists>q'. mq_drain q = Some q' \<and> mq_inv F [] (rev qs @ fs) (q'\<lparr>mq_entry := 0\<rparr>)"
  using assms
proof (induction qs arbitrary: q fs)
  case Nil
  then have "mq_head q = None" using mq_invD(1) [OF Nil] by simp
  then show ?case using Nil by (simp add: mq_drain.simps)
next
  case (Cons n qs)
  note b = mq_behead_inv [OF Cons.prems]
  have h: "mq_head q = Some n" using mq_invD(1) [OF Cons.prems] by simp
  have e: "(mq_behead n (q\<lparr>mq_entry := length (n # qs)\<rparr>))\<lparr>mq_entry := length qs\<rparr> = (mq_behead n q)\<lparr>mq_entry := length qs\<rparr>"
    by (simp add: mq_behead_def Let_def)
  have F: "insert n F - {n} = F" using b(5) by simp
  have "mq_inv F qs (n # fs) (mq_release n ((mq_behead n q)\<lparr>mq_entry := length qs\<rparr>))"
    using mq_release_inv(1) [OF b(1) insertI1] unfolding F e .
  then have "mq_inv F qs (n # fs) ((mq_release n (mq_behead n q))\<lparr>mq_entry := length qs\<rparr>)"
    by (simp add: mq_inv_def mq_release_def)
  then show ?case using Cons.IH h by (simp add: mq_drain.simps [of q])
qed

text \<open>
  Resetting a message queue ends.  It wakes every waiting receiver with the error \<^verbatim>\<open>-RT_ERROR\<close>,
  drops the messages and returns all their nodes to the free list, and keeps the invariants.
\<close>

theorem message_queue_reset:
  assumes ok: "mq_ok F m s" and sched: "sched_ok {} s" and c: "current s = Some c"
  shows "\<exists>s'. rt_mq_control m (Ipc_reset v) s = Some (RT_EOK, s') \<and> mq_ok F m s' \<and> sched_ok {} s' \<and> kpanic s' = kpanic s
    \<and> mq_content (queues s' m) = [] \<and> tlists s' (Suspend (Msq m)) = []
    \<and> (0 < length (mq_content (queues s m)) \<longrightarrow> mq_free (queues s' m) \<noteq> None)
    \<and> (\<forall>u \<in> set (tlists s (Suspend (Msq m))). error (threads s' u) = - RT_ERROR \<and> state_of s' u \<in> {RT_THREAD_READY, RT_THREAD_RUNNING})"
proof -
  let ?w = "Suspend (Msq m)"
  have mq: "is_mq m s" "mq_wf F (queues s m)" and th: "\<forall>u \<in> set (tlists s ?w). thread_ok u s" using ok by (simp_all add: mq_ok_def)
  obtain s1 where s1: "rt_ipc_list_resume_all ?w s = Some s1" "all_woken ?w s s1"
    using resume_all_woken [OF sched wait_queue_ref(1) th] by blast
  have fr: "ipc_frame s s1" and sc1: "sched_ok {} s1" and l1: "tlists s1 ?w = []"
    and wk: "\<And>u. u \<in> set (tlists s ?w) \<Longrightarrow> state_of s1 u \<in> {1, 3} \<and> error (threads s1 u) = - 1"
    using s1(2) by (simp_all add: all_woken_def)
  note f = ipc_frameD [OF fr]
  obtain qs fs where i: "mq_inv F qs fs (queues s m)" using mq(2) by (auto simp: mq_wf_def)
  then have "mq_inv F qs fs ((queues s1 m)\<lparr>mq_entry := length qs\<rparr>)" using mq_invD(7) [OF i] f(5) by (simp add: mq_inv_def)
  from mq_drain_inv [OF this] obtain q where q: "mq_drain (queues s1 m) = Some q" "mq_inv F [] (rev qs @ fs) (q\<lparr>mq_entry := 0\<rparr>)" by blast
  let ?s2 = "set_mq m (q\<lparr>mq_entry := 0\<rparr>) s1"
  have c2: "current ?s2 = Some c" and sc2: "sched_ok {} ?s2" using c f(6) sc1 by simp_all
  have eq: "rt_mq_control m (Ipc_reset v) s = Some (0, rt_schedule ?s2)" using mq(1) s1(1) q(1) by (simp add: rt_mq_control_def)
  have l: "tlists (rt_schedule ?s2) ?w = []" using schedule_wait_queue [OF sc2 c2, of ?w] l1 by simp
  have o: "mq_ok F m (rt_schedule ?s2)"
  proof (rule mq_okI [OF ok])
    show "mq_wf F (queues (rt_schedule ?s2) m)" using q(2) by (auto simp: mq_wf_def)
  qed (use f l in simp_all)
  have fr2: "mq_free (q\<lparr>mq_entry := 0\<rparr>) \<noteq> None" if "qs \<noteq> []" using mq_alloc_none [OF q(2)] that by simp
  have st: "state_of (rt_schedule ?s2) u \<in> {1, 3}" if "u \<in> set (tlists s ?w)" for u
    using rt_schedule_state [OF sc2 c2, of u] wk [OF that] by auto
  show ?thesis
    using eq o l rt_schedule_ok(1,2) [OF sc2 c2] f(10) wk st fr2 mq_content_nodes [OF q(2)] mq_content_nodes [OF i]
    by (intro exI [of _ "rt_schedule ?s2"]) simp
qed

section \<open>The concrete system\<close>

text \<open>Message queue 8 with two nodes of four bytes, one of them used, and thread 3 waiting in queue \<open>k\<close>.\<close>

definition demo_mq :: rt_messagequeue where
  "demo_mq = mq_put [1, 2, 3, 4] (fresh_mq 4096 (\<lambda>_. [0, 0, 0, 0]) 4 2)"

definition demo_msgs :: "thread_queue \<Rightarrow> kernel" where
  "demo_msgs k = set_mq 8 demo_mq (demo_waits k)"

lemma demo_mq_ok: "mq_wf {} demo_mq" "mq_content demo_mq = [[1, 2, 3, 4]]" "msg_size demo_mq = 4" "mq_free demo_mq \<noteq> None"
proof -
  let ?q = "fresh_mq 4096 (\<lambda>_. [0, 0, 0, 0]) 4 2"
  have i: "mq_inv {} [] (rev [0..<2]) ?q" by (rule fresh_mq_inv) simp_all
  then have w: "mq_wf {} ?q" by (auto simp: mq_wf_def)
  have n: "mq_free ?q \<noteq> None" using mq_alloc_none [OF i] by simp
  have z: "msg_size ?q = 4" "max_msgs ?q = 2" by (simp_all add: fresh_mq_def mq_release_def numeral_2_eq_2)
  note p = mq.put_ok [OF w n, of "[1, 2, 3, 4]"] mq.put_content [OF w n, of "[1, 2, 3, 4]"] mq.put_capacity [OF w n, of "[1, 2, 3, 4]"]
  show "mq_wf {} demo_mq" "mq_content demo_mq = [[1, 2, 3, 4]]"
    using p z mq_content_nodes [OF i] by (simp_all add: demo_mq_def)
  then show "mq_free demo_mq \<noteq> None" using mq.full_iff [of demo_mq] p(3) z by (simp add: demo_mq_def)
  show "msg_size demo_mq = 4" using mq_put_facts(3) [OF w n, of "[1, 2, 3, 4]"] z by (simp add: demo_mq_def)
qed

lemma demo_msgs_ok:
  assumes "wait_queue k"
  shows "mq_ok {} 8 (demo_msgs k)" "sched_ok {} (demo_msgs k)" "current (demo_msgs k) = Some 1" "queues (demo_msgs k) 8 = demo_mq"
    "tlists (demo_msgs k) j = (if j = Ready 5 then [2] else if j = k then [3] else [])"
  using demo_mq_ok(1) demo_waits_sched [OF assms] demo_waits_lists [OF assms]
  by (simp_all add: demo_msgs_def mq_ok_def is_mq_def rt_object_get_type_def demo_types)

theorem message_queue_send_correct_witness:
  "\<exists>tail. mq_content (queues (snd (rt_mq_urgent 8 [9] (demo_msgs (Suspend (Msq 8))))) 8) = [9 # tail, [1, 2, 3, 4]]"
  using message_queue_send_correct [OF demo_msgs_ok(1-3) [OF wait_queue_ref(1) [of "Msq 8"]], of "[9]" True]
  by (simp add: case_prod_beta demo_msgs_ok demo_mq_ok del: not_None_eq)

theorem message_queue_reset_witness:
  "\<exists>s'. rt_mq_control 8 (Ipc_reset 0) (demo_msgs (Suspend (Msq 8))) = Some (0, s') \<and> mq_content (queues s' 8) = []
     \<and> error (threads s' 3) = - 1"
  using message_queue_reset [OF demo_msgs_ok(1-3) [OF wait_queue_ref(1) [of "Msq 8"]], of 0] by (auto simp: demo_msgs_ok)

theorem message_queue_recv_correct_witness:
  "fst (rt_mq_recv 8 2 100 (demo_msgs (Suspend (Sem 7)))) = Returned (0, Some [1, 2])"
proof -
  let ?s = "demo_msgs (Suspend (Sem 7))"
  have "state_of ?s 1 = 3" by (simp add: demo_msgs_def state_of_def demo_waits_def) (simp add: demo_system_ok flip: state_of_def)
  moreover have "waiter_ok 1 ?s" using demo_waiter(1) [of 1] by (simp add: waiter_ok_def demo_msgs_def soft_timer_def timer_flag_def)
  ultimately have "can_block ?s 1 (Suspend (Msq 8)) 0 100" using demo_msgs_ok [OF wait_queue_ref(1) [of "Sem 7"]] by (simp add: can_block_def)
  moreover have "obj_flag (objs ?s (Msq 8)) = 0" "interrupt_nest ?s = 0" by (simp_all add: demo_msgs_def demo_waiter) (simp add: set_mq_def)
  ultimately show ?thesis
    using message_queue_recv_correct [OF demo_msgs_ok(1) [OF wait_queue_ref(1) [of "Sem 7"]], of 1 100 2] demo_mq_ok(2)
    by (simp add: case_prod_beta demo_msgs_ok(4))
qed

theorem message_queue_interleaved_witness:
  "\<exists>q. mq_reach (fresh_mq 4096 (\<lambda>_. [0, 0, 0, 0]) 4 2) q ((\<lambda>_. None)(1 := Some Claimed, 1 := Some (Written [7, 8]), 1 := None)) [[7, 8]]
     \<and> mq_entry q = 1"
proof -
  let ?q0 = "fresh_mq 4096 (\<lambda>_. [0, 0, 0, 0]) 4 2" and ?f = "(\<lambda>_. None)(1 := Some Claimed) :: nat \<Rightarrow> node_use option"
  let ?q1 = "?q0\<lparr>mq_free := mq_next ?q0 1\<rparr>"
  have "mq_free ?q0 = Some 1" "msg_size ?q0 = 4" by (simp_all add: fresh_mq_def mq_release_def numeral_2_eq_2)
  then have "mq_alloc ?q0 = Some (1, ?q1)" and z: "msg_size ?q1 = 4" by (simp_all add: mq_alloc_def)
  then have "mq_reach ?q0 ?q1 ?f []" by (intro mq_reach.Claim [OF mq_reach.Start])
  then have "mq_reach ?q0 (mq_fill 1 [7, 8] (mq_seal 1 ?q1)) (?f(1 := Some (Written [7, 8]))) []"
    by (rule mq_reach.Write) (use z in simp_all)
  then have "mq_reach ?q0 (mq_link 1 (mq_fill 1 [7, 8] (mq_seal 1 ?q1))) (?f(1 := Some (Written [7, 8]), 1 := None)) ([] @ [[7, 8]])"
    by (rule mq_reach.Link) simp
  then have r: "mq_reach ?q0 (mq_link 1 (mq_fill 1 [7, 8] (mq_seal 1 ?q1))) (?f(1 := Some (Written [7, 8]), 1 := None)) [[7, 8]]" by simp
  from message_queue_interleaved [OF this] r show ?thesis by (intro exI) auto
qed

end
