(* ===== verification/RT_Mempool.thy ===== *)
theory RT_Mempool
  imports RT_Sem
begin

text \<open>
  The memory pools of \<^verbatim>\<open>src/mempool.c\<close>: blocks of one size, each with a word in front that links the free
  blocks and names the pool of an allocated block.  Addresses are naturals, and 0 is the null pointer.
\<close>

section \<open>Operations\<close>

definition is_mp :: "nat \<Rightarrow> kernel \<Rightarrow> bool" where
  "is_mp m s \<longleftrightarrow> rt_object_get_type (Mpl m) s = RT_Object_Class_MemPool"

definition upd_mp :: "nat \<Rightarrow> (rt_mempool \<Rightarrow> rt_mempool) \<Rightarrow> kernel \<Rightarrow> kernel" where
  "upd_mp m f s = s\<lparr>mempools := (mempools s)(m := f (mempools s m))\<rparr>"

definition set_word :: "nat \<Rightarrow> nat \<Rightarrow> kernel \<Rightarrow> kernel" where
  "set_word a v s = s\<lparr>block_words := (block_words s)(a := v)\<rparr>"

text \<open>
  The address of a block, the loop that links the blocks, and the null pointer written into the last
  one.  A pool without blocks has no last one: the write goes to an address before the pool.
\<close>

definition block_addr :: "nat \<Rightarrow> nat \<Rightarrow> nat \<Rightarrow> nat" where
  "block_addr start stride i = wadd start (wmul i stride)"

definition mp_link_blocks :: "nat \<Rightarrow> nat \<Rightarrow> nat \<Rightarrow> kernel \<Rightarrow> kernel" where
  "mp_link_blocks start stride cnt s =
     (if cnt = 0 then panic s
      else set_word (block_addr start stride (cnt - 1)) 0
             (fold (\<lambda>i. set_word (block_addr start stride i) (block_addr start stride (i + 1))) [0..<cnt] s))"

definition rt_mp_init :: "nat \<Rightarrow> string \<Rightarrow> nat \<Rightarrow> nat \<Rightarrow> nat \<Rightarrow> kernel \<Rightarrow> rt_err_t \<times> kernel" where
  "rt_mp_init m name start sz bsz s =
     (let s1 = rt_object_init (Mpl m) RT_Object_Class_MemPool name s;
          b = rt_align bsz
      in if wadd b 4 = 0 then (RT_EOK, panic s1)
         else
           (let cnt = rt_align_down sz div wadd b 4;
                s2 = upd_mp m (\<lambda>_. \<lparr>start_address = start, mp_size = rt_align_down sz, block_size = b, block_list = start,
                       block_total_count = cnt, block_free_count = cnt, suspend_thread_count = 0\<rparr>) s1;
                s3 = upd_tlists (\<lambda>S. S(Suspend (Mpl m) := [])) s2
            in (RT_EOK, mp_link_blocks start (wadd b 4) cnt s3)))"

text \<open>Waking all waiting threads, with an error: the loop of \<^verbatim>\<open>rt_mp_detach\<close> and \<^verbatim>\<open>rt_mp_delete\<close>.\<close>

partial_function (option) mp_wake_all :: "nat \<Rightarrow> kernel \<Rightarrow> kernel option" where
  [code]: "mp_wake_all m s =
     (case tlists s (Suspend (Mpl m)) of
        [] \<Rightarrow> Some s
      | t # _ \<Rightarrow>
          mp_wake_all m
            (upd_mp m (\<lambda>p. p\<lparr>suspend_thread_count := wsub (suspend_thread_count p) 1\<rparr>)
              (snd (rt_thread_resume t (upd_thread t (\<lambda>x. x\<lparr>error := - RT_ERROR\<rparr>) s)))))"

definition rt_mp_detach :: "nat \<Rightarrow> kernel \<Rightarrow> (rt_err_t \<times> kernel) option" where
  "rt_mp_detach m s =
     (if \<not> is_mp m s \<or> \<not> rt_object_is_systemobject (Mpl m) s then Some (RT_EOK, panic s)
      else map_option (\<lambda>s1. (RT_EOK, rt_object_detach (Mpl m) s1)) (mp_wake_all m s))"

definition rt_mp_create :: "string \<Rightarrow> nat \<Rightarrow> nat \<Rightarrow> kernel \<Rightarrow> nat option \<times> kernel" where
  "rt_mp_create name cnt bsz s =
     (if \<not> not_in_interrupt s then (None, panic s)
      else case rt_object_allocate RT_Object_Class_MemPool name s of
          (None, s1) \<Rightarrow> (None, s1)
        | (Some r, s1) \<Rightarrow>
            (let m = ref_addr r; b = rt_align bsz; sz = wmul (wadd b 4) cnt
             in case kernel_malloc sz s1 of
                  (None, s2) \<Rightarrow> (None, rt_object_delete (Mpl m) s2)
                | (Some a, s2) \<Rightarrow>
                    (let s3 = upd_mp m (\<lambda>_. \<lparr>start_address = a, mp_size = sz, block_size = b, block_list = a,
                                block_total_count = cnt, block_free_count = cnt, suspend_thread_count = 0\<rparr>) s2;
                         s4 = upd_tlists (\<lambda>S. S(Suspend (Mpl m) := [])) s3
                     in (Some m, mp_link_blocks a (wadd b 4) cnt s4))))"

definition rt_mp_delete :: "nat \<Rightarrow> kernel \<Rightarrow> (rt_err_t \<times> kernel) option" where
  "rt_mp_delete m s =
     (if \<not> not_in_interrupt s \<or> \<not> is_mp m s \<or> rt_object_is_systemobject (Mpl m) s then Some (RT_EOK, panic s)
      else
        map_option (\<lambda>s1. (RT_EOK, rt_object_delete (Mpl m) (kernel_free (start_address (mempools s1 m)) s1)))
          (mp_wake_all m s))"

text \<open>The running thread goes to wait, in front of the others.\<close>

definition mp_block :: "nat \<Rightarrow> nat \<Rightarrow> int \<Rightarrow> kernel \<Rightarrow> kernel" where
  "mp_block m t time s =
     rt_schedule (start_wait_timer t time
       (upd_mp m (\<lambda>p. p\<lparr>suspend_thread_count := wadd (suspend_thread_count p) 1\<rparr>)
         (upd_tlists (list_insert_after (Suspend (Mpl m)) t) (snd (rt_thread_suspend t s)))))"

text \<open>Taking the first free block.\<close>

definition mp_take :: "nat \<Rightarrow> kernel \<Rightarrow> nat option outcome \<times> kernel" where
  "mp_take m s =
     (let s1 = upd_mp m (\<lambda>p. p\<lparr>block_free_count := block_free_count p - 1\<rparr>) s;
          b = block_list (mempools s1 m)
      in if b = 0 then (Returned None, panic s1)
         else
           (let s2 = upd_mp m (\<lambda>p. p\<lparr>block_list := block_words s1 b\<rparr>) s1
            in (Returned (Some (b + 4)), set_word b m s2)))"

text \<open>One turn of the loop of an allocation by the thread \<open>self\<close>.\<close>

definition mp_alloc_try :: "nat \<Rightarrow> int \<Rightarrow> nat option \<Rightarrow> kernel \<Rightarrow> nat option outcome \<times> kernel" where
  "mp_alloc_try m time self s =
     (if block_free_count (mempools s m) = 0 then
        (if time = 0 then (Returned None, rt_set_errno (- RT_ETIMEOUT) s)
         else if \<not> not_in_interrupt s then (Returned None, panic s)
         else case self of
             None \<Rightarrow> (Returned None, panic s)
           | Some t \<Rightarrow> (Blocked, mp_block m t time (upd_thread t (\<lambda>x. x\<lparr>error := RT_EOK\<rparr>) s)))
      else mp_take m s)"

definition rt_mp_alloc :: "nat \<Rightarrow> int \<Rightarrow> kernel \<Rightarrow> nat option outcome \<times> kernel" where
  "rt_mp_alloc m time s = mp_alloc_try m time (rt_thread_self s) s"

definition rt_mp_alloc_end :: "nat \<Rightarrow> int \<Rightarrow> u32 \<Rightarrow> nat \<Rightarrow> kernel \<Rightarrow> nat option outcome \<times> kernel" where
  "rt_mp_alloc_end m time start t s =
     (if error (threads s t) \<noteq> RT_EOK then (Returned None, s)
      else mp_alloc_try m (left_time time start (rt_tick s)) (Some t) s)"

text \<open>
  Freeing a block: the word in front of it names the pool.  If the counter says that threads wait, the
  first one is woken; with an empty wait queue the list head is taken for a thread.
\<close>

definition mp_put_back :: "nat \<Rightarrow> nat \<Rightarrow> kernel \<Rightarrow> kernel" where
  "mp_put_back m b s =
     (let s1 = upd_mp m (\<lambda>p. p\<lparr>block_free_count := wadd (block_free_count p) 1\<rparr>) s
      in upd_mp m (\<lambda>p. p\<lparr>block_list := b\<rparr>) (set_word b (block_list (mempools s1 m)) s1))"

definition rt_mp_free :: "nat \<Rightarrow> kernel \<Rightarrow> kernel" where
  "rt_mp_free block s =
     (if block < 4 then panic s
      else
        (let b = block - 4; m = block_words s b; s1 = mp_put_back m b s
         in if suspend_thread_count (mempools s1 m) > 0 then
              (case tlists s1 (Suspend (Mpl m)) of
                 [] \<Rightarrow> panic s1
               | t # _ \<Rightarrow>
                   rt_schedule
                     (upd_mp m (\<lambda>p. p\<lparr>suspend_thread_count := suspend_thread_count p - 1\<rparr>)
                       (snd (rt_thread_resume t (upd_thread t (\<lambda>x. x\<lparr>error := RT_EOK\<rparr>) s1)))))
            else s1))"

section \<open>The blocks of a pool\<close>

lemma upd_mp_sel [simp]:
  "mempools (upd_mp m f s) = (mempools s)(m := f (mempools s m))" "block_words (upd_mp m f s) = block_words s"
  "threads (upd_mp m f s) = threads s" "tlists (upd_mp m f s) = tlists s" "objs (upd_mp m f s) = objs s"
  "current (upd_mp m f s) = current s" "kpanic (upd_mp m f s) = kpanic s" "sched_ok X (upd_mp m f s) = sched_ok X s"
  "state_of (upd_mp m f s) = state_of s" "thread_ok u (upd_mp m f s) = thread_ok u s" "waiter_ok u (upd_mp m f s) = waiter_ok u s"
  by (simp_all add: upd_mp_def state_of_def fun_eq_iff waiter_ok_def thread_ok_def is_thread_def is_timer_def rt_object_get_type_def
      rt_object_is_systemobject_def soft_timer_def timer_flag_def)

lemma thread_ok_thread [simp]: "thread_ok u (upd_thread t f s) = thread_ok u s" "thread_ok u (upd_tlists g s) = thread_ok u s"
  by (simp_all add: thread_ok_def)

lemma set_word_sel [simp]:
  "block_words (set_word a v s) = (block_words s)(a := v)" "mempools (set_word a v s) = mempools s"
  "threads (set_word a v s) = threads s" "tlists (set_word a v s) = tlists s" "objs (set_word a v s) = objs s"
  "current (set_word a v s) = current s" "kpanic (set_word a v s) = kpanic s" "sched_ok X (set_word a v s) = sched_ok X s"
  "state_of (set_word a v s) = state_of s" "thread_ok u (set_word a v s) = thread_ok u s"
  by (simp_all add: set_word_def state_of_def fun_eq_iff thread_ok_def is_thread_def is_timer_def rt_object_get_type_def
      rt_object_is_systemobject_def)

text \<open>The blocks of a pool, and its free blocks in the order of the list.\<close>

definition pool_blocks :: "rt_mempool \<Rightarrow> nat set" where
  "pool_blocks p = (\<lambda>i. start_address p + i * (block_size p + 4)) ` {..<block_total_count p}"

fun addr_chain :: "(nat \<Rightarrow> nat) \<Rightarrow> nat \<Rightarrow> nat list \<Rightarrow> bool" where
  "addr_chain w a [] \<longleftrightarrow> a = 0"
| "addr_chain w a (b # bs) \<longleftrightarrow> a = b \<and> b \<noteq> 0 \<and> addr_chain w (w b) bs"

fun addr_nodes :: "(nat \<Rightarrow> nat) \<Rightarrow> nat \<Rightarrow> nat \<Rightarrow> nat list" where
  "addr_nodes w 0 a = []"
| "addr_nodes w (Suc k) a = a # addr_nodes w k (w a)"

definition mp_free_blocks :: "nat \<Rightarrow> kernel \<Rightarrow> nat list" where
  "mp_free_blocks m s = addr_nodes (block_words s) (block_free_count (mempools s m)) (block_list (mempools s m))"

lemma addr_chain_nodes: "addr_chain w a bs \<Longrightarrow> addr_nodes w (length bs) a = bs"
  by (induction bs arbitrary: a) simp_all

lemma addr_chain_upd [simp]: "b \<notin> set bs \<Longrightarrow> addr_chain (w(b := v)) a bs = addr_chain w a bs"
  by (induction bs arbitrary: a) auto

definition mp_inv :: "nat list \<Rightarrow> nat \<Rightarrow> kernel \<Rightarrow> bool" where
  "mp_inv bs m s \<longleftrightarrow>
     (let p = mempools s m
      in 0 < start_address p \<and> (block_size p + 4) * block_total_count p \<le> mp_size p \<and> start_address p + mp_size p \<le> 2 ^ 32
         \<and> addr_chain (block_words s) (block_list p) bs \<and> distinct bs \<and> set bs \<subseteq> pool_blocks p \<and> length bs = block_free_count p
         \<and> (\<forall>b \<in> pool_blocks p - set bs. block_words s b = m))"

lemma mp_invD:
  assumes "mp_inv bs m s"
  shows "0 < start_address (mempools s m)" "(block_size (mempools s m) + 4) * block_total_count (mempools s m) \<le> mp_size (mempools s m)"
    "start_address (mempools s m) + mp_size (mempools s m) \<le> 2 ^ 32" "addr_chain (block_words s) (block_list (mempools s m)) bs"
    "distinct bs" "set bs \<subseteq> pool_blocks (mempools s m)" "length bs = block_free_count (mempools s m)"
    "b \<in> pool_blocks (mempools s m) \<Longrightarrow> b \<notin> set bs \<Longrightarrow> block_words s b = m"
  using assms by (simp_all add: mp_inv_def Let_def)

lemma mp_inv_free: "mp_inv bs m s \<Longrightarrow> mp_free_blocks m s = bs"
  using addr_chain_nodes [OF mp_invD(4)] mp_invD(7) by (simp add: mp_free_blocks_def)

lemma mp_inv_cong:
  "mempools s' m = mempools s m \<Longrightarrow> block_words s' = block_words s \<Longrightarrow> mp_inv bs m s' = mp_inv bs m s"
  by (simp add: mp_inv_def)

lemma pool_blocks_pos: "0 < start_address p \<Longrightarrow> b \<in> pool_blocks p \<Longrightarrow> 0 < b"
  by (auto simp: pool_blocks_def)

lemma mp_inv_count: "mp_inv bs m s \<Longrightarrow> b \<in> pool_blocks (mempools s m) \<Longrightarrow> b \<notin> set bs \<Longrightarrow> block_free_count (mempools s m) + 1 < 2 ^ 32"
proof -
  assume i: "mp_inv bs m s" and b: "b \<in> pool_blocks (mempools s m)" "b \<notin> set bs"
  let ?p = "mempools s m"
  have "finite (pool_blocks ?p)" "card (pool_blocks ?p) \<le> block_total_count ?p"
    using card_image_le [of "{..<block_total_count ?p}"] by (simp_all add: pool_blocks_def)
  moreover have "card (insert b (set bs)) \<le> card (pool_blocks ?p)"
    using calculation(1) mp_invD(6) [OF i] b(1) by (intro card_mono) auto
  moreover have "card (insert b (set bs)) = block_free_count ?p + 1"
    using b(2) mp_invD(7) [OF i] distinct_card [OF mp_invD(5) [OF i]] by simp
  moreover have "4 * block_total_count ?p \<le> (block_size ?p + 4) * block_total_count ?p" by simp
  ultimately show ?thesis using mp_invD(2,3) [OF i] by linarith
qed

lemma mp_take_inv:
  assumes i: "mp_inv (b # bs) m s"
  shows "fst (mp_take m s) = Returned (Some (b + 4))" "mp_inv bs m (snd (mp_take m s))" "threads (snd (mp_take m s)) = threads s"
    "tlists (snd (mp_take m s)) = tlists s" "objs (snd (mp_take m s)) = objs s" "sched_ok X (snd (mp_take m s)) = sched_ok X s"
    "kpanic (snd (mp_take m s)) = kpanic s" "suspend_thread_count (mempools (snd (mp_take m s)) m) = suspend_thread_count (mempools s m)"
    "thread_ok u (snd (mp_take m s)) = thread_ok u s"
proof -
  note d = mp_invD [OF i]
  let ?p = "mempools s m"
  have l: "block_list ?p = b" "b \<noteq> 0" using d(4) by simp_all
  have eq: "mp_take m s = (Returned (Some (b + 4)), set_word b m (upd_mp m (\<lambda>p. p\<lparr>block_list := block_words s b\<rparr>)
      (upd_mp m (\<lambda>p. p\<lparr>block_free_count := block_free_count p - 1\<rparr>) s)))"
    using l by (simp add: mp_take_def Let_def)
  show "mp_inv bs m (snd (mp_take m s))" using d(1-7) i by (auto simp: eq mp_inv_def Let_def pool_blocks_def)
qed (use mp_invD(4) [OF i] in \<open>simp_all add: mp_take_def Let_def\<close>)

lemma mp_put_back_inv:
  assumes i: "mp_inv bs m s" and b: "b \<in> pool_blocks (mempools s m)" "b \<notin> set bs"
  shows "mp_inv (b # bs) m (mp_put_back m b s)"
proof -
  note d = mp_invD [OF i]
  have "wadd (block_free_count (mempools s m)) 1 = Suc (block_free_count (mempools s m))"
    using mp_inv_count [OF i b] by (simp add: wrap_simps)
  then show ?thesis using d b pool_blocks_pos [OF d(1) b(1)] by (auto simp: mp_inv_def mp_put_back_def Let_def pool_blocks_def)
qed

lemma mp_put_back_sel [simp]:
  "threads (mp_put_back m b s) = threads s" "tlists (mp_put_back m b s) = tlists s" "objs (mp_put_back m b s) = objs s"
  "current (mp_put_back m b s) = current s" "kpanic (mp_put_back m b s) = kpanic s" "sched_ok X (mp_put_back m b s) = sched_ok X s"
  "thread_ok u (mp_put_back m b s) = thread_ok u s" "state_of (mp_put_back m b s) = state_of s"
  "suspend_thread_count (mempools (mp_put_back m b s) m) = suspend_thread_count (mempools s m)"
  "pool_blocks (mempools (mp_put_back m b s) m) = pool_blocks (mempools s m)"
  by (simp_all add: mp_put_back_def Let_def pool_blocks_def)

section \<open>Setting up a pool\<close>

lemma link_loop_words:
  assumes inj: "\<And>i j. i < cnt \<Longrightarrow> j < cnt \<Longrightarrow> f i = f j \<Longrightarrow> i = j" and "k \<le> cnt"
  shows "i < k \<Longrightarrow> block_words (fold (\<lambda>i. set_word (f i) (g i)) [0..<k] s) (f i) = g i"
  using assms(2)
proof (induction k)
  case (Suc k)
  then show ?case using inj [of i k] by (cases "i = k") auto
qed simp

lemma link_loop_frame:
  "mempools (fold (\<lambda>i. set_word (f i) (g i)) xs s) = mempools s" "sched_ok X (fold (\<lambda>i. set_word (f i) (g i)) xs s) = sched_ok X s"
  "tlists (fold (\<lambda>i. set_word (f i) (g i)) xs s) = tlists s" "kpanic (fold (\<lambda>i. set_word (f i) (g i)) xs s) = kpanic s"
  "objs (fold (\<lambda>i. set_word (f i) (g i)) xs s) = objs s"
  by (induction xs arbitrary: s) simp_all

lemma addr_chain_upt:
  assumes "\<And>i. i < n \<Longrightarrow> w (f i) = (if i = n - 1 then 0 else f (Suc i))" "\<And>i. i < n \<Longrightarrow> f i \<noteq> 0" "k < n"
  shows "addr_chain w (f k) (map f [k..<n])"
  using assms(3)
proof (induction "n - k" arbitrary: k)
  case (Suc d)
  show ?case
  proof (cases "Suc k < n")
    case True
    have "addr_chain w (f (Suc k)) (map f [Suc k..<n])" using Suc.hyps(1) [of "Suc k"] Suc.hyps(2) True by simp
    moreover have "k \<noteq> n - 1" using True by linarith
    then have "w (f k) = f (Suc k)" using assms(1) [OF Suc.prems] by (simp only: if_False)
    ultimately show ?thesis using assms(2) [of k] Suc.prems by (simp add: upt_conv_Cons)
  next
    case False
    then have "[k..<n] = [k]" using Suc.prems by (simp add: upt_conv_Cons)
    moreover have "k = n - 1" using False Suc.prems by linarith
    then have "w (f k) = 0" using assms(1) [OF Suc.prems] by (simp only: if_True refl)
    ultimately show ?thesis using assms(2) [OF Suc.prems] by simp
  qed
qed simp

lemma align_down_full:
  assumes "b mod 4 = 0"
  shows "sz < (rt_align_down sz div (b + 4) + 1) * (b + 4)"
proof -
  obtain q where q: "b = 4 * q" using assms by auto
  have d: "rt_align_down sz div (b + 4) = sz div 4 div (q + 1)"
    using div_mult_mult1 [of 4 "sz div 4" "q + 1"] by (simp add: rt_align_down_def q mult.commute add.commute)
  have "sz div 4 < (sz div 4 div (q + 1) + 1) * (q + 1)"
    using dividend_less_div_times [of "q + 1" "sz div 4"] by (simp add: algebra_simps)
  then have "sz < 4 * ((sz div 4 div (q + 1) + 1) * (q + 1))" by linarith
  then show ?thesis unfolding d by (simp add: q algebra_simps)
qed


section \<open>Allocating and freeing\<close>

definition mp_ok :: "nat \<Rightarrow> kernel \<Rightarrow> bool" where
  "mp_ok m s \<longleftrightarrow> mp_inv (mp_free_blocks m s) m s \<and> suspend_thread_count (mempools s m) = length (tlists s (Suspend (Mpl m)))
     \<and> (\<forall>u \<in> set (tlists s (Suspend (Mpl m))). thread_ok u s)"

lemma mp_okI:
  assumes "mp_inv bs m s'" "suspend_thread_count (mempools s' m) = length (tlists s' (Suspend (Mpl m)))"
    "\<And>u. u \<in> set (tlists s' (Suspend (Mpl m))) \<Longrightarrow> thread_ok u s'"
  shows "mp_ok m s'" "mp_free_blocks m s' = bs"
  using assms mp_inv_free [OF assms(1)] by (simp_all add: mp_ok_def)

lemma mp_block_facts:
  assumes b: "can_block s t (Suspend (Mpl m)) 0 time"
  defines "s' \<equiv> mp_block m t time s"
  shows "sched_ok {} s'" "kpanic s' = kpanic s" "state_of s' t = RT_THREAD_SUSPEND"
    "tlists s' (Suspend (Mpl m)) = t # tlists s (Suspend (Mpl m))" "thread_ok u s' = thread_ok u s" "block_words s' = block_words s"
    "mempools s' = (mempools s)(m := (mempools s m)\<lparr>suspend_thread_count := wadd (suspend_thread_count (mempools s m)) 1\<rparr>)"
proof -
  let ?q = "Suspend (Mpl m)" and ?f = "\<lambda>p. p\<lparr>suspend_thread_count := wadd (suspend_thread_count p) 1\<rparr>"
  define s1 where "s1 = upd_tlists (list_insert_after ?q t) (suspended t s)"
  note su = suspended_sel [OF b]
  have so: "sched_ok {} (suspended t s)" using rt_thread_suspend_facts(1) [OF can_blockD(1,8,9) [OF b]] by (simp add: suspended_def)
  have dt: "detached t (tlists (suspended t s))" using running_detached [OF can_blockD(1) [OF b] _ can_blockD(3) [OF b]] su(1) by simp
  have e1: "s1 = upd_tlists (\<lambda>S. S(?q := [] @ t # tlists s ?q)) (suspended t s)"
    by (simp add: s1_def list_insert_after_def upd_tlists_def su(1))
  have ok: "sched_ok {} s1" by (rule sched_ok_enqueue [OF so dt _ _ _ e1]) (simp_all add: su(1,6))
  have "waiter_ok t s1" using can_blockD(4) [OF b] by (simp add: waiter_ok_def s1_def su(16,17))
  then have w: "waiter_ok t (upd_mp m ?f s1)" by simp
  define s2 where "s2 = (if 0 < time then wait_armed t time (upd_mp m ?f s1) else upd_mp m ?f s1)"
  have eq: "s' = rt_schedule s2"
    using start_wait_timer_eq [OF w can_blockD(7) [OF b]] by (simp add: s'_def mp_block_def s1_def s2_def suspended_def)
  have s2: "sched_ok {} s2" "current s2 = Some t" "tlists s2 ?q = t # tlists s ?q" "state_of s2 t = 2"
    "kpanic s2 = kpanic s" "thread_ok u s2 = thread_ok u s" "block_words s2 = block_words s"
    "mempools s2 = (mempools s)(m := ?f (mempools s m))" for u
    using ok by (simp_all add: s2_def s1_def list_insert_after_def su)
  show "sched_ok {} s'" "kpanic s' = kpanic s" using rt_schedule_ok(1,2) [OF s2(1,2)] s2(5) by (simp_all add: eq)
  show "state_of s' t = 2" using rt_schedule_state [OF s2(1,2), of t] s2(4) by (auto simp: eq)
  show "tlists s' ?q = t # tlists s ?q" using schedule_wait_queue [OF s2(1,2), of ?q] s2(3) by (simp add: eq)
  show "thread_ok u s' = thread_ok u s" "block_words s' = block_words s" "mempools s' = (mempools s)(m := ?f (mempools s m))"
    using s2(6-8) by (simp_all add: eq)
qed

text \<open>
  C21.  Allocating from a pool with free blocks takes the first one off the list: the caller gets the
  memory behind its word, and nothing else changes.  From a pool without, a call without waiting time
  fails with the error \<^verbatim>\<open>-RT_ETIMEOUT\<close>, and any other call suspends the running thread in front of the
  waiting threads.  The invariants of the pool and of the scheduler are kept.
\<close>

theorem mempool_alloc_correct:
  assumes ok: "mp_ok m s" and b: "can_block s t (Suspend (Mpl m)) 0 time" and irq: "interrupt_nest s = 0"
    and few: "length (tlists s (Suspend (Mpl m))) + 1 < 2 ^ 32"
  shows "case rt_mp_alloc m time s of (r, s') \<Rightarrow> mp_ok m s' \<and> sched_ok {} s' \<and> kpanic s' = kpanic s
    \<and> (case mp_free_blocks m s of
         [] \<Rightarrow> mp_free_blocks m s' = []
           \<and> (if time = 0 then r = Returned None \<and> error (threads s' t) = - RT_ETIMEOUT \<and> tlists s' = tlists s
              else r = Blocked \<and> state_of s' t = RT_THREAD_SUSPEND
                \<and> tlists s' (Suspend (Mpl m)) = t # tlists s (Suspend (Mpl m)))
       | a # as \<Rightarrow> r = Returned (Some (a + 4)) \<and> mp_free_blocks m s' = as \<and> a \<in> pool_blocks (mempools s m)
           \<and> threads s' = threads s \<and> tlists s' = tlists s)"
proof -
  let ?p = "mempools s m" and ?q = "Suspend (Mpl m)"
  have i: "mp_inv (mp_free_blocks m s) m s" and cn: "suspend_thread_count ?p = length (tlists s ?q)"
    and th: "\<And>u. u \<in> set (tlists s ?q) \<Longrightarrow> thread_ok u s" using ok by (simp_all add: mp_ok_def)
  have fc: "block_free_count ?p = length (mp_free_blocks m s)" using mp_invD(7) [OF i] by simp
  have self: "rt_thread_self s = Some t" "not_in_interrupt s" using can_blockD(2) [OF b] irq by (simp_all add: not_in_interrupt_def rt_thread_self_def)
  show ?thesis
  proof (cases "mp_free_blocks m s")
    case Nil
    note i0 = i [unfolded Nil]
    show ?thesis
    proof (cases "time = 0")
      case True
      let ?e = "upd_thread t (\<lambda>x. x\<lparr>error := - RT_ETIMEOUT\<rparr>) s"
      have eq: "rt_mp_alloc m time s = (Returned None, ?e)"
        using True Nil fc self irq by (simp add: rt_mp_alloc_def mp_alloc_try_def rt_set_errno_def)
      have "mp_inv [] m ?e" using i0 mp_inv_cong [of ?e m s] by simp
      from mp_okI [OF this] cn th have "mp_ok m ?e" "mp_free_blocks m ?e = []" by simp_all
      then show ?thesis unfolding eq prod.case Nil list.case using True sched_ok_error [OF can_blockD(1) [OF b]] by simp
    next
      case False
      let ?e = "upd_thread t (\<lambda>x. x\<lparr>error := RT_EOK\<rparr>) s"
      define s' where "s' = mp_block m t time ?e"
      note f = mp_block_facts [OF can_block_error [OF b, of RT_EOK], folded s'_def]
      have eq: "rt_mp_alloc m time s = (Blocked, s')"
        using False Nil fc self by (simp add: rt_mp_alloc_def mp_alloc_try_def s'_def)
      have iv: "mp_inv [] m s'" using i0 f(6,7) by (simp add: mp_inv_def Let_def pool_blocks_def)
      have tk: "thread_ok u s'" if "u \<in> set (tlists s' ?q)" for u
        using that f(4,5) th can_blockD(8) [OF b] by auto
      have "suspend_thread_count (mempools s' m) = length (tlists s' ?q)" using f(4,7) cn few by (simp add: wrap_simps)
      note mp_okI [OF iv this tk]
      then show ?thesis unfolding eq prod.case Nil list.case using False f(1-4) by simp
    qed
  next
    case (Cons a as)
    note t = mp_take_inv [OF i [unfolded Cons]]
    have eq: "rt_mp_alloc m time s = (Returned (Some (a + 4)), snd (mp_take m s))"
      using Cons fc t(1) by (simp add: rt_mp_alloc_def mp_alloc_try_def prod_eq_iff)
    have "mp_ok m (snd (mp_take m s))" "mp_free_blocks m (snd (mp_take m s)) = as" using mp_okI [OF t(2)] t cn th by simp_all
    moreover have "a \<in> pool_blocks ?p" using mp_invD(6) [OF i] Cons by simp
    ultimately show ?thesis unfolding eq prod.case Cons list.case using t(3-7) can_blockD(1) [OF b] by simp
  qed
qed

text \<open>
  Freeing an allocated block, found through the word in front of it, puts it back at the front of the
  free list, leaves all other blocks alone and wakes the first waiting thread, whose error is cleared.
  The invariants of the pool and of the scheduler are kept.
\<close>

theorem mempool_free_correct:
  assumes ok: "mp_ok m s" and sched: "sched_ok {} s" and c: "current s = Some c"
    and b: "b \<in> pool_blocks (mempools s m)" "b \<notin> set (mp_free_blocks m s)"
  shows "let s' = rt_mp_free (b + 4) s in mp_ok m s' \<and> sched_ok {} s' \<and> kpanic s' = kpanic s
    \<and> mp_free_blocks m s' = b # mp_free_blocks m s \<and> (\<forall>a. a \<noteq> b \<longrightarrow> block_words s' a = block_words s a)
    \<and> (case tlists s (Suspend (Mpl m)) of
         [] \<Rightarrow> tlists s' = tlists s \<and> threads s' = threads s
       | u # us \<Rightarrow> tlists s' (Suspend (Mpl m)) = us \<and> error (threads s' u) = RT_EOK
           \<and> state_of s' u \<in> {RT_THREAD_READY, RT_THREAD_RUNNING})"
proof -
  let ?q = "Suspend (Mpl m)" and ?s1 = "mp_put_back m b s"
  have i: "mp_inv (mp_free_blocks m s) m s" and cn: "suspend_thread_count (mempools s m) = length (tlists s ?q)"
    and th: "\<And>u. u \<in> set (tlists s ?q) \<Longrightarrow> thread_ok u s" using ok by (simp_all add: mp_ok_def)
  have w: "block_words s b = m" by (rule mp_invD(8) [OF i b])
  note i1 = mp_put_back_inv [OF i b]
  have bw: "block_words ?s1 a = block_words s a" if "a \<noteq> b" for a using that by (simp add: mp_put_back_def Let_def)
  show ?thesis
  proof (cases "tlists s ?q")
    case Nil
    have eq: "rt_mp_free (b + 4) s = ?s1" using w cn Nil by (simp add: rt_mp_free_def)
    have "mp_ok m ?s1" "mp_free_blocks m ?s1 = b # mp_free_blocks m s" using mp_okI [OF i1] cn Nil by simp_all
    then show ?thesis unfolding eq Let_def Nil list.case using sched bw by simp
  next
    case (Cons u us)
    let ?e = "upd_thread u (\<lambda>x. x\<lparr>error := RT_EOK\<rparr>) ?s1"
    define r where "r = snd (rt_thread_resume u ?e)"
    define s2 where "s2 = upd_mp m (\<lambda>p. p\<lparr>suspend_thread_count := suspend_thread_count p - 1\<rparr>) r"
    have l: "tlists ?e ?q = u # us" using Cons by simp
    have "sched_ok {} ?s1" using sched by simp
    then have so: "sched_ok {} ?e" by (rule sched_ok_error)
    have tu: "thread_ok u ?e" using th Cons by simp
    note r = resume_waiter [OF so wait_queue_ref(1) l tu, folded r_def]
    note fr = ipc_frameD [OF r(2)]
    have c2: "current s2 = Some c" "sched_ok {} s2" using c fr(6) r(1) by (simp_all add: s2_def)
    have eq: "rt_mp_free (b + 4) s = rt_schedule s2" using w cn Cons by (simp add: rt_mp_free_def s2_def r_def)
    have mp: "mempools s2 m = (mempools ?s1 m)\<lparr>suspend_thread_count := length us\<rparr>" "block_words s2 = block_words ?s1"
      using fr(16,17) cn Cons by (simp_all add: s2_def)
    have iv: "mp_inv (b # mp_free_blocks m s) m (rt_schedule s2)" using i1 mp by (simp add: mp_inv_def Let_def pool_blocks_def)
    have ls: "tlists (rt_schedule s2) ?q = us" using schedule_wait_queue [OF c2(2,1), of ?q] r(3) [of ?q] by (simp add: s2_def)
    have tk: "thread_ok v (rt_schedule s2) = thread_ok v s" for v using fr(15) by (simp add: s2_def)
    have o: "mp_ok m (rt_schedule s2)" "mp_free_blocks m (rt_schedule s2) = b # mp_free_blocks m s"
      using mp_okI [OF iv] mp(1) ls tk th Cons by simp_all
    have st: "state_of (rt_schedule s2) u \<in> {1, 3}" using rt_schedule_state [OF c2(2,1), of u] r(4) [of u] by (auto simp: s2_def split: if_splits)
    have k: "kpanic (rt_schedule s2) = kpanic s" using rt_schedule_ok(2) [OF c2(2,1)] fr(10) by (simp add: s2_def)
    have er: "error (threads (rt_schedule s2) u) = 0" using r(5) [of u] by (simp add: s2_def)
    have bw2: "\<forall>a. a \<noteq> b \<longrightarrow> block_words (rt_schedule s2) a = block_words s a" using bw mp(2) by simp
    show ?thesis unfolding eq Let_def Cons list.case using o st k er bw2 ls rt_schedule_ok(1) [OF c2(2,1)] by simp
  qed
qed

text \<open>
  A thread whose wait for a block times out leaves the wait queue, but the counter of waiting threads
  keeps counting it.  The next free then takes the list head for a thread.
\<close>

lemma timeout_breaks_free:
  assumes ok: "mp_ok m s" and sched: "sched_ok {} s" and c: "current s = Some c" and q: "tlists s (Suspend (Mpl m)) = [t]"
    and b: "b \<in> pool_blocks (mempools s m)" "b \<notin> set (mp_free_blocks m s)"
  shows "kpanic (rt_mp_free (b + 4) (rt_thread_timeout t s))"
proof -
  have i: "mp_inv (mp_free_blocks m s) m s" and cn: "suspend_thread_count (mempools s m) = 1" and th: "thread_ok t s"
    using ok q by (simp_all add: mp_ok_def)
  have t: "t \<in> set (tlists s (Suspend (Mpl m)))" using q by simp
  note w = timeout_waiter [OF sched c wait_queue_ref(1) t th]
  have "block_words s b = m" by (rule mp_invD(8) [OF i b])
  then show ?thesis using w(5) [of "Suspend (Mpl m)"] w(13,14) q cn by (simp add: rt_mp_free_def Let_def panic_def)
qed

section \<open>The concrete system\<close>

text \<open>Pool 9 of two blocks of eight bytes at address 4096, and thread 3 waiting in queue \<open>k\<close>.\<close>

definition demo_pool :: "nat \<Rightarrow> thread_queue \<Rightarrow> kernel" where
  "demo_pool free k =
     (demo_waits k)\<lparr>mempools := (\<lambda>_. \<lparr>start_address = 4096, mp_size = 24, block_size = 8, block_list = (if free = 0 then 0 else 4096),
        block_total_count = 2, block_free_count = free, suspend_thread_count = length (tlists (demo_waits k) (Suspend (Mpl 9)))\<rparr>),
      block_words := (\<lambda>a. if a = 4108 \<and> free = 2 then 0 else if a = 4096 \<and> free \<noteq> 0 then (if free = 2 then 4108 else 0) else 9)\<rparr>"

lemma demo_pool_sel:
  "threads (demo_pool n k) = threads demo_system" "objs (demo_pool n k) = objs demo_system" "current (demo_pool n k) = Some 1"
  "tlists (demo_pool n k) = tlists (demo_waits k)" "interrupt_nest (demo_pool n k) = 0"
  "sched_ok {} (demo_pool n k) = sched_ok {} (demo_waits k)" "thread_ok u (demo_pool n k)" "waiter_ok u (demo_pool n k)"
  "state_of (demo_pool n k) = state_of demo_system" "pool_blocks (mempools (demo_pool n k) 9) = {4096, 4108}"
  "mp_free_blocks 9 (demo_pool 2 k) = [4096, 4108]" "mp_free_blocks 9 (demo_pool 0 k) = []"
proof -
  show "sched_ok {} (demo_pool n k) = sched_ok {} (demo_waits k)" by (simp add: demo_pool_def)
  show "thread_ok u (demo_pool n k)" "waiter_ok u (demo_pool n k)"
    using demo_waiter(1) [of u] by (simp_all add: demo_pool_def waiter_ok_def thread_ok_def is_thread_def is_timer_def
        rt_object_get_type_def rt_object_is_systemobject_def soft_timer_def timer_flag_def)
  show "pool_blocks (mempools (demo_pool n k) 9) = {4096, 4108}"
    by (simp add: demo_pool_def pool_blocks_def lessThan_nat_numeral lessThan_Suc insert_commute)
qed (simp_all add: demo_pool_def state_of_def fun_eq_iff mp_free_blocks_def numeral_2_eq_2)

lemma demo_pool_ok:
  assumes "n = 0 \<or> n = 2"
  shows "mp_ok 9 (demo_pool n k)"
proof -
  have "mp_inv (mp_free_blocks 9 (demo_pool n k)) 9 (demo_pool n k)"
    using assms by (auto simp: mp_inv_def Let_def demo_pool_sel) (simp_all add: demo_pool_def)
  then show ?thesis using demo_pool_sel by (simp add: mp_ok_def) (simp add: demo_pool_def)
qed

theorem mempool_alloc_correct_witness:
  "fst (rt_mp_alloc 9 100 (demo_pool 2 (Suspend (Mpl 9)))) = Returned (Some 4100)
     \<and> fst (rt_mp_alloc 9 100 (demo_pool 0 (Suspend (Mpl 9)))) = Blocked"
proof -
  let ?k = "Suspend (Mpl 9)"
  have b: "can_block (demo_pool n ?k) 1 ?k 0 100" for n
    using demo_waits_sched [of ?k] by (simp add: can_block_def demo_pool_sel demo_system_ok)
  note l = demo_waits_lists [OF wait_queue_ref(1)]
  have "mp_ok 9 (demo_pool 2 ?k)" "mp_ok 9 (demo_pool 0 ?k)" by (rule demo_pool_ok, simp)+
  then show ?thesis
    using mempool_alloc_correct [OF _ b [of 2]] mempool_alloc_correct [OF _ b [of 0]]
    by (simp add: demo_pool_sel l case_prod_beta)
qed

theorem mempool_free_correct_witness:
  "let s = rt_mp_free 4100 (demo_pool 0 (Suspend (Mpl 9))) in mp_free_blocks 9 s = [4096] \<and> tlists s (Suspend (Mpl 9)) = []"
proof -
  let ?k = "Suspend (Mpl 9)"
  have "sched_ok {} (demo_pool 0 ?k)" using demo_waits_sched [of ?k] by (simp add: demo_pool_sel)
  then show ?thesis
    using mempool_free_correct [of 9 "demo_pool 0 ?k" 1 4096] demo_pool_ok [of 0 ?k]
    by (simp add: demo_pool_sel demo_waits_lists [OF wait_queue_ref(1)] Let_def)
qed


end
