(* ===== verification/RT_Idle.thy ===== *)
theory RT_Idle
  imports RT_Mempool
begin

text \<open>
  The idle thread of \<^verbatim>\<open>src/idle.c\<close>: its hooks and the final clean-up of dead threads, with the release of
  their signal data (\<^verbatim>\<open>src/signal.c\<close>).  The clean-up functions of the threads are code of the application
  and so a parameter.
\<close>

section \<open>Operations\<close>

abbreviation (input) RT_ENOSYS :: rt_err_t where "RT_ENOSYS \<equiv> 6"

text \<open>The list of hooks; a null pointer is an unused entry.\<close>

fun rt_thread_idle_sethook :: "nat option \<Rightarrow> nat option list \<Rightarrow> rt_err_t \<times> nat option list" where
  "rt_thread_idle_sethook hook [] = (- RT_EFULL, [])"
| "rt_thread_idle_sethook hook (h # hs) =
     (if h = None then (RT_EOK, hook # hs)
      else (let (ret, hs') = rt_thread_idle_sethook hook hs in (ret, h # hs')))"

fun rt_thread_idle_delhook :: "nat option \<Rightarrow> nat option list \<Rightarrow> rt_err_t \<times> nat option list" where
  "rt_thread_idle_delhook hook [] = (- RT_ENOSYS, [])"
| "rt_thread_idle_delhook hook (h # hs) =
     (if h = hook then (RT_EOK, None # hs)
      else (let (ret, hs') = rt_thread_idle_delhook hook hs in (ret, h # hs')))"

definition has_defunct_thread :: "kernel \<Rightarrow> bool" where
  "has_defunct_thread s \<longleftrightarrow> tlists s Defunct \<noteq> []"

text \<open>\<open>cb f t\<close> is the call of the clean-up function \<open>f\<close> for the thread \<open>t\<close>.\<close>

definition invoke_cleanup :: "(nat \<Rightarrow> nat \<Rightarrow> kernel \<Rightarrow> kernel) \<Rightarrow> nat \<Rightarrow> kernel \<Rightarrow> kernel" where
  "invoke_cleanup cb t s = (case cleanup (threads s t) of None \<Rightarrow> s | Some f \<Rightarrow> cb f t s)"

text \<open>\<open>si_list\<close> has the nodes of the pending signals of a thread, blocks of a memory pool.\<close>

definition rt_thread_free_sig :: "nat \<Rightarrow> kernel \<Rightarrow> kernel" where
  "rt_thread_free_sig t s =
     (let nodes = si_list (threads s t);
          vectors = sig_vectors (threads s t);
          s1 = upd_thread t (\<lambda>x. x\<lparr>si_list := [], sig_vectors := 0\<rparr>) s;
          s2 = fold rt_mp_free nodes s1
      in if vectors \<noteq> 0 then kernel_free vectors s2 else s2)"

partial_function (option) rt_thread_idle_excute :: "(nat \<Rightarrow> nat \<Rightarrow> kernel \<Rightarrow> kernel) \<Rightarrow> kernel \<Rightarrow> kernel option" where
  [code]: "rt_thread_idle_excute cb s =
     (if \<not> has_defunct_thread s then Some s
      else if \<not> not_in_interrupt s then Some (panic s)
      else
        (let t = hd (tlists s Defunct);
             s1 = rt_enter_critical (upd_tlists (list_remove t) s);
             s2 = rt_thread_free_sig t (invoke_cleanup cb t s1)
         in if rt_object_is_systemobject (Thr t) s2 then Some (rt_exit_critical s2)
            else
              (let s3 = rt_exit_critical s2
               in rt_thread_idle_excute cb (rt_object_delete (Thr t) (kernel_free (stack_addr (threads s3 t)) s3)))))"

text \<open>One turn of the endless loop of the idle thread: the hooks in order, then the clean-up.\<close>

definition rt_thread_idle_entry_turn ::
  "(nat \<Rightarrow> kernel \<Rightarrow> kernel) \<Rightarrow> (nat \<Rightarrow> nat \<Rightarrow> kernel \<Rightarrow> kernel) \<Rightarrow> nat option list \<Rightarrow> kernel \<Rightarrow> kernel option" where
  "rt_thread_idle_entry_turn run_hook cb idle_hook_list s =
     rt_thread_idle_excute cb (fold (\<lambda>h s. case h of None \<Rightarrow> s | Some f \<Rightarrow> run_hook f s) idle_hook_list s)"

definition rt_thread_idle_init :: "nat \<Rightarrow> nat \<Rightarrow> nat \<Rightarrow> kernel \<Rightarrow> kernel" where
  "rt_thread_idle_init idle entry_fn stack s =
     snd (rt_thread_startup idle (snd (rt_thread_init idle ''tidle0'' entry_fn 0 stack 1024 (RT_THREAD_PRIORITY_MAX - 1) 32 s)))"

section \<open>Hooks\<close>

lemma sethook_result:
  "rt_thread_idle_sethook (Some h) hs =
     (if None \<in> set hs
      then (RT_EOK, takeWhile (\<lambda>x. x \<noteq> None) hs @ Some h # tl (dropWhile (\<lambda>x. x \<noteq> None) hs))
      else (- RT_EFULL, hs))"
  by (induction hs) (auto split: prod.splits)

lemma delhook_undoes_sethook:
  assumes "Some h \<notin> set hs" "None \<in> set hs"
  shows "rt_thread_idle_delhook (Some h) (snd (rt_thread_idle_sethook (Some h) hs)) = (RT_EOK, hs)"
  using assms by (induction hs) (auto split: prod.splits)

section \<open>Cleaning up\<close>

text \<open>The part of a dead thread's structure the clean-up reads.\<close>

definition grave :: "rt_thread \<Rightarrow> nat option \<times> nat \<times> nat \<times> nat list" where
  "grave x = (cleanup x, stack_addr x, sig_vectors x, si_list x)"

text \<open>
  What a clean-up function, which runs with the scheduler locked, has to leave alone: the invariant of the
  scheduler, the list of dead threads, the classes of the objects and what the clean-up itself reads.
\<close>

definition cleanup_safe :: "(nat \<Rightarrow> nat \<Rightarrow> kernel \<Rightarrow> kernel) \<Rightarrow> bool" where
  "cleanup_safe cb \<longleftrightarrow> (\<forall>f t s. (sched_ok {} s \<longrightarrow> sched_ok {} (cb f t s)) \<and> tlists (cb f t s) Defunct = tlists s Defunct
     \<and> current (cb f t s) = current s \<and> interrupt_nest (cb f t s) = interrupt_nest s \<and> kpanic (cb f t s) = kpanic s
     \<and> (\<forall>r. obj_type (objs (cb f t s) r) = obj_type (objs s r)) \<and> (\<forall>u. grave (threads (cb f t s) u) = grave (threads s u)))"

lemma invoke_cleanup_safe:
  assumes "cleanup_safe cb"
  shows "sched_ok {} s \<Longrightarrow> sched_ok {} (invoke_cleanup cb t s)" "tlists (invoke_cleanup cb t s) Defunct = tlists s Defunct"
    "current (invoke_cleanup cb t s) = current s" "interrupt_nest (invoke_cleanup cb t s) = interrupt_nest s"
    "kpanic (invoke_cleanup cb t s) = kpanic s" "obj_type (objs (invoke_cleanup cb t s) r) = obj_type (objs s r)"
    "grave (threads (invoke_cleanup cb t s) u) = grave (threads s u)"
  using assms by (simp_all add: cleanup_safe_def invoke_cleanup_def split: option.split)

lemma grave_schedule: "grave (threads (rt_schedule s) u) = grave (threads s u)"
  by (simp add: rt_schedule_def rt_schedule_insert_thread_def set_state_def Let_def grave_def upd_thread_def panic_def
      split: option.split prod.split)

lemma exit_critical_facts:
  assumes ok: "sched_ok {} s" and c: "current s = Some c"
  shows "sched_ok {} (rt_exit_critical s)" "tlists (rt_exit_critical s) Defunct = tlists s Defunct" "kpanic (rt_exit_critical s) = kpanic s"
    "current (rt_exit_critical s) \<noteq> None" "interrupt_nest (rt_exit_critical s) = interrupt_nest s" "objs (rt_exit_critical s) = objs s"
    "grave (threads (rt_exit_critical s) u) = grave (threads s u)"
proof -
  let ?s = "s\<lparr>lock_nest := 0\<rparr>"
  have s: "sched_ok {} ?s" "current ?s = Some c" using ok c by simp_all
  note r = rt_schedule_ok [OF s] and w = rt_schedule_waiting [OF s, of Defunct]
  show "sched_ok {} (rt_exit_critical s)" by (rule rt_exit_critical_ok [OF ok c])
  show "tlists (rt_exit_critical s) Defunct = tlists s Defunct" "kpanic (rt_exit_critical s) = kpanic s"
    "current (rt_exit_critical s) \<noteq> None" "interrupt_nest (rt_exit_critical s) = interrupt_nest s" "objs (rt_exit_critical s) = objs s"
    using r(2,4) w c by (simp_all add: rt_exit_critical_def Let_def del: not_None_eq)
  show "grave (threads (rt_exit_critical s) u) = grave (threads s u)" by (simp add: rt_exit_critical_def Let_def grave_schedule)
qed

text \<open>A thread without pending signals: only its vectors are released.\<close>

lemma free_sig_facts:
  assumes "si_list (threads s t) = []"
  shows "sched_ok X (rt_thread_free_sig t s) = sched_ok X s" "tlists (rt_thread_free_sig t s) = tlists s"
    "current (rt_thread_free_sig t s) = current s" "interrupt_nest (rt_thread_free_sig t s) = interrupt_nest s"
    "kpanic (rt_thread_free_sig t s) = kpanic s" "objs (rt_thread_free_sig t s) = objs s"
    "u \<noteq> t \<Longrightarrow> threads (rt_thread_free_sig t s) u = threads s u"
    "stack_addr (threads (rt_thread_free_sig t s) t) = stack_addr (threads s t)"
proof -
  let ?s = "upd_thread t (\<lambda>x. x\<lparr>si_list := [], sig_vectors := 0\<rparr>) s"
  have eq: "rt_thread_free_sig t s = (if sig_vectors (threads s t) \<noteq> 0 then kernel_free (sig_vectors (threads s t)) ?s else ?s)"
    using assms by (simp add: rt_thread_free_sig_def)
  have "sched_ok X ?s = sched_ok X s"
    using sched_ok_threads [of X s ?s] sched_ok_threads [of X ?s s] by (auto simp: upd_thread_def)
  then show "sched_ok X (rt_thread_free_sig t s) = sched_ok X s" by (simp add: eq kernel_free_def)
qed (simp_all add: rt_thread_free_sig_def assms kernel_free_def Let_def)

text \<open>One turn of the loop, up to the test whether the thread is a static object.\<close>

definition buried :: "(nat \<Rightarrow> nat \<Rightarrow> kernel \<Rightarrow> kernel) \<Rightarrow> nat \<Rightarrow> kernel \<Rightarrow> kernel" where
  "buried cb t s = rt_thread_free_sig t (invoke_cleanup cb t (rt_enter_critical (upd_tlists (list_remove t) s)))"

lemma buried_facts:
  assumes cb: "cleanup_safe cb" and ok: "sched_ok {} s" and l: "tlists s Defunct = t # ts" and si: "si_list (threads s t) = []"
  shows "sched_ok {} (buried cb t s)" "tlists (buried cb t s) Defunct = ts" "current (buried cb t s) = current s"
    "interrupt_nest (buried cb t s) = interrupt_nest s" "kpanic (buried cb t s) = kpanic s"
    "obj_type (objs (buried cb t s) r) = obj_type (objs s r)" "u \<noteq> t \<Longrightarrow> grave (threads (buried cb t s) u) = grave (threads s u)"
    "stack_addr (threads (buried cb t s) t) = stack_addr (threads s t)"
proof -
  let ?r = "upd_tlists (list_remove t) s"
  let ?i = "invoke_cleanup cb t (rt_enter_critical ?r)"
  have st: "state_of s t = 4" using sched_okD(5) [OF ok, of t Defunct] l by simp
  have nr: "t \<notin> set (tlists s (Ready p))" for p by (rule not_in_ready [OF ok]) (simp_all add: st)
  note rm = sched_ok_list_remove [OF ok nr]
  have "sched_ok {} ?r" by (rule sched_ok_settle [OF rm]) (simp_all add: st)
  then have e: "sched_ok {} (rt_enter_critical ?r)" by (rule rt_enter_critical_ok)
  have g: "grave (threads ?i u) = grave (threads s u)" for u
    by (simp add: invoke_cleanup_safe(7) [OF cb] rt_enter_critical_def)
  then have "si_list (threads ?i t) = []" "stack_addr (threads ?i t) = stack_addr (threads s t)"
    using g [of t] si by (simp_all add: grave_def)
  note f = free_sig_facts [OF this(1)] and sa = this(2)
  show "sched_ok {} (buried cb t s)" unfolding buried_def f(1) by (rule invoke_cleanup_safe(1) [OF cb e])
  have "distinct (t # ts)" using store_ok_distinct [OF sched_okD(1) [OF ok], of Defunct] l by simp
  then have "tlists ?i Defunct = ts" using l by (simp add: invoke_cleanup_safe [OF cb] rt_enter_critical_def list_remove_def)
  then show "tlists (buried cb t s) Defunct = ts" by (simp add: buried_def f)
  have "current ?i = current s" "interrupt_nest ?i = interrupt_nest s" "kpanic ?i = kpanic s" "obj_type (objs ?i r) = obj_type (objs s r)"
    by (simp_all add: invoke_cleanup_safe [OF cb] rt_enter_critical_def)
  then show "current (buried cb t s) = current s" "interrupt_nest (buried cb t s) = interrupt_nest s" "kpanic (buried cb t s) = kpanic s"
    "obj_type (objs (buried cb t s) r) = obj_type (objs s r)"
    by (simp_all add: buried_def f)
  show "u \<noteq> t \<Longrightarrow> grave (threads (buried cb t s) u) = grave (threads s u)" using g by (simp add: buried_def f)
  show "stack_addr (threads (buried cb t s) t) = stack_addr (threads s t)" using sa by (simp add: buried_def f)
qed

lemma delete_facts:
  assumes "obj_type (objs s (Thr t)) AND 0x80 = 0"
  shows "sched_ok X (rt_object_delete (Thr t) (kernel_free a s)) = sched_ok X s"
    "tlists (rt_object_delete (Thr t) (kernel_free a s)) = tlists s" "current (rt_object_delete (Thr t) (kernel_free a s)) = current s"
    "interrupt_nest (rt_object_delete (Thr t) (kernel_free a s)) = interrupt_nest s" "kpanic (rt_object_delete (Thr t) (kernel_free a s)) = kpanic s"
    "obj_type (objs (rt_object_delete (Thr t) (kernel_free a s)) r) = (if r = Thr t then 0 else obj_type (objs s r))"
    "threads (rt_object_delete (Thr t) (kernel_free a s)) = threads s"
  using assms by (simp_all add: rt_object_delete_def kernel_free_def) (simp_all add: upd_containers_def)

text \<open>
  The reference: what one call does for a dead thread \<open>t\<close> whose structure reads \<open>x\<close>.  The clean-up function, if
  there is one, is called with the scheduler locked; the stack and the structure of a dynamic thread are freed.
\<close>

definition finish :: "(nat \<Rightarrow> nat \<Rightarrow> kernel \<Rightarrow> kernel) \<Rightarrow> rt_thread \<Rightarrow> nat \<Rightarrow> kernel \<Rightarrow> kernel" where
  "finish cb x t s =
     (let locked = rt_enter_critical (upd_tlists (list_remove t) s);
          called = (case cleanup x of None \<Rightarrow> locked | Some f \<Rightarrow> cb f t locked)
      in rt_exit_critical (rt_thread_free_sig t called))"

definition finish_dynamic :: "(nat \<Rightarrow> nat \<Rightarrow> kernel \<Rightarrow> kernel) \<Rightarrow> rt_thread \<Rightarrow> nat \<Rightarrow> kernel \<Rightarrow> kernel" where
  "finish_dynamic cb x t s =
     (let u = finish cb x t s in rt_object_delete (Thr t) (u\<lparr>kheap := rt_free (Some (stack_addr x)) (kheap u)\<rparr>))"

lemma finish_buried: "cleanup x = cleanup (threads s t) \<Longrightarrow> finish cb x t s = rt_exit_critical (buried cb t s)"
  by (simp add: finish_def buried_def invoke_cleanup_def rt_enter_critical_def Let_def)

lemma fold_grave_cong:
  assumes "\<And>t u. t \<in> set ts \<Longrightarrow> g (f t) t u = g (f' t) t u"
  shows "fold (\<lambda>t. g (f t) t) ts s = fold (\<lambda>t. g (f' t) t) ts s"
  using assms by (induction ts arbitrary: s) simp_all

lemma finish_cong: "grave x = grave y \<Longrightarrow> finish cb x t s = finish cb y t s \<and> finish_dynamic cb x t s = finish_dynamic cb y t s"
  by (simp add: finish_def finish_dynamic_def grave_def)


text \<open>
  Detaching a static thread that has a clean-up function takes the static mark from its object before the
  idle thread looks at it, so the idle thread frees the stack and the object of a static thread.
\<close>

lemma detached_thread_is_freed:
  assumes "is_thread t s" "rt_object_is_systemobject (Thr t) s" "cleanup (threads (snd (rt_thread_detach t s)) t) \<noteq> None"
  shows "t \<in> set (tlists (snd (rt_thread_detach t s)) Defunct) \<and> \<not> rt_object_is_systemobject (Thr t) (snd (rt_thread_detach t s))"
  using assms by (auto simp: rt_thread_detach_def Let_def rt_object_detach_def rt_object_is_systemobject_def list_insert_after_def
      split: if_splits)

section \<open>The concrete system\<close>

text \<open>Threads 5, dynamic, and 6 and 7, static, are dead.\<close>

definition dead :: "nat \<Rightarrow> kernel \<Rightarrow> kernel" where
  "dead t s = upd_tlists (list_insert_after Defunct t) (upd_thread t (\<lambda>x. x\<lparr>stat := 4\<rparr>) s)"

definition demo_dead :: kernel where
  "demo_dead = upd_obj (Thr 5) (\<lambda>x. x\<lparr>obj_type := 1\<rparr>) (dead 5 (dead 6 (dead 7 demo_system)))"

lemma dead_ok:
  assumes ok: "sched_ok {} s" and d: "detached t (tlists s)"
  shows "sched_ok {} (dead t s)"
proof -
  let ?s = "upd_thread t (\<lambda>x. x\<lparr>stat := 4\<rparr>) s"
  have st: "state_of ?s t = 4" by (simp add: state_of_def)
  have "sched_ok {t} ?s" by (rule sched_ok_upd_thread [OF sched_ok_mono [OF ok]]) (use d in simp_all)
  then have "sched_ok {} ?s" by (rule sched_ok_settle) (use d st in simp_all)
  then show ?thesis unfolding dead_def by (rule sched_ok_defunct) (use d st in simp_all)
qed


end
