(* ===== verification/RT_Startup.thy ===== *)
theory RT_Startup
  imports RT_Mempool RT_Idle
begin

text \<open>
  The start of the system: \<^verbatim>\<open>src/components.c\<close>, \<^verbatim>\<open>rt_system_signal_init\<close> of \<^verbatim>\<open>src/signal.c\<close> and
  \<^verbatim>\<open>rt_hw_board_init\<close> of the board.  The initialisation functions the linker collects and the drivers of
  the board are parameters.
\<close>

section \<open>Operations\<close>

type_synonym init_fn = "kernel \<Rightarrow> kernel"

definition rt_components_board_init :: "init_fn list \<Rightarrow> kernel \<Rightarrow> kernel" where
  "rt_components_board_init fns s = fold (\<lambda>fn s. fn s) fns s"

definition rt_components_init :: "init_fn list \<Rightarrow> kernel \<Rightarrow> kernel" where
  "rt_components_init fns s = fold (\<lambda>fn s. fn s) fns s"

text \<open>The board: the heap, the drivers of the pins and the serial lines, the console, the functions of the board level.\<close>

definition rt_hw_board_init :: "nat \<Rightarrow> nat \<Rightarrow> init_fn \<Rightarrow> init_fn \<Rightarrow> init_fn \<Rightarrow> init_fn list \<Rightarrow> kernel \<Rightarrow> kernel" where
  "rt_hw_board_init heap_begin heap_stop pin_init usart_init console_set_device board_fns s =
     rt_components_board_init board_fns
       (console_set_device (usart_init (pin_init (s\<lparr>kheap := rt_system_heap_init heap_begin heap_stop (kheap s)\<rparr>))))"

text \<open>The pool of 32 nodes of 12 bytes for signal information.\<close>

definition rt_system_signal_init :: "kernel \<Rightarrow> kernel" where
  "rt_system_signal_init s =
     (case rt_mp_create ''signal'' 32 12 s of (None, s1) \<Rightarrow> panic s1 | (Some _, s1) \<Rightarrow> s1)"

definition main_thread_entry :: "init_fn list \<Rightarrow> init_fn \<Rightarrow> kernel \<Rightarrow> kernel" where
  "main_thread_entry fns main s = main (rt_components_init fns s)"

definition rt_application_init :: "nat \<Rightarrow> kernel \<Rightarrow> kernel" where
  "rt_application_init main_entry s =
     (case rt_thread_create ''main'' main_entry 0 2048 10 20 s of
        (None, s1) \<Rightarrow> panic s1
      | (Some tid, s1) \<Rightarrow> snd (rt_thread_startup tid s1))"

text \<open>The addresses of the entry functions, of the static stacks and of the thread object of the idle thread.\<close>

record boot_image =
  main_entry :: nat
  timer_entry :: nat
  timer_stack :: nat
  idle_thread :: nat
  idle_entry :: nat
  idle_stack :: nat

definition rtthread_startup :: "init_fn \<Rightarrow> boot_image \<Rightarrow> kernel \<Rightarrow> kernel" where
  "rtthread_startup board im s =
     (let s1 = board s;
          s2 = rt_system_timer_init s1;
          s3 = rt_system_scheduler_init s2;
          s4 = rt_system_signal_init s3;
          s5 = rt_application_init (main_entry im) s4;
          s6 = rt_system_timer_thread_init (timer_entry im) (timer_stack im) s5;
          s7 = rt_thread_idle_init (idle_thread im) (idle_entry im) (idle_stack im) s6
      in rt_system_scheduler_start s7)"

section \<open>The heap while the system starts\<close>

text \<open>The lowest free block is the last block of the heap and has \<open>n\<close> bytes.\<close>

definition tail_free :: "heap \<Rightarrow> nat \<Rightarrow> nat \<Rightarrow> bool" where
  "tail_free h p n \<longleftrightarrow> (\<exists>bs. heap_inv h bs) \<and> lfree h = p \<and> hm_used (hdr h p) = 0 \<and> hm_next (hdr h p) = heap_end h
     \<and> p + n = heap_end h \<and> 4 dvd p \<and> 0 < heap_ptr h"

lemma tail_freeD:
  assumes "tail_free h p n"
  shows "lfree h = p" "hm_used (hdr h p) = 0" "hm_next (hdr h p) = heap_end h" "heap_end h = p + n" "4 dvd p"
    "mem_size_aligned h + 12 = heap_end h" "heap_ptr h + heap_end h + 12 < 2 ^ 32" "4 dvd heap_ptr h" "0 < heap_ptr h"
proof -
  obtain bs where "heap_inv h bs" using assms by (auto simp: tail_free_def)
  then have "heap_frame h" by (simp add: heap_inv_def heap_ok_def heap_tiled_def heap_body_def)
  then show "mem_size_aligned h + 12 = heap_end h" "heap_ptr h + heap_end h + 12 < 2 ^ 32" "4 dvd heap_ptr h" by (simp_all add: heap_frame_def)
qed (use assms in \<open>simp_all add: tail_free_def\<close>)

lemma malloc_tail:
  assumes t: "tail_free h p n" and sz: "4 dvd sz" "12 \<le> sz" "sz + 36 \<le> n"
  shows "\<exists>h'. rt_malloc sz h = Some (Some (heap_ptr h + p + 12), h') \<and> tail_free h' (p + 12 + sz) (n - 12 - sz)
    \<and> heap_ptr h' = heap_ptr h \<and> heap_end h' = heap_end h"
proof -
  note d = tail_freeD [OF t]
  have b: "p + n < 2 ^ 32" "sz < 2 ^ 32" "sz + 24 < 2 ^ 32" "p + 12 < 2 ^ 32" "mem_size_aligned h < 2 ^ 32" using d(4,6,7) sz by simp_all
  have al: "rt_align sz = sz" using sz b by (simp add: rt_align_id)
  have w: "wsub (mem_size_aligned h) sz = mem_size_aligned h - sz" "wadd p 12 = p + 12" "wadd sz 12 = sz + 12" "wadd (sz + 12) 12 = sz + 24"
    "wsub (p + n) (p + 12) = n - 12"
    using d(4,6) sz b by (simp_all add: wsub_small wadd_small)
  have room: "sz + 24 \<le> n - 12" using sz by simp
  let ?q = "p + 12 + sz"
  define h1 where "h1 = malloc_take p sz h"
  have split: "malloc_split p sz h = upd_hdr p (\<lambda>m. m\<lparr>hm_next := ?q\<rparr>)
      (upd_hdr ?q (\<lambda>m. m\<lparr>hm_magic := HEAP_MAGIC, hm_used := 0, hm_next := p + n, hm_prev := p\<rparr>) h)"
    using d(3,4,6) by (simp add: malloc_split_def Let_def)
  have h1: "hdr h1 p = (hdr h p)\<lparr>hm_magic := HEAP_MAGIC, hm_used := 1, hm_next := ?q\<rparr>" "hm_used (hdr h1 ?q) = 0" "hm_next (hdr h1 ?q) = p + n"
    "lfree h1 = p" "heap_ptr h1 = heap_ptr h" "heap_end h1 = p + n"
    using d(1,3,4) sz room by (simp_all add: h1_def malloc_take_def account_def Let_def split w)
  have "malloc_search sz p h = Some (Some p)"
  proof -
    have "p < mem_size_aligned h - sz" "sz \<le> n - 12" using d(4,6) sz by linarith+
    then show ?thesis using d(2,3,4) w by (subst malloc_search.simps) simp
  qed
  moreover have "advance_lfree p h1 = Some ?q"
    using h1 sz by (subst advance_lfree.simps) (simp add: advance_lfree.simps [of "p + 12 + sz"])
  then have "malloc_lfree p h1 = Some (h1\<lparr>lfree := ?q\<rparr>)" using h1 by (simp add: malloc_lfree_def)
  moreover have "malloc_assert p sz (h1\<lparr>lfree := ?q\<rparr>)"
  proof -
    have "4 dvd heap_ptr h + p" "4 dvd heap_ptr h + p + 12" using d(5,8) by (auto intro: dvd_add)
    then have "(heap_ptr h + p + 12) mod 4 = 0" "(heap_ptr h + p) mod 4 = 0" by (simp_all only: dvd_eq_mod_eq_0)
    then show ?thesis using h1 sz by (simp add: malloc_assert_def)
  qed
  ultimately have m: "rt_malloc sz h = Some (Some (heap_ptr h + p + 12), h1\<lparr>lfree := ?q\<rparr>)"
    using al d(1,4,6) sz h1(5) by (simp add: rt_malloc_def Let_def h1_def)
  obtain bs where "heap_inv h bs" using t by (auto simp: tail_free_def)
  from sm.alloc_some [OF this m] b(3) have "\<exists>bs. heap_inv (h1\<lparr>lfree := ?q\<rparr>) bs" by auto
  then have "tail_free (h1\<lparr>lfree := ?q\<rparr>) ?q (n - 12 - sz)"
    using h1 sz d(5,9) by (simp add: tail_free_def)
  then show ?thesis using m h1(5,6) d(4) by auto
qed

section \<open>Threads while the system starts\<close>

text \<open>No thread runs yet, no timer is queued, and nothing has failed.\<close>

definition booting :: "kernel \<Rightarrow> bool" where
  "booting s \<longleftrightarrow> sched_ok {} s \<and> current s = None \<and> \<not> kpanic s \<and> interrupt_nest s = 0 \<and> lock_nest s = 0 \<and> (\<forall>k. tmlists s k = [])"

lemma bootingD:
  assumes "booting s"
  shows "sched_ok {} s" "current s = None" "\<not> kpanic s" "interrupt_nest s = 0" "lock_nest s = 0" "tmlists s k = []"
  using assms by (simp_all add: booting_def)

text \<open>A thread that is not yet started can be changed freely.\<close>

lemma sched_ok_init_thread:
  assumes "sched_ok {} s" "state_of s t = 0" "state_of (upd_thread t f s) t = 0"
  shows "sched_ok {} (upd_thread t f s)"
proof -
  have d: "detached t (tlists s)" by (rule init_detached [OF assms(1) _ assms(2)]) simp
  have "sched_ok {t} (upd_thread t f s)" using sched_ok_mono [OF assms(1)] d by (intro sched_ok_upd_thread) auto
  then show ?thesis using sched_ok_settle [of t "{}" "upd_thread t f s"] d assms(3) by simp
qed

lemma containers_interrupt_nest [simp]: "interrupt_nest (upd_containers f s) = interrupt_nest s"
  by (simp add: upd_containers_def)

lemma timer_init_boot:
  fixes nm
  defines "i \<equiv> \<lambda>t s. rt_timer_init (Thread_timer t) nm Thread_timeout t 0 0 s"
  shows "threads (i t s) = threads s" "tlists (i t s) = tlists s" "tmlists (i t s) = tmlists s" "current (i t s) = current s" "kpanic (i t s) = kpanic s"
    "interrupt_nest (i t s) = interrupt_nest s" "lock_nest (i t s) = lock_nest s" "kheap (i t s) = kheap s" "sched_ok X (i t s) = sched_ok X s"
    "is_thread u (i t s) = is_thread u s" "is_timer (Thread_timer u) (i t s) = (u = t \<or> is_timer (Thread_timer u) s)"
    "rt_object_is_systemobject (Tmr (Thread_timer u)) (i t s) = (u = t \<or> rt_object_is_systemobject (Tmr (Thread_timer u)) s)"
    "timer_flag (Thread_timer u) (i t s) = (if u = t then 0 else timer_flag (Thread_timer u) s)"
  unfolding i_def rt_timer_init_def timer_init_core_def rt_object_init_def Let_def
  by (simp_all add: rt_object_get_information_def rt_object_container_def upd_flag_def is_thread_def is_timer_def rt_object_get_type_def
      rt_object_is_systemobject_def timer_flag_def)

lemma thread_init_core_boot:
  assumes b: "booting s" and t: "is_thread t s" "state_of s t = 0" and pr: "pr < 32"
    and s': "s' = thread_init_core t name e par stk sz pr tk s"
  shows "booting s'" "thread_ok t s'" "state_of s' u = state_of s u" "tlists s' = tlists s" "kheap s' = kheap s"
    "u \<noteq> t \<Longrightarrow> threads s' u = threads s u" "init_priority (threads s' t) = pr" "entry (threads s' t) = e" "thread_ok u s \<Longrightarrow> thread_ok u s'"
    "timer_flag (Thread_timer t) s' AND 1 = 0" "u \<noteq> t \<Longrightarrow> timer_flag (Thread_timer u) s' = timer_flag (Thread_timer u) s"
proof -
  let ?f = "\<lambda>x. x\<lparr>entry := e, parameter := par, stack_addr := stk, stack_size := sz, init_priority := pr, current_priority := pr,
     number_mask := 0, init_tick := tk, remaining_tick := tk, error := RT_EOK, stat := RT_THREAD_INIT, cleanup := None, user_data := 0, sig_vectors := 0,
     si_list := []\<rparr>"
  have s'': "s' = rt_timer_init (Thread_timer t) (obj_name (objs s (Thr t))) Thread_timeout t 0 0 (upd_thread t ?f s)"
    using pr by (simp add: s' thread_init_core_def)
  have ok: "sched_ok {} (upd_thread t ?f s)" by (rule sched_ok_init_thread [OF bootingD(1) [OF b] t(2)]) (simp add: state_of_upd_thread)
  note i = timer_init_boot
  show "thread_ok t s'" "tlists s' = tlists s" "kheap s' = kheap s" "u \<noteq> t \<Longrightarrow> threads s' u = threads s u" "init_priority (threads s' t) = pr"
    "entry (threads s' t) = e" "timer_flag (Thread_timer t) s' AND 1 = 0" "thread_ok u s \<Longrightarrow> thread_ok u s'"
    "u \<noteq> t \<Longrightarrow> timer_flag (Thread_timer u) s' = timer_flag (Thread_timer u) s"
    using t unfolding s'' thread_ok_def by (simp_all add: i)
  show "state_of s' u = state_of s u" using t unfolding s'' by (simp add: state_of_def i)
  show "booting s'" using b ok unfolding s'' booting_def by (simp add: i)
qed

lemma startup_boot:
  assumes b: "booting s" and t: "thread_ok t s" "state_of s t = 0" "init_priority (threads s t) < 32" "timer_flag (Thread_timer t) s AND 1 = 0"
    and s': "s' = snd (rt_thread_startup t s)"
  shows "booting s'" "state_of s' u = (if u = t then 1 else state_of s u)" "kheap s' = kheap s"
    "tlists s' = list_insert_before (Ready (init_priority (threads s t))) t (tlists s)"
    "thread_ok u s \<Longrightarrow> thread_ok u s'" "entry (threads s' u) = entry (threads s u)" "timer_flag (Thread_timer u) s' = timer_flag (Thread_timer u) s"
    "init_priority (threads s' u) = init_priority (threads s u)"
proof -
  let ?f = "\<lambda>x. x\<lparr>current_priority := init_priority x, number_mask := priority_mask (init_priority x), stat := 2\<rparr>"
  let ?s3 = "upd_thread t ?f s"
  note d = bootingD [OF b]
  have det: "detached t (tlists s)" by (rule init_detached [OF d(1) _ t(2)]) simp
  have "sched_ok {t} ?s3" using sched_ok_mono [OF d(1)] det by (intro sched_ok_upd_thread) auto
  then have ok3: "sched_ok {} ?s3" using sched_ok_settle [of t "{}" ?s3] det t(3) by (simp add: state_of_upd_thread priority_ok_def)
  have t3: "thread_ok t ?s3" "state_of ?s3 t = 2" using t by (simp_all add: thread_ok_def state_of_upd_thread)
  have f3: "timer_flag (Thread_timer t) (upd_tlists (list_remove t) ?s3) AND 1 = 0" using t(4) by (simp add: timer_flag_def)
  have lr: "list_remove t (tlists s) = tlists s" using det by (rule list_remove_detached)
  have e: "s' = rt_schedule_insert_thread t (upd_tlists (list_remove t) ?s3)"
    using t t3 f3 d(2) by (simp add: s' rt_thread_startup_def Let_def thread_ok_def upd_thread_merge rt_thread_self_def rt_thread_resume_def rt_timer_stop_def state_of_upd_thread)
  have r: "s' = snd (rt_thread_resume t ?s3)"
    using t t3 d(2) by (simp add: s' rt_thread_startup_def Let_def thread_ok_def upd_thread_merge rt_thread_self_def)
  have ok: "sched_ok {} s'" unfolding r by (rule rt_thread_resume_ok [OF ok3]) simp
  show "state_of s' u = (if u = t then 1 else state_of s u)" using d(2) by (simp add: e insert_thread_state state_of_upd_thread)
  show "tlists s' = list_insert_before (Ready (init_priority (threads s t))) t (tlists s)"
    using d(2) lr by (simp add: e insert_thread_lists)
  show "kheap s' = kheap s" "timer_flag (Thread_timer u) s' = timer_flag (Thread_timer u) s"
    "init_priority (threads s' u) = init_priority (threads s u)" by (simp_all add: e timer_flag_def)
  show "thread_ok u s \<Longrightarrow> thread_ok u s'" by (simp add: e thread_ok_def is_thread_def is_timer_def rt_object_get_type_def rt_object_is_systemobject_def)
  show "entry (threads s' u) = entry (threads s u)"
    by (simp add: e rt_schedule_insert_thread_def Let_def set_state_def)
  show "booting s'" using ok d unfolding booting_def by (simp add: e)
qed

lemma object_init_boot:
  assumes "booting s"
  shows "booting (rt_object_init (Thr t) 1 nm s)" "is_thread u (rt_object_init (Thr t) 1 nm s) = (u = t \<or> is_thread u s)"
    "threads (rt_object_init (Thr t) 1 nm s) = threads s" "tlists (rt_object_init (Thr t) 1 nm s) = tlists s" "kheap (rt_object_init (Thr t) 1 nm s) = kheap s"
    "thread_ok u s \<Longrightarrow> thread_ok u (rt_object_init (Thr t) 1 nm s)" "timer_flag x (rt_object_init (Thr t) 1 nm s) = timer_flag x s"
  using assms unfolding booting_def thread_ok_def rt_object_init_ok
  by (simp_all add: rt_object_init_def rt_object_get_information_def rt_object_container_def is_thread_def is_timer_def rt_object_get_type_def
      rt_object_is_systemobject_def timer_flag_def)

text \<open>A static thread is initialised and started.\<close>

lemma static_thread_boot:
  assumes b: "booting s" and t: "state_of s t = 0" "stk \<noteq> 0" "pr < 32"
    and s': "s' = snd (rt_thread_startup t (snd (rt_thread_init t nm e par stk sz pr tk s)))"
  shows "booting s'" "state_of s' u = (if u = t then 1 else state_of s u)" "kheap s' = kheap s"
    "tlists s' = list_insert_before (Ready pr) t (tlists s)" "thread_ok u s \<Longrightarrow> thread_ok u s'" "thread_ok t s'"
    "u \<noteq> t \<Longrightarrow> entry (threads s' u) = entry (threads s u)" "entry (threads s' t) = e"
proof -
  let ?s1 = "rt_object_init (Thr t) 1 nm s"
  note o = object_init_boot [OF b, where t = t and nm = nm]
  have st: "state_of ?s1 u = state_of s u" for u by (simp add: state_of_def o)
  define s2 where "s2 = thread_init_core t nm e par stk sz pr tk ?s1"
  have i: "is_thread t ?s1" "state_of ?s1 t = 0" using t by (simp_all add: o st)
  note c = thread_init_core_boot [OF o(1) i t(3) s2_def]
  have s2: "s' = snd (rt_thread_startup t s2)" using t by (simp add: s' rt_thread_init_def s2_def)
  have st2: "state_of s2 t = 0" using i c(3) [of t] by simp
  have pr2: "init_priority (threads s2 t) < 32" using c(7) t(3) by simp
  note u = startup_boot [OF c(1,2) st2 pr2 c(10) s2]
  show "booting s'" "thread_ok t s'" using u(1) u(5) [OF c(2)] by simp_all
  show "state_of s' u = (if u = t then 1 else state_of s u)" using u(2) [of u] c(3) [of u] st by simp
  show "kheap s' = kheap s" using u(3) c(5) o(5) by simp
  show "tlists s' = list_insert_before (Ready pr) t (tlists s)" using u(4) c(4,7) o(4) by simp
  show "thread_ok u s \<Longrightarrow> thread_ok u s'" using u(5) c(9) o(6) by simp
  show "u \<noteq> t \<Longrightarrow> entry (threads s' u) = entry (threads s u)" using u(6) [of u] c(6) [of u] o(3) by simp
  show "entry (threads s' t) = e" using u(6) c(8) by simp
qed

text \<open>Objects and blocks come from the last block of the heap.\<close>

lemma kernel_malloc_boot:
  assumes b: "booting s" and t: "tail_free (kheap s) p n" "4 dvd sz" "12 \<le> sz" "sz + 36 \<le> n"
  shows "\<exists>h. kernel_malloc sz s = (Some (heap_ptr (kheap s) + p + 12), s\<lparr>kheap := h\<rparr>) \<and> booting (s\<lparr>kheap := h\<rparr>)
    \<and> tail_free h (p + 12 + sz) (n - 12 - sz) \<and> heap_ptr h = heap_ptr (kheap s)"
proof -
  obtain h where h: "rt_malloc sz (kheap s) = Some (Some (heap_ptr (kheap s) + p + 12), h)" "tail_free h (p + 12 + sz) (n - 12 - sz)"
    "heap_ptr h = heap_ptr (kheap s)" using malloc_tail [OF t] by blast
  have "booting (s\<lparr>kheap := h\<rparr>)" using b by (simp add: booting_def)
  then show ?thesis using h by (intro exI [of _ h]) (simp add: kernel_malloc_def)
qed

text \<open>The main thread: its object and its stack are allocated.\<close>

lemma zero_thread_boot:
  assumes b: "booting s" and t: "state_of s t = 0"
  shows "booting (s\<lparr>threads := (threads s)(t := zero_thread)\<rparr>)" "state_of (s\<lparr>threads := (threads s)(t := zero_thread)\<rparr>) u = state_of s u"
proof -
  have e: "s\<lparr>threads := (threads s)(t := zero_thread)\<rparr> = upd_thread t (\<lambda>_. zero_thread) s" by (simp add: upd_thread_def)
  have z: "state_of (upd_thread t (\<lambda>_. zero_thread) s) t = 0" by (simp add: state_of_def zero_thread_def upd_thread_def)
  show "booting (s\<lparr>threads := (threads s)(t := zero_thread)\<rparr>)" unfolding e using b sched_ok_init_thread [OF bootingD(1) [OF b] t z] by (simp add: booting_def)
  show "state_of (s\<lparr>threads := (threads s)(t := zero_thread)\<rparr>) u = state_of s u"
    using t z unfolding e by (cases "u = t") (simp_all add: state_of_def upd_thread_def)
qed

lemma main_thread_boot:
  fixes e
  assumes b: "booting s" and t: "tail_free (kheap s) p n" "2280 \<le> n" and st: "\<forall>u. state_of s u = 0"
  defines "mt \<equiv> heap_ptr (kheap s) + p + 12" and "s' \<equiv> rt_application_init e s"
  shows "booting s'" "state_of s' u = (if u = mt then 1 else 0)" "tlists s' = list_insert_before (Ready 10) mt (tlists s)"
    "\<exists>bs. heap_inv (kheap s') bs" "thread_ok mt s'" "entry (threads s' mt) = e"
proof -
  have sz: "4 dvd (148 :: nat)" "(12 :: nat) \<le> 148" "148 + 36 \<le> n" "4 dvd (2048 :: nat)" "(12 :: nat) \<le> 2048" "2048 + 36 \<le> n - 12 - 148" using t(2) by simp_all
  obtain h where h: "kernel_malloc 148 s = (Some mt, s\<lparr>kheap := h\<rparr>)" "booting (s\<lparr>kheap := h\<rparr>)" "tail_free h (p + 12 + 148) (n - 12 - 148)" "heap_ptr h = heap_ptr (kheap s)"
    using kernel_malloc_boot [OF b t(1) sz(1-3)] unfolding mt_def by blast
  define s1 where "s1 = upd_containers (list_insert_after 1 (Thr mt)) (upd_obj (Thr mt) (\<lambda>_. \<lparr>obj_name = take 8 ''main'', obj_type = 1, obj_flag = 0\<rparr>)
      (s\<lparr>kheap := h, threads := (threads s)(mt := zero_thread)\<rparr>))"
  have al: "rt_object_allocate 1 ''main'' s = (Some (Thr mt), s1)"
    using h(1) by (simp add: rt_object_allocate_def rt_object_get_information_def rt_object_container_def class_ref_def Let_def s1_def)
  have z: "state_of (s\<lparr>kheap := h\<rparr>) mt = 0" using st by (simp add: state_of_def)
  note zt = zero_thread_boot [OF h(2) z]
  have s1: "booting s1" "state_of s1 u = 0" "kheap s1 = h" "is_thread mt s1" "tlists s1 = tlists s" for u
  proof -
    show "booting s1" using zt(1) by (simp add: booting_def s1_def)
    show "state_of s1 u = 0" using zt(2) [of u] st by (simp add: s1_def state_of_def)
  qed (simp_all add: s1_def is_thread_def rt_object_get_type_def)
  obtain h2 stk where h2: "kernel_malloc 2048 s1 = (Some stk, s1\<lparr>kheap := h2\<rparr>)" "booting (s1\<lparr>kheap := h2\<rparr>)" "tail_free h2 (p + 12 + 148 + 12 + 2048) (n - 12 - 148 - 12 - 2048)"
    using kernel_malloc_boot [OF s1(1) h(3) [folded s1(3)] sz(4-6)] by blast
  define s2 where "s2 = thread_init_core mt ''main'' e 0 stk 2048 10 20 (s1\<lparr>kheap := h2\<rparr>)"
  have cr: "rt_thread_create ''main'' e 0 2048 10 20 s = (Some mt, s2)"
    unfolding rt_thread_create_def al prod.case option.case h2(1) s2_def by simp
  have i: "is_thread mt (s1\<lparr>kheap := h2\<rparr>)" "state_of (s1\<lparr>kheap := h2\<rparr>) mt = 0"
    using s1(2) [of mt] s1(4) by (simp_all add: is_thread_def rt_object_get_type_def state_of_def)
  note c = thread_init_core_boot [OF h2(2) i _ s2_def, simplified]
  have s'2: "s' = snd (rt_thread_startup mt s2)" unfolding s'_def rt_application_init_def cr by simp
  have st2: "state_of s2 u = 0" for u using c(3) [of u] s1(2) [of u] by (simp add: state_of_def)
  have pr2: "init_priority (threads s2 mt) < 32" using c(7) by simp
  note u = startup_boot [OF c(1,2) st2 pr2 c(10) s'2]
  show "booting s'" by (rule u(1))
  show "state_of s' u = (if u = mt then 1 else 0)" using u(2) [of u] st2 by simp
  show "tlists s' = list_insert_before (Ready 10) mt (tlists s)" using u(4) c(4,7) s1(5) by simp
  show "\<exists>bs. heap_inv (kheap s') bs" using u(3) c(5) h2(3) by (simp add: tail_free_def)
  show "thread_ok mt s'" using u(5) [OF c(2)] .
  show "entry (threads s' mt) = e" using u(6) c(8) by simp
qed

lemma words_boot: "\<exists>w. mp_link_blocks a k (Suc m) s = s\<lparr>block_words := w\<rparr>"
proof -
  have "\<exists>w. fold (\<lambda>i. set_word (f i) (g i)) is s = s\<lparr>block_words := w\<rparr>" for f g and "is" :: "nat list" and s
  proof (induction "is" arbitrary: s)
    case (Cons i js)
    show ?case using Cons.IH [of "set_word (f i) (g i) s"] by (auto simp: set_word_def)
  next
    case Nil
    have "s = s\<lparr>block_words := block_words s\<rparr>" by simp
    then show ?case unfolding fold_simps id_apply by (rule exI [of _ "block_words s"])
  qed
  from this [of "block_addr a k" "\<lambda>i. block_addr a k (i + 1)" "[0..<Suc m]" s] show ?thesis
    unfolding mp_link_blocks_def by (auto simp: set_word_def simp del: upt_Suc)
qed

lemma signal_pool_boot:
  assumes b: "booting s" and t: "tail_free (kheap s) p n" "640 \<le> n" and l: "\<forall>q. tlists s q = []" and st: "\<forall>u. state_of s u = 0"
  defines "s' \<equiv> rt_system_signal_init s"
  shows "booting s'" "state_of s' u = 0" "tlists s' q = []" "tail_free (kheap s') (p + 592) (n - 592)" "heap_ptr (kheap s') = heap_ptr (kheap s)"
proof -
  let ?m = "heap_ptr (kheap s) + p + 12"
  have sz: "4 dvd (56 :: nat)" "(12 :: nat) \<le> 56" "56 + 36 \<le> n" "4 dvd (512 :: nat)" "(12 :: nat) \<le> 512" "512 + 36 \<le> n - 12 - 56" using t(2) by simp_all
  obtain h where h: "kernel_malloc 56 s = (Some ?m, s\<lparr>kheap := h\<rparr>)" "booting (s\<lparr>kheap := h\<rparr>)" "tail_free h (p + 12 + 56) (n - 12 - 56)" "heap_ptr h = heap_ptr (kheap s)"
    using kernel_malloc_boot [OF b t(1) sz(1-3)] by blast
  define s1 where "s1 = upd_containers (list_insert_after 8 (Mpl ?m)) (upd_obj (Mpl ?m) (\<lambda>_. \<lparr>obj_name = take 8 ''signal'', obj_type = 8, obj_flag = 0\<rparr>)
      (zero_struct (Mpl ?m) (s\<lparr>kheap := h\<rparr>)))"
  have al: "rt_object_allocate 8 ''signal'' s = (Some (Mpl ?m), s1)"
    using h(1) by (simp add: rt_object_allocate_def rt_object_get_information_def rt_object_container_def class_ref_def Let_def s1_def)
  have s1: "booting s1" "kheap s1 = h" "threads s1 = threads s" "tlists s1 = tlists s" using h(2) by (simp_all add: booting_def s1_def)
  obtain h2 a where h2: "kernel_malloc 512 s1 = (Some a, s1\<lparr>kheap := h2\<rparr>)" "booting (s1\<lparr>kheap := h2\<rparr>)" "tail_free h2 (p + 12 + 56 + 12 + 512) (n - 12 - 56 - 12 - 512)" "heap_ptr h2 = heap_ptr h"
    using kernel_malloc_boot [OF s1(1) h(3) [folded s1(2)] sz(4-6)] s1(2) by blast
  define s3 where "s3 = upd_mp ?m (\<lambda>_. \<lparr>start_address = a, mp_size = 512, block_size = 12, block_list = a, block_total_count = 32, block_free_count = 32, suspend_thread_count = 0\<rparr>) (s1\<lparr>kheap := h2\<rparr>)"
  have tl: "upd_tlists (\<lambda>S. S(Suspend (Mpl ?m) := [])) s3 = s3"
  proof -
    have "(tlists s3)(Suspend (Mpl ?m) := []) = tlists s3" using l s1(4) by (simp add: fun_eq_iff s3_def)
    then show ?thesis by (simp add: upd_tlists_def)
  qed
  obtain w where w: "mp_link_blocks a 16 32 s3 = s3\<lparr>block_words := w\<rparr>" using words_boot [of a 16 31] by auto
  have wr: "rt_align 12 = 12" "wadd 12 4 = 16" "wmul 16 32 = 512" by (simp_all add: rt_align_id wadd_def wmul_def)
  have s': "s' = s3\<lparr>block_words := w\<rparr>"
    unfolding s'_def rt_system_signal_init_def rt_mp_create_def al prod.case option.case ref_addr.simps wr Let_def h2(1)
    using bootingD(4) [OF b] w tl by (simp add: not_in_interrupt_def s3_def [symmetric])
  show "booting s'" "tail_free (kheap s') (p + 592) (n - 592)" "heap_ptr (kheap s') = heap_ptr (kheap s)" "tlists s' q = []" "state_of s' u = 0"
    using h2(2,3,4) h(4) l st s1 unfolding s' by (simp_all add: s3_def booting_def upd_mp_def state_of_def add.commute)
qed

section \<open>The system starts\<close>

text \<open>What the drivers and the functions of the board level have to leave alone.\<close>

definition driver_ok :: "init_fn \<Rightarrow> bool" where
  "driver_ok f \<longleftrightarrow> (\<forall>s. threads (f s) = threads s \<and> tlists (f s) = tlists s \<and> current (f s) = current s \<and> tmlists (f s) = tmlists s
     \<and> kheap (f s) = kheap s \<and> kpanic (f s) = kpanic s \<and> interrupt_nest (f s) = interrupt_nest s)"

text \<open>The static data before the start: all zero.\<close>

definition cold :: "kernel \<Rightarrow> bool" where
  "cold s \<longleftrightarrow> (\<forall>t. state_of s t = 0) \<and> (\<forall>q. tlists s q = []) \<and> (\<forall>k. tmlists s k = []) \<and> current s = None \<and> interrupt_nest s = 0
     \<and> \<not> kpanic s \<and> used_mem (kheap s) = 0 \<and> \<not> heap_panic (kheap s)"

lemma fold_drivers:
  assumes "\<forall>f \<in> set fns. driver_ok f"
  shows "driver_ok (rt_components_board_init fns)"
  using assms unfolding rt_components_board_init_def by (induction fns) (simp_all add: driver_ok_def)

lemma board_ok:
  assumes c: "cold s" and dr: "driver_ok pin" "driver_ok usart" "driver_ok console" "\<forall>f \<in> set fns. driver_ok f"
    and heap: "rt_align b + 4096 \<le> rt_align_down e" "b + 3 < 2 ^ 32" "e < 2 ^ 32" "0 < b"
  defines "s' \<equiv> rt_hw_board_init b e pin usart console fns s"
  shows "state_of s' t = 0" "tlists s' q = []" "tmlists s' k = []" "current s' = None" "interrupt_nest s' = 0" "\<not> kpanic s'"
    "tail_free (kheap s') 0 (rt_align_down e - rt_align b - 12)" "heap_ptr (kheap s') = rt_align b"
proof -
  let ?h = "rt_system_heap_init b e (kheap s)"
  have all: "threads s' = threads s" "tlists s' = tlists s" "current s' = current s" "tmlists s' = tmlists s" "kheap s' = ?h"
    "kpanic s' = kpanic s" "interrupt_nest s' = interrupt_nest s"
    using dr(1-3) fold_drivers [OF dr(4)] unfolding s'_def rt_hw_board_init_def driver_ok_def by simp_all
  show "state_of s' t = 0" "tlists s' q = []" "tmlists s' k = []" "current s' = None" "interrupt_nest s' = 0" "\<not> kpanic s'"
    using c all by (simp_all add: cold_def state_of_def)
  have h: "heap_ok ?h [0]" "mem_size_aligned ?h = rt_align_down e - rt_align b - 24" "heap_ptr ?h = rt_align b"
    using rt_system_heap_init_ok [of b e "kheap s"] heap c by (simp_all add: cold_def)
  have "0 < rt_align b" using rt_align_ge [of b] heap by simp
  then show "tail_free (kheap s') 0 (rt_align_down e - rt_align b - 12)" "heap_ptr (kheap s') = rt_align b"
    using h heap(1) unfolding all(5) tail_free_def heap_inv_def
    by (auto simp: rt_system_heap_init_def Let_def intro!: exI [of _ "[0]"])
qed

text \<open>The three threads at the start of the scheduler.\<close>

lemma threads_at_start:
  assumes b: "booting s" and l: "\<forall>q. tlists s q = (if q = Ready 4 then [tt] else if q = Ready 10 then [mt] else if q = Ready 31 then [it] else [])"
    and d: "distinct [tt, mt, it]"
  defines "s' \<equiv> rt_system_scheduler_start s"
  shows "sched_ok {} s'" "\<not> kpanic s'" "current s' = Some tt" "state_of s' tt = 3" "tmlists s' = tmlists s" "kheap s' = kheap s" "lock_nest s' = 0"
    "entry (threads s' u) = entry (threads s u)" "objs s' = objs s" "tlists s' q = (if q = Ready 10 then [mt] else if q = Ready 31 then [it] else [])"
proof -
  note bt = bootingD [OF b]
  have "bit (ready_group s) 4" using sched_okD(2) [OF bt(1), of 4] l by simp
  then have g: "ready_group s \<noteq> 0" by auto
  obtain h p ts where h: "get_highest_priority_thread s = (Some h, p)" "tlists s (Ready p) = h # ts" "\<forall>n. tlists s (Ready n) \<noteq> [] \<longrightarrow> p \<le> n"
    using highest_ready [OF bt(1) g] by metis
  have "p \<le> 4" using h(3) l by auto
  moreover have "p = 4 \<or> p = 10 \<or> p = 31" using h(2) l by (auto split: if_splits)
  ultimately have "h = tt" using h(2) l by auto
  then have e: "s' = upd_thread tt (\<lambda>x. x\<lparr>stat := 3\<rparr>) (rt_schedule_remove_thread tt (s\<lparr>current := Some tt\<rparr>))"
    by (simp add: s'_def rt_system_scheduler_start_def h(1))
  show "sched_ok {} s'" unfolding s'_def by (rule rt_system_scheduler_start_ok(1) [OF bt(1,2) g])
  show "\<not> kpanic s'" "current s' = Some tt" "state_of s' tt = 3" "tmlists s' = tmlists s" "kheap s' = kheap s" "lock_nest s' = 0" "objs s' = objs s"
    "entry (threads s' u) = entry (threads s u)" "tlists s' q = (if q = Ready 10 then [mt] else if q = Ready 31 then [it] else [])"
    using bt l d unfolding e by (simp_all add: state_of_upd_thread list_remove_def)
qed

text \<open>The timer thread finds no timer and gives the processor to the main thread.\<close>

lemma main_runs:
  assumes ok: "sched_ok {} s" "\<not> kpanic s" "current s = Some tt" "state_of s tt = 3" "lock_nest s = 0" "tmlists s Soft_timers = []" "thread_ok tt s"
    and l: "\<forall>q. tlists s q = (if q = Ready 10 then [mt] else if q = Ready 31 then [it] else [])" and d: "distinct [tt, mt, it]"
  defines "s' \<equiv> snd (timer_thread_wait s)"
  shows "sched_ok {} s'" "\<not> kpanic s'" "current s' = Some mt" "state_of s' mt = 3" "tlists s' q = (if q = Ready 31 then [it] else [])"
proof -
  let ?s1 = "snd (rt_thread_suspend tt s)"
  have s': "s' = rt_schedule ?s1" using ok by (simp add: s'_def timer_thread_wait_def rt_timer_list_next_timeout_def rt_thread_self_def)
  have st: "state_of s tt \<in> {1, 3}" using ok(4) by simp
  note f = rt_thread_suspend_facts [OF ok(1,7) st]
  have l1: "tlists ?s1 q = (if q = Ready 10 then [mt] else if q = Ready 31 then [it] else [])" for q
    unfolding f(4) using l d by (simp add: list_remove_def)
  have c: "current ?s1 = Some tt" "state_of ?s1 tt = 2" "lock_nest ?s1 = 0"
    using f(3,6) ok by (simp_all add: rt_thread_suspend_done [OF ok(1,7) st])
  have "bit (ready_group ?s1) 10" using sched_okD(2) [OF f(1), of 10] l1 by simp
  then have g: "ready_group ?s1 \<noteq> 0" by auto
  from f(1) c(1) have "sched_ok {} s' \<and> \<not> kpanic s' \<and> current s' = Some mt \<and> state_of s' mt = 3 \<and> tlists s' q = (if q = Ready 31 then [it] else [])"
  proof (cases rule: rt_schedule_cases)
    case (switch h p ts)
    have "p \<le> 10" using switch(4) l1 by auto
    moreover have "p = 10 \<or> p = 31" using switch(2) l1 by (auto split: if_splits)
    ultimately have hp: "h = mt" "p = 10" using switch(2) l1 by auto
    note di = schedule_dispatch [OF f(1) c(1) switch(2,3)]
    have e: "s' = set_state h 3 (rt_schedule_remove_thread h (if state_of ?s1 tt = 3 then rt_schedule_insert_thread tt (?s1\<lparr>rt_current_priority := p, current := Some h\<rparr>)
        else ?s1\<lparr>rt_current_priority := p, current := Some h\<rparr>))" unfolding s' by (rule switch(7))
    show ?thesis using di(1,2,3,4) di(7) [of q] f(2) ok(2) c(2) l1 d hp unfolding e by simp
  qed (use c g in simp_all)
  then show "sched_ok {} s'" "\<not> kpanic s'" "current s' = Some mt" "state_of s' mt = 3" "tlists s' q = (if q = Ready 31 then [it] else [])" by simp_all
qed

text \<open>Up to the main thread.\<close>

lemma main_started:
  fixes me
  assumes c: "cold s" and dr: "driver_ok pin" "driver_ok usart" "driver_ok console" "\<forall>f \<in> set fns. driver_ok f"
    and heap: "rt_align b + 4096 \<le> rt_align_down e" "b + 3 < 2 ^ 32" "e < 2 ^ 32" "0 < b"
  defines "mt \<equiv> rt_align b + 604"
  defines "s' \<equiv> rt_application_init me (rt_system_signal_init (rt_system_scheduler_init (rt_system_timer_init (rt_hw_board_init b e pin usart console fns s))))"
  shows "booting s'" "state_of s' u = (if u = mt then 1 else 0)" "tlists s' = (\<lambda>_. [])(Ready 10 := [mt])" "\<exists>bs. heap_inv (kheap s') bs" "entry (threads s' mt) = me"
    "b \<le> mt" "mt < e"
proof -
  define s1 where "s1 = rt_hw_board_init b e pin usart console fns s"
  define s3 where "s3 = rt_system_scheduler_init (rt_system_timer_init s1)"
  define s4 where "s4 = rt_system_signal_init s3"
  note bo = board_ok [OF c dr heap, folded s1_def]
  have t2: "tlists (rt_system_timer_init s1) q = []" "state_of (rt_system_timer_init s1) t = 0" "current (rt_system_timer_init s1) = None" for q t
    using bo(1) [of t] bo(2) [of q] bo(4) by (simp_all add: rt_system_timer_init_def state_of_def)
  have b3: "booting s3"
    using rt_system_scheduler_init_ok [of "rt_system_timer_init s1"] t2 bo(3-6)
    unfolding booting_def s3_def by (simp add: rt_system_scheduler_init_def rt_system_timer_init_def)
  have h3: "kheap s3 = kheap s1" "\<forall>u. state_of s3 u = 0" "\<forall>q. tlists s3 q = []"
    using bo(1,2) by (auto simp: s3_def rt_system_scheduler_init_def rt_system_timer_init_def state_of_def split: thread_queue.split)
  have n: "640 \<le> rt_align_down e - rt_align b - 12" "2280 \<le> rt_align_down e - rt_align b - 12 - 592" using heap(1) by simp_all
  note si = signal_pool_boot [OF b3 bo(7) [folded h3(1)] n(1) h3(3,2), folded s4_def]
  have st4: "\<forall>u. state_of s4 u = 0" and l4: "tlists s4 = (\<lambda>_. [])" using si(2,3) by auto
  have mt: "heap_ptr (kheap s4) + (0 + 592) + 12 = mt" using si(5) bo(8) h3(1) by (simp add: mt_def)
  have s': "s' = rt_application_init me s4" by (simp add: s'_def s4_def s3_def s1_def)
  note ma = main_thread_boot [OF si(1,4) n(2) st4, of me, folded s', unfolded mt]
  show "booting s'" "state_of s' u = (if u = mt then 1 else 0)" "\<exists>bs. heap_inv (kheap s') bs" "entry (threads s' mt) = me" by (rule ma)+
  show "tlists s' = (\<lambda>_. [])(Ready 10 := [mt])" using ma(3) by (simp add: l4 list_insert_before_def)
  have "b \<le> rt_align b" "rt_align_down e \<le> e" using rt_align_ge heap by (simp_all add: rt_align_down_def)
  then show "b \<le> mt" "mt < e" using heap(1) by (simp_all add: mt_def)
qed

text \<open>
  C32. The system starts: from zeroed static data, with a heap of at least four kilobytes and drivers that leave the
  kernel's lists and the heap alone, \<^verbatim>\<open>rtthread_startup\<close> allocates the signal pool and the main thread without a failed
  assertion, establishes the invariants of the scheduler, the timers and the heap, and leaves the timer thread
  running with the main thread and the idle thread ready.  The timer thread has nothing to wait for and gives
  the processor to the main thread, which then runs with only the idle thread ready.
\<close>

theorem system_starts:
  assumes c: "cold s" and dr: "driver_ok pin" "driver_ok usart" "driver_ok console" "\<forall>f \<in> set fns. driver_ok f"
    and heap: "rt_align b + 4096 \<le> rt_align_down e" "b + 3 < 2 ^ 32" "e < 2 ^ 32" "0 < b"
    and im: "timer_stack im \<noteq> 0" "idle_stack im \<noteq> 0" "timer_thread < b" "idle_thread im < b" "idle_thread im \<noteq> timer_thread"
  defines "s' \<equiv> rtthread_startup (rt_hw_board_init b e pin usart console fns) im s"
  shows "sched_ok {} s' \<and> \<not> kpanic s' \<and> timers_ok Hard_timers s' \<and> timers_ok Soft_timers s' \<and> (\<exists>bs. heap_inv (kheap s') bs)
    \<and> current s' = Some timer_thread \<and> state_of s' timer_thread = 3
    \<and> (\<exists>mt. b \<le> mt \<and> mt < e \<and> entry (threads s' mt) = main_entry im
        \<and> (\<forall>q. tlists s' q = (if q = Ready 10 then [mt] else if q = Ready 31 then [idle_thread im] else []))
        \<and> (let s'' = snd (timer_thread_wait s')
           in sched_ok {} s'' \<and> \<not> kpanic s'' \<and> current s'' = Some mt \<and> state_of s'' mt = 3
              \<and> (\<forall>q. tlists s'' q = (if q = Ready 31 then [idle_thread im] else []))))"
proof -
  define mt where "mt = rt_align b + 604"
  define s5 where "s5 = rt_application_init (main_entry im) (rt_system_signal_init (rt_system_scheduler_init (rt_system_timer_init (rt_hw_board_init b e pin usart console fns s))))"
  define s5' where "s5' = s5\<lparr>tmlists := (tmlists s5)(Soft_timers := [])\<rparr>"
  define s6 where "s6 = snd (rt_thread_startup timer_thread (snd (rt_thread_init timer_thread ''timer'' (timer_entry im) 0 (timer_stack im) 1024 4 10 s5')))"
  define s7 where "s7 = snd (rt_thread_startup (idle_thread im) (snd (rt_thread_init (idle_thread im) ''tidle0'' (idle_entry im) 0 (idle_stack im) 1024 31 32 s6)))"
  have s': "s' = rt_system_scheduler_start s7"
    by (simp add: s'_def rtthread_startup_def Let_def s5_def s5'_def s6_def s7_def rt_system_timer_thread_init_def rt_thread_idle_init_def)
  note ma = main_started(1-5) [OF c dr heap, where me = "main_entry im", folded mt_def s5_def] main_started(6,7) [OF c dr heap, folded mt_def]
  have ne: "mt \<noteq> timer_thread" "mt \<noteq> idle_thread im" using ma(6) im by auto
  have b5: "booting s5'" using ma(1) by (simp add: booting_def s5'_def)
  have st5: "state_of s5' u = (if u = mt then 1 else 0)" for u using ma(2) [of u] by (simp add: s5'_def state_of_def)
  have ti: "state_of s5' timer_thread = 0" using st5 ne by simp
  note th = static_thread_boot [OF b5 ti im(1) _ s6_def, simplified]
  have id: "state_of s6 (idle_thread im) = 0" using th(2) [of "idle_thread im"] st5 ne im by simp
  note il = static_thread_boot [OF th(1) id im(2) _ s7_def, simplified]
  have l7: "\<forall>q. tlists s7 q = (if q = Ready 4 then [timer_thread] else if q = Ready 10 then [mt] else if q = Ready 31 then [idle_thread im] else [])"
    using il(4) th(4) ma(3) by (simp add: list_insert_before_def s5'_def)
  have ds: "distinct [timer_thread, mt, idle_thread im]" using ne im by auto
  note st = threads_at_start [OF il(1) l7 ds, folded s']
  have "thread_ok timer_thread s7" by (rule il(5) [OF th(6)])
  then have tk: "thread_ok timer_thread s'" using st(9) by (simp add: thread_ok_def is_thread_def is_timer_def rt_object_get_type_def rt_object_is_systemobject_def)
  have tm: "tmlists s' k = []" for k using st(5) bootingD(6) [OF il(1)] by simp
  have l': "\<forall>q. tlists s' q = (if q = Ready 10 then [mt] else if q = Ready 31 then [idle_thread im] else [])" using st(10) by blast
  note mr = main_runs [OF st(1-4,7) tm tk l' ds]
  have "entry (threads s' mt) = main_entry im" using st(8) [of mt] il(7) [of mt] th(7) [of mt] ne ma(5) by (simp add: s5'_def)
  moreover have "\<exists>bs. heap_inv (kheap s') bs" using st(6) il(3) th(3) ma(4) by (simp add: s5'_def)
  moreover have "timers_ok k s'" for k using tm by (simp add: timers_ok_def store_ok_def timer_order_def)
  ultimately show ?thesis using st(1-4) l' ma(6,7) mr unfolding Let_def by blast
qed

definition image_example :: boot_image where
  "image_example = \<lparr>main_entry = 0x08001001, timer_entry = 0x08002001, timer_stack = 0x20000400, idle_thread = 0x20000100, idle_entry = 0x08003001, idle_stack = 0x20000800\<rparr>"

definition cold_example :: kernel where
  "cold_example = blank_kernel\<lparr>kheap := demo_heap\<lparr>used_mem := 0, heap_panic := False\<rparr>\<rparr>"

lemma image_example_ok:
  "cold cold_example" "driver_ok (\<lambda>s. s)"
  "rt_align 0x20001000 + 4096 \<le> rt_align_down 0x20020000" "timer_stack image_example \<noteq> 0" "idle_stack image_example \<noteq> 0" "timer_thread < 0x20001000"
  "idle_thread image_example < 0x20001000" "idle_thread image_example \<noteq> timer_thread"
  by (simp_all add: cold_def driver_ok_def cold_example_def blank_kernel_def blank_thread_def state_of_def rt_align_id rt_align_down_def timer_thread_def image_example_def)

theorem system_starts_witness:
  "\<exists>mt. current (rtthread_startup (rt_hw_board_init 0x20001000 0x20020000 (\<lambda>s. s) (\<lambda>s. s) (\<lambda>s. s) []) image_example cold_example) = Some timer_thread
    \<and> current (snd (timer_thread_wait (rtthread_startup (rt_hw_board_init 0x20001000 0x20020000 (\<lambda>s. s) (\<lambda>s. s) (\<lambda>s. s) []) image_example cold_example))) = Some mt"
  using system_starts [OF image_example_ok(1,2,2,2), of "[]" "0x20001000" "0x20020000" image_example] image_example_ok(3-)
  unfolding Let_def by auto

end
