(* ===== verification/RT_Ringbuffer.thy ===== *)
theory RT_Ringbuffer
  imports RT_Object RT_Fifo
begin

text \<open>
  The ring buffers of \<^verbatim>\<open>components/drivers/src/ringbuffer.c\<close>.  Read and write position are 15-bit indices
  with a mirror bit each, which tells a full buffer from an empty one.  No operation lets an index
  pass the size of the buffer, so differences of size and index are differences of naturals here.
\<close>

section \<open>Operations\<close>

record rt_ringbuffer =
  buffer_addr :: nat
  buffer_ptr :: "u8 list"
  read_mirror :: bool
  read_index :: nat
  write_mirror :: bool
  write_index :: nat
  buffer_size :: nat

datatype rt_ringbuffer_state = RT_RINGBUFFER_EMPTY | RT_RINGBUFFER_FULL | RT_RINGBUFFER_HALFFULL

definition rt_ringbuffer_status :: "rt_ringbuffer \<Rightarrow> rt_ringbuffer_state" where
  "rt_ringbuffer_status rb =
     (if read_index rb = write_index rb
      then (if read_mirror rb = write_mirror rb then RT_RINGBUFFER_EMPTY else RT_RINGBUFFER_FULL)
      else RT_RINGBUFFER_HALFFULL)"

text \<open>The buffer \<open>pool\<close> at address \<open>addr\<close>; a size that is not positive fails the assertion.\<close>

definition rt_ringbuffer_init :: "nat \<Rightarrow> u8 list \<Rightarrow> int \<Rightarrow> rt_ringbuffer option" where
  "rt_ringbuffer_init addr pool sz =
     (if sz \<le> 0 then None
      else Some \<lparr>buffer_addr = addr, buffer_ptr = pool, read_mirror = False, read_index = 0, write_mirror = False, write_index = 0,
                 buffer_size = rt_align_down (nat sz)\<rparr>)"

definition rt_ringbuffer_data_len :: "rt_ringbuffer \<Rightarrow> nat" where
  "rt_ringbuffer_data_len rb =
     (case rt_ringbuffer_status rb of
        RT_RINGBUFFER_EMPTY \<Rightarrow> 0
      | RT_RINGBUFFER_FULL \<Rightarrow> buffer_size rb
      | RT_RINGBUFFER_HALFFULL \<Rightarrow>
          (if write_index rb > read_index rb then write_index rb - read_index rb
           else buffer_size rb - (read_index rb - write_index rb)))"

definition rt_ringbuffer_space_len :: "rt_ringbuffer \<Rightarrow> nat" where
  "rt_ringbuffer_space_len rb = buffer_size rb - rt_ringbuffer_data_len rb"

definition rt_ringbuffer_get_size :: "rt_ringbuffer \<Rightarrow> nat" where
  "rt_ringbuffer_get_size rb = buffer_size rb"

text \<open>\<^verbatim>\<open>memcpy(&buffer[at], data, length)\<close>.\<close>

definition splice :: "nat \<Rightarrow> u8 list \<Rightarrow> u8 list \<Rightarrow> u8 list" where
  "splice at data buf = take at buf @ data @ drop (at + length data) buf"

text \<open>Writing a block that fits, in one piece or in two, and moving the write index; the last step of both block writes.\<close>

definition rb_write :: "u8 list \<Rightarrow> rt_ringbuffer \<Rightarrow> rt_ringbuffer" where
  "rb_write data rb =
     (let rest = buffer_size rb - write_index rb; n = length data
      in if rest > n then
           rb\<lparr>buffer_ptr := splice (write_index rb) data (buffer_ptr rb), write_index := (write_index rb + n) mod 2 ^ 15\<rparr>
         else
           rb\<lparr>buffer_ptr := splice 0 (drop rest data) (splice (write_index rb) (take rest data) (buffer_ptr rb)),
              write_mirror := \<not> write_mirror rb, write_index := (n - rest) mod 2 ^ 15\<rparr>)"

definition rt_ringbuffer_put :: "rt_ringbuffer \<Rightarrow> u8 list \<Rightarrow> nat \<times> rt_ringbuffer" where
  "rt_ringbuffer_put rb data =
     (let sz = rt_ringbuffer_space_len rb
      in if sz = 0 then (0, rb)
         else
           (let d = (if sz < length data then take sz data else data)
            in (length d, rb_write d rb)))"

definition rt_ringbuffer_put_force :: "rt_ringbuffer \<Rightarrow> u8 list \<Rightarrow> nat \<times> rt_ringbuffer" where
  "rt_ringbuffer_put_force rb data =
     (let space = rt_ringbuffer_space_len rb;
          d = (if length data > buffer_size rb then drop (length data - buffer_size rb) data else data);
          rb1 = rb_write d rb
      in (length d,
          if length d > space
          then (if buffer_size rb - write_index rb > length d then rb1\<lparr>read_index := write_index rb1\<rparr>
                else rb1\<lparr>read_mirror := \<not> read_mirror rb1, read_index := write_index rb1\<rparr>)
          else rb1))"

text \<open>The bytes copied to the caller's buffer, whose number is the value returned.\<close>

definition rt_ringbuffer_get :: "rt_ringbuffer \<Rightarrow> nat \<Rightarrow> u8 list \<times> rt_ringbuffer" where
  "rt_ringbuffer_get rb len =
     (let sz = rt_ringbuffer_data_len rb
      in if sz = 0 then ([], rb)
         else
           (let n = (if sz < len then sz else len);
                rest = buffer_size rb - read_index rb
            in if rest > n then
                 (take n (drop (read_index rb) (buffer_ptr rb)), rb\<lparr>read_index := (read_index rb + n) mod 2 ^ 15\<rparr>)
               else
                 (take rest (drop (read_index rb) (buffer_ptr rb)) @ take (n - rest) (buffer_ptr rb),
                  rb\<lparr>read_mirror := \<not> read_mirror rb, read_index := (n - rest) mod 2 ^ 15\<rparr>)))"

text \<open>Moving the write index on by one.\<close>

definition rb_advance_write :: "rt_ringbuffer \<Rightarrow> rt_ringbuffer" where
  "rb_advance_write rb =
     (if write_index rb = buffer_size rb - 1 then rb\<lparr>write_mirror := \<not> write_mirror rb, write_index := 0\<rparr>
      else rb\<lparr>write_index := (write_index rb + 1) mod 2 ^ 15\<rparr>)"

definition rt_ringbuffer_putchar :: "rt_ringbuffer \<Rightarrow> u8 \<Rightarrow> nat \<times> rt_ringbuffer" where
  "rt_ringbuffer_putchar rb ch =
     (if rt_ringbuffer_space_len rb = 0 then (0, rb)
      else (1, rb_advance_write (rb\<lparr>buffer_ptr := (buffer_ptr rb)[write_index rb := ch]\<rparr>)))"

definition rt_ringbuffer_putchar_force :: "rt_ringbuffer \<Rightarrow> u8 \<Rightarrow> nat \<times> rt_ringbuffer" where
  "rt_ringbuffer_putchar_force rb ch =
     (let old_state = rt_ringbuffer_status rb;
          rb1 = rb\<lparr>buffer_ptr := (buffer_ptr rb)[write_index rb := ch]\<rparr>
      in (1,
          if write_index rb1 = buffer_size rb1 - 1 then
            (let rb2 = rb1\<lparr>write_mirror := \<not> write_mirror rb1, write_index := 0\<rparr>
             in if old_state = RT_RINGBUFFER_FULL then rb2\<lparr>read_mirror := \<not> read_mirror rb2, read_index := write_index rb2\<rparr> else rb2)
          else
            (let rb2 = rb1\<lparr>write_index := (write_index rb1 + 1) mod 2 ^ 15\<rparr>
             in if old_state = RT_RINGBUFFER_FULL then rb2\<lparr>read_index := write_index rb2\<rparr> else rb2)))"

definition rt_ringbuffer_getchar :: "rt_ringbuffer \<Rightarrow> (nat \<times> u8 option) \<times> rt_ringbuffer" where
  "rt_ringbuffer_getchar rb =
     (if rt_ringbuffer_data_len rb = 0 then ((0, None), rb)
      else
        ((1, Some (buffer_ptr rb ! read_index rb)),
         if read_index rb = buffer_size rb - 1 then rb\<lparr>read_mirror := \<not> read_mirror rb, read_index := 0\<rparr>
         else rb\<lparr>read_index := (read_index rb + 1) mod 2 ^ 15\<rparr>))"

definition rt_ringbuffer_reset :: "rt_ringbuffer \<Rightarrow> rt_ringbuffer" where
  "rt_ringbuffer_reset rb = rb\<lparr>read_mirror := False, read_index := 0, write_mirror := False, write_index := 0\<rparr>"

text \<open>A dynamic ring buffer: its address and the structure; what the allocated buffer holds is an argument.\<close>

definition rt_ringbuffer_create :: "nat \<Rightarrow> u8 list \<Rightarrow> kernel \<Rightarrow> (nat \<times> rt_ringbuffer) option \<times> kernel" where
  "rt_ringbuffer_create sz pool s =
     (if sz = 0 then (None, panic s)
      else
        (let n = rt_align_down sz
         in case kernel_malloc 12 s of
              (None, s1) \<Rightarrow> (None, s1)
            | (Some a, s1) \<Rightarrow>
                (case kernel_malloc n s1 of
                   (None, s2) \<Rightarrow> (None, kernel_free a s2)
                 | (Some p, s2) \<Rightarrow>
                     (case rt_ringbuffer_init p pool (sint (word_of_nat n :: 16 word)) of
                        None \<Rightarrow> (None, panic s2)
                      | Some rb \<Rightarrow> (Some (a, rb), s2)))))"

definition rt_ringbuffer_destroy :: "nat \<Rightarrow> rt_ringbuffer \<Rightarrow> kernel \<Rightarrow> kernel" where
  "rt_ringbuffer_destroy a rb s = kernel_free a (kernel_free (buffer_addr rb) s)"

section \<open>Positions\<close>

text \<open>
  The invariant: both indices lie inside the buffer, and the writer is at most one turn ahead of the
  reader, which the mirror bits record.
\<close>

definition rb_wf :: "rt_ringbuffer \<Rightarrow> bool" where
  "rb_wf rb \<longleftrightarrow> 0 < buffer_size rb \<and> buffer_size rb < 2 ^ 15 \<and> buffer_size rb \<le> length (buffer_ptr rb)
     \<and> read_index rb < buffer_size rb \<and> write_index rb < buffer_size rb
     \<and> (if read_mirror rb = write_mirror rb then read_index rb \<le> write_index rb else write_index rb \<le> read_index rb)"

definition rb_content :: "rt_ringbuffer \<Rightarrow> u8 list" where
  "rb_content rb = ring (buffer_ptr rb) (buffer_size rb) (read_index rb) (rt_ringbuffer_data_len rb)"

text \<open>The same, in terms of the number of bytes in the buffer.\<close>

definition rb_at :: "nat \<Rightarrow> rt_ringbuffer \<Rightarrow> bool" where
  "rb_at n rb \<longleftrightarrow> 0 < buffer_size rb \<and> buffer_size rb < 2 ^ 15 \<and> buffer_size rb \<le> length (buffer_ptr rb)
     \<and> read_index rb < buffer_size rb \<and> n \<le> buffer_size rb
     \<and> (if read_index rb + n < buffer_size rb then write_index rb = read_index rb + n \<and> write_mirror rb = read_mirror rb
        else write_index rb + buffer_size rb = read_index rb + n \<and> write_mirror rb \<noteq> read_mirror rb)"

lemma rb_atD:
  assumes "rb_at n rb"
  shows "0 < buffer_size rb" "buffer_size rb < 2 ^ 15" "buffer_size rb \<le> length (buffer_ptr rb)" "read_index rb < buffer_size rb"
    "n \<le> buffer_size rb" "write_index rb = (read_index rb + n) mod buffer_size rb" "write_index rb < buffer_size rb"
    "rb_wf rb" "rt_ringbuffer_data_len rb = n"
    "read_index rb + n < buffer_size rb \<and> write_index rb = read_index rb + n \<and> write_mirror rb = read_mirror rb
     \<or> read_index rb + n \<ge> buffer_size rb \<and> write_index rb + buffer_size rb = read_index rb + n \<and> write_mirror rb \<noteq> read_mirror rb"
proof -
  let ?z = "buffer_size rb" and ?r = "read_index rb" and ?w = "write_index rb"
  show b: "0 < ?z" "?z < 2 ^ 15" "?z \<le> length (buffer_ptr rb)" "?r < ?z" "n \<le> ?z" using assms by (simp_all add: rb_at_def)
  show c: "?r + n < ?z \<and> ?w = ?r + n \<and> write_mirror rb = read_mirror rb
     \<or> ?r + n \<ge> ?z \<and> ?w + ?z = ?r + n \<and> write_mirror rb \<noteq> read_mirror rb" using assms by (auto simp: rb_at_def split: if_splits)
  then show "?w = (?r + n) mod ?z" "?w < ?z" using b by (auto simp: mod_if)
  then show "rb_wf rb" "rt_ringbuffer_data_len rb = n"
    using b c by (auto simp: rb_wf_def rt_ringbuffer_data_len_def rt_ringbuffer_status_def)
qed

lemma rb_wf_at: "rb_wf rb \<Longrightarrow> rb_at (rt_ringbuffer_data_len rb) rb"
  by (auto simp: rb_wf_def rb_at_def rt_ringbuffer_data_len_def rt_ringbuffer_status_def)

lemma rb_content_at: "rb_at n rb \<Longrightarrow> rb_content rb = ring (buffer_ptr rb) (buffer_size rb) (read_index rb) n"
  using rb_atD(9) by (simp add: rb_content_def)

lemma rb_space_at: "rb_at n rb \<Longrightarrow> rt_ringbuffer_space_len rb = buffer_size rb - n"
  using rb_atD(9) by (simp add: rt_ringbuffer_space_len_def)

section \<open>Blocks\<close>

lemma splice_length [simp]: "at + length data \<le> length buf \<Longrightarrow> length (splice at data buf) = length buf"
  by (simp add: splice_def)

lemma splice_nth:
  "at + length data \<le> length buf \<Longrightarrow>
     splice at data buf ! i = (if at \<le> i \<and> i < at + length data then data ! (i - at) else buf ! i)"
  by (auto simp: splice_def nth_append)

lemma ring_write:
  assumes "\<And>i. i < n \<Longrightarrow> ys ! ((out + i) mod sz) = xs ! ((out + i) mod sz)"
    and "\<And>i. i < length data \<Longrightarrow> ys ! ((out + n + i) mod sz) = data ! i"
  shows "ring ys sz out (n + length data) = ring xs sz out n @ data"
proof (rule nth_equalityI)
  show "length (ring ys sz out (n + length data)) = length (ring xs sz out n @ data)" by simp
  fix i assume "i < length (ring ys sz out (n + length data))"
  then have i: "i < n + length data" by simp
  show "ring ys sz out (n + length data) ! i = (ring xs sz out n @ data) ! i"
  proof (cases "i < n")
    case True
    then show ?thesis using assms(1) [of i] i by (simp add: ring_def nth_append)
  next
    case False
    then have "out + n + (i - n) = out + i" by simp
    then show ?thesis using assms(2) [of "i - n"] i False by (simp add: ring_def nth_append)
  qed
qed

text \<open>Which cell the wrapped position \<open>a + i\<close> is.\<close>

lemma wrap_cell: "i < (sz :: nat) \<Longrightarrow> a < sz \<Longrightarrow> (a + i) mod sz = (if a + i < sz then a + i else a + i - sz)"
  by (auto simp: mod_if)

lemma rb_write_facts:
  assumes a: "rb_at n rb" and fit: "n + length data \<le> buffer_size rb"
  shows "rb_at (n + length data) (rb_write data rb)" "rb_content (rb_write data rb) = rb_content rb @ data"
    "buffer_size (rb_write data rb) = buffer_size rb"
proof -
  let ?z = "buffer_size rb" and ?r = "read_index rb" and ?w = "write_index rb" and ?k = "length data" and ?b = "buffer_ptr rb"
  note d = rb_atD [OF a]
  show z: "buffer_size (rb_write data rb) = ?z" by (simp add: rb_write_def Let_def)
  have old: "(?r + i) mod ?z \<noteq> (?w + j) mod ?z" if "i < n" "j < ?k" for i j
  proof -
    have "(?w + j) mod ?z = (?r + (n + j)) mod ?z" unfolding d(6) by (simp add: mod_simps add.assoc)
    then show ?thesis using ring_distinct [of i "n + j" ?z ?r] that fit by simp
  qed
  show "rb_at (n + ?k) (rb_write data rb)"
  proof (cases "?w + ?k < ?z")
    case True
    then have "rb_write data rb = rb\<lparr>buffer_ptr := splice ?w data ?b, write_index := ?w + ?k\<rparr>" using d(2,7) by (simp add: rb_write_def Let_def)
    then show ?thesis using d True fit by (auto simp: rb_at_def)
  next
    case False
    have le: "?k - (?z - ?w) < ?z" "?z - ?w \<le> ?k" using False fit d(7) by linarith+
    then have eq: "rb_write data rb = rb\<lparr>buffer_ptr := splice 0 (drop (?z - ?w) data) (splice ?w (take (?z - ?w) data) ?b),
        write_mirror := \<not> write_mirror rb, write_index := ?k - (?z - ?w)\<rparr>" using d(2,7) by (simp add: rb_write_def Let_def)
    have "length (splice ?w (take (?z - ?w) data) ?b) = length ?b" using le d(3,7) by simp
    then have "length (buffer_ptr (rb_write data rb)) = length ?b" using le d(3) by (simp add: eq)
    then show ?thesis using d False fit le by (auto simp: eq rb_at_def)
  qed
  then have ct: "rb_content (rb_write data rb) = ring (buffer_ptr (rb_write data rb)) ?z ?r (n + ?k)"
    using rb_content_at z by (simp add: rb_write_def Let_def)
  have cells: "buffer_ptr (rb_write data rb) ! c = (if ?w \<le> c \<and> c < ?w + ?k then data ! (c - ?w)
      else if c + ?z < ?w + ?k then data ! (c + ?z - ?w) else ?b ! c)" if c: "c < ?z" for c
  proof (cases "?w + ?k < ?z")
    case True
    then have "?k < ?z - ?w" using d(7) by linarith
    then have "buffer_ptr (rb_write data rb) = splice ?w data ?b" by (simp add: rb_write_def Let_def)
    then show ?thesis using splice_nth [of ?w data ?b c] True d(3) c by auto
  next
    case False
    let ?s = "splice ?w (take (?z - ?w) data) ?b"
    have le: "?k - (?z - ?w) \<le> ?w" "?z - ?w \<le> ?k" using False fit d(4,7,10) by linarith+
    have eq: "buffer_ptr (rb_write data rb) = splice 0 (drop (?z - ?w) data) ?s" using le(2) by (simp add: rb_write_def Let_def)
    have ls: "length ?s = length ?b" using le d(3,7) by simp
    have s1: "?s ! c = (if ?w \<le> c then data ! (c - ?w) else ?b ! c)" using splice_nth [of ?w "take (?z - ?w) data" ?b c] le d(3,7) c by auto
    have s2: "splice 0 (drop (?z - ?w) data) ?s ! c = (if c < ?k - (?z - ?w) then drop (?z - ?w) data ! c else ?s ! c)"
      using splice_nth [of 0 "drop (?z - ?w) data" ?s c] ls le d(3,7) by auto
    have "drop (?z - ?w) data ! c = data ! (c + ?z - ?w)" using le(2) d(7) by (simp add: add.commute)
    then show ?thesis using s1 s2 le d(7) c by (auto simp: eq)
  qed
  show "rb_content (rb_write data rb) = rb_content rb @ data"
    unfolding ct rb_content_at [OF a]
  proof (rule ring_write)
    fix i assume i: "i < n"
    let ?c = "(?r + i) mod ?z"
    have c: "?c < ?z" using d(1) by simp
    have n1: "\<not> (?w \<le> ?c \<and> ?c < ?w + ?k)"
    proof
      assume h: "?w \<le> ?c \<and> ?c < ?w + ?k"
      then have "(?w + (?c - ?w)) mod ?z = ?c" using c by simp
      then show False using old [OF i, of "?c - ?w"] h by linarith
    qed
    have n2: "\<not> ?c + ?z < ?w + ?k"
    proof
      assume h: "?c + ?z < ?w + ?k"
      then have "(?w + (?c + ?z - ?w)) mod ?z = ?c" using c d(7) by simp
      then show False using old [OF i, of "?c + ?z - ?w"] h d(7) by linarith
    qed
    show "buffer_ptr (rb_write data rb) ! ?c = ?b ! ?c" unfolding cells [OF c] if_not_P [OF n1] if_not_P [OF n2] ..
  next
    fix i assume i: "i < ?k"
    have "(?r + n + i) mod ?z = (?w + i) mod ?z" unfolding d(6) by (simp add: mod_simps)
    moreover have "(?w + i) mod ?z = (if ?w + i < ?z then ?w + i else ?w + i - ?z)" using i fit d(7) by (intro wrap_cell) linarith+
    moreover have "(?w + i) mod ?z < ?z" using d(1) by simp
    ultimately show "buffer_ptr (rb_write data rb) ! ((?r + n + i) mod ?z) = data ! i" using cells [of "(?w + i) mod ?z"] i fit d(7) by auto
  qed
qed

text \<open>Leaving out the oldest \<open>m\<close> bytes: the reader moves on.\<close>

definition rb_skip :: "nat \<Rightarrow> rt_ringbuffer \<Rightarrow> rt_ringbuffer" where
  "rb_skip m rb =
     (if read_index rb + m < buffer_size rb then rb\<lparr>read_index := read_index rb + m\<rparr>
      else rb\<lparr>read_mirror := \<not> read_mirror rb, read_index := read_index rb + m - buffer_size rb\<rparr>)"

lemma rb_skip_fields [simp]:
  "buffer_ptr (rb_skip m rb) = buffer_ptr rb" "buffer_size (rb_skip m rb) = buffer_size rb"
  "write_index (rb_skip m rb) = write_index rb" "write_mirror (rb_skip m rb) = write_mirror rb"
  by (simp_all add: rb_skip_def)

lemma ring_drop: "m \<le> n \<Longrightarrow> drop m (ring xs sz out n) = ring xs sz ((out + m) mod sz) (n - m)"
proof (rule nth_equalityI)
  assume m: "m \<le> n"
  show "length (drop m (ring xs sz out n)) = length (ring xs sz ((out + m) mod sz) (n - m))" by simp
  fix i assume "i < length (drop m (ring xs sz out n))"
  then have i: "i < n - m" "m + i < n" using m by simp_all
  then show "drop m (ring xs sz out n) ! i = ring xs sz ((out + m) mod sz) (n - m) ! i" by (simp add: ring_def mod_simps add.assoc)
qed

lemma ring_mod: "ring xs sz (out mod sz) n = ring xs sz out n"
  by (simp add: ring_def mod_simps)

lemma ring_take: "m \<le> n \<Longrightarrow> take m (ring xs sz out n) = ring xs sz out m"
  by (rule nth_equalityI) (simp_all add: ring_def)

lemma rb_skip_facts:
  assumes a: "rb_at n rb" and m: "m \<le> n"
  shows "rb_at (n - m) (rb_skip m rb)" "rb_content (rb_skip m rb) = drop m (rb_content rb)"
proof -
  note d = rb_atD [OF a]
  have r: "read_index (rb_skip m rb) = (read_index rb + m) mod buffer_size rb" "read_index rb + m < 2 * buffer_size rb"
    using d(4,5) m by (auto simp: rb_skip_def mod_if)
  show at: "rb_at (n - m) (rb_skip m rb)" using d m by (auto simp: rb_skip_def rb_at_def)
  show "rb_content (rb_skip m rb) = drop m (rb_content rb)"
    unfolding rb_content_at [OF a] rb_content_at [OF at] ring_drop [OF m] r(1) by simp
qed

lemma rb_write_skip:
  "rb_write data (rb_skip m rb) = (rb_write data rb)\<lparr>read_mirror := read_mirror (rb_skip m rb), read_index := read_index (rb_skip m rb)\<rparr>"
  by (simp add: rb_write_def rb_skip_def Let_def)

text \<open>The bytes of a straight piece of the buffer.\<close>

lemma ring_piece: "out + n \<le> sz \<Longrightarrow> sz \<le> length xs \<Longrightarrow> ring xs sz out n = take n (drop out xs)"
  by (rule nth_equalityI) (simp_all add: ring_def)

lemma ring_two_pieces:
  assumes "out < sz" "sz \<le> length xs" "sz - out \<le> n" "n \<le> sz"
  shows "ring xs sz out n = take (sz - out) (drop out xs) @ take (n - (sz - out)) xs"
proof -
  have o: "(out + (sz - out)) mod sz = 0" using assms(1) by simp
  have "ring xs sz out n = take (sz - out) (ring xs sz out n) @ drop (sz - out) (ring xs sz out n)" by simp
  also have "\<dots> = ring xs sz out (sz - out) @ ring xs sz 0 (n - (sz - out))" unfolding ring_take [OF assms(3)] ring_drop [OF assms(3)] o ..
  also have "ring xs sz out (sz - out) = take (sz - out) (drop out xs)" by (rule ring_piece) (use assms in simp_all)
  also have "ring xs sz 0 (n - (sz - out)) = take (n - (sz - out)) (drop 0 xs)" by (rule ring_piece) (use assms in simp_all)
  finally show ?thesis by simp
qed

section \<open>The operations\<close>

lemma put_result:
  assumes a: "rb_at n rb"
  shows "rt_ringbuffer_put rb data = (min (length data) (buffer_size rb - n), rb_write (take (buffer_size rb - n) data) rb)"
proof (cases "n = buffer_size rb")
  case True
  then show ?thesis using rb_space_at [OF a] rb_atD(2,7) [OF a] by (simp add: rt_ringbuffer_put_def rb_write_def splice_def)
next
  case False
  then show ?thesis using rb_space_at [OF a] rb_atD(5) [OF a] by (auto simp: rt_ringbuffer_put_def Let_def min_def)
qed

lemma get_result:
  assumes a: "rb_at n rb"
  shows "rt_ringbuffer_get rb len = (take len (rb_content rb), rb_skip (min len n) rb)"
proof -
  note d = rb_atD [OF a]
  let ?m = "min len n" and ?z = "buffer_size rb" and ?r = "read_index rb"
  have t: "take len (rb_content rb) = ring (buffer_ptr rb) ?z ?r ?m"
    unfolding rb_content_at [OF a] by (cases "len \<le> n") (simp_all add: ring_take)
  show ?thesis
  proof (cases "n = 0")
    case True
    then show ?thesis using d(4,9) t by (simp add: rt_ringbuffer_get_def rb_skip_def)
  next
    case False
    have m: "(if n < len then n else len) = ?m" by simp
    have g: "rt_ringbuffer_get rb len = (if ?z - ?r > ?m
        then (take ?m (drop ?r (buffer_ptr rb)), rb\<lparr>read_index := (?r + ?m) mod 2 ^ 15\<rparr>)
        else (take (?z - ?r) (drop ?r (buffer_ptr rb)) @ take (?m - (?z - ?r)) (buffer_ptr rb),
              rb\<lparr>read_mirror := \<not> read_mirror rb, read_index := (?m - (?z - ?r)) mod 2 ^ 15\<rparr>))"
      using False d(9) by (simp add: rt_ringbuffer_get_def Let_def m)
    show ?thesis
    proof (cases "?z - ?r > ?m")
      case True
      then have "?r + ?m < ?z" "(?r + ?m) mod 2 ^ 15 = ?r + ?m" using d(2) by simp_all
      then show ?thesis using True d(3) ring_piece [of ?r ?m ?z "buffer_ptr rb"] by (simp add: g t rb_skip_def)
    next
      case False
      then have b: "?z - ?r \<le> ?m" "?m \<le> ?z" using d(5) by linarith+
      then have e: "\<not> ?r + ?m < ?z" "?m - (?z - ?r) = ?r + ?m - ?z" "?r + ?m - ?z < 2 ^ 15" using d(2,4) by linarith+
      have "rb_skip ?m rb = rb\<lparr>read_mirror := \<not> read_mirror rb, read_index := ?r + ?m - ?z\<rparr>" unfolding rb_skip_def if_not_P [OF e(1)] ..
      then show ?thesis unfolding t ring_two_pieces [OF d(4,3) b] g if_not_P [OF False] unfolding e(2) mod_less [OF e(3)] by (rule arg_cong2 [where f = Pair, OF refl sym])
    qed
  qed
qed

text \<open>One byte is a block of length one.\<close>

lemma putchar_result:
  assumes a: "rb_at n rb"
  shows "rt_ringbuffer_putchar rb ch = (if n = buffer_size rb then (0, rb) else (1, rb_write [ch] rb))"
proof -
  note d = rb_atD [OF a]
  have u: "splice (write_index rb) [ch] (buffer_ptr rb) = (buffer_ptr rb)[write_index rb := ch]"
    using d(3,7) by (simp add: splice_def upd_conv_take_nth_drop)
  have "rb_advance_write (rb\<lparr>buffer_ptr := (buffer_ptr rb)[write_index rb := ch]\<rparr>) = rb_write [ch] rb"
  proof (cases "write_index rb = buffer_size rb - 1")
    case True
    then have "buffer_size rb - write_index rb = 1" using d(1) by simp
    then show ?thesis using True u by (simp add: rb_advance_write_def rb_write_def splice_def)
  next
    case False
    then have "buffer_size rb - write_index rb > 1" using d(7) by simp
    then show ?thesis using False u by (simp add: rb_advance_write_def rb_write_def)
  qed
  then show ?thesis using rb_space_at [OF a] d(5) by (simp add: rt_ringbuffer_putchar_def)
qed

lemma getchar_result:
  assumes a: "rb_at n rb"
  shows "rt_ringbuffer_getchar rb = (if n = 0 then ((0, None), rb) else ((1, Some (hd (rb_content rb))), rb_skip 1 rb))"
proof -
  note d = rb_atD [OF a]
  have "0 < n \<Longrightarrow> hd (rb_content rb) = buffer_ptr rb ! read_index rb"
    unfolding rb_content_at [OF a] using ring_pop [OF _ d(4), of n "buffer_ptr rb"] by simp
  then show ?thesis using d(1,2,4,9) by (auto simp: rt_ringbuffer_getchar_def rb_skip_def)
qed

text \<open>Byte by byte, the ring buffer is a bounded queue.\<close>

definition rb_put1 :: "u8 \<Rightarrow> rt_ringbuffer \<Rightarrow> rt_ringbuffer" where
  "rb_put1 ch rb = snd (rt_ringbuffer_putchar rb ch)"

definition rb_get1 :: "rt_ringbuffer \<Rightarrow> u8 \<times> rt_ringbuffer" where
  "rb_get1 rb = (the (snd (fst (rt_ringbuffer_getchar rb))), snd (rt_ringbuffer_getchar rb))"

lemma rb_content_length: "rb_wf rb \<Longrightarrow> length (rb_content rb) = rt_ringbuffer_data_len rb"
  by (simp add: rb_content_def)

lemma rb_put1_facts:
  assumes "rb_wf rb" "rt_ringbuffer_space_len rb \<noteq> 0"
  shows "rb_wf (rb_put1 ch rb)" "rb_content (rb_put1 ch rb) = rb_content rb @ [ch]" "buffer_size (rb_put1 ch rb) = buffer_size rb"
proof -
  note a = rb_wf_at [OF assms(1)]
  have n: "rt_ringbuffer_data_len rb + length [ch] \<le> buffer_size rb" using assms(2) by (simp add: rt_ringbuffer_space_len_def)
  then have p: "rb_put1 ch rb = rb_write [ch] rb" using putchar_result [OF a, of ch] by (simp add: rb_put1_def)
  show "rb_wf (rb_put1 ch rb)" "rb_content (rb_put1 ch rb) = rb_content rb @ [ch]" "buffer_size (rb_put1 ch rb) = buffer_size rb"
    unfolding p using rb_write_facts [OF a n] rb_atD(8) by simp_all
qed

lemma rb_get1_facts:
  assumes "rb_wf rb" "rt_ringbuffer_data_len rb \<noteq> 0"
  shows "rb_wf (snd (rb_get1 rb))" "rb_content rb = fst (rb_get1 rb) # rb_content (snd (rb_get1 rb))"
    "buffer_size (snd (rb_get1 rb)) = buffer_size rb"
proof -
  note a = rb_wf_at [OF assms(1)]
  have g: "rb_get1 rb = (hd (rb_content rb), rb_skip 1 rb)" using getchar_result [OF a] assms(2) by (simp add: rb_get1_def)
  note k = rb_skip_facts [OF a, of 1]
  have "rb_content rb \<noteq> []" using rb_content_length [OF assms(1)] assms(2) by auto
  then have "rb_content rb = hd (rb_content rb) # drop 1 (rb_content rb)" by (cases "rb_content rb") simp_all
  then show "rb_wf (snd (rb_get1 rb))" "rb_content rb = fst (rb_get1 rb) # rb_content (snd (rb_get1 rb))"
    "buffer_size (snd (rb_get1 rb)) = buffer_size rb"
    using k assms(2) rb_atD(8) by (simp_all add: g)
qed

interpretation rbq: bounded_fifo rb_wf rb_put1 rb_get1 "\<lambda>rb. rt_ringbuffer_space_len rb = 0" "\<lambda>rb. rt_ringbuffer_data_len rb = 0"
  "\<lambda>_ _. True" rb_content buffer_size
proof unfold_locales
  fix rb :: rt_ringbuffer assume w: "rb_wf rb"
  note l = rb_content_length [OF w] rb_atD(5) [OF rb_wf_at [OF w]]
  show "length (rb_content rb) \<le> buffer_size rb" using l by simp
  show "rt_ringbuffer_space_len rb = 0 \<longleftrightarrow> length (rb_content rb) = buffer_size rb" using l by (auto simp: rt_ringbuffer_space_len_def)
  show "rt_ringbuffer_data_len rb = 0 \<longleftrightarrow> rb_content rb = []" unfolding l(1) [symmetric] by simp
qed (use rb_put1_facts rb_get1_facts in simp_all)

section \<open>Sequences of calls\<close>

datatype rb_op = Put "u8 list" | PutChar u8 | Get nat | GetChar

text \<open>A call: the bytes the buffer accepts, the bytes it delivers, and the buffer afterwards.\<close>

fun rb_call :: "rb_op \<Rightarrow> rt_ringbuffer \<Rightarrow> u8 list \<times> u8 list \<times> rt_ringbuffer" where
  "rb_call (Put data) rb = (let (k, rb') = rt_ringbuffer_put rb data in (take k data, [], rb'))"
| "rb_call (PutChar ch) rb = (let (k, rb') = rt_ringbuffer_putchar rb ch in (take k [ch], [], rb'))"
| "rb_call (Get len) rb = (let (ys, rb') = rt_ringbuffer_get rb len in ([], ys, rb'))"
| "rb_call GetChar rb = (let ((k, ch), rb') = rt_ringbuffer_getchar rb in ([], (case ch of None \<Rightarrow> [] | Some y \<Rightarrow> [y]), rb'))"

fun rb_calls :: "rb_op list \<Rightarrow> rt_ringbuffer \<Rightarrow> u8 list \<times> u8 list \<times> rt_ringbuffer" where
  "rb_calls [] rb = ([], [], rb)"
| "rb_calls (c # cs) rb =
     (let (a, d, rb1) = rb_call c rb;
          (as, ds, rb2) = rb_calls cs rb1
      in (a @ as, d @ ds, rb2))"

lemma rb_call_facts:
  assumes w: "rb_wf rb" and c: "rb_call c rb = (a, d, rb')"
  shows "rb_wf rb' \<and> buffer_size rb' = buffer_size rb \<and> rb_content rb @ a = d @ rb_content rb'"
proof -
  let ?n = "rt_ringbuffer_data_len rb"
  note at = rb_wf_at [OF w] and le = rb_atD(5) [OF rb_wf_at [OF w]]
  show ?thesis
  proof (cases c)
    case (Put data)
    let ?d = "take (buffer_size rb - ?n) data"
    have "a = take (min (length data) (buffer_size rb - ?n)) data" "d = []" "rb' = rb_write ?d rb"
      using c put_result [OF at, of data] by (auto simp: Put)
    then have eq: "a = ?d" "d = []" "rb' = rb_write ?d rb" by (auto simp: min_def)
    have "?n + length ?d \<le> buffer_size rb" using le by simp
    note f = rb_write_facts [OF at this]
    then show ?thesis unfolding eq using rb_atD(8) [OF f(1)] by simp
  next
    case (Get len)
    then have eq: "a = []" "d = take len (rb_content rb)" "rb' = rb_skip (min len ?n) rb" using c get_result [OF at, of len] by auto
    have "take len (rb_content rb) @ drop (min len ?n) (rb_content rb) = rb_content rb"
      using rb_content_length [OF w] by (cases "len \<le> ?n") simp_all
    then show ?thesis unfolding eq using rb_skip_facts(2) [OF at, of "min len ?n"] rb_atD(8) [OF rb_skip_facts(1) [OF at, of "min len ?n"]] by simp
  next
    case (PutChar ch)
    show ?thesis
    proof (cases "rt_ringbuffer_space_len rb = 0")
      case True
      then show ?thesis using c w by (simp add: PutChar rt_ringbuffer_putchar_def)
    next
      case False
      then have "a = [ch]" "d = []" "rb' = rb_put1 ch rb" using c by (auto simp: PutChar rt_ringbuffer_putchar_def rb_put1_def)
      then show ?thesis using rbq.put_ok [OF w False] rbq.put_content [OF w False] rbq.put_capacity [OF w False] by simp
    qed
  next
    case GetChar
    show ?thesis
    proof (cases "?n = 0")
      case True
      then show ?thesis using c w by (simp add: GetChar rt_ringbuffer_getchar_def)
    next
      case False
      then have "a = []" "d = [fst (rb_get1 rb)]" "rb' = snd (rb_get1 rb)" using c by (auto simp: GetChar rt_ringbuffer_getchar_def rb_get1_def)
      then show ?thesis using rbq.get_ok [OF w False] rbq.get_content [OF w False] rbq.get_capacity [OF w False] by simp
    qed
  qed
qed

lemma rb_calls_facts:
  "rb_wf rb \<Longrightarrow> rb_calls cs rb = (as, ds, rb')
     \<Longrightarrow> rb_wf rb' \<and> buffer_size rb' = buffer_size rb \<and> rb_content rb @ as = ds @ rb_content rb'"
proof (induction cs arbitrary: rb as ds rb')
  case (Cons c cs)
  obtain a d rb1 where c: "rb_call c rb = (a, d, rb1)" by (cases "rb_call c rb")
  obtain as' ds' rb2 where r: "rb_calls cs rb1 = (as', ds', rb2)" by (cases "rb_calls cs rb1")
  have eq: "as = a @ as'" "ds = d @ ds'" "rb' = rb2" using Cons.prems(2) by (simp_all add: c r)
  note f = rb_call_facts [OF Cons.prems(1) c]
  have g: "rb_wf rb2" "buffer_size rb2 = buffer_size rb1" "rb_content rb1 @ as' = ds' @ rb_content rb2" using Cons.IH [OF _ r] f by simp_all
  have "rb_content rb @ a @ as' = d @ rb_content rb1 @ as'" using f by (metis append.assoc)
  then show ?case using f g by (simp add: eq)
qed simp

lemma rb_init_facts:
  assumes "rt_ringbuffer_init addr pool sz = Some rb" "4 \<le> sz" "sz < 2 ^ 15" "nat sz \<le> length pool"
  shows "rb_wf rb" "rb_content rb = []" "buffer_size rb = rt_align_down (nat sz)"
proof -
  have rb: "rb = \<lparr>buffer_addr = addr, buffer_ptr = pool, read_mirror = False, read_index = 0, write_mirror = False, write_index = 0,
      buffer_size = rt_align_down (nat sz)\<rparr>" using assms(1) by (auto simp: rt_ringbuffer_init_def split: if_splits)
  have "0 < rt_align_down (nat sz)" "rt_align_down (nat sz) \<le> nat sz" using assms(2) by (simp_all add: rt_align_down_def)
  then show "rb_wf rb" "rb_content rb = []" "buffer_size rb = rt_align_down (nat sz)"
    using assms(3,4) by (simp_all add: rb rb_wf_def rb_content_def rt_ringbuffer_data_len_def rt_ringbuffer_status_def)
qed

section \<open>Forced writes\<close>

lemma full_at: "rb_at n rb \<Longrightarrow> rt_ringbuffer_status rb = RT_RINGBUFFER_FULL \<longleftrightarrow> n = buffer_size rb"
  by (auto simp: rb_at_def rt_ringbuffer_status_def split: if_splits)

text \<open>
  A write past the free space is a write after the oldest bytes were left out, provided the reader ends
  at the writer's position in the other mirror.
\<close>

lemma rb_overwrite:
  assumes a: "rb_at n rb" and k: "length data \<le> buffer_size rb" "buffer_size rb < n + length data"
    and rb': "rb' = (rb_write data rb)\<lparr>read_mirror := \<not> write_mirror (rb_write data rb), read_index := write_index (rb_write data rb)\<rparr>"
  shows "rb_wf rb'" "rb_content rb' = drop (n + length data - buffer_size rb) (rb_content rb) @ data"
proof -
  let ?m = "n + length data - buffer_size rb" and ?z = "buffer_size rb"
  have m: "?m \<le> n" and fit: "n - ?m + length data \<le> buffer_size (rb_skip ?m rb)" "n - ?m + length data = ?z" using k by simp_all
  note s = rb_skip_facts [OF a m]
  note f = rb_write_facts [OF s(1) fit(1)]
  let ?w = "rb_write data (rb_skip ?m rb)"
  have at: "rb_at ?z ?w" and z: "buffer_size ?w = ?z" using f(1,3) fit(2) by simp_all
  have "read_index ?w = write_index ?w" "read_mirror ?w = (\<not> write_mirror ?w)" using rb_atD(1,4,10) [OF at] z by auto
  then have "?w = rb'" unfolding rb' rb_write_skip [of data ?m rb] by simp
  then show "rb_wf rb'" "rb_content rb' = drop ?m (rb_content rb) @ data" using rb_atD(8) [OF at] f(2) s(2) by simp_all
qed

lemma rb_write_mirror:
  "write_mirror (rb_write data rb) = (if buffer_size rb - write_index rb > length data then write_mirror rb else \<not> write_mirror rb)"
  "read_mirror (rb_write data rb) = read_mirror rb" "read_index (rb_write data rb) = read_index rb" "buffer_size (rb_write data rb) = buffer_size rb"
  by (simp_all add: rb_write_def Let_def)

lemma putchar_force_result:
  assumes a: "rb_at n rb"
  shows "rt_ringbuffer_putchar_force rb ch = (1, if n = buffer_size rb
      then (rb_write [ch] rb)\<lparr>read_mirror := \<not> write_mirror (rb_write [ch] rb), read_index := write_index (rb_write [ch] rb)\<rparr>
      else rb_write [ch] rb)"
proof -
  note d = rb_atD [OF a] and f = full_at [OF a]
  have u: "splice (write_index rb) [ch] (buffer_ptr rb) = (buffer_ptr rb)[write_index rb := ch]"
    using d(3,7) by (simp add: splice_def upd_conv_take_nth_drop)
  have mir: "n = buffer_size rb \<Longrightarrow> read_mirror rb = (\<not> write_mirror rb)" using d(10) by auto
  show ?thesis
  proof (cases "write_index rb = buffer_size rb - 1")
    case True
    then have "buffer_size rb - write_index rb = 1" using d(1) by simp
    then show ?thesis using True u f mir by (simp add: rt_ringbuffer_putchar_force_def rb_write_def splice_def Let_def)
  next
    case False
    then have "buffer_size rb - write_index rb > 1" using d(7) by simp
    then show ?thesis using False u f mir by (simp add: rt_ringbuffer_putchar_force_def rb_write_def Let_def)
  qed
qed

text \<open>The last \<open>n\<close> elements of a list.\<close>

definition last_n :: "nat \<Rightarrow> 'a list \<Rightarrow> 'a list" where
  "last_n n xs = drop (length xs - n) xs"

text \<open>A forced write that overtakes a reader in the same mirror.\<close>

definition overtakes :: "rt_ringbuffer \<Rightarrow> u8 list \<Rightarrow> bool" where
  "overtakes rb data \<longleftrightarrow> read_mirror rb = write_mirror rb \<and> length (rb_content rb) + min (length data) (buffer_size rb) > buffer_size rb"

lemma put_force_facts:
  assumes w: "rb_wf rb" and rb'_def: "rb' = snd (rt_ringbuffer_put_force rb data)"
  shows "\<not> overtakes rb data \<Longrightarrow> rb_wf rb' \<and> rb_content rb' = last_n (buffer_size rb) (rb_content rb @ data)"
    and "overtakes rb data \<Longrightarrow> rt_ringbuffer_data_len rb' = 0"
proof -
  let ?n = "rt_ringbuffer_data_len rb" and ?z = "buffer_size rb"
  note a = rb_wf_at [OF w] and d = rb_atD [OF rb_wf_at [OF w]] and l = rb_content_length [OF w]
  define dt where "dt = last_n ?z data"
  have dt: "(if length data > ?z then drop (length data - ?z) data else data) = dt" "length dt = min (length data) ?z"
    by (auto simp: dt_def last_n_def)
  have tail: "last_n ?z (rb_content rb @ data) = drop (?n + length dt - ?z) (rb_content rb) @ dt"
    using d(5) l by (cases "length data \<le> ?z") (simp_all add: dt_def last_n_def)
  let ?w = "rb_write dt rb"
  have pf: "rb' = (if length dt > ?z - ?n
      then (if ?z - write_index rb > length dt then ?w\<lparr>read_index := write_index ?w\<rparr>
            else ?w\<lparr>read_mirror := \<not> read_mirror ?w, read_index := write_index ?w\<rparr>)
      else ?w)"
    unfolding rb'_def rt_ringbuffer_put_force_def dt(1) Let_def rb_space_at [OF a] by simp
  have ov: "overtakes rb data \<longleftrightarrow> read_mirror rb = write_mirror rb \<and> length dt > ?z - ?n" using d(5) l dt(2) by (auto simp: overtakes_def)
  show "rb_wf rb' \<and> rb_content rb' = last_n ?z (rb_content rb @ data)" if "\<not> overtakes rb data"
  proof (cases "length dt > ?z - ?n")
    case True
    then have mir: "read_mirror rb = (\<not> write_mirror rb)" using that ov by auto
    have k: "length dt \<le> ?z" "?z < ?n + length dt" using True dt(2) by linarith+
    have "rb' = ?w\<lparr>read_mirror := \<not> write_mirror ?w, read_index := write_index ?w\<rparr>"
      unfolding pf using True mir by (simp add: rb_write_mirror)
    from rb_overwrite [OF a k this] show ?thesis unfolding tail by simp
  next
    case False
    then have k: "?n + length dt \<le> ?z" using d(5) by linarith
    then have "rb' = ?w" "?n + length dt - ?z = 0" using False by (simp_all add: pf)
    then show ?thesis unfolding tail using rb_write_facts [OF a k] rb_atD(8) [OF rb_write_facts(1) [OF a k]] by simp
  qed
  assume o: "overtakes rb data"
  then have r: "read_index rb + ?n = write_index rb" "read_mirror rb = write_mirror rb" "length dt > ?z - ?n" using d(10) ov by auto
  then have "\<not> ?z - write_index rb > length dt" using d(5) by linarith
  then show "rt_ringbuffer_data_len rb' = 0"
    using r(2,3) by (simp add: pf rb_write_mirror rt_ringbuffer_data_len_def rt_ringbuffer_status_def)
qed

text \<open>
  C23. A ring buffer carries a stream of bytes through a buffer of fixed size.  From any well-formed
  state, whatever sequence of block and byte writes and reads is made: the buffer stays well formed,
  and the bytes it held before followed by the bytes it accepted are the bytes it delivered followed
  by the bytes it still holds, so none is lost, repeated or reordered.  A block write accepts as many
  bytes as there is space, a block read delivers as many of the oldest bytes as asked for, so a block
  written to an empty buffer is read back unchanged.
\<close>

theorem ringbuffer_stream:
  assumes "rb_wf rb"
  shows "(case rb_calls cs rb of (as, ds, rb') \<Rightarrow>
            rb_wf rb' \<and> buffer_size rb' = buffer_size rb \<and> rb_content rb @ as = ds @ rb_content rb')
    \<and> fst (rt_ringbuffer_put rb data) = min (length data) (buffer_size rb - length (rb_content rb))
    \<and> fst (rt_ringbuffer_get rb len) = take len (rb_content rb)
    \<and> (rb_content rb = [] \<and> length data \<le> buffer_size rb \<longrightarrow>
         fst (rt_ringbuffer_get (snd (rt_ringbuffer_put rb data)) (length data)) = data)"
proof (intro conjI impI)
  note at = rb_wf_at [OF assms] and l = rb_content_length [OF assms]
  show "case rb_calls cs rb of (as, ds, rb') \<Rightarrow>
            rb_wf rb' \<and> buffer_size rb' = buffer_size rb \<and> rb_content rb @ as = ds @ rb_content rb'"
    using rb_calls_facts [OF assms, of cs] by (cases "rb_calls cs rb") simp
  show "fst (rt_ringbuffer_put rb data) = min (length data) (buffer_size rb - length (rb_content rb))"
    unfolding put_result [OF at] l by simp
  show "fst (rt_ringbuffer_get rb len) = take len (rb_content rb)" unfolding get_result [OF at] by simp
  assume e: "rb_content rb = [] \<and> length data \<le> buffer_size rb"
  then have z: "rt_ringbuffer_data_len rb = 0" using l by simp
  have p: "snd (rt_ringbuffer_put rb data) = rb_write data rb" unfolding put_result [OF at] z using e by simp
  note f = rb_write_facts [OF at, of data, unfolded z, simplified, OF conjunct2 [OF e]]
  show "fst (rt_ringbuffer_get (snd (rt_ringbuffer_put rb data)) (length data)) = data"
    unfolding p get_result [OF f(1)] using f(2) e by simp
qed

definition demo_rb :: rt_ringbuffer where
  "demo_rb = \<lparr>buffer_addr = 0, buffer_ptr = [0, 0, 0, 0], read_mirror = False, read_index = 3, write_mirror = False, write_index = 3,
      buffer_size = 4\<rparr>"

lemma demo_rb_wf: "rb_wf demo_rb" "rb_content demo_rb = []" "buffer_size demo_rb = 4"
  by (simp_all add: demo_rb_def rb_wf_def rb_content_def rt_ringbuffer_data_len_def rt_ringbuffer_status_def)

theorem ringbuffer_stream_witness:
  "fst (rt_ringbuffer_get (snd (rt_ringbuffer_put demo_rb [1, 2, 3])) 3) = [1, 2, 3] \<and> fst (rt_ringbuffer_put demo_rb [1, 2, 3]) = 3
   \<and> fst (snd (rb_calls [Put [1, 2, 3], GetChar, Put [4, 5, 6], Get 9] demo_rb)) = [1, 2, 3, 4, 5]"
proof -
  have "fst (snd (rb_calls [Put [1, 2, 3], GetChar, Put [4, 5, 6], Get 9] demo_rb)) = [1, 2, 3, 4, 5]"
    by (simp add: demo_rb_def rt_ringbuffer_put_def rt_ringbuffer_get_def rt_ringbuffer_getchar_def rt_ringbuffer_space_len_def
        rt_ringbuffer_data_len_def rt_ringbuffer_status_def rb_write_def splice_def)
  moreover have "fst (rt_ringbuffer_get (snd (rt_ringbuffer_put demo_rb [1, 2, 3])) 3) = [1, 2, 3] \<and> fst (rt_ringbuffer_put demo_rb [1, 2, 3]) = 3"
    using ringbuffer_stream [OF demo_rb_wf(1), of "[]" "[1, 2, 3]" 0] by (simp add: demo_rb_wf(2,3) numeral_3_eq_3)
  ultimately show ?thesis by blast
qed

text \<open>
  C24. A forced write keeps the newest bytes.  A forced byte is appended, and when the buffer is full the
  oldest byte makes room for it.  A forced block leaves the newest \<^verbatim>\<open>buffer_size\<close> bytes of what the buffer
  held followed by the block, and keeps the buffer well formed, except in one case: when the block
  does not fit while reader and writer are in the same mirror, both mirror bits are flipped, the buffer
  looks empty and all its bytes are lost, the new ones too.
\<close>

theorem ringbuffer_force:
  assumes "rb_wf rb"
  shows "(case rt_ringbuffer_putchar_force rb ch of (r, rb') \<Rightarrow>
            r = 1 \<and> rb_wf rb' \<and> rb_content rb' = last_n (buffer_size rb) (rb_content rb @ [ch]))
    \<and> (let rb' = snd (rt_ringbuffer_put_force rb data)
       in if read_mirror rb = write_mirror rb \<and> length (rb_content rb) + min (length data) (buffer_size rb) > buffer_size rb
          then rb_content rb' = []
          else rb_wf rb' \<and> rb_content rb' = last_n (buffer_size rb) (rb_content rb @ data))"
proof
  let ?n = "rt_ringbuffer_data_len rb"
  note a = rb_wf_at [OF assms] and l = rb_content_length [OF assms]
  note d = rb_atD [OF a]
  show "case rt_ringbuffer_putchar_force rb ch of (r, rb') \<Rightarrow>
            r = 1 \<and> rb_wf rb' \<and> rb_content rb' = last_n (buffer_size rb) (rb_content rb @ [ch])"
  proof (cases "?n = buffer_size rb")
    case True
    then have "length [ch] \<le> buffer_size rb" "buffer_size rb < ?n + length [ch]" using d(1) by simp_all
    from rb_overwrite [OF a this refl] show ?thesis using True l d(1) by (simp add: putchar_force_result [OF a] last_n_def)
  next
    case False
    then have k: "?n + length [ch] \<le> buffer_size rb" using d(5) by simp
    show ?thesis using rb_write_facts(2) [OF a k] rb_atD(8) [OF rb_write_facts(1) [OF a k]] False k l
      by (simp add: putchar_force_result [OF a] last_n_def)
  qed
  show "let rb' = snd (rt_ringbuffer_put_force rb data)
       in if read_mirror rb = write_mirror rb \<and> length (rb_content rb) + min (length data) (buffer_size rb) > buffer_size rb
          then rb_content rb' = []
          else rb_wf rb' \<and> rb_content rb' = last_n (buffer_size rb) (rb_content rb @ data)"
    unfolding overtakes_def [symmetric] Let_def using put_force_facts [OF assms refl, of data] by (simp add: rb_content_def)
qed

theorem ringbuffer_force_witness:
  "rb_content (snd (rt_ringbuffer_putchar_force demo_rb 7)) = [7]
   \<and> rb_content (snd (rt_ringbuffer_put_force demo_rb [1, 2, 3])) = [1, 2, 3]
   \<and> rb_content (snd (rt_ringbuffer_put_force (demo_rb\<lparr>read_index := 1\<rparr>) [1, 2, 3])) = []"
proof -
  have w: "rb_wf (demo_rb\<lparr>read_index := 1\<rparr>)" "length (rb_content (demo_rb\<lparr>read_index := 1\<rparr>)) = 2"
    by (simp_all add: demo_rb_def rb_wf_def rb_content_def rt_ringbuffer_data_len_def rt_ringbuffer_status_def)
  show ?thesis
    using ringbuffer_force [OF demo_rb_wf(1), of 7 "[1, 2, 3]"] ringbuffer_force [OF w(1), of 7 "[1, 2, 3]"] w(2)
    by (simp add: demo_rb_wf last_n_def Let_def case_prod_beta) (simp add: demo_rb_def)
qed

end
