(* ===== verification/RT_Driver_Ipc.thy ===== *)
theory RT_Driver_Ipc
  imports RT_IpcList RT_Fifo
begin

text \<open>
  The communication objects of the device drivers, \<^verbatim>\<open>components/drivers/src/completion.c\<close> and
  \<^verbatim>\<open>components/drivers/src/dataqueue.c\<close>.  They are structures of the drivers and not kernel objects: an
  operation works on the structure and on the kernel, whose thread lists hold the waiting threads by the
  address of the list head.  A blocking call is split where the thread loses the processor.
\<close>

abbreviation (input) RT_EEMPTY :: rt_err_t where "RT_EEMPTY \<equiv> 4"
abbreviation (input) RT_ENOMEM :: rt_err_t where "RT_ENOMEM \<equiv> 5"

section \<open>Completions\<close>

abbreviation (input) RT_COMPLETED :: u32 where "RT_COMPLETED \<equiv> 1"
abbreviation (input) RT_UNCOMPLETED :: u32 where "RT_UNCOMPLETED \<equiv> 0"

record rt_completion =
  cpl_flag :: u32

text \<open>The list head lies behind the flag.\<close>

definition cpl_list :: "nat \<Rightarrow> thread_queue" where
  "cpl_list c = Waiters (c + 4)"

definition rt_completion_init :: "nat \<Rightarrow> kernel \<Rightarrow> rt_completion \<times> kernel" where
  "rt_completion_init c s = (\<lparr>cpl_flag = RT_UNCOMPLETED\<rparr>, upd_tlists (\<lambda>S. S(cpl_list c := [])) s)"

definition rt_completion_wait :: "nat \<Rightarrow> int \<Rightarrow> rt_completion \<times> kernel \<Rightarrow> rt_err_t outcome \<times> rt_completion \<times> kernel" where
  "rt_completion_wait c timeout xs =
     (case xs of (x, s) \<Rightarrow>
        if cpl_flag x \<noteq> RT_COMPLETED then
          (if tlists s (cpl_list c) \<noteq> [] then (Returned RT_EOK, x, panic s)
           else if timeout = 0 then (Returned (- RT_ETIMEOUT), x, s)
           else case rt_thread_self s of
               None \<Rightarrow> (Returned RT_EOK, x, panic s)
             | Some t \<Rightarrow>
                 if \<not> not_in_interrupt s then (Returned RT_EOK, x, panic s)
                 else (Blocked, x, ipc_block (cpl_list c) t RT_IPC_FLAG_FIFO timeout (upd_thread t (\<lambda>y. y\<lparr>error := RT_EOK\<rparr>) s)))
        else (Returned RT_EOK, x\<lparr>cpl_flag := RT_UNCOMPLETED\<rparr>, s))"

text \<open>The rest of the call, once the thread runs again.\<close>

definition rt_completion_wait_end :: "nat \<Rightarrow> rt_completion \<times> kernel \<Rightarrow> rt_err_t outcome \<times> rt_completion \<times> kernel" where
  "rt_completion_wait_end t xs = (case xs of (x, s) \<Rightarrow> (Returned (error (threads s t)), x\<lparr>cpl_flag := RT_UNCOMPLETED\<rparr>, s))"

definition rt_completion_done :: "nat \<Rightarrow> rt_completion \<times> kernel \<Rightarrow> rt_completion \<times> kernel" where
  "rt_completion_done c xs =
     (case xs of (x, s) \<Rightarrow>
        if cpl_flag x = RT_COMPLETED then (x, s)
        else (x\<lparr>cpl_flag := RT_COMPLETED\<rparr>,
              if tlists s (cpl_list c) \<noteq> [] then rt_schedule (snd (rt_thread_resume (hd (tlists s (cpl_list c))) s)) else s))"

section \<open>Data queues\<close>

abbreviation (input) RT_DATAQUEUE_EVENT_POP :: nat where "RT_DATAQUEUE_EVENT_POP \<equiv> 1"
abbreviation (input) RT_DATAQUEUE_EVENT_PUSH :: nat where "RT_DATAQUEUE_EVENT_PUSH \<equiv> 2"
abbreviation (input) RT_DATAQUEUE_EVENT_LWM :: nat where "RT_DATAQUEUE_EVENT_LWM \<equiv> 3"

text \<open>An item is a pointer to data and the size of the data.\<close>

type_synonym rt_data_item = "nat \<times> nat"

record rt_data_queue =
  dq_size :: u16
  lwm :: u16
  get_index :: u16
  put_index :: u16
  items_addr :: nat
  items :: "rt_data_item list"
  evt_notify :: bool

definition push_list :: "nat \<Rightarrow> thread_queue" where
  "push_list q = Waiters (q + 16)"

definition pop_list :: "nat \<Rightarrow> thread_queue" where
  "pop_list q = Waiters (q + 24)"

text \<open>What the allocated array happens to hold is an argument, and whether there is a function to notify.\<close>

definition rt_data_queue_init :: "nat \<Rightarrow> u16 \<Rightarrow> u16 \<Rightarrow> bool \<Rightarrow> rt_data_item list \<Rightarrow> kernel \<Rightarrow> rt_err_t \<times> rt_data_queue \<times> kernel" where
  "rt_data_queue_init q size0 low notify garbage s =
     (let s1 = upd_tlists (\<lambda>S. S(push_list q := [], pop_list q := [])) s;
          d = \<lparr>dq_size = size0, lwm = low, get_index = 0, put_index = 0, items_addr = 0, items = [], evt_notify = notify\<rparr>
      in case kernel_malloc (8 * unat size0) s1 of
           (None, s2) \<Rightarrow> (- RT_ENOMEM, d, s2)
         | (Some a, s2) \<Rightarrow> (RT_EOK, d\<lparr>items_addr := a, items := garbage\<rparr>, s2))"

text \<open>The tests and the stores of push and pop; the 16-bit indices are compared as integers.\<close>

definition dq_full :: "rt_data_queue \<Rightarrow> bool" where
  "dq_full d \<longleftrightarrow> uint (put_index d) - uint (get_index d) = uint (dq_size d)"

definition dq_empty :: "rt_data_queue \<Rightarrow> bool" where
  "dq_empty d \<longleftrightarrow> get_index d = put_index d"

definition dq_put :: "rt_data_item \<Rightarrow> rt_data_queue \<Rightarrow> rt_data_queue" where
  "dq_put x d = d\<lparr>items := (items d)[unat (put_index d) mod unat (dq_size d) := x], put_index := put_index d + 1\<rparr>"

definition dq_get :: "rt_data_queue \<Rightarrow> rt_data_item \<times> rt_data_queue" where
  "dq_get d = (items d ! (unat (get_index d) mod unat (dq_size d)), d\<lparr>get_index := get_index d + 1\<rparr>)"

text \<open>
  One turn of the loop of a push by the thread \<open>t\<close>, and the event the call ends with, if any.  A division by
  the size zero is a failure.
\<close>

definition dq_notify :: "rt_data_queue \<Rightarrow> nat \<Rightarrow> nat option" where
  "dq_notify d e = (if evt_notify d then Some e else None)"

definition dq_push_try :: "nat \<Rightarrow> rt_data_item \<Rightarrow> int \<Rightarrow> nat option \<Rightarrow> rt_data_queue \<times> kernel
    \<Rightarrow> (rt_err_t \<times> nat option) outcome \<times> rt_data_queue \<times> kernel" where
  "dq_push_try q x timeout self ds =
     (case ds of (d, s) \<Rightarrow>
        if dq_full d then
          (if timeout = 0 then (Returned (- RT_ETIMEOUT, None), d, s)
           else case self of
               None \<Rightarrow> (Returned (RT_EOK, None), d, panic s)
             | Some t \<Rightarrow>
                 if \<not> not_in_interrupt s then (Returned (RT_EOK, None), d, panic s)
                 else (Blocked, d, ipc_block (push_list q) t RT_IPC_FLAG_FIFO timeout (upd_thread t (\<lambda>y. y\<lparr>error := RT_EOK\<rparr>) s)))
        else if dq_size d = 0 then (Returned (RT_EOK, None), d, panic s)
        else if tlists s (pop_list q) \<noteq> []
          then (Returned (RT_EOK, None), dq_put x d, rt_schedule (snd (rt_thread_resume (hd (tlists s (pop_list q))) s)))
          else (Returned (RT_EOK, dq_notify d RT_DATAQUEUE_EVENT_PUSH), dq_put x d, s))"

definition rt_data_queue_push :: "nat \<Rightarrow> rt_data_item \<Rightarrow> int \<Rightarrow> rt_data_queue \<times> kernel
    \<Rightarrow> (rt_err_t \<times> nat option) outcome \<times> rt_data_queue \<times> kernel" where
  "rt_data_queue_push q x timeout ds = dq_push_try q x timeout (rt_thread_self (snd ds)) ds"

definition rt_data_queue_push_end :: "nat \<Rightarrow> rt_data_item \<Rightarrow> int \<Rightarrow> nat \<Rightarrow> rt_data_queue \<times> kernel
    \<Rightarrow> (rt_err_t \<times> nat option) outcome \<times> rt_data_queue \<times> kernel" where
  "rt_data_queue_push_end q x timeout t ds =
     (if error (threads (snd ds) t) \<noteq> RT_EOK then (Returned (error (threads (snd ds) t), None), ds)
      else dq_push_try q x timeout (Some t) ds)"

text \<open>Pop: the item, and the event.\<close>

definition dq_pop_try :: "nat \<Rightarrow> int \<Rightarrow> nat option \<Rightarrow> rt_data_queue \<times> kernel
    \<Rightarrow> (rt_err_t \<times> rt_data_item option \<times> nat option) outcome \<times> rt_data_queue \<times> kernel" where
  "dq_pop_try q timeout self ds =
     (case ds of (d, s) \<Rightarrow>
        if dq_empty d then
          (if timeout = 0 then (Returned (- RT_ETIMEOUT, None, None), d, s)
           else case self of
               None \<Rightarrow> (Returned (RT_EOK, None, None), d, panic s)
             | Some t \<Rightarrow>
                 if \<not> not_in_interrupt s then (Returned (RT_EOK, None, None), d, panic s)
                 else (Blocked, d, ipc_block (pop_list q) t RT_IPC_FLAG_FIFO timeout (upd_thread t (\<lambda>y. y\<lparr>error := RT_EOK\<rparr>) s)))
        else if dq_size d = 0 then (Returned (RT_EOK, None, None), d, panic s)
        else
          (let (x, d1) = dq_get d
           in if uint (put_index d1) - uint (get_index d1) \<le> uint (lwm d1)
              then (Returned (RT_EOK, Some x, dq_notify d RT_DATAQUEUE_EVENT_LWM), d1,
                    if tlists s (push_list q) \<noteq> [] then rt_schedule (snd (rt_thread_resume (hd (tlists s (push_list q))) s)) else s)
              else (Returned (RT_EOK, Some x, dq_notify d RT_DATAQUEUE_EVENT_POP), d1, s)))"

definition rt_data_queue_pop :: "nat \<Rightarrow> int \<Rightarrow> rt_data_queue \<times> kernel
    \<Rightarrow> (rt_err_t \<times> rt_data_item option \<times> nat option) outcome \<times> rt_data_queue \<times> kernel" where
  "rt_data_queue_pop q timeout ds = dq_pop_try q timeout (rt_thread_self (snd ds)) ds"

definition rt_data_queue_pop_end :: "nat \<Rightarrow> int \<Rightarrow> nat \<Rightarrow> rt_data_queue \<times> kernel
    \<Rightarrow> (rt_err_t \<times> rt_data_item option \<times> nat option) outcome \<times> rt_data_queue \<times> kernel" where
  "rt_data_queue_pop_end q timeout t ds =
     (if error (threads (snd ds) t) \<noteq> RT_EOK then (Returned (error (threads (snd ds) t), None, None), ds)
      else dq_pop_try q timeout (Some t) ds)"

definition rt_data_queue_peak :: "rt_data_queue \<Rightarrow> rt_err_t \<times> rt_data_item option" where
  "rt_data_queue_peak d = (if dq_empty d then (- RT_EEMPTY, None) else (RT_EOK, Some (fst (dq_get d))))"

text \<open>The reset wakes all waiting threads with an error, those that pop first; the indices stay.\<close>

definition rt_data_queue_reset :: "nat \<Rightarrow> kernel \<Rightarrow> kernel option" where
  "rt_data_queue_reset q s =
     (case rt_ipc_list_resume_all (pop_list q) (rt_enter_critical s) of
        None \<Rightarrow> None
      | Some s1 \<Rightarrow> map_option (\<lambda>s2. rt_schedule (rt_exit_critical s2)) (rt_ipc_list_resume_all (push_list q) s1))"

section \<open>A data queue is a bounded queue until its index wraps\<close>

definition dq_wf :: "rt_data_queue \<Rightarrow> bool" where
  "dq_wf d \<longleftrightarrow> 0 < unat (dq_size d) \<and> unat (dq_size d) \<le> length (items d)
     \<and> unat (get_index d) \<le> unat (put_index d) \<and> unat (put_index d) \<le> unat (get_index d) + unat (dq_size d)"

definition dq_content :: "rt_data_queue \<Rightarrow> rt_data_item list" where
  "dq_content d = ring (items d) (unat (dq_size d)) (unat (get_index d) mod unat (dq_size d)) (unat (put_index d) - unat (get_index d))"

definition dq_room :: "rt_data_queue \<Rightarrow> rt_data_item \<Rightarrow> bool" where
  "dq_room d x \<longleftrightarrow> unat (put_index d) + 1 < 2 ^ 16"

lemma unat_succ16: "unat w + 1 < 2 ^ 16 \<Longrightarrow> unat (w + 1) = unat w + 1" for w :: u16
  by (simp add: unat_word_ariths)

lemma dq_full_iff: "dq_wf d \<Longrightarrow> dq_full d \<longleftrightarrow> unat (put_index d) = unat (get_index d) + unat (dq_size d)"
  unfolding dq_full_def dq_wf_def uint_nat by linarith

lemma dq_put_facts:
  assumes wf: "dq_wf d" and nf: "\<not> dq_full d" and r: "dq_room d x"
  shows "dq_wf (dq_put x d)" "dq_content (dq_put x d) = dq_content d @ [x]" "dq_size (dq_put x d) = dq_size d"
proof -
  let ?z = "unat (dq_size d)" and ?g = "unat (get_index d)" and ?p = "unat (put_index d)"
  have w: "0 < ?z" "?z \<le> length (items d)" "?g \<le> ?p" "?p \<le> ?g + ?z" using wf by (simp_all add: dq_wf_def)
  have lt: "?p - ?g < ?z" using w nf dq_full_iff [OF wf] by linarith
  have p1: "unat (put_index d + 1) = Suc ?p" using unat_succ16 r by (simp add: dq_room_def)
  have "(?g mod ?z + (?p - ?g)) mod ?z = ?p mod ?z" using mod_add_left_eq [of ?g ?z "?p - ?g"] le_add_diff_inverse [OF w(3)] by argo
  then have "ring ((items d)[?p mod ?z := x]) ?z (?g mod ?z) (Suc (?p - ?g)) = dq_content d @ [x]"
    using ring_push [OF lt w(2), of "?g mod ?z" x] by (simp add: dq_content_def)
  moreover have "Suc ?p - ?g = Suc (?p - ?g)" using w(3) by simp
  ultimately show "dq_content (dq_put x d) = dq_content d @ [x]" by (simp add: dq_content_def dq_put_def p1)
  show "dq_wf (dq_put x d)" using w lt by (simp add: dq_wf_def dq_put_def p1)
  show "dq_size (dq_put x d) = dq_size d" by (simp add: dq_put_def)
qed

lemma dq_get_facts:
  assumes wf: "dq_wf d" and ne: "\<not> dq_empty d"
  shows "dq_wf (snd (dq_get d))" "dq_content d = fst (dq_get d) # dq_content (snd (dq_get d))" "dq_size (snd (dq_get d)) = dq_size d"
proof -
  let ?z = "unat (dq_size d)" and ?g = "unat (get_index d)" and ?p = "unat (put_index d)"
  have w: "0 < ?z" "?z \<le> length (items d)" "?g \<le> ?p" "?p \<le> ?g + ?z" using wf by (simp_all add: dq_wf_def)
  have "?g \<noteq> ?p" using ne by (simp add: dq_empty_def word_unat_eq_iff)
  then have lt: "?g < ?p" using w(3) by simp
  have "?p < 2 ^ LENGTH(16)" by (rule unsigned_less)
  then have g1: "unat (get_index d + 1) = Suc ?g" using unat_succ16 [of "get_index d"] lt by simp
  have "ring (items d) ?z (?g mod ?z) (?p - ?g) = items d ! (?g mod ?z) # ring (items d) ?z (Suc ?g mod ?z) (?p - ?g - 1)"
    using ring_pop [of "?p - ?g" "?g mod ?z" ?z "items d"] lt w(1) by (simp add: mod_Suc_eq)
  then show "dq_content d = fst (dq_get d) # dq_content (snd (dq_get d))" by (simp add: dq_content_def dq_get_def g1)
  show "dq_wf (snd (dq_get d))" using w lt by (simp add: dq_wf_def dq_get_def g1)
  show "dq_size (snd (dq_get d)) = dq_size d" by (simp add: dq_get_def)
qed

interpretation dq: bounded_fifo dq_wf dq_put dq_get dq_full dq_empty dq_room dq_content "\<lambda>d. unat (dq_size d)"
proof
  fix d assume wf: "dq_wf d"
  show "length (dq_content d) \<le> unat (dq_size d)" using wf by (simp add: dq_content_def dq_wf_def le_diff_conv add.commute)
  show "dq_full d \<longleftrightarrow> length (dq_content d) = unat (dq_size d)" unfolding dq_full_iff [OF wf] using wf by (auto simp: dq_content_def dq_wf_def)
  have "dq_content d = [] \<longleftrightarrow> unat (put_index d) - unat (get_index d) = 0" by (simp add: dq_content_def flip: length_0_conv)
  then show "dq_empty d \<longleftrightarrow> dq_content d = []" using wf by (auto simp: dq_empty_def dq_wf_def word_unat_eq_iff)
qed (use dq_put_facts dq_get_facts in simp_all)

text \<open>
  Any interleaving of the parts of push and pop calls of any number of threads with other steps of the system, which
  leave the queue alone.
\<close>

definition pushed :: "rt_data_item \<Rightarrow> (rt_err_t \<times> nat option) outcome \<Rightarrow> rt_data_item list" where
  "pushed x r = (case r of Returned (e, _) \<Rightarrow> if e = RT_EOK then [x] else [] | Blocked \<Rightarrow> [])"

definition popped :: "(rt_err_t \<times> rt_data_item option \<times> nat option) outcome \<Rightarrow> rt_data_item list" where
  "popped r = (case r of Returned (_, Some x, _) \<Rightarrow> [x] | _ \<Rightarrow> [])"

inductive dq_run :: "nat \<Rightarrow> rt_data_queue \<times> kernel \<Rightarrow> rt_data_item list \<Rightarrow> rt_data_item list \<Rightarrow> rt_data_queue \<times> kernel \<Rightarrow> bool" for q where
  Start: "dq_run q a [] [] a"
| Push: "dq_run q a xs ys b \<Longrightarrow> rt_data_queue_push q x timeout b = (r, b') \<Longrightarrow> \<not> kpanic (snd b')
    \<Longrightarrow> dq_run q a (xs @ pushed x r) ys b'"
| Push_end: "dq_run q a xs ys b \<Longrightarrow> rt_data_queue_push_end q x timeout t b = (r, b') \<Longrightarrow> \<not> kpanic (snd b')
    \<Longrightarrow> dq_run q a (xs @ pushed x r) ys b'"
| Pop: "dq_run q a xs ys b \<Longrightarrow> rt_data_queue_pop q timeout b = (r', b') \<Longrightarrow> \<not> kpanic (snd b')
    \<Longrightarrow> dq_run q a xs (ys @ popped r') b'"
| Pop_end: "dq_run q a xs ys b \<Longrightarrow> rt_data_queue_pop_end q timeout t b = (r', b') \<Longrightarrow> \<not> kpanic (snd b')
    \<Longrightarrow> dq_run q a xs (ys @ popped r') b'"
| Other: "dq_run q a xs ys b \<Longrightarrow> fst b' = fst b \<Longrightarrow> dq_run q a xs ys b'"

lemma driver_panic [simp]: "kpanic (panic s)"
  by (simp add: panic_def)

lemma dq_push_step:
  assumes "rt_data_queue_push q x timeout b = (r, b') \<or> rt_data_queue_push_end q x timeout t b = (r, b')" "\<not> kpanic (snd b')"
  shows "pushed x r = [x] \<and> \<not> dq_full (fst b) \<and> fst b' = dq_put x (fst b) \<or> pushed x r = [] \<and> fst b' = fst b"
  using assms
  by (auto simp: rt_data_queue_push_def rt_data_queue_push_end_def dq_push_try_def pushed_def split: if_splits prod.splits option.splits)

lemma dq_pop_step:
  assumes "rt_data_queue_pop q timeout b = (r, b') \<or> rt_data_queue_pop_end q timeout t b = (r, b')" "\<not> kpanic (snd b')"
  shows "popped r = [fst (dq_get (fst b))] \<and> \<not> dq_empty (fst b) \<and> fst b' = snd (dq_get (fst b)) \<or> popped r = [] \<and> fst b' = fst b"
  using assms
  by (auto simp: rt_data_queue_pop_def rt_data_queue_pop_end_def dq_pop_try_def popped_def Let_def split: if_splits prod.splits option.splits)

text \<open>As long as the put index does not come round, a run is one of the bounded queue.\<close>

lemma dq_put_index:
  assumes "unat (put_index d) = n + length xs" "n + length (xs @ [x]) < 2 ^ 16"
  shows "dq_room d x" "unat (put_index (dq_put x d)) = n + length (xs @ [x])"
  using assms unat_succ16 [of "put_index d"] by (simp_all add: dq_room_def dq_put_def)

lemma dq_get_index: "put_index (snd (dq_get d)) = put_index d"
  by (simp add: dq_get_def)

lemma dq_run_refines:
  assumes "dq_run q a xs ys b" "unat (put_index (fst a)) + length xs < 2 ^ 16"
  shows "fifo_run dq_put dq_get dq_full dq_empty dq_room (fst a) xs ys (fst b)
    \<and> unat (put_index (fst b)) = unat (put_index (fst a)) + length xs"
  using assms
proof (induction rule: dq_run.induct)
  case (Start a)
  show ?case by (simp add: fifo_run.Idle)
next
  case (Push a xs ys b x timeout r b')
  then show ?case
    using dq_push_step [of q x timeout b r b'] fifo_run.Put [of dq_put dq_get dq_full dq_empty dq_room "fst a" xs ys "fst b" x]
      dq_put_index [of "fst b" "unat (put_index (fst a))" xs x] by auto
next
  case (Push_end a xs ys b x timeout t r b')
  then show ?case
    using dq_push_step [of q x timeout b r b' t] fifo_run.Put [of dq_put dq_get dq_full dq_empty dq_room "fst a" xs ys "fst b" x]
      dq_put_index [of "fst b" "unat (put_index (fst a))" xs x] by auto
next
  case (Pop a xs ys b timeout r' b')
  then show ?case using dq_pop_step [of q timeout b r' b']
      fifo_run.Get [of dq_put dq_get dq_full dq_empty dq_room "fst a" xs ys "fst b" "fst (dq_get (fst b))"] by (auto simp: dq_get_index)
next
  case (Pop_end a xs ys b timeout t r' b')
  then show ?case using dq_pop_step [of q timeout b r' b' t]
      fifo_run.Get [of dq_put dq_get dq_full dq_empty dq_room "fst a" xs ys "fst b" "fst (dq_get (fst b))"] by (auto simp: dq_get_index)
qed simp

lemma data_queue_overruns:
  assumes "tlists s (pop_list q) = []" "get_index d = 65532" "put_index d = 0" "dq_size d = 4" "length (items d) = 4"
  shows "rt_data_queue_push q x 0 (d, s) = (Returned (RT_EOK, dq_notify d RT_DATAQUEUE_EVENT_PUSH), dq_put x d, s) \<and> fst (dq_get (dq_put x d)) = x"
  using assms by (simp add: rt_data_queue_push_def dq_push_try_def dq_full_def dq_put_def dq_get_def)



section \<open>A completion is not lost\<close>

definition cpl_ok :: "nat \<Rightarrow> rt_completion \<times> kernel \<Rightarrow> bool" where
  "cpl_ok c xs \<longleftrightarrow> (case xs of (x, s) \<Rightarrow> sched_ok {} s \<and> (cpl_flag x = RT_COMPLETED \<longrightarrow> tlists s (cpl_list c) = [])
     \<and> (\<forall>u \<in> set (tlists s (cpl_list c)). thread_ok u s) \<and> length (tlists s (cpl_list c)) \<le> 1)"

lemma cpl_list_waits [simp]: "wait_queue (cpl_list c)"
  by (simp add: cpl_list_def)

lemma completion_wait_correct:
  assumes ok: "cpl_ok c (x, s)" and b: "can_block s t (cpl_list c) 0 timeout" and irq: "interrupt_nest s = 0" and e: "tlists s (cpl_list c) = []"
  shows "case rt_completion_wait c timeout (x, s) of (r, x', s') \<Rightarrow> cpl_ok c (x', s') \<and> kpanic s' = kpanic s
    \<and> (if cpl_flag x = RT_COMPLETED then r = Returned RT_EOK \<and> cpl_flag x' = RT_UNCOMPLETED \<and> s' = s
       else x' = x \<and> (if timeout = 0 then r = Returned (- RT_ETIMEOUT) \<and> s' = s
                       else r = Blocked \<and> state_of s' t = RT_THREAD_SUSPEND \<and> tlists s' (cpl_list c) = [t]))"
proof -
  note sc = can_blockD(1,2,8) [OF b]
  note w = wait_facts [OF b]
  have "rt_thread_self s = Some t" using sc(2) by (simp add: rt_thread_self_def)
  then show ?thesis
    using ok w e irq sc by (auto simp: rt_completion_wait_def cpl_ok_def not_in_interrupt_def wait_insert_def)
qed

lemma completion_done_correct:
  assumes ok: "cpl_ok c (x, s)" and k: "current s = Some k" and nf: "cpl_flag x \<noteq> RT_COMPLETED"
  shows "case rt_completion_done c (x, s) of (x', s') \<Rightarrow> cpl_ok c (x', s') \<and> kpanic s' = kpanic s \<and> cpl_flag x' = RT_COMPLETED
    \<and> (case tlists s (cpl_list c) of
         [] \<Rightarrow> s' = s \<and> fst (rt_completion_wait c timeout (x', s')) = Returned RT_EOK
       | u # us \<Rightarrow> us = [] \<and> state_of s' u \<in> {RT_THREAD_READY, RT_THREAD_RUNNING}
           \<and> rt_completion_wait_end u (x', s') = (Returned (error (threads s u)), x'\<lparr>cpl_flag := RT_UNCOMPLETED\<rparr>, s'))"
proof -
  have o: "sched_ok {} s" "\<forall>u \<in> set (tlists s (cpl_list c)). thread_ok u s" "length (tlists s (cpl_list c)) \<le> 1" using ok by (simp_all add: cpl_ok_def)
  note w = woken_facts [OF o(1) k cpl_list_waits o(2)]
  have e: "rt_completion_done c (x, s) = (x\<lparr>cpl_flag := 1\<rparr>, woken (cpl_list c) s)"
    using nf by (auto simp: rt_completion_done_def woken_def rt_ipc_list_resume_def split: list.split)
  show ?thesis
  proof (cases "tlists s (cpl_list c)")
    case Nil
    then have "woken (cpl_list c) s = s" by (simp add: woken_def)
    then show ?thesis unfolding e using o Nil by (simp add: cpl_ok_def rt_completion_wait_def)
  next
    case (Cons u us)
    then have us: "us = []" using o(3) by simp
    have l: "tlists (woken (cpl_list c) s) (cpl_list c) = []" using w(3) [OF cpl_list_waits] Cons us by simp
    show ?thesis unfolding e using w(1,2) l us w(6) [OF Cons] w(7) [of u] Cons by (simp add: cpl_ok_def rt_completion_wait_end_def)
  qed
qed

text \<open>A completion between the timeout of the waiting thread and its next turn is lost: the thread takes the flag back.\<close>

lemma completion_lost_after_timeout:
  assumes "tlists s (cpl_list c) = []" "error (threads s t) = - RT_ETIMEOUT"
  shows "rt_completion_wait_end t (rt_completion_done c (\<lparr>cpl_flag = RT_UNCOMPLETED\<rparr>, s)) = (Returned (- RT_ETIMEOUT), \<lparr>cpl_flag = RT_UNCOMPLETED\<rparr>, s)"
  using assms by (simp add: rt_completion_done_def rt_completion_wait_end_def)

end
