(* ===== verification/RT_Workqueue.thy ===== *)
theory RT_Workqueue
  imports RT_Sem RT_Idle
begin

text \<open>
  The work queues of \<^verbatim>\<open>components/drivers/src/workqueue.c\<close>: works that a thread of the queue carries out one after
  the other.  The works, their lists and the queues are structures of the drivers beside the kernel; a work and a
  queue are named by their addresses, and the semaphore of a queue lies twelve bytes behind its start.  What a work
  does is a parameter.
\<close>

section \<open>Operations\<close>

abbreviation (input) RT_EBUSY :: rt_err_t where "RT_EBUSY \<equiv> 7"

record rt_workqueue =
  work_current :: "nat option"
  work_thread :: nat

record work_state =
  wk :: kernel
  wlists :: "(nat, nat) store"
  wqs :: "nat \<Rightarrow> rt_workqueue"

definition wq_sem :: "nat \<Rightarrow> nat" where
  "wq_sem q = q + 12"

definition on_kernel :: "(kernel \<Rightarrow> kernel) \<Rightarrow> work_state \<Rightarrow> work_state" where
  "on_kernel f ws = ws\<lparr>wk := f (wk ws)\<rparr>"

definition set_wq :: "nat \<Rightarrow> rt_workqueue \<Rightarrow> work_state \<Rightarrow> work_state" where
  "set_wq q x ws = ws\<lparr>wqs := (wqs ws)(q := x)\<rparr>"

text \<open>Acknowledging a work: the semaphore is released until nobody waits, and its value stays zero.\<close>

partial_function (option) work_completion_loop :: "nat \<Rightarrow> kernel \<Rightarrow> (rt_err_t \<times> kernel) option" where
  [code]: "work_completion_loop m s =
     (case rt_sem_trytake m s of (r, s1) \<Rightarrow>
        if r = Returned (- RT_ETIMEOUT) then work_completion_loop m (snd (rt_sem_release m s1))
        else if r = Returned RT_EOK then Some (RT_EOK, s1)
        else Some (- RT_ERROR, s1))"

definition workqueue_work_completion :: "nat \<Rightarrow> kernel \<Rightarrow> (rt_err_t \<times> kernel) option" where
  "workqueue_work_completion q s =
     map_option (\<lambda>(r, s1). (r, rt_exit_critical s1)) (work_completion_loop (wq_sem q) (rt_enter_critical s))"

text \<open>
  A turn of the thread of the queue: it waits when there is no work; it takes the first work, whereby an empty list is a
  wild access; it does the work and acknowledges it.
\<close>

definition worker_wait :: "nat \<Rightarrow> work_state \<Rightarrow> unit outcome \<times> work_state" where
  "worker_wait q ws =
     (if wlists ws q = [] then
        (case rt_thread_self (wk ws) of
           None \<Rightarrow> (Blocked, on_kernel panic ws)
         | Some t \<Rightarrow> (Blocked, on_kernel (\<lambda>s. rt_schedule (snd (rt_thread_suspend t s))) ws))
      else (Returned (), ws))"

definition worker_take :: "nat \<Rightarrow> work_state \<Rightarrow> nat option \<times> work_state" where
  "worker_take q ws =
     (case wlists ws q of
        [] \<Rightarrow> (None, on_kernel panic ws)
      | w # _ \<Rightarrow> (Some w, set_wq q ((wqs ws q)\<lparr>work_current := Some w\<rparr>) (ws\<lparr>wlists := list_remove w (wlists ws)\<rparr>)))"

definition worker_do :: "(nat \<Rightarrow> work_state \<Rightarrow> work_state) \<Rightarrow> nat \<Rightarrow> nat \<Rightarrow> work_state \<Rightarrow> work_state option" where
  "worker_do work_func q w ws =
     (let ws1 = work_func w ws;
          ws2 = set_wq q ((wqs ws1 q)\<lparr>work_current := None\<rparr>) ws1
      in map_option (\<lambda>(_, s). ws2\<lparr>wk := s\<rparr>) (workqueue_work_completion q (wk ws2)))"

definition rt_workqueue_create :: "string \<Rightarrow> nat \<Rightarrow> nat \<Rightarrow> nat \<Rightarrow> work_state \<Rightarrow> nat option \<times> work_state" where
  "rt_workqueue_create name ent stack_sz priority ws =
     (case kernel_malloc 48 (wk ws) of
        (None, s1) \<Rightarrow> (None, ws\<lparr>wk := s1\<rparr>)
      | (Some q, s1) \<Rightarrow>
          (let ws1 = ws\<lparr>wlists := (wlists ws)(q := [])\<rparr>;
               s2 = snd (rt_sem_init (wq_sem q) ''wqueue'' 0 RT_IPC_FLAG_FIFO s1)
           in case rt_thread_create name ent q stack_sz priority 10 s2 of
                (None, s3) \<Rightarrow> (None, ws1\<lparr>wk := kernel_free q s3\<rparr>)
              | (Some t, s3) \<Rightarrow>
                  (Some q, set_wq q \<lparr>work_current = None, work_thread = t\<rparr> (ws1\<lparr>wk := snd (rt_thread_startup t s3)\<rparr>))))"

definition rt_workqueue_destroy :: "nat \<Rightarrow> work_state \<Rightarrow> rt_err_t \<times> work_state" where
  "rt_workqueue_destroy q ws =
     (RT_EOK, on_kernel (\<lambda>s. kernel_free q (snd (rt_thread_delete (work_thread (wqs ws q)) s))) ws)"

definition rt_workqueue_dowork :: "nat \<Rightarrow> nat \<Rightarrow> work_state \<Rightarrow> rt_err_t \<times> work_state" where
  "rt_workqueue_dowork q w ws =
     (if work_current (wqs ws q) = Some w then (- RT_EBUSY, ws)
      else
        (let ws1 = ws\<lparr>wlists := list_insert_before q w (list_remove w (wlists ws))\<rparr>
         in (RT_EOK,
             if work_current (wqs ws1 q) = None
             then on_kernel (\<lambda>s. rt_schedule (snd (rt_thread_resume (work_thread (wqs ws1 q)) s))) ws1
             else ws1)))"

text \<open>The urgent variant does the same.\<close>

definition rt_workqueue_critical_work :: "nat \<Rightarrow> nat \<Rightarrow> work_state \<Rightarrow> rt_err_t \<times> work_state" where
  "rt_workqueue_critical_work q w ws =
     (if work_current (wqs ws q) = Some w then (- RT_EBUSY, ws)
      else
        (let ws1 = ws\<lparr>wlists := list_insert_before q w (list_remove w (wlists ws))\<rparr>
         in (RT_EOK,
             if work_current (wqs ws1 q) = None
             then on_kernel (\<lambda>s. rt_schedule (snd (rt_thread_resume (work_thread (wqs ws1 q)) s))) ws1
             else ws1)))"

definition rt_workqueue_cancel_work :: "nat \<Rightarrow> nat \<Rightarrow> work_state \<Rightarrow> rt_err_t \<times> work_state" where
  "rt_workqueue_cancel_work q w ws =
     (if work_current (wqs ws q) = Some w then (- RT_EBUSY, ws)
      else (RT_EOK, ws\<lparr>wlists := list_remove w (wlists ws)\<rparr>))"

definition rt_workqueue_cancel_work_sync :: "nat \<Rightarrow> nat \<Rightarrow> work_state \<Rightarrow> rt_err_t outcome \<times> work_state" where
  "rt_workqueue_cancel_work_sync q w ws =
     (if work_current (wqs ws q) = Some w
      then (case rt_sem_take (wq_sem q) (- 1) (wk ws) of
              (Blocked, s) \<Rightarrow> (Blocked, ws\<lparr>wk := s\<rparr>)
            | (Returned _, s) \<Rightarrow> (Returned RT_EOK, ws\<lparr>wk := s\<rparr>))
      else (Returned RT_EOK, ws\<lparr>wlists := list_remove w (wlists ws)\<rparr>))"

definition rt_workqueue_cancel_all_work :: "nat \<Rightarrow> work_state \<Rightarrow> rt_err_t \<times> work_state" where
  "rt_workqueue_cancel_all_work q ws =
     (let ws1 = on_kernel rt_enter_critical ws;
          ws2 = fold (\<lambda>w ws. ws\<lparr>wlists := list_remove w (wlists ws)\<rparr>) (wlists ws q) ws1
      in (RT_EOK, on_kernel rt_exit_critical ws2))"

section \<open>Acknowledging a work\<close>

lemma schedule_locked: "lock_nest s \<noteq> 0 \<Longrightarrow> rt_schedule s = s"
  by (simp add: rt_schedule_def)

lemma work_completion_loop_ok:
  assumes "sem_ok m s" "sched_ok {} s" "lock_nest s \<noteq> 0" "sem_value (sems s m) = 0" "tlists s (Suspend (Sem m)) = us"
  shows "\<exists>s'. work_completion_loop m s = Some (RT_EOK, s') \<and> sem_ok m s' \<and> sched_ok {} s' \<and> kpanic s' = kpanic s \<and> current s' = current s
    \<and> sem_value (sems s' m) = 0 \<and> tlists s' (Suspend (Sem m)) = [] \<and> (\<forall>u. state_of s' u = (if u \<in> set us then (if current s = Some u then 3 else 1) else state_of s u))
    \<and> (\<forall>u. error (threads s' u) = error (threads s u))"
  using assms
proof (induction us arbitrary: s)
  case Nil
  have sem: "is_sem m s" using Nil by (simp add: sem_ok_def)
  have t: "rt_sem_trytake m s = (Returned (- 2), s)" using Nil sem by (simp add: rt_sem_trytake_def rt_sem_take_def)
  let ?s1 = "set_sem m 1 s"
  have r: "snd (rt_sem_release m s) = ?s1" using Nil sem by (simp add: rt_sem_release_def)
  have "is_sem m ?s1" using sem by (simp add: is_sem_def rt_object_get_type_def)
  then have t1: "rt_sem_trytake m ?s1 = (Returned 0, set_sem m 0 ?s1)" by (simp add: rt_sem_trytake_def rt_sem_take_def)
  have "work_completion_loop m s = Some (0, set_sem m 0 ?s1)"
    by (subst work_completion_loop.simps, simp add: t r, subst work_completion_loop.simps, simp add: t1)
  moreover have "sems s m = \<lparr>sem_value = 0\<rparr>" using Nil.prems(4) by (cases "sems s m") simp
  then have "(sems s)(m := \<lparr>sem_value = 0\<rparr>) = sems s" by (metis fun_upd_triv)
  then have "set_sem m 0 ?s1 = s" by (simp add: set_sem_def)
  ultimately show ?case using Nil by simp
next
  case (Cons u us)
  let ?q = "Suspend (Sem m)" and ?r = "snd (rt_thread_resume u s)"
  have sem: "is_sem m s" "thread_ok u s" using Cons.prems by (simp_all add: sem_ok_def)
  have t: "rt_sem_trytake m s = (Returned (- 2), s)" using Cons.prems sem by (simp add: rt_sem_trytake_def rt_sem_take_def)
  note w = resume_waiter [OF Cons.prems(2) wait_queue_ref(1) Cons.prems(5) sem(2)]
  note fr = ipc_frameD [OF w(2)]
  have r: "snd (rt_sem_release m s) = ?r"
    using Cons.prems(3,5) sem schedule_locked [of ?r] fr(7) by (simp add: rt_sem_release_def rt_ipc_list_resume_def)
  have l: "tlists ?r ?q = us" using w(3) [of ?q] by simp
  have "sem_ok m ?r"
    by (rule sem_okI [OF Cons.prems(1)]) (use fr Cons.prems l in \<open>auto simp: sem_ok_def\<close>)
  from Cons.IH [OF this w(1) _ _ l] Cons.prems(3,4) fr
  obtain s' where s': "work_completion_loop m ?r = Some (0, s')" "sem_ok m s'" "sched_ok {} s'" "kpanic s' = kpanic ?r" "current s' = current ?r" "sem_value (sems s' m) = 0"
    "tlists s' ?q = []" "\<forall>v. state_of s' v = (if v \<in> set us then (if current ?r = Some v then 3 else 1) else state_of ?r v)" "\<forall>v. error (threads s' v) = error (threads ?r v)"
    by auto
  have "work_completion_loop m s = Some (0, s')" by (subst work_completion_loop.simps, simp add: t r s'(1))
  then show ?case using s' fr w(4,5) by auto
qed

text \<open>
  The acknowledgement of a work terminates: it wakes every thread that waits in
  \<^verbatim>\<open>rt_workqueue_cancel_work_sync\<close> for the end of the work, and the take of each of them returns \<^verbatim>\<open>RT_EOK\<close> if nothing has
  set its error since \<^verbatim>\<open>rt_sem_take\<close> cleared it.  It leaves the semaphore of the queue at zero with nobody waiting and the
  invariants of the semaphore and the scheduler intact.
\<close>

theorem work_acknowledged:
  assumes ok: "sem_ok (wq_sem q) s" "sched_ok {} s" "current s = Some c" "sem_value (sems s (wq_sem q)) = 0" and n: "lock_nest s + 1 \<noteq> 0"
    and err: "\<forall>u \<in> set (tlists s (Suspend (Sem (wq_sem q)))). error (threads s u) = RT_EOK"
  shows "\<exists>s'. workqueue_work_completion q s = Some (RT_EOK, s') \<and> sem_ok (wq_sem q) s' \<and> sched_ok {} s' \<and> kpanic s' = kpanic s
    \<and> sem_value (sems s' (wq_sem q)) = 0 \<and> tlists s' (Suspend (Sem (wq_sem q))) = []
    \<and> (\<forall>u \<in> set (tlists s (Suspend (Sem (wq_sem q)))). state_of s' u \<in> {RT_THREAD_READY, RT_THREAD_RUNNING} \<and> rt_sem_take_end u s' = RT_EOK)"
proof -
  let ?m = "wq_sem q" and ?s = "rt_enter_critical s"
  let ?q = "Suspend (Sem ?m)"
  have th: "thread_ok u ?s = thread_ok u s" for u
    by (simp add: rt_enter_critical_def thread_ok_def is_thread_def is_timer_def rt_object_get_type_def rt_object_is_systemobject_def)
  have e: "sem_ok ?m ?s" "sched_ok {} ?s" "lock_nest ?s \<noteq> 0" "sem_value (sems ?s ?m) = 0" "tlists ?s ?q = tlists s ?q"
    using ok n th by (simp_all add: rt_enter_critical_def sem_ok_def is_sem_def rt_object_get_type_def)
  obtain s1 where s1: "work_completion_loop ?m ?s = Some (RT_EOK, s1)" "sem_ok ?m s1" "sched_ok {} s1" "kpanic s1 = kpanic ?s" "current s1 = current ?s"
    "sem_value (sems s1 ?m) = 0" "tlists s1 ?q = []" "\<forall>u. state_of s1 u = (if u \<in> set (tlists s ?q) then (if current ?s = Some u then 3 else 1) else state_of ?s u)"
    "\<forall>u. error (threads s1 u) = error (threads ?s u)"
    using work_completion_loop_ok [OF e] by blast
  let ?s' = "rt_exit_critical s1" and ?z = "s1\<lparr>lock_nest := 0\<rparr>"
  have c1: "current s1 = Some c" "current ?z = Some c" using s1(5) ok(3) by (simp_all add: rt_enter_critical_def)
  have z: "sched_ok {} ?z" using s1(3) by simp
  note x = exit_critical_facts [OF s1(3) c1(1)]
  have l: "tlists ?s' ?q = []" using s1(7) schedule_wait_queue [OF z c1(2), of ?q] by (simp add: rt_exit_critical_def Let_def)
  have sem: "sems ?s' = sems s1" "error (threads ?s' u) = error (threads s1 u)" for u by (simp_all add: rt_exit_critical_def Let_def)
  have "sem_ok ?m ?s'" using s1(2,6) l sem x(6) by (simp add: sem_ok_def is_sem_def rt_object_get_type_def)
  moreover have "state_of ?s' u \<in> {1, 3}" if "state_of s1 u \<in> {1, 3}" for u
    using rt_schedule_state [OF z c1(2), of u] that by (auto simp: rt_exit_critical_def Let_def state_of_def)
  ultimately show ?thesis
    using s1 x(1,3) l sem err by (intro exI [of _ ?s']) (auto simp: workqueue_work_completion_def rt_sem_take_end_def rt_enter_critical_def)
qed

text \<open>Thread 3 waits for the end of a work of queue 30, whose semaphore is number 42.\<close>

theorem work_acknowledged_witness:
  "\<exists>s'. workqueue_work_completion 30 (set_sem 42 0 (demo_waits (Suspend (Sem 42)))) = Some (RT_EOK, s') \<and> state_of s' 3 \<in> {RT_THREAD_READY, RT_THREAD_RUNNING}
     \<and> rt_sem_take_end 3 s' = RT_EOK"
proof -
  let ?s = "set_sem 42 0 (demo_waits (Suspend (Sem 42)))"
  have m: "wq_sem 30 = 42" by (simp add: wq_sem_def)
  have th: "thread_ok u ?s" for u using demo_waits_sel(10) [of u "Suspend (Sem 42)"]
    by (simp add: thread_ok_def is_thread_def is_timer_def rt_object_get_type_def rt_object_is_systemobject_def)
  have l: "tlists ?s (Suspend (Sem 42)) = [3]" by (simp add: demo_waits_lists)
  have "sem_ok 42 ?s" using th by (simp add: sem_ok_def is_sem_def rt_object_get_type_def demo_types)
  moreover have "lock_nest ?s + 1 \<noteq> 0" by (simp add: demo_waits_def demo_waiter)
  moreover have "error (threads ?s 3) = 0" by (simp add: demo_waits_def demo_waiter)
  ultimately show ?thesis
    using work_acknowledged [of 30 ?s 1, unfolded m] demo_waits_sched [of "Suspend (Sem 42)"] l by auto
qed

section \<open>Queueing works\<close>

lemma dowork_queues:
  assumes "work_current (wqs ws q) \<noteq> Some w"
  shows "wlists (snd (rt_workqueue_dowork q w ws)) q = removeAll w (wlists ws q) @ [w]"
    "k \<noteq> q \<Longrightarrow> wlists (snd (rt_workqueue_dowork q w ws)) k = removeAll w (wlists ws k)"
  using assms by (simp_all add: rt_workqueue_dowork_def Let_def on_kernel_def list_insert_before_def list_remove_def)

lemma worker_takes_first:
  assumes "store_ok (wlists ws)" "wlists ws q = w # us"
  shows "worker_take q ws = (Some w, snd (worker_take q ws))" "wlists (snd (worker_take q ws)) q = us" "store_ok (wlists (snd (worker_take q ws)))"
proof -
  have "distinct (w # us)" using store_ok_distinct [OF assms(1), of q] assms(2) by simp
  then show "worker_take q ws = (Some w, snd (worker_take q ws))" "wlists (snd (worker_take q ws)) q = us"
    using assms(2) by (simp_all add: worker_take_def set_wq_def list_remove_def)
  show "store_ok (wlists (snd (worker_take q ws)))" using store_ok_remove [OF assms(1), of w] assms(2) by (simp add: worker_take_def set_wq_def)
qed

lemma cancel_all_work_empties:
  "wlists (snd (rt_workqueue_cancel_all_work q ws)) q = []"
proof -
  have "wlists (fold (\<lambda>w ws. ws\<lparr>wlists := list_remove w (wlists ws)\<rparr>) xs ws) q = filter (\<lambda>y. y \<notin> set xs) (wlists ws q)" for xs and ws :: work_state
    by (induction xs arbitrary: ws) (auto simp: list_remove_def removeAll_filter_not_eq intro!: filter_cong)
  then show ?thesis by (simp add: rt_workqueue_cancel_all_work_def Let_def on_kernel_def)
qed

text \<open>
  A work that is cancelled between the resume of the thread of the queue and its next turn leaves that turn without a
  work: after its wait the thread takes the list head for a work.
\<close>

lemma cancelled_work_breaks_worker:
  assumes "wlists ws q = []" "work_current (wqs ws q) = None"
  shows "worker_take q (snd (rt_workqueue_cancel_work q w (snd (rt_workqueue_dowork q w ws)))) = (None, on_kernel panic (snd (rt_workqueue_cancel_work q w (snd (rt_workqueue_dowork q w ws)))))"
  using assms by (simp add: rt_workqueue_cancel_work_def rt_workqueue_dowork_def worker_take_def on_kernel_def list_insert_before_def list_remove_def Let_def)

end
