(* ===== verification/RT_Waitqueue.thy ===== *)
theory RT_Waitqueue
  imports RT_IpcList
begin

text \<open>
  The wait queues of \<^verbatim>\<open>components/drivers/src/waitqueue.c\<close>, with which threads wait for an event of a device.  A
  queue holds nodes; a node names the waiting thread and the function that decides whether an event concerns
  it.  These functions are a parameter of the model.
\<close>

section \<open>Operations\<close>

abbreviation (input) RT_WQ_FLAG_CLEAN :: u32 where "RT_WQ_FLAG_CLEAN \<equiv> 0"
abbreviation (input) RT_WQ_FLAG_WAKEUP :: u32 where "RT_WQ_FLAG_WAKEUP \<equiv> 1"

record rt_wqueue_node =
  polling_thread :: nat
  node_wakeup :: nat
  node_key :: u32

record wqueues =
  wq_flag :: "nat \<Rightarrow> u32"
  wq_lists :: "(nat, nat) store"
  wq_nodes :: "nat \<Rightarrow> rt_wqueue_node"

text \<open>The functions of the nodes, by their number; number 0 is the default.\<close>

type_synonym wake_fns = "nat \<Rightarrow> nat \<Rightarrow> nat \<Rightarrow> wqueues \<Rightarrow> int \<times> wqueues"

definition wqueue_default_wake :: "nat \<Rightarrow> nat \<Rightarrow> wqueues \<Rightarrow> int \<times> wqueues" where
  "wqueue_default_wake node key w = (0, w)"

definition rt_wqueue_init :: "nat \<Rightarrow> wqueues \<Rightarrow> wqueues" where
  "rt_wqueue_init q w = w\<lparr>wq_flag := (wq_flag w)(q := RT_WQ_FLAG_CLEAN), wq_lists := (wq_lists w)(q := [])\<rparr>"

definition rt_wqueue_add :: "nat \<Rightarrow> nat \<Rightarrow> wqueues \<Rightarrow> wqueues" where
  "rt_wqueue_add q n w = w\<lparr>wq_lists := list_insert_before q n (wq_lists w)\<rparr>"

definition rt_wqueue_remove :: "nat \<Rightarrow> wqueues \<Rightarrow> wqueues" where
  "rt_wqueue_remove n w = w\<lparr>wq_lists := list_remove n (wq_lists w)\<rparr>"

definition set_wq_flag :: "nat \<Rightarrow> u32 \<Rightarrow> wqueues \<Rightarrow> wqueues" where
  "set_wq_flag q v w = w\<lparr>wq_flag := (wq_flag w)(q := v)\<rparr>"

text \<open>The walk over the nodes up to the first that the event concerns.\<close>

fun wakeup_walk :: "wake_fns \<Rightarrow> nat \<Rightarrow> nat list \<Rightarrow> wqueues \<Rightarrow> kernel \<Rightarrow> bool \<times> wqueues \<times> kernel" where
  "wakeup_walk fns key [] w s = (False, w, s)"
| "wakeup_walk fns key (n # ns) w s =
     (case fns (node_wakeup (wq_nodes w n)) n key w of (r, w1) \<Rightarrow>
        if r = 0 then (True, rt_wqueue_remove n w1, snd (rt_thread_resume (polling_thread (wq_nodes w1 n)) s))
        else wakeup_walk fns key ns w1 s)"

definition rt_wqueue_wakeup :: "wake_fns \<Rightarrow> nat \<Rightarrow> nat \<Rightarrow> wqueues \<Rightarrow> kernel \<Rightarrow> wqueues \<times> kernel" where
  "rt_wqueue_wakeup fns q key w s =
     (let w1 = set_wq_flag q RT_WQ_FLAG_WAKEUP w;
          (need_schedule, w2, s2) = wakeup_walk fns key (wq_lists w1 q) w1 s
      in (w2, if need_schedule then rt_schedule s2 else s2))"

text \<open>
  Waiting, with the node \<open>n\<close> on the stack of the caller, up to the point where the thread loses the processor, and
  the rest.  \<open>None\<close>: the conversion of the time overflows.
\<close>

definition rt_wqueue_wait_end :: "nat \<Rightarrow> nat \<Rightarrow> wqueues \<Rightarrow> wqueues" where
  "rt_wqueue_wait_end q n w = rt_wqueue_remove n (set_wq_flag q 0 w)"

definition rt_wqueue_wait :: "nat \<Rightarrow> nat \<Rightarrow> bool \<Rightarrow> int \<Rightarrow> wqueues \<Rightarrow> kernel \<Rightarrow> (int outcome \<times> wqueues \<times> kernel) option" where
  "rt_wqueue_wait q n condition msec w s =
     (if \<not> not_in_interrupt s then Some (Returned 0, w, panic s)
      else case rt_tick_from_millisecond msec of
          None \<Rightarrow> None
        | Some tick \<Rightarrow>
            if condition \<or> tick = 0 then Some (Returned 0, w, s)
            else
              (case rt_thread_self s of
                 None \<Rightarrow> Some (Returned 0, w, panic s)
               | Some t \<Rightarrow>
                   (let w1 = w\<lparr>wq_nodes := (wq_nodes w)(n := \<lparr>polling_thread = t, node_wakeup = 0, node_key = 0\<rparr>)\<rparr>
                    in if wq_flag w1 q = RT_WQ_FLAG_WAKEUP then Some (Returned 0, rt_wqueue_wait_end q n w1, s)
                       else Some (Blocked, rt_wqueue_add q n w1, rt_schedule (start_wait_timer t tick (snd (rt_thread_suspend t s)))))))"

section \<open>A wakeup is not lost\<close>

text \<open>A wakeup before the wait: the wait returns at once, and takes the wakeup back.\<close>

lemma early_wakeup:
  assumes "rt_thread_self s = Some t" "not_in_interrupt s" "rt_tick_from_millisecond msec = Some tick" "wq_flag w q = RT_WQ_FLAG_WAKEUP"
  shows "\<exists>w'. rt_wqueue_wait q n cond msec w s = Some (Returned 0, w', s) \<and> (\<not> cond \<and> tick \<noteq> 0 \<longrightarrow> wq_flag w' q = RT_WQ_FLAG_CLEAN)"
  using assms by (simp add: rt_wqueue_wait_def rt_wqueue_wait_end_def rt_wqueue_remove_def set_wq_flag_def Let_def)

text \<open>A wakeup after it: the first waiting thread becomes ready and its node leaves the queue.\<close>

lemma late_wakeup:
  assumes fns: "fns 0 = wqueue_default_wake" and l: "wq_lists w q = n # ns" "store_ok (wq_lists w)" "node_wakeup (wq_nodes w n) = 0"
    and t: "polling_thread (wq_nodes w n) = t" "thread_ok t s" "state_of s t = RT_THREAD_SUSPEND" and sc: "sched_ok {} s" "current s = Some c"
  shows "case rt_wqueue_wakeup fns q key w s of (w', s') \<Rightarrow> wq_flag w' q = RT_WQ_FLAG_WAKEUP \<and> wq_lists w' q = ns
    \<and> sched_ok {} s' \<and> kpanic s' = kpanic s \<and> state_of s' t \<in> {RT_THREAD_READY, RT_THREAD_RUNNING}"
proof -
  let ?s1 = "snd (rt_thread_resume t s)"
  note r = rt_thread_resume_woken [OF t(2,3)]
  have ok: "sched_ok {} ?s1" "current ?s1 = Some c" using rt_thread_resume_ok [OF sc(1)] sc(2) by simp_all
  have e: "rt_wqueue_wakeup fns q key w s = (rt_wqueue_remove n (set_wq_flag q 1 w), rt_schedule ?s1)"
    using fns l(1,3) t(1) by (simp add: rt_wqueue_wakeup_def set_wq_flag_def wqueue_default_wake_def)
  have "n \<notin> set ns" using l(1) store_ok_distinct [OF l(2), of q] by simp
  then have "wq_lists (rt_wqueue_remove n (set_wq_flag q 1 w)) q = ns" "wq_flag (rt_wqueue_remove n (set_wq_flag q 1 w)) q = 1"
    using l(1) by (simp_all add: rt_wqueue_remove_def set_wq_flag_def list_remove_def)
  moreover have "state_of (rt_schedule ?s1) t \<in> {1, 3}" using rt_schedule_state [OF ok, of t] r(3) [of t] by auto
  ultimately show ?thesis using rt_schedule_ok(1,2) [OF ok] r(2) by (simp add: e)
qed

end
