(* ===== verification/RT_Device.thy ===== *)
theory RT_Device
  imports RT_Waitqueue
begin

text \<open>
  The device layer of \<^verbatim>\<open>src/device.c\<close>.  A device is a kernel object with flags, a reference count and the entry
  points of its driver.  A driver works on the data of its device and on a state of its own, the type
  parameter; its entry points are arguments of the model.
\<close>

section \<open>Devices\<close>

abbreviation (input) RT_DEVICE_FLAG_STANDALONE :: u16 where "RT_DEVICE_FLAG_STANDALONE \<equiv> 0x008"
abbreviation (input) RT_DEVICE_FLAG_ACTIVATED :: u16 where "RT_DEVICE_FLAG_ACTIVATED \<equiv> 0x010"
abbreviation (input) RT_DEVICE_OFLAG_CLOSE :: u16 where "RT_DEVICE_OFLAG_CLOSE \<equiv> 0x000"
abbreviation (input) RT_DEVICE_OFLAG_OPEN :: u16 where "RT_DEVICE_OFLAG_OPEN \<equiv> 0x008"
abbreviation (input) RT_DEVICE_OFLAG_MASK :: u16 where "RT_DEVICE_OFLAG_MASK \<equiv> 0xf0f"
abbreviation (input) DEV_ENOSYS :: rt_err_t where "DEV_ENOSYS \<equiv> 6"
abbreviation (input) DEV_EBUSY :: rt_err_t where "DEV_EBUSY \<equiv> 7"

record rt_device =
  dev_type :: int
  dev_flag :: u16
  open_flag :: u16
  ref_count :: u8
  rx_indicate :: "nat option"
  tx_complete :: "nat option"
  fops :: "nat option"

text \<open>The entry points of a driver, each of which may be missing.  Reading returns the bytes read.\<close>

record 'd device_ops =
  dev_init :: "(rt_device \<times> 'd \<Rightarrow> rt_err_t \<times> rt_device \<times> 'd) option"
  dev_open :: "(u16 \<Rightarrow> rt_device \<times> 'd \<Rightarrow> rt_err_t \<times> rt_device \<times> 'd) option"
  dev_close :: "(rt_device \<times> 'd \<Rightarrow> rt_err_t \<times> rt_device \<times> 'd) option"
  dev_read :: "(int \<Rightarrow> nat \<Rightarrow> rt_device \<times> 'd \<Rightarrow> u8 list \<times> rt_device \<times> 'd) option"
  dev_write :: "(int \<Rightarrow> u8 list \<Rightarrow> rt_device \<times> 'd \<Rightarrow> nat \<times> rt_device \<times> 'd) option"
  dev_control :: "(int \<Rightarrow> nat \<Rightarrow> rt_device \<times> 'd \<Rightarrow> rt_err_t \<times> rt_device \<times> 'd) option"

record 'd dev_state =
  dk :: kernel
  devs :: "nat \<Rightarrow> rt_device"
  ops :: "nat \<Rightarrow> 'd device_ops"
  drv :: 'd
  waits :: wqueues

definition on_dev :: "nat \<Rightarrow> (rt_device \<Rightarrow> rt_device) \<Rightarrow> 'd dev_state \<Rightarrow> 'd dev_state" where
  "on_dev v f s = s\<lparr>devs := (devs s)(v := f (devs s v))\<rparr>"

definition dev_panic :: "'d dev_state \<Rightarrow> 'd dev_state" where
  "dev_panic s = s\<lparr>dk := panic (dk s)\<rparr>"

definition is_dev :: "nat \<Rightarrow> 'd dev_state \<Rightarrow> bool" where
  "is_dev v s \<longleftrightarrow> rt_object_get_type (Dev v) (dk s) = RT_Object_Class_Device"

text \<open>The wait queue lies in the structure of the device.\<close>

definition dev_wait_queue :: "nat \<Rightarrow> nat" where
  "dev_wait_queue v = v + 64"

text \<open>A call of an entry point of the driver of a device.\<close>

definition call_driver :: "nat \<Rightarrow> (rt_device \<times> 'd \<Rightarrow> 'r \<times> rt_device \<times> 'd) \<Rightarrow> 'd dev_state \<Rightarrow> 'r \<times> 'd dev_state" where
  "call_driver v f s = (case f (devs s v, drv s) of (r, x, y) \<Rightarrow> (r, s\<lparr>devs := (devs s)(v := x), drv := y\<rparr>))"

section \<open>Operations\<close>

definition rt_device_find :: "string \<Rightarrow> 'd dev_state \<Rightarrow> nat option \<times> 'd dev_state" where
  "rt_device_find name s =
     (let k1 = (if rt_thread_self (dk s) \<noteq> None then rt_enter_critical (dk s) else dk s);
          r = find (\<lambda>r. same_name (obj_name (objs k1 r)) name) (containers k1 RT_Object_Class_Device);
          k2 = (if rt_thread_self k1 \<noteq> None then rt_exit_critical k1 else k1)
      in (map_option ref_addr r, s\<lparr>dk := k2\<rparr>))"

definition rt_device_register :: "nat option \<Rightarrow> string \<Rightarrow> u16 \<Rightarrow> 'd dev_state \<Rightarrow> rt_err_t \<times> 'd dev_state" where
  "rt_device_register dev name flags s =
     (case dev of
        None \<Rightarrow> (- RT_ERROR, s)
      | Some v \<Rightarrow>
          (case rt_device_find name s of
             (Some _, s1) \<Rightarrow> (- RT_ERROR, s1)
           | (None, s1) \<Rightarrow>
               (RT_EOK, on_dev v (\<lambda>x. x\<lparr>dev_flag := flags, ref_count := 0, open_flag := 0, fops := None\<rparr>)
                  (s1\<lparr>waits := rt_wqueue_init (dev_wait_queue v) (waits s1), dk := rt_object_init (Dev v) RT_Object_Class_Device name (dk s1)\<rparr>))))"

definition rt_device_unregister :: "nat \<Rightarrow> 'd dev_state \<Rightarrow> rt_err_t \<times> 'd dev_state" where
  "rt_device_unregister v s =
     (if \<not> is_dev v s \<or> \<not> rt_object_is_systemobject (Dev v) (dk s) then (RT_EOK, dev_panic s)
      else (RT_EOK, s\<lparr>dk := rt_object_detach (Dev v) (dk s)\<rparr>))"

definition rt_device_init_all :: rt_err_t where
  "rt_device_init_all = RT_EOK"

text \<open>A new device is a zeroed structure with a type; its object is not initialised.\<close>

definition rt_device_create :: "int \<Rightarrow> nat \<Rightarrow> 'd dev_state \<Rightarrow> nat option \<times> 'd dev_state" where
  "rt_device_create type attach_size s =
     (case kernel_malloc (wadd (rt_align 80) (rt_align attach_size)) (dk s) of
        (None, k) \<Rightarrow> (None, s\<lparr>dk := k\<rparr>)
      | (Some v, k) \<Rightarrow>
          (Some v, s\<lparr>waits := set_wq_flag (dev_wait_queue v) 0 (waits s), dk := upd_obj (Dev v) (\<lambda>_. \<lparr>obj_name = [], obj_type = 0, obj_flag = 0\<rparr>) k,
                     devs := (devs s)(v := \<lparr>dev_type = type, dev_flag = 0, open_flag = 0, ref_count = 0, rx_indicate = None, tx_complete = None, fops = None\<rparr>),
                     ops := (ops s)(v := \<lparr>dev_init = None, dev_open = None, dev_close = None, dev_read = None, dev_write = None, dev_control = None\<rparr>)\<rparr>))"

definition rt_device_destroy :: "nat \<Rightarrow> 'd dev_state \<Rightarrow> 'd dev_state" where
  "rt_device_destroy v s =
     (if \<not> is_dev v s \<or> rt_object_is_systemobject (Dev v) (dk s) then dev_panic s
      else s\<lparr>dk := kernel_free v (rt_object_detach (Dev v) (dk s))\<rparr>)"

definition rt_device_init :: "nat \<Rightarrow> 'd dev_state \<Rightarrow> rt_err_t \<times> 'd dev_state" where
  "rt_device_init v s =
     (case dev_init (ops s v) of
        None \<Rightarrow> (RT_EOK, s)
      | Some f \<Rightarrow>
          if dev_flag (devs s v) AND RT_DEVICE_FLAG_ACTIVATED = 0 then
            (case call_driver v f s of (r, s1) \<Rightarrow>
               (r, if r \<noteq> RT_EOK then s1 else on_dev v (\<lambda>x. x\<lparr>dev_flag := dev_flag x OR RT_DEVICE_FLAG_ACTIVATED\<rparr>) s1))
          else (RT_EOK, s))"

text \<open>The first part of an open: initialising a device that is not yet activated; the rest of it.\<close>

definition dev_activate :: "nat \<Rightarrow> 'd dev_state \<Rightarrow> rt_err_t \<times> 'd dev_state" where
  "dev_activate v s =
     (if dev_flag (devs s v) AND RT_DEVICE_FLAG_ACTIVATED = 0 then
        (case dev_init (ops s v) of
           None \<Rightarrow> (RT_EOK, on_dev v (\<lambda>x. x\<lparr>dev_flag := dev_flag x OR RT_DEVICE_FLAG_ACTIVATED\<rparr>) s)
         | Some f \<Rightarrow>
             (case call_driver v f s of (r, s1) \<Rightarrow>
                (r, if r \<noteq> RT_EOK then s1 else on_dev v (\<lambda>x. x\<lparr>dev_flag := dev_flag x OR RT_DEVICE_FLAG_ACTIVATED\<rparr>) s1)))
      else (RT_EOK, s))"

definition rt_device_open :: "nat \<Rightarrow> u16 \<Rightarrow> 'd dev_state \<Rightarrow> rt_err_t \<times> 'd dev_state" where
  "rt_device_open v oflag s =
     (if \<not> is_dev v s then (RT_EOK, dev_panic s)
      else case dev_activate v s of (r, s1) \<Rightarrow>
        if r \<noteq> RT_EOK then (r, s1)
        else if dev_flag (devs s1 v) AND RT_DEVICE_FLAG_STANDALONE \<noteq> 0 \<and> open_flag (devs s1 v) AND RT_DEVICE_OFLAG_OPEN \<noteq> 0
          then (- DEV_EBUSY, s1)
        else
          (let (r2, s2) = (case dev_open (ops s1 v) of
                 Some f \<Rightarrow> call_driver v (f oflag) s1
               | None \<Rightarrow> (RT_EOK, on_dev v (\<lambda>x. x\<lparr>open_flag := oflag AND RT_DEVICE_OFLAG_MASK\<rparr>) s1))
           in if r2 = RT_EOK \<or> r2 = - DEV_ENOSYS then
                (let s3 = on_dev v (\<lambda>x. x\<lparr>open_flag := open_flag x OR RT_DEVICE_OFLAG_OPEN, ref_count := ref_count x + 1\<rparr>) s2
                 in (r2, if ref_count (devs s3 v) = 0 then dev_panic s3 else s3))
              else (r2, s2)))"

definition rt_device_close :: "nat \<Rightarrow> 'd dev_state \<Rightarrow> rt_err_t \<times> 'd dev_state" where
  "rt_device_close v s =
     (if \<not> is_dev v s then (RT_EOK, dev_panic s)
      else if ref_count (devs s v) = 0 then (- RT_ERROR, s)
      else
        (let s1 = on_dev v (\<lambda>x. x\<lparr>ref_count := ref_count x - 1\<rparr>) s
         in if ref_count (devs s1 v) \<noteq> 0 then (RT_EOK, s1)
            else
              (let (r, s2) = (case dev_close (ops s1 v) of Some f \<Rightarrow> call_driver v f s1 | None \<Rightarrow> (RT_EOK, s1))
               in (r, if r = RT_EOK \<or> r = - DEV_ENOSYS then on_dev v (\<lambda>x. x\<lparr>open_flag := RT_DEVICE_OFLAG_CLOSE\<rparr>) s2 else s2))))"

definition rt_device_read :: "nat \<Rightarrow> int \<Rightarrow> nat \<Rightarrow> 'd dev_state \<Rightarrow> u8 list \<times> 'd dev_state" where
  "rt_device_read v pos sz s =
     (if \<not> is_dev v s then ([], dev_panic s)
      else if ref_count (devs s v) = 0 then ([], s\<lparr>dk := rt_set_errno (- RT_ERROR) (dk s)\<rparr>)
      else case dev_read (ops s v) of
          Some f \<Rightarrow> call_driver v (f pos sz) s
        | None \<Rightarrow> ([], s\<lparr>dk := rt_set_errno (- DEV_ENOSYS) (dk s)\<rparr>))"

definition rt_device_write :: "nat \<Rightarrow> int \<Rightarrow> u8 list \<Rightarrow> 'd dev_state \<Rightarrow> nat \<times> 'd dev_state" where
  "rt_device_write v pos buffer s =
     (if \<not> is_dev v s then (0, dev_panic s)
      else if ref_count (devs s v) = 0 then (0, s\<lparr>dk := rt_set_errno (- RT_ERROR) (dk s)\<rparr>)
      else case dev_write (ops s v) of
          Some f \<Rightarrow> call_driver v (f pos buffer) s
        | None \<Rightarrow> (0, s\<lparr>dk := rt_set_errno (- DEV_ENOSYS) (dk s)\<rparr>))"

definition rt_device_control :: "nat \<Rightarrow> int \<Rightarrow> nat \<Rightarrow> 'd dev_state \<Rightarrow> rt_err_t \<times> 'd dev_state" where
  "rt_device_control v cmd arg s =
     (if \<not> is_dev v s then (RT_EOK, dev_panic s)
      else case dev_control (ops s v) of Some f \<Rightarrow> call_driver v (f cmd arg) s | None \<Rightarrow> (- DEV_ENOSYS, s))"

definition rt_device_set_rx_indicate :: "nat \<Rightarrow> nat option \<Rightarrow> 'd dev_state \<Rightarrow> rt_err_t \<times> 'd dev_state" where
  "rt_device_set_rx_indicate v rx_ind s =
     (RT_EOK, if \<not> is_dev v s then dev_panic s else on_dev v (\<lambda>x. x\<lparr>rx_indicate := rx_ind\<rparr>) s)"

definition rt_device_set_tx_complete :: "nat \<Rightarrow> nat option \<Rightarrow> 'd dev_state \<Rightarrow> rt_err_t \<times> 'd dev_state" where
  "rt_device_set_tx_complete v tx_done s =
     (RT_EOK, if \<not> is_dev v s then dev_panic s else on_dev v (\<lambda>x. x\<lparr>tx_complete := tx_done\<rparr>) s)"

section \<open>Reference counting\<close>

definition opened :: "rt_device \<Rightarrow> bool" where
  "opened x \<longleftrightarrow> open_flag x AND RT_DEVICE_OFLAG_OPEN \<noteq> 0"

definition activated :: "rt_device \<Rightarrow> bool" where
  "activated x \<longleftrightarrow> dev_flag x AND RT_DEVICE_FLAG_ACTIVATED \<noteq> 0"

definition standalone :: "rt_device \<Rightarrow> bool" where
  "standalone x \<longleftrightarrow> dev_flag x AND RT_DEVICE_FLAG_STANDALONE \<noteq> 0"

text \<open>
  What the device layer relies on in a driver: the reference count and the stand-alone flag belong to the layer and are left
  alone, and so is the open bit, except by an open that succeeds.  Initialising and closing may change the activated flag, as
  the hardware timers do when they are closed; the other entry points do not.
\<close>

definition counts :: "rt_device \<Rightarrow> rt_device \<Rightarrow> bool" where
  "counts x x' \<longleftrightarrow> ref_count x' = ref_count x \<and> standalone x' = standalone x"

definition keeps :: "rt_device \<Rightarrow> rt_device \<Rightarrow> bool" where
  "keeps x x' \<longleftrightarrow> counts x x' \<and> activated x' = activated x \<and> opened x' = opened x"

definition op_keeps :: "(rt_device \<times> 'd \<Rightarrow> 'r \<times> rt_device \<times> 'd) \<Rightarrow> bool" where
  "op_keeps f \<longleftrightarrow> (\<forall>x d r x' d'. f (x, d) = (r, x', d') \<longrightarrow> keeps x x')"

definition op_counts :: "(rt_device \<times> 'd \<Rightarrow> 'r \<times> rt_device \<times> 'd) \<Rightarrow> bool" where
  "op_counts f \<longleftrightarrow> (\<forall>x d r x' d'. f (x, d) = (r, x', d') \<longrightarrow> counts x x' \<and> opened x' = opened x)"

definition open_keeps :: "(u16 \<Rightarrow> rt_device \<times> 'd \<Rightarrow> rt_err_t \<times> rt_device \<times> 'd) \<Rightarrow> bool" where
  "open_keeps f \<longleftrightarrow> (\<forall>fl x d r x' d'. f fl (x, d) = (r, x', d') \<longrightarrow>
     counts x x' \<and> activated x' = activated x \<and> (r \<notin> {RT_EOK, - DEV_ENOSYS} \<longrightarrow> opened x' = opened x))"

definition driver_sane :: "'d device_ops \<Rightarrow> bool" where
  "driver_sane p \<longleftrightarrow> pred_option op_counts (dev_init p) \<and> pred_option open_keeps (dev_open p) \<and> pred_option op_counts (dev_close p)
     \<and> pred_option (\<lambda>f. \<forall>q n. op_keeps (f q n)) (dev_read p) \<and> pred_option (\<lambda>f. \<forall>q b. op_keeps (f q b)) (dev_write p)
     \<and> pred_option (\<lambda>f. \<forall>c a. op_keeps (f c a)) (dev_control p)"

text \<open>A driver whose close does not fail.\<close>

definition closes :: "'d device_ops \<Rightarrow> bool" where
  "closes p \<longleftrightarrow> pred_option (\<lambda>f. \<forall>x d. fst (f (x, d)) \<in> {RT_EOK, - DEV_ENOSYS}) (dev_close p)"

definition dev_ok :: "nat \<Rightarrow> nat \<Rightarrow> 'd dev_state \<Rightarrow> bool" where
  "dev_ok v n s \<longleftrightarrow> is_dev v s \<and> unat (ref_count (devs s v)) = n \<and> (0 < n \<longrightarrow> opened (devs s v) \<and> activated (devs s v))
     \<and> (closes (ops s v) \<longrightarrow> (opened (devs s v) \<longleftrightarrow> 0 < n)) \<and> (standalone (devs s v) \<longrightarrow> n \<le> 1)"

lemma on_dev_sel [simp]:
  "devs (on_dev v f s) = (devs s)(v := f (devs s v))" "dk (on_dev v f s) = dk s" "ops (on_dev v f s) = ops s" "drv (on_dev v f s) = drv s"
  "is_dev u (on_dev v f s) = is_dev u s"
  by (simp_all add: on_dev_def is_dev_def)

lemma op_keepsD: "op_keeps f \<Longrightarrow> f (x, d) = (r, x', d') \<Longrightarrow> keeps x x'"
  unfolding op_keeps_def by metis

lemma op_countsD: "op_counts f \<Longrightarrow> f (x, d) = (r, x', d') \<Longrightarrow> counts x x' \<and> opened x' = opened x"
  unfolding op_counts_def by metis

lemma open_keepsD:
  assumes "open_keeps f" "f fl (x, d) = (r, x', d')"
  shows "counts x x'" "activated x' = activated x" "r \<notin> {RT_EOK, - DEV_ENOSYS} \<Longrightarrow> opened x' = opened x"
  using assms unfolding open_keeps_def by metis+

lemma pred_optionD: "pred_option P x \<Longrightarrow> x = Some y \<Longrightarrow> P y"
  by simp

lemma driver_sane_init: "driver_sane p \<Longrightarrow> dev_init p = Some f \<Longrightarrow> op_counts f"
  unfolding driver_sane_def by (elim conjE) (drule (1) pred_optionD [of _ "dev_init p"])

lemma driver_sane_close: "driver_sane p \<Longrightarrow> dev_close p = Some f \<Longrightarrow> op_counts f"
  unfolding driver_sane_def by (elim conjE) (drule (1) pred_optionD [of _ "dev_close p"])

lemma driver_sane_read: "driver_sane p \<Longrightarrow> dev_read p = Some f \<Longrightarrow> op_keeps (f q n)"
  unfolding driver_sane_def by (elim conjE) (drule (1) pred_optionD [of _ "dev_read p"], elim allE)

lemma driver_sane_write: "driver_sane p \<Longrightarrow> dev_write p = Some f \<Longrightarrow> op_keeps (f q b)"
  unfolding driver_sane_def by (elim conjE) (drule (1) pred_optionD [of _ "dev_write p"], elim allE)

lemma driver_sane_control: "driver_sane p \<Longrightarrow> dev_control p = Some f \<Longrightarrow> op_keeps (f c a)"
  unfolding driver_sane_def by (elim conjE) (drule (1) pred_optionD [of _ "dev_control p"], elim allE)

lemma call_driver_cases:
  assumes "call_driver v f s = (r, s1)"
  obtains x d where "f (devs s v, drv s) = (r, x, d)" "s1 = s\<lparr>devs := (devs s)(v := x), drv := d\<rparr>"
  using assms by (cases "f (devs s v, drv s)") (auto simp: call_driver_def)

lemma flag_or_activated: "(w OR 0x10) AND 0x10 \<noteq> 0 \<and> (w OR 0x10) AND 8 = w AND 8" for w :: u16
proof -
  have "bit ((w OR 0x10) AND 0x10) 4" by (simp add: bit_simps)
  then have "(w OR 0x10) AND 0x10 \<noteq> 0" by auto
  moreover have "(w OR 0x10) AND 8 = w AND 8" by (simp add: bit.conj_disj_distrib2)
  ultimately show ?thesis by simp
qed

lemma flag_or_open: "(w OR 8) AND 8 \<noteq> 0" for w :: u16
proof -
  have "bit ((w OR 8) AND 8) 3" by (simp add: bit_simps)
  then show ?thesis by auto
qed

lemma activate_facts:
  assumes p: "driver_sane (ops s v)" and a: "dev_activate v s = (r, s1)"
  shows "ops s1 = ops s" "dk s1 = dk s" "ref_count (devs s1 v) = ref_count (devs s v)" "opened (devs s1 v) = opened (devs s v)"
    "standalone (devs s1 v) = standalone (devs s v)" "r = RT_EOK \<Longrightarrow> activated (devs s1 v)" "activated (devs s v) \<Longrightarrow> r = RT_EOK \<and> s1 = s"
    "is_dev u s1 = is_dev u s"
proof -
  consider (already) "activated (devs s v)" | (plain) "\<not> activated (devs s v)" "dev_init (ops s v) = None"
    | (init) f r' s2 where "\<not> activated (devs s v)" "dev_init (ops s v) = Some f" "call_driver v f s = (r', s2)"
    by (cases "dev_init (ops s v)") (auto, metis surj_pair)
  then have "ops s1 = ops s \<and> dk s1 = dk s \<and> ref_count (devs s1 v) = ref_count (devs s v) \<and> opened (devs s1 v) = opened (devs s v)
    \<and> standalone (devs s1 v) = standalone (devs s v) \<and> (r = RT_EOK \<longrightarrow> activated (devs s1 v)) \<and> (activated (devs s v) \<longrightarrow> r = RT_EOK \<and> s1 = s)"
  proof cases
    case already
    then show ?thesis using a by (simp add: dev_activate_def activated_def)
  next
    case plain
    then show ?thesis using a flag_or_activated [of "dev_flag (devs s v)"] by (auto simp: dev_activate_def activated_def standalone_def opened_def)
  next
    case init
    obtain x d where x: "f (devs s v, drv s) = (r', x, d)" "s2 = s\<lparr>devs := (devs s)(v := x), drv := d\<rparr>" using call_driver_cases [OF init(3)] .
    have k: "counts (devs s v) x" "opened x = opened (devs s v)" using op_countsD [OF driver_sane_init [OF p init(2)] x(1)] by simp_all
    have r: "r = r'" and s1: "s1 = (if r' \<noteq> RT_EOK then s2 else on_dev v (\<lambda>x. x\<lparr>dev_flag := dev_flag x OR RT_DEVICE_FLAG_ACTIVATED\<rparr>) s2)"
      using a init by (auto simp: dev_activate_def activated_def)
    show ?thesis using init(1) k flag_or_activated [of "dev_flag x"] unfolding r s1 x(2)
      by (auto simp: activated_def standalone_def opened_def counts_def split: if_splits)
  qed
  then show dks: "dk s1 = dk s" and "ops s1 = ops s" "ref_count (devs s1 v) = ref_count (devs s v)" "opened (devs s1 v) = opened (devs s v)"
    "standalone (devs s1 v) = standalone (devs s v)" "r = RT_EOK \<Longrightarrow> activated (devs s1 v)" "activated (devs s v) \<Longrightarrow> r = RT_EOK \<and> s1 = s"
    by blast+
  show "is_dev u s1 = is_dev u s" using dks by (simp add: is_dev_def)
qed

text \<open>
  One call on a device \<^verbatim>\<open>v\<close>, and the number of users that hold it open before and after.  An open counts when it returns
  success or \<^verbatim>\<open>-RT_ENOSYS\<close>, unless that is the failure of the initialisation.  A close takes a user away also when the driver fails.
\<close>

inductive dev_call :: "nat \<Rightarrow> nat \<Rightarrow> 'd dev_state \<Rightarrow> nat \<Rightarrow> 'd dev_state \<Rightarrow> bool" for v where
  Open: "rt_device_open v oflag s = (r, s')
    \<Longrightarrow> dev_call v n s (if fst (dev_activate v s) = RT_EOK \<and> r \<in> {RT_EOK, - DEV_ENOSYS} then n + 1 else n) s'"
| Close: "rt_device_close v s = (r, s') \<Longrightarrow> dev_call v n s (n - 1) s'"
| Read: "rt_device_read v pos sz s = (b, s') \<Longrightarrow> dev_call v n s n s'"
| Write: "rt_device_write v pos buf s = (m, s') \<Longrightarrow> dev_call v n s n s'"
| Control: "rt_device_control v cmd arg s = (r, s') \<Longrightarrow> dev_call v n s n s'"
| Init: "rt_device_init v s = (r, s') \<Longrightarrow> dev_call v n s n s'"
| Indicate: "rt_device_set_rx_indicate v h s = (r, s') \<Longrightarrow> dev_call v n s n s'"
| Complete: "rt_device_set_tx_complete v h s = (r, s') \<Longrightarrow> dev_call v n s n s'"

text \<open>Any sequence of calls; a failed assertion stops the system.\<close>

inductive dev_calls :: "nat \<Rightarrow> nat \<Rightarrow> 'd dev_state \<Rightarrow> nat \<Rightarrow> 'd dev_state \<Rightarrow> bool" for v n s where
  None_yet: "dev_calls v n s n s"
| Next: "dev_calls v n s m t \<Longrightarrow> \<not> kpanic (dk t) \<Longrightarrow> dev_call v m t k u \<Longrightarrow> dev_calls v n s k u"

lemma errno_dev [simp]:
  "kpanic (rt_set_errno e k) = kpanic k" "rt_object_get_type r (rt_set_errno e k) = rt_object_get_type r k"
  by (simp_all add: rt_set_errno_def rt_object_get_type_def split: option.split)

lemma dev_ok_keeps:
  assumes "dev_ok v n s" "keeps (devs s v) x"
  shows "dev_ok v n (s\<lparr>devs := (devs s)(v := x), drv := d\<rparr>)"
  using assms by (simp add: dev_ok_def keeps_def counts_def is_dev_def)

lemma dev_ok_call:
  assumes "op_keeps f" "dev_ok v n s" "call_driver v f s = (r, s')"
  shows "dev_ok v n s' \<and> ops s' = ops s \<and> dk s' = dk s"
proof -
  obtain x d where x: "f (devs s v, drv s) = (r, x, d)" "s' = s\<lparr>devs := (devs s)(v := x), drv := d\<rparr>" using call_driver_cases [OF assms(3)] .
  show ?thesis using dev_ok_keeps [OF assms(2) op_keepsD [OF assms(1) x(1)], of d] x(2) by simp
qed

lemma dev_ok_errno: "dev_ok v n (s\<lparr>dk := rt_set_errno e (dk s)\<rparr>) = dev_ok v n s"
  by (simp add: dev_ok_def is_dev_def)

text \<open>An open: below 255 users it keeps the count right, the 256th user fails the assertion.\<close>

lemma open_step:
  assumes p: "driver_sane (ops s v)" and d: "dev_ok v n s" and c: "rt_device_open v oflag s = (r, s')"
  defines "m \<equiv> if fst (dev_activate v s) = RT_EOK \<and> r \<in> {RT_EOK, - DEV_ENOSYS} then n + 1 else n"
  shows "ops s' = ops s \<and> (if m < 256 then dev_ok v m s' \<and> dk s' = dk s else kpanic (dk s'))"
proof -
  obtain r1 s1 where a: "dev_activate v s = (r1, s1)" by (rule prod.exhaust)
  note f = activate_facts [OF p a]
  have i: "is_dev v s" and nu: "n = unat (ref_count (devs s v))" using d by (simp_all add: dev_ok_def)
  have n: "n < 256" unfolding nu using unsigned_less [of "ref_count (devs s v)"] by simp
  have d1: "dev_ok v n s1" using d f(1-7) f(8) [of v] by (auto simp: dev_ok_def)
  obtain r2 s2 where o: "(case dev_open (ops s1 v) of Some f \<Rightarrow> call_driver v (f oflag) s1
      | None \<Rightarrow> (RT_EOK, on_dev v (\<lambda>x. x\<lparr>open_flag := oflag AND RT_DEVICE_OFLAG_MASK\<rparr>) s1)) = (r2, s2)" by (rule prod.exhaust)
  have o2: "ops s2 = ops s1 \<and> dk s2 = dk s1 \<and> counts (devs s1 v) (devs s2 v) \<and> activated (devs s2 v) = activated (devs s1 v)
    \<and> (r2 \<notin> {RT_EOK, - DEV_ENOSYS} \<longrightarrow> opened (devs s2 v) = opened (devs s1 v))"
  proof (cases "dev_open (ops s1 v)")
    case None
    then show ?thesis using o by (auto simp: counts_def standalone_def activated_def)
  next
    case (Some g)
    then obtain x e where x: "g oflag (devs s1 v, drv s1) = (r2, x, e)" "s2 = s1\<lparr>devs := (devs s1)(v := x), drv := e\<rparr>"
      using o call_driver_cases [of v "g oflag" s1 r2 s2] by auto
    have "open_keeps g" using p Some f(1) by (simp add: driver_sane_def)
    from open_keepsD [OF this x(1)] show ?thesis using x(2) by simp
  qed
  consider (fails) "r1 \<noteq> RT_EOK" | (busy) "r1 = RT_EOK" "standalone (devs s1 v)" "opened (devs s1 v)"
    | (asks) "r1 = RT_EOK" "\<not> (standalone (devs s1 v) \<and> opened (devs s1 v))" by blast
  then show ?thesis
  proof cases
    case fails
    moreover have "(r, s') = (r1, s1)" using c i a fails by (simp add: rt_device_open_def)
    ultimately show ?thesis using d1 f(1,2) n a by (simp add: m_def)
  next
    case busy
    then have "(r, s') = (- DEV_EBUSY, s1)" using c i a by (simp add: rt_device_open_def standalone_def opened_def)
    then show ?thesis using d1 f(1,2) n by (simp add: m_def)
  next
    case asks
    have e: "(r, s') = (if r2 = RT_EOK \<or> r2 = - DEV_ENOSYS then
                (let s3 = on_dev v (\<lambda>x. x\<lparr>open_flag := open_flag x OR RT_DEVICE_OFLAG_OPEN, ref_count := ref_count x + 1\<rparr>) s2
                 in (r2, if ref_count (devs s3 v) = 0 then dev_panic s3 else s3))
              else (r2, s2))"
      using c i a asks o by (auto simp: rt_device_open_def standalone_def opened_def)
    show ?thesis
    proof (cases "r2 = RT_EOK \<or> r2 = - DEV_ENOSYS")
      case True
      then have m: "m = n + 1" using e a asks(1) by (simp add: m_def Let_def)
      let ?s3 = "on_dev v (\<lambda>x. x\<lparr>open_flag := open_flag x OR RT_DEVICE_OFLAG_OPEN, ref_count := ref_count x + 1\<rparr>) s2"
      have s': "s' = (if ref_count (devs s1 v) + 1 = 0 then dev_panic ?s3 else ?s3)" using True e o2 by (simp add: Let_def counts_def)
      have rc: "unat (ref_count (devs s1 v)) = n" using d1 by (simp add: dev_ok_def)
      show ?thesis
      proof (cases "n < 255")
        case lt: True
        have u: "unat (ref_count (devs s1 v) + 1) = n + 1" using rc lt by (simp add: unat_word_ariths)
        then have "s' = ?s3" using s' by auto
        then show ?thesis using lt m o2 f(1,2) u d1 f(6) [OF asks(1)] asks(2) flag_or_open [of "open_flag (devs s2 v)"]
          by (auto simp: dev_ok_def is_dev_def standalone_def activated_def opened_def counts_def)
      next
        case False
        then have "n = 255" using n by simp
        then have "unat (ref_count (devs s1 v) + 1) = 0" using rc by (simp add: unat_word_ariths)
        then have "s' = dev_panic ?s3" using s' by (simp only: unat_eq_zero) simp
        then show ?thesis using False m o2 f(1) by (simp add: dev_panic_def panic_def)
      qed
    next
      case False
      then have "m = n" "s' = s2" "r = r2" using e by (simp_all add: m_def)
      then show ?thesis using False o2 f(1,2) d1 n by (simp add: dev_ok_def is_dev_def counts_def)
    qed
  qed
qed

lemma close_step:
  assumes p: "driver_sane (ops s v)" and d: "dev_ok v n s" and c: "rt_device_close v s = (r, s')"
  shows "dev_ok v (n - 1) s' \<and> ops s' = ops s \<and> dk s' = dk s"
proof -
  let ?s1 = "on_dev v (\<lambda>x. x\<lparr>ref_count := ref_count x - 1\<rparr>) s"
  have i: "is_dev v s" and n: "unat (ref_count (devs s v)) = n" using d by (simp_all add: dev_ok_def)
  have u: "unat (ref_count (devs s v) - 1) = n - 1" if "0 < n"
  proof -
    have "ref_count (devs s v) \<noteq> 0" using n that by auto
    from unat_minus_one [OF this] show ?thesis using n by simp
  qed
  consider (unused) "n = 0" | (shared) "1 < n" | (last) "n = 1" by linarith
  then show ?thesis
  proof cases
    case unused
    then show ?thesis using c i n d by (simp add: rt_device_close_def unat_eq_0)
  next
    case shared
    have "ref_count (devs s v) - 1 \<noteq> 0" using u shared by auto
    moreover have "ref_count (devs s v) \<noteq> 0" using n shared by auto
    ultimately have "s' = ?s1" using c i by (simp add: rt_device_close_def)
    then show ?thesis using n d shared u by (simp add: dev_ok_def opened_def activated_def standalone_def)
  next
    case last
    have "unat (ref_count (devs s v) - 1) = 0" using u last by simp
    then have z: "ref_count (devs s v) - 1 = 0" by (simp only: unat_eq_zero)
    have nz: "ref_count (devs s v) \<noteq> 0" using last n by auto
    show ?thesis
    proof (cases "dev_close (ops s v)")
      case None
      then have "s' = on_dev v (\<lambda>x. x\<lparr>open_flag := RT_DEVICE_OFLAG_CLOSE\<rparr>) ?s1" using c i z nz by (simp add: rt_device_close_def)
      then show ?thesis using z last d by (simp add: dev_ok_def opened_def standalone_def)
    next
      case (Some g)
      obtain r2 s2 where g: "call_driver v g ?s1 = (r2, s2)" by (rule prod.exhaust)
      obtain x e where x: "g (devs ?s1 v, drv ?s1) = (r2, x, e)" "s2 = ?s1\<lparr>devs := (devs ?s1)(v := x), drv := e\<rparr>" using call_driver_cases [OF g] .
      note k = op_countsD [OF driver_sane_close [OF p Some] x(1)]
      have s': "s' = (if r2 = RT_EOK \<or> r2 = - DEV_ENOSYS then on_dev v (\<lambda>x. x\<lparr>open_flag := RT_DEVICE_OFLAG_CLOSE\<rparr>) s2 else s2)"
        using c i z nz Some g by (auto simp: rt_device_close_def)
      have "r2 = RT_EOK \<or> r2 = - DEV_ENOSYS" if "closes (ops s v)"
      proof -
        have "\<forall>x d. fst (g (x, d)) \<in> {RT_EOK, - DEV_ENOSYS}" using that Some unfolding closes_def by (rule pred_optionD)
        then have "fst (g (devs ?s1 v, drv ?s1)) \<in> {RT_EOK, - DEV_ENOSYS}" by (elim allE)
        then show ?thesis using x(1) by simp
      qed
      then show ?thesis using s' x(2) k z last d
        by (auto simp: dev_ok_def opened_def standalone_def counts_def is_dev_def on_dev_def)
    qed
  qed
qed

lemma read_step:
  assumes p: "driver_sane (ops s v)" and d: "dev_ok v n s" and c: "rt_device_read v pos sz s = (b, s')"
  shows "dev_ok v n s' \<and> ops s' = ops s \<and> kpanic (dk s') = kpanic (dk s)"
proof (cases "dev_read (ops s v)")
  case None
  have "s' = s\<lparr>dk := rt_set_errno (if ref_count (devs s v) = 0 then - RT_ERROR else - DEV_ENOSYS) (dk s)\<rparr>"
    using None c d by (simp add: rt_device_read_def dev_ok_def split: if_splits)
  then show ?thesis using d by (simp add: dev_ok_errno)
next
  case (Some f)
  have k: "op_keeps (f pos sz)" using p Some by (rule driver_sane_read)
  show ?thesis
  proof (cases "ref_count (devs s v) = 0")
    case True
    then have "s' = s\<lparr>dk := rt_set_errno (- RT_ERROR) (dk s)\<rparr>" using c d by (simp add: rt_device_read_def dev_ok_def)
    then show ?thesis using d by (simp add: dev_ok_errno)
  next
    case False
    then have "call_driver v (f pos sz) s = (b, s')" using c d Some by (simp add: rt_device_read_def dev_ok_def)
    from dev_ok_call [OF k d this] show ?thesis by simp
  qed
qed

lemma write_step:
  assumes p: "driver_sane (ops s v)" and d: "dev_ok v n s" and c: "rt_device_write v pos buf s = (m, s')"
  shows "dev_ok v n s' \<and> ops s' = ops s \<and> kpanic (dk s') = kpanic (dk s)"
proof (cases "dev_write (ops s v)")
  case None
  have "s' = s\<lparr>dk := rt_set_errno (if ref_count (devs s v) = 0 then - RT_ERROR else - DEV_ENOSYS) (dk s)\<rparr>"
    using None c d by (simp add: rt_device_write_def dev_ok_def split: if_splits)
  then show ?thesis using d by (simp add: dev_ok_errno)
next
  case (Some f)
  have k: "op_keeps (f pos buf)" using p Some by (rule driver_sane_write)
  show ?thesis
  proof (cases "ref_count (devs s v) = 0")
    case True
    then have "s' = s\<lparr>dk := rt_set_errno (- RT_ERROR) (dk s)\<rparr>" using c d by (simp add: rt_device_write_def dev_ok_def)
    then show ?thesis using d by (simp add: dev_ok_errno)
  next
    case False
    then have "call_driver v (f pos buf) s = (m, s')" using c d Some by (simp add: rt_device_write_def dev_ok_def)
    from dev_ok_call [OF k d this] show ?thesis by simp
  qed
qed

lemma control_step:
  assumes p: "driver_sane (ops s v)" and d: "dev_ok v n s" and c: "rt_device_control v cmd arg s = (r, s')"
  shows "dev_ok v n s' \<and> ops s' = ops s \<and> kpanic (dk s') = kpanic (dk s)"
proof (cases "dev_control (ops s v)")
  case None
  then have "s' = s" using c d by (simp add: rt_device_control_def dev_ok_def)
  then show ?thesis using d by simp
next
  case (Some f)
  have k: "op_keeps (f cmd arg)" using p Some by (rule driver_sane_control)
  have "call_driver v (f cmd arg) s = (r, s')" using c d Some by (simp add: rt_device_control_def dev_ok_def)
  from dev_ok_call [OF k d this] show ?thesis by simp
qed

lemma init_step:
  assumes p: "driver_sane (ops s v)" and d: "dev_ok v n s" and c: "rt_device_init v s = (r, s')"
  shows "dev_ok v n s' \<and> ops s' = ops s \<and> dk s' = dk s"
proof -
  obtain r1 s1 where a: "dev_activate v s = (r1, s1)" by (rule prod.exhaust)
  note f = activate_facts [OF p a]
  have "s' = s \<or> s' = s1" using c a by (auto simp: rt_device_init_def dev_activate_def split: option.splits if_splits prod.splits)
  moreover have "dev_ok v n s1" using d f(1-7) f(8) [of v] by (auto simp: dev_ok_def)
  ultimately show ?thesis using d f(1,2) by blast
qed

lemma handler_step:
  assumes "dev_ok v n s" "rt_device_set_rx_indicate v h s = (r, s') \<or> rt_device_set_tx_complete v h s = (r, s')"
  shows "dev_ok v n s' \<and> ops s' = ops s \<and> dk s' = dk s"
  using assms by (auto simp: rt_device_set_rx_indicate_def rt_device_set_tx_complete_def dev_ok_def opened_def activated_def standalone_def)

lemma dev_ok_below: "dev_ok v n s \<Longrightarrow> n < 256"
proof -
  assume "dev_ok v n s"
  then have n: "n = unat (ref_count (devs s v))" by (simp add: dev_ok_def)
  show ?thesis unfolding n using unsigned_less [of "ref_count (devs s v)"] by simp
qed

lemma dev_call_ok:
  assumes "dev_call v n s m s'" "driver_sane (ops s v)" "dev_ok v n s"
  shows "ops s' = ops s \<and> m \<le> 256 \<and> (if m < 256 then dev_ok v m s' \<and> kpanic (dk s') = kpanic (dk s) else kpanic (dk s'))"
  using assms(1)
proof cases
  case (Open oflag r)
  then show ?thesis using open_step [OF assms(2,3) Open(2)] dev_ok_below [OF assms(3)] by (auto split: if_splits)
next
  case (Close r)
  then show ?thesis using close_step [OF assms(2,3) Close(2)] dev_ok_below [OF assms(3)] by auto
next
  case (Read pos sz b)
  then show ?thesis using read_step [OF assms(2,3) Read(2)] dev_ok_below [OF assms(3)] by auto
next
  case (Write pos buf k)
  then show ?thesis using write_step [OF assms(2,3) Write(2)] dev_ok_below [OF assms(3)] by auto
next
  case (Control cmd arg r)
  then show ?thesis using control_step [OF assms(2,3) Control(2)] dev_ok_below [OF assms(3)] by auto
next
  case (Init r)
  then show ?thesis using init_step [OF assms(2,3) Init(2)] dev_ok_below [OF assms(3)] by auto
next
  case (Indicate h r)
  then show ?thesis using handler_step [OF assms(3) disjI1 [OF Indicate(2)]] dev_ok_below [OF assms(3)] by auto
next
  case (Complete h r)
  then show ?thesis using handler_step [OF assms(3) disjI2 [OF Complete(2)]] dev_ok_below [OF assms(3)] by auto
qed

lemma dev_calls_ok:
  assumes "dev_calls v n s m s'" "driver_sane (ops s v)" "dev_ok v n s" "\<not> kpanic (dk s)"
  shows "ops s' = ops s \<and> m \<le> 256 \<and> (kpanic (dk s') \<longleftrightarrow> m = 256) \<and> (m < 256 \<longrightarrow> dev_ok v m s')"
  using assms(1)
proof induction
  case None_yet
  then show ?case using assms(3,4) dev_ok_below [OF assms(3)] by simp
next
  case (Next m t k u)
  then have "dev_ok v m t" by auto
  with dev_call_ok [OF Next.hyps(3)] show ?case using Next.IH Next.hyps(2) assms(2) by (auto split: if_splits)
qed

lemma registered_ok:
  assumes "rt_device_register (Some v) name flags s = (RT_EOK, s1)"
  shows "dev_ok v 0 s1 \<and> ops s1 = ops s"
proof -
  obtain r t where f: "rt_device_find name s = (r, t)" by (rule prod.exhaust)
  have "ops t = ops s" using f by (auto simp: rt_device_find_def Let_def)
  moreover have "r = None" using assms f by (cases r) (simp_all add: rt_device_register_def)
  moreover have "(0x89 AND NOT 0x80 :: u8) = 9" by code_simp
  ultimately show ?thesis using assms f
    by (auto simp: rt_device_register_def dev_ok_def is_dev_def rt_object_init_def rt_object_get_information_def rt_object_container_def rt_object_get_type_def
      opened_def on_dev_def)
qed


text \<open>
  A driver that numbers the bytes it is read for; its close returns a given value and clears the activated flag, as the one of the
  hardware timers does, or leaves it.
\<close>

definition demo_ops :: "rt_err_t \<Rightarrow> bool \<Rightarrow> nat device_ops" where
  "demo_ops e clear = \<lparr>dev_init = Some (\<lambda>(x, d). (RT_EOK, x, d)), dev_open = None,
     dev_close = Some (\<lambda>(x, d). (e, if clear then x\<lparr>dev_flag := dev_flag x AND NOT RT_DEVICE_FLAG_ACTIVATED, rx_indicate := None\<rparr> else x, d)),
     dev_read = Some (\<lambda>pos n (x, d). (replicate n (of_nat d), x, d + n)), dev_write = None, dev_control = None\<rparr>"

definition demo_dev :: "rt_err_t \<Rightarrow> bool \<Rightarrow> nat dev_state" where
  "demo_dev e clear = \<lparr>dk = blank_kernel, devs = (\<lambda>_. \<lparr>dev_type = 0, dev_flag = 0, open_flag = 0, ref_count = 0, rx_indicate = None, tx_complete = None,
     fops = None\<rparr>), ops = (\<lambda>_. demo_ops e clear), drv = 0,
     waits = \<lparr>wq_flag = (\<lambda>_. 0), wq_lists = (\<lambda>_. []), wq_nodes = (\<lambda>_. \<lparr>polling_thread = 0, node_wakeup = 0, node_key = 0\<rparr>)\<rparr>\<rparr>"

lemma flag_not_activated: "(w AND - 17) AND 8 = w AND 8" for w :: u16
proof -
  have "- 17 AND 8 = (8 :: u16)" by code_simp
  then show ?thesis by (simp only: and.assoc)
qed

lemma demo_ops_sane: "driver_sane (demo_ops e clear)" "closes (demo_ops 0 clear)"
  by (auto simp: driver_sane_def closes_def demo_ops_def op_counts_def counts_def op_keeps_def keeps_def standalone_def opened_def flag_not_activated)

lemma demo_dev_registered:
  obtains s1 where "rt_device_register (Some 100) ''uart4'' 8 (demo_dev e clear) = (RT_EOK, s1)" "dev_ok 100 0 s1" "ops s1 100 = demo_ops e clear"
    "devs s1 100 = \<lparr>dev_type = 0, dev_flag = 8, open_flag = 0, ref_count = 0, rx_indicate = None, tx_complete = None, fops = None\<rparr>"
    "\<not> kpanic (dk s1)"
proof -
  obtain r s1 where s1: "rt_device_register (Some 100) ''uart4'' 8 (demo_dev e clear) = (r, s1)" by (rule prod.exhaust)
  have e: "r = RT_EOK" "ops s1 100 = demo_ops e clear"
    "devs s1 100 = \<lparr>dev_type = 0, dev_flag = 8, open_flag = 0, ref_count = 0, rx_indicate = None, tx_complete = None, fops = None\<rparr>"
    "\<not> kpanic (dk s1)"
    using s1 by (auto simp: rt_device_register_def rt_device_find_def rt_thread_self_def demo_dev_def blank_kernel_def on_dev_def Let_def
      rt_object_init_def rt_object_get_information_def rt_object_container_def)
  show thesis using that [OF s1 [unfolded e(1)] _ e(2-4)] registered_ok [OF s1 [unfolded e(1)]] by simp
qed

lemma demo_dev_opened:
  assumes "ops s1 100 = demo_ops e clear"
    "devs s1 100 = \<lparr>dev_type = 0, dev_flag = 8, open_flag = 0, ref_count = 0, rx_indicate = None, tx_complete = None, fops = None\<rparr>" "dev_ok 100 0 s1"
  obtains s2 where "rt_device_open 100 3 s1 = (RT_EOK, s2)" "fst (dev_activate 100 s1) = RT_EOK" "dev_ok 100 1 s2" "ops s2 = ops s1"
    "standalone (devs s2 100)"
proof -
  obtain r s2 where s2: "rt_device_open 100 3 s1 = (r, s2)" by (rule prod.exhaust)
  have "is_dev 100 s1" using assms(3) by (simp add: dev_ok_def)
  moreover have "(8 OR 16 :: u16) = 24" "(24 AND 8 :: u16) \<noteq> 0" by code_simp+
  ultimately have "r = RT_EOK" "standalone (devs s2 100)" "fst (dev_activate 100 s1) = RT_EOK" using s2 assms(1,2)
    by (auto simp: rt_device_open_def dev_activate_def call_driver_def demo_ops_def on_dev_def standalone_def Let_def)
  then show thesis using that [of s2] s2 open_step [OF _ assms(3) s2] demo_ops_sane(1) [of e clear] assms(1) by simp
qed


text \<open>C35.  A stand-alone device whose driver fails to close is lost: the reference count is already zero and the open flag still set, so
  that every later open is refused with \<^verbatim>\<open>-RT_EBUSY\<close> and every later close with \<^verbatim>\<open>-RT_ERROR\<close>.\<close>

theorem standalone_device_lost:
  assumes "driver_sane (ops s v)" "dev_ok v 1 s" "standalone (devs s v)" "dev_close (ops s v) = Some f"
    and fails: "fst (f ((devs s v)\<lparr>ref_count := 0\<rparr>, drv s)) \<notin> {RT_EOK, - DEV_ENOSYS}" and c: "rt_device_close v s = (r, s')"
    and act: "activated (fst (snd (f ((devs s v)\<lparr>ref_count := 0\<rparr>, drv s))))"
  shows "r = fst (f ((devs s v)\<lparr>ref_count := 0\<rparr>, drv s)) \<and> rt_device_open v oflag s' = (- DEV_EBUSY, s') \<and> rt_device_close v s' = (- RT_ERROR, s')"
proof -
  let ?s1 = "on_dev v (\<lambda>x. x\<lparr>ref_count := ref_count x - 1\<rparr>) s"
  have rc: "ref_count (devs s v) = 1" using assms(2) by (simp add: dev_ok_def word_unat_eq_iff)
  from rc have one: "devs ?s1 v = (devs s v)\<lparr>ref_count := 0\<rparr>" "ref_count (devs s v) \<noteq> 0" by simp_all
  obtain r2 s2 where g: "call_driver v f ?s1 = (r2, s2)" by (rule prod.exhaust)
  obtain x e where x: "f (devs ?s1 v, drv ?s1) = (r2, x, e)" "s2 = ?s1\<lparr>devs := (devs ?s1)(v := x), drv := e\<rparr>" using call_driver_cases [OF g] .
  have k: "counts (devs ?s1 v) x" "opened x = opened (devs ?s1 v)" using op_countsD [OF driver_sane_close [OF assms(1,4)] x(1)] by simp_all
  have r2: "fst (f ((devs s v)\<lparr>ref_count := 0\<rparr>, drv s)) = r2" "activated x" using x(1) one act by simp_all
  have "r = r2" "s' = s2"
    using c assms(2,4) one g fails unfolding r2 by (simp_all add: rt_device_close_def dev_ok_def)
  then show ?thesis using x(2) k rc assms(2,3) r2
    by (simp add: rt_device_open_def rt_device_close_def dev_activate_def dev_ok_def is_dev_def activated_def standalone_def opened_def counts_def)
qed

theorem standalone_device_lost_witness:
  "\<exists>(s2 :: nat dev_state) s3. dev_ok 100 1 s2 \<and> rt_device_close 100 s2 = (- RT_ERROR, s3) \<and> rt_device_open 100 3 s3 = (- DEV_EBUSY, s3)
     \<and> rt_device_close 100 s3 = (- RT_ERROR, s3)"
proof -
  obtain s1 where s1: "rt_device_register (Some 100) ''uart4'' 8 (demo_dev (- RT_ERROR) False) = (RT_EOK, s1)" "dev_ok 100 0 s1"
    "ops s1 100 = demo_ops (- RT_ERROR) False"
    "devs s1 100 = \<lparr>dev_type = 0, dev_flag = 8, open_flag = 0, ref_count = 0, rx_indicate = None, tx_complete = None, fops = None\<rparr>"
    "\<not> kpanic (dk s1)"
    by (rule demo_dev_registered)
  obtain s2 where s2: "rt_device_open 100 3 s1 = (RT_EOK, s2)" "fst (dev_activate 100 s1) = RT_EOK" "dev_ok 100 1 s2" "ops s2 = ops s1"
    "standalone (devs s2 100)"
    using demo_dev_opened [OF s1(3,4,2)] .
  obtain r s3 where s3: "rt_device_close 100 s2 = (r, s3)" by (rule prod.exhaust)
  have o: "ops s2 100 = demo_ops (- RT_ERROR) False" using s1(3) s2(4) by simp
  have p: "driver_sane (ops s2 100)" "dev_close (ops s2 100) = Some (\<lambda>(x, d). (- RT_ERROR, x, d))"
    unfolding o by (rule demo_ops_sane) (simp add: demo_ops_def)
  have a: "activated (devs s2 100)" using s2(3) by (simp add: dev_ok_def)
  note w = standalone_device_lost [OF p(1) s2(3,5) p(2) _ s3, of 3]
  show ?thesis using s2(3) s3 w a by (auto simp: activated_def)
qed

text \<open>A device that was created cannot be destroyed: it is not an object of the kernel before its registration, a static object after
  it, and no object again after its removal, and each time an assertion fails.\<close>

lemma created_device_not_destroyed:
  assumes "rt_device_create type attach s = (Some v, s1)"
  shows "kpanic (dk (rt_device_destroy v s1))"
    and "rt_device_register (Some v) name flags s1 = (RT_EOK, s2) \<Longrightarrow> kpanic (dk (rt_device_destroy v s2))"
    and "rt_device_unregister v s2 = (RT_EOK, s3) \<Longrightarrow> \<not> kpanic (dk s3) \<Longrightarrow> kpanic (dk (rt_device_destroy v s3))"
proof -
  show "kpanic (dk (rt_device_destroy v s1))"
    using assms by (auto simp: rt_device_create_def rt_device_destroy_def is_dev_def rt_object_get_type_def dev_panic_def split: prod.splits option.splits)
  have "(0x89 AND 0x80 :: u8) \<noteq> 0" by code_simp
  then show "kpanic (dk (rt_device_destroy v s2))" if "rt_device_register (Some v) name flags s1 = (RT_EOK, s2)"
    using that by (auto simp: rt_device_register_def rt_device_destroy_def rt_object_is_systemobject_def rt_object_init_def rt_object_get_information_def
      rt_object_container_def dev_panic_def split: prod.splits option.splits)
  show "kpanic (dk (rt_device_destroy v s3))" if "rt_device_unregister v s2 = (RT_EOK, s3)" "\<not> kpanic (dk s3)"
    using that by (auto simp: rt_device_unregister_def rt_device_destroy_def rt_object_detach_def is_dev_def rt_object_get_type_def dev_panic_def
      split: if_splits)
qed

end
