(* ===== verification/App_Checksum.thy ===== *)
theory App_Checksum
  imports RT_Prelude
begin

text \<open>
  The checksums of the application: the frame check sequence of the power line protocol
  (\<^verbatim>\<open>pppfcs16\<close> and its table in \<^verbatim>\<open>applications/698.h\<close>), and the CRC of the meter protocol, the CRC of the
  SD card and the exclusive-or sum of \<^verbatim>\<open>applications/global.c\<close>.  The table-driven checksums are compared
  with the bitwise definition of a reflected 16-bit CRC.
\<close>

section \<open>The checksums of the code\<close>

definition fcstab :: "u16 list" where
  "fcstab =
     [0x0000, 0x1189, 0x2312, 0x329b, 0x4624, 0x57ad, 0x6536, 0x74bf,
      0x8c48, 0x9dc1, 0xaf5a, 0xbed3, 0xca6c, 0xdbe5, 0xe97e, 0xf8f7,
      0x1081, 0x0108, 0x3393, 0x221a, 0x56a5, 0x472c, 0x75b7, 0x643e,
      0x9cc9, 0x8d40, 0xbfdb, 0xae52, 0xdaed, 0xcb64, 0xf9ff, 0xe876,
      0x2102, 0x308b, 0x0210, 0x1399, 0x6726, 0x76af, 0x4434, 0x55bd,
      0xad4a, 0xbcc3, 0x8e58, 0x9fd1, 0xeb6e, 0xfae7, 0xc87c, 0xd9f5,
      0x3183, 0x200a, 0x1291, 0x0318, 0x77a7, 0x662e, 0x54b5, 0x453c,
      0xbdcb, 0xac42, 0x9ed9, 0x8f50, 0xfbef, 0xea66, 0xd8fd, 0xc974,
      0x4204, 0x538d, 0x6116, 0x709f, 0x0420, 0x15a9, 0x2732, 0x36bb,
      0xce4c, 0xdfc5, 0xed5e, 0xfcd7, 0x8868, 0x99e1, 0xab7a, 0xbaf3,
      0x5285, 0x430c, 0x7197, 0x601e, 0x14a1, 0x0528, 0x37b3, 0x263a,
      0xdecd, 0xcf44, 0xfddf, 0xec56, 0x98e9, 0x8960, 0xbbfb, 0xaa72,
      0x6306, 0x728f, 0x4014, 0x519d, 0x2522, 0x34ab, 0x0630, 0x17b9,
      0xef4e, 0xfec7, 0xcc5c, 0xddd5, 0xa96a, 0xb8e3, 0x8a78, 0x9bf1,
      0x7387, 0x620e, 0x5095, 0x411c, 0x35a3, 0x242a, 0x16b1, 0x0738,
      0xffcf, 0xee46, 0xdcdd, 0xcd54, 0xb9eb, 0xa862, 0x9af9, 0x8b70,
      0x8408, 0x9581, 0xa71a, 0xb693, 0xc22c, 0xd3a5, 0xe13e, 0xf0b7,
      0x0840, 0x19c9, 0x2b52, 0x3adb, 0x4e64, 0x5fed, 0x6d76, 0x7cff,
      0x9489, 0x8500, 0xb79b, 0xa612, 0xd2ad, 0xc324, 0xf1bf, 0xe036,
      0x18c1, 0x0948, 0x3bd3, 0x2a5a, 0x5ee5, 0x4f6c, 0x7df7, 0x6c7e,
      0xa50a, 0xb483, 0x8618, 0x9791, 0xe32e, 0xf2a7, 0xc03c, 0xd1b5,
      0x2942, 0x38cb, 0x0a50, 0x1bd9, 0x6f66, 0x7eef, 0x4c74, 0x5dfd,
      0xb58b, 0xa402, 0x9699, 0x8710, 0xf3af, 0xe226, 0xd0bd, 0xc134,
      0x39c3, 0x284a, 0x1ad1, 0x0b58, 0x7fe7, 0x6e6e, 0x5cf5, 0x4d7c,
      0xc60c, 0xd785, 0xe51e, 0xf497, 0x8028, 0x91a1, 0xa33a, 0xb2b3,
      0x4a44, 0x5bcd, 0x6956, 0x78df, 0x0c60, 0x1de9, 0x2f72, 0x3efb,
      0xd68d, 0xc704, 0xf59f, 0xe416, 0x90a9, 0x8120, 0xb3bb, 0xa232,
      0x5ac5, 0x4b4c, 0x79d7, 0x685e, 0x1ce1, 0x0d68, 0x3ff3, 0x2e7a,
      0xe70e, 0xf687, 0xc41c, 0xd595, 0xa12a, 0xb0a3, 0x8238, 0x93b1,
      0x6b46, 0x7acf, 0x4854, 0x59dd, 0x2d62, 0x3ceb, 0x0e70, 0x1ff9,
      0xf78f, 0xe606, 0xd49d, 0xc514, 0xb1ab, 0xa022, 0x92b9, 0x8330,
      0x7bc7, 0x6a4e, 0x58d5, 0x495c, 0x3de3, 0x2c6a, 0x1ef1, 0x0f78]"

fun pppfcs16 :: "u16 \<Rightarrow> u8 list \<Rightarrow> u16" where
  "pppfcs16 fcs [] = fcs"
| "pppfcs16 fcs (b # cp) = pppfcs16 (drop_bit 8 fcs XOR fcstab ! unat ((fcs XOR ucast b) AND 0xff)) cp"

definition USCRCLo :: "u8 list" where
  "USCRCLo =
     [0x00, 0xC1, 0x81, 0x40, 0x01, 0xC0, 0x80, 0x41, 0x01, 0xC0, 0x80, 0x41, 0x00, 0xC1, 0x81, 0x40,
      0x01, 0xC0, 0x80, 0x41, 0x00, 0xC1, 0x81, 0x40, 0x00, 0xC1, 0x81, 0x40, 0x01, 0xC0, 0x80, 0x41,
      0x01, 0xC0, 0x80, 0x41, 0x00, 0xC1, 0x81, 0x40, 0x00, 0xC1, 0x81, 0x40, 0x01, 0xC0, 0x80, 0x41,
      0x00, 0xC1, 0x81, 0x40, 0x01, 0xC0, 0x80, 0x41, 0x01, 0xC0, 0x80, 0x41, 0x00, 0xC1, 0x81, 0x40,
      0x01, 0xC0, 0x80, 0x41, 0x00, 0xC1, 0x81, 0x40, 0x00, 0xC1, 0x81, 0x40, 0x01, 0xC0, 0x80, 0x41,
      0x00, 0xC1, 0x81, 0x40, 0x01, 0xC0, 0x80, 0x41, 0x01, 0xC0, 0x80, 0x41, 0x00, 0xC1, 0x81, 0x40,
      0x00, 0xC1, 0x81, 0x40, 0x01, 0xC0, 0x80, 0x41, 0x01, 0xC0, 0x80, 0x41, 0x00, 0xC1, 0x81, 0x40,
      0x01, 0xC0, 0x80, 0x41, 0x00, 0xC1, 0x81, 0x40, 0x00, 0xC1, 0x81, 0x40, 0x01, 0xC0, 0x80, 0x41,
      0x01, 0xC0, 0x80, 0x41, 0x00, 0xC1, 0x81, 0x40, 0x00, 0xC1, 0x81, 0x40, 0x01, 0xC0, 0x80, 0x41,
      0x00, 0xC1, 0x81, 0x40, 0x01, 0xC0, 0x80, 0x41, 0x01, 0xC0, 0x80, 0x41, 0x00, 0xC1, 0x81, 0x40,
      0x00, 0xC1, 0x81, 0x40, 0x01, 0xC0, 0x80, 0x41, 0x01, 0xC0, 0x80, 0x41, 0x00, 0xC1, 0x81, 0x40,
      0x01, 0xC0, 0x80, 0x41, 0x00, 0xC1, 0x81, 0x40, 0x00, 0xC1, 0x81, 0x40, 0x01, 0xC0, 0x80, 0x41,
      0x00, 0xC1, 0x81, 0x40, 0x01, 0xC0, 0x80, 0x41, 0x01, 0xC0, 0x80, 0x41, 0x00, 0xC1, 0x81, 0x40,
      0x01, 0xC0, 0x80, 0x41, 0x00, 0xC1, 0x81, 0x40, 0x00, 0xC1, 0x81, 0x40, 0x01, 0xC0, 0x80, 0x41,
      0x01, 0xC0, 0x80, 0x41, 0x00, 0xC1, 0x81, 0x40, 0x00, 0xC1, 0x81, 0x40, 0x01, 0xC0, 0x80, 0x41,
      0x00, 0xC1, 0x81, 0x40, 0x01, 0xC0, 0x80, 0x41, 0x01, 0xC0, 0x80, 0x41, 0x00, 0xC1, 0x81, 0x40]"

definition USCRCHi :: "u8 list" where
  "USCRCHi =
     [0x00, 0xC0, 0xC1, 0x01, 0xC3, 0x03, 0x02, 0xC2, 0xC6, 0x06, 0x07, 0xC7, 0x05, 0xC5, 0xC4, 0x04,
      0xCC, 0x0C, 0x0D, 0xCD, 0x0F, 0xCF, 0xCE, 0x0E, 0x0A, 0xCA, 0xCB, 0x0B, 0xC9, 0x09, 0x08, 0xC8,
      0xD8, 0x18, 0x19, 0xD9, 0x1B, 0xDB, 0xDA, 0x1A, 0x1E, 0xDE, 0xDF, 0x1F, 0xDD, 0x1D, 0x1C, 0xDC,
      0x14, 0xD4, 0xD5, 0x15, 0xD7, 0x17, 0x16, 0xD6, 0xD2, 0x12, 0x13, 0xD3, 0x11, 0xD1, 0xD0, 0x10,
      0xF0, 0x30, 0x31, 0xF1, 0x33, 0xF3, 0xF2, 0x32, 0x36, 0xF6, 0xF7, 0x37, 0xF5, 0x35, 0x34, 0xF4,
      0x3C, 0xFC, 0xFD, 0x3D, 0xFF, 0x3F, 0x3E, 0xFE, 0xFA, 0x3A, 0x3B, 0xFB, 0x39, 0xF9, 0xF8, 0x38,
      0x28, 0xE8, 0xE9, 0x29, 0xEB, 0x2B, 0x2A, 0xEA, 0xEE, 0x2E, 0x2F, 0xEF, 0x2D, 0xED, 0xEC, 0x2C,
      0xE4, 0x24, 0x25, 0xE5, 0x27, 0xE7, 0xE6, 0x26, 0x22, 0xE2, 0xE3, 0x23, 0xE1, 0x21, 0x20, 0xE0,
      0xA0, 0x60, 0x61, 0xA1, 0x63, 0xA3, 0xA2, 0x62, 0x66, 0xA6, 0xA7, 0x67, 0xA5, 0x65, 0x64, 0xA4,
      0x6C, 0xAC, 0xAD, 0x6D, 0xAF, 0x6F, 0x6E, 0xAE, 0xAA, 0x6A, 0x6B, 0xAB, 0x69, 0xA9, 0xA8, 0x68,
      0x78, 0xB8, 0xB9, 0x79, 0xBB, 0x7B, 0x7A, 0xBA, 0xBE, 0x7E, 0x7F, 0xBF, 0x7D, 0xBD, 0xBC, 0x7C,
      0xB4, 0x74, 0x75, 0xB5, 0x77, 0xB7, 0xB6, 0x76, 0x72, 0xB2, 0xB3, 0x73, 0xB1, 0x71, 0x70, 0xB0,
      0x50, 0x90, 0x91, 0x51, 0x93, 0x53, 0x52, 0x92, 0x96, 0x56, 0x57, 0x97, 0x55, 0x95, 0x94, 0x54,
      0x9C, 0x5C, 0x5D, 0x9D, 0x5F, 0x9F, 0x9E, 0x5E, 0x5A, 0x9A, 0x9B, 0x5B, 0x99, 0x59, 0x58, 0x98,
      0x88, 0x48, 0x49, 0x89, 0x4B, 0x8B, 0x8A, 0x4A, 0x4E, 0x8E, 0x8F, 0x4F, 0x8D, 0x4D, 0x4C, 0x8C,
      0x44, 0x84, 0x85, 0x45, 0x87, 0x47, 0x46, 0x86, 0x82, 0x42, 0x43, 0x83, 0x41, 0x81, 0x80, 0x40]"

text \<open>The loop of \<^verbatim>\<open>CRC_16\<close>: the high and the low byte of the register.\<close>

fun CRC_16_loop :: "u8 \<Rightarrow> u8 \<Rightarrow> u8 list \<Rightarrow> u8 \<times> u8" where
  "CRC_16_loop cCRCHi cCRCLo [] = (cCRCHi, cCRCLo)"
| "CRC_16_loop cCRCHi cCRCLo (b # pcData) =
     (let cIndex = cCRCLo XOR b
      in CRC_16_loop (USCRCHi ! unat cIndex) (cCRCHi XOR USCRCLo ! unat cIndex) pcData)"

definition CRC_16 :: "u8 list \<Rightarrow> u32" where
  "CRC_16 pcData =
     (let (cCRCHi, cCRCLo) = CRC_16_loop 0xFF 0xFF pcData
      in push_bit 8 (0 + ucast cCRCHi) + ucast cCRCLo)"

text \<open>One bit of a byte in \<^verbatim>\<open>CRC7\<close>, the eight bits of a byte, and the whole checksum; the null pointer is \<open>None\<close>.\<close>

definition CRC7_bit :: "u8 \<times> u8 \<Rightarrow> u8 \<times> u8" where
  "CRC7_bit = (\<lambda>(crc, data).
     (let crc1 = push_bit 1 crc
      in (if (data AND 0x80) XOR (crc1 AND 0x80) \<noteq> 0 then crc1 XOR 0x09 else crc1, push_bit 1 data)))"

definition CRC7 :: "u8 list option \<Rightarrow> u8" where
  "CRC7 ptr =
     (case ptr of
        None \<Rightarrow> 0xff
      | Some bytes \<Rightarrow> push_bit 1 (fold (\<lambda>b crc. fst ((CRC7_bit ^^ 8) (crc, b))) bytes 0) OR 1)"

definition XOR_Check :: "u8 list \<Rightarrow> u8" where
  "XOR_Check pData = fold (\<lambda>b check. check XOR b) pData 0"

section \<open>Reflected checksums bit by bit\<close>

definition crc_bit :: "u16 \<Rightarrow> u16 \<Rightarrow> u16" where
  "crc_bit poly c = (if bit c 0 then drop_bit 1 c XOR poly else drop_bit 1 c)"

definition crc_byte :: "u16 \<Rightarrow> u16 \<Rightarrow> u16" where
  "crc_byte poly c = (crc_bit poly ^^ 8) c"

definition crc16 :: "u16 \<Rightarrow> u16 \<Rightarrow> u8 list \<Rightarrow> u16" where
  "crc16 poly init bytes = fold (\<lambda>b c. crc_byte poly (c XOR ucast b)) bytes init"

lemma xor_right_cancel: "a XOR c = b XOR c \<Longrightarrow> a = b" for a b c :: "'a :: len word"
  by (metis xor.assoc xor.right_neutral xor_self_eq)

lemma crc_bit_xor: "crc_bit poly (a XOR b) = crc_bit poly a XOR crc_bit poly b"
  by (rule bit_eqI) (auto simp: crc_bit_def bit_xor_iff bit_drop_bit_eq)

lemma crc_bits_xor: "(crc_bit poly ^^ n) (a XOR b) = (crc_bit poly ^^ n) a XOR (crc_bit poly ^^ n) b"
  by (induction n) (simp_all add: crc_bit_xor)

lemma crc_bits_high: "(\<forall>i < n. \<not> bit c i) \<Longrightarrow> (crc_bit poly ^^ n) c = drop_bit n c"
  by (induction n) (simp_all add: crc_bit_def bit_drop_bit_eq)

text \<open>Only the low byte of the register decides what a whole byte does.\<close>

lemma crc_byte_split: "crc_byte poly c = drop_bit 8 c XOR crc_byte poly (c AND 0xff)"
proof -
  have m: "(0xff :: u16) = mask 8" by (simp add: mask_eq_exp_minus_1)
  have c: "c = (c AND NOT (mask 8)) XOR (c AND mask 8)" by (rule bit_eqI) (auto simp: bit_simps)
  have "(crc_bit poly ^^ 8) (c AND NOT (mask 8)) = drop_bit 8 (c AND NOT (mask 8))" by (rule crc_bits_high) (simp add: bit_simps)
  also have "\<dots> = drop_bit 8 c" by (rule bit_eqI) (auto simp: bit_simps dest: bit_imp_le_length)
  finally show ?thesis unfolding m crc_byte_def by (subst c) (simp only: crc_bits_xor)
qed

text \<open>A step is injective when the polynomial has the highest term.\<close>

lemma crc_bit_inj:
  assumes "bit poly 15" "crc_bit poly c = crc_bit poly d"
  shows "c = d"
proof -
  have top: "bit (crc_bit poly x) 15 \<longleftrightarrow> bit x 0" for x
    using assms(1) by (auto simp: crc_bit_def bit_xor_iff bit_drop_bit_eq dest: bit_imp_le_length)
  then have b: "bit c 0 \<longleftrightarrow> bit d 0" using assms(2) by metis
  then have e: "drop_bit 1 c = drop_bit 1 d" using assms(2) by (auto simp: crc_bit_def split: if_splits dest: xor_right_cancel)
  show ?thesis
  proof (rule bit_eqI)
    fix n
    show "bit c n \<longleftrightarrow> bit d n"
    proof (cases n)
      case (Suc m)
      have "bit (drop_bit 1 c) m \<longleftrightarrow> bit (drop_bit 1 d) m" using e by simp
      then show ?thesis by (simp add: Suc bit_drop_bit_eq)
    qed (use b in simp)
  qed
qed

lemma crc_byte_inj:
  assumes "bit poly 15" "crc_byte poly c = crc_byte poly d"
  shows "c = d"
proof -
  have "inj (crc_bit poly)" using crc_bit_inj [OF assms(1)] by (rule injI)
  from inj_fn [OF this, of 8] assms(2) show ?thesis unfolding crc_byte_def by (rule injD)
qed

text \<open>Two messages that differ in one byte have different checksums.\<close>

lemma crc16_inj_state: "bit poly 15 \<Longrightarrow> crc16 poly c bytes = crc16 poly d bytes \<Longrightarrow> c = d"
proof (induction bytes arbitrary: c d)
  case (Cons b bytes)
  then have "c XOR ucast b = d XOR ucast b" by (auto simp: crc16_def dest: crc_byte_inj)
  then show ?case by (rule xor_right_cancel)
qed (simp add: crc16_def)

lemma crc16_detects:
  assumes "bit poly 15" "a \<noteq> b"
  shows "crc16 poly c (pre @ a # post) \<noteq> crc16 poly c (pre @ b # post)"
proof
  let ?c = "crc16 poly c pre"
  assume "crc16 poly c (pre @ a # post) = crc16 poly c (pre @ b # post)"
  then have "crc16 poly (crc_byte poly (?c XOR ucast a)) post = crc16 poly (crc_byte poly (?c XOR ucast b)) post" by (simp add: crc16_def)
  from crc16_inj_state [OF assms(1) this] have "?c XOR ucast a = ?c XOR ucast b" by (rule crc_byte_inj [OF assms(1)])
  then have e: "(ucast a :: u16) = ucast b" unfolding xor.commute [of ?c] by (rule xor_right_cancel)
  have "a = b"
  proof (rule bit_eqI)
    fix n
    have "bit (ucast a :: u16) n \<longleftrightarrow> bit (ucast b :: u16) n" using e by simp
    then show "bit a n \<longleftrightarrow> bit b n" by (cases "n < 8") (auto simp: bit_simps dest: bit_imp_le_length)
  qed
  then show False using assms(2) by simp
qed

section \<open>Tables\<close>

text \<open>
  A checksum table follows from its entries for the single bits, which are each one step from the next,
  because the checksum is linear.  The doubling below is what a table of 256 entries has to satisfy.
\<close>

definition crc_table :: "u16 \<Rightarrow> u16 list \<Rightarrow> bool" where
  "crc_table poly tab \<longleftrightarrow> length tab = 256 \<and> tab ! 0 = 0 \<and> tab ! 128 = poly
     \<and> list_all (\<lambda>k. tab ! (2 ^ k) = crc_bit poly (tab ! (2 ^ Suc k))) [0..<7]
     \<and> list_all (\<lambda>k. map (\<lambda>x. tab ! (2 ^ k) XOR x) (take (2 ^ k) tab) = take (2 ^ k) (drop (2 ^ k) tab)) [0..<8]"

lemma bit_exp_u16: "bit (2 ^ k :: u16) n \<longleftrightarrow> n = k \<and> k < 16"
  by (auto simp: bit_exp_iff)

lemma crc_bit_exp: "crc_bit poly (2 ^ Suc k) = 2 ^ k" if "k < 15"
proof -
  have "drop_bit 1 (2 ^ Suc k) = (2 ^ k :: u16)" by (rule bit_eqI) (use that in \<open>simp only: bit_drop_bit_eq o_apply bit_exp_u16, auto\<close>)
  moreover have "\<not> bit (2 ^ Suc k :: u16) 0" by (simp only: bit_exp_u16) simp
  ultimately show ?thesis by (simp only: crc_bit_def if_False)
qed

lemma crc_byte_step: "crc_byte poly (crc_bit poly c) = crc_bit poly (crc_byte poly c)"
  unfolding crc_byte_def by (rule funpow_swap1 [symmetric])

lemma crc_table_bits:
  assumes "crc_table poly tab" "k < 8"
  shows "crc_byte poly (2 ^ k) = tab ! (2 ^ k)"
  using assms(2)
proof (induction "7 - k" arbitrary: k)
  case 0
  then have k: "k = 7" by simp
  have "(crc_bit poly ^^ 7) (2 ^ 7) = drop_bit 7 (2 ^ 7)" by (rule crc_bits_high) (simp only: bit_exp_u16, simp)
  then have "crc_byte poly (2 ^ 7) = crc_bit poly 1"
    unfolding crc_byte_def using funpow.simps(2) [of 7 "crc_bit poly"] by (simp add: drop_bit_eq_div)
  then show ?case using assms(1) by (simp add: k crc_table_def crc_bit_def)
next
  case (Suc n)
  then have k: "k < 7" by simp
  have "crc_byte poly (2 ^ k) = crc_byte poly (crc_bit poly (2 ^ Suc k))" using crc_bit_exp [of k poly] k by simp
  also have "\<dots> = crc_bit poly (tab ! (2 ^ Suc k))" unfolding crc_byte_step using Suc.hyps(1) [of "Suc k"] Suc.hyps(2) k by simp
  also have "\<dots> = tab ! (2 ^ k)" using assms(1) k by (simp add: crc_table_def list_all_iff)
  finally show ?case .
qed

lemma crc_table_entry:
  assumes tab: "crc_table poly tab"
  shows "n \<le> 8 \<Longrightarrow> i < 2 ^ n \<Longrightarrow> tab ! i = crc_byte poly (word_of_nat i)"
proof (induction n arbitrary: i)
  case 0
  have "(crc_bit poly ^^ 8) 0 = drop_bit 8 0" by (rule crc_bits_high) simp
  then show ?case using 0 tab by (simp add: crc_table_def crc_byte_def)
next
  case (Suc n)
  show ?case
  proof (cases "i < 2 ^ n")
    case True
    then show ?thesis using Suc by simp
  next
    case False
    define j where "j = i - 2 ^ n"
    have j: "j < 2 ^ n" "i = 2 ^ n + j" using False Suc.prems by (simp_all add: j_def)
    have n: "n < 8" using Suc.prems by simp
    then have "(2 :: nat) ^ n \<le> 2 ^ 7" by (intro power_increasing) simp_all
    then have len: "2 ^ n \<le> length tab" "2 ^ n + j < length tab" using tab j by (simp_all add: crc_table_def)
    have "map (\<lambda>x. tab ! (2 ^ n) XOR x) (take (2 ^ n) tab) ! j = take (2 ^ n) (drop (2 ^ n) tab) ! j"
      using tab n by (simp add: crc_table_def list_all_iff)
    then have t: "tab ! i = tab ! (2 ^ n) XOR tab ! j" using j len by simp
    have "\<not> bit j n" using j(1) by (simp add: bit_iff_odd)
    then have "(2 ^ n :: u16) AND word_of_nat j = 0" by (intro bit_eqI) (auto simp: bit_and_iff bit_exp_u16 bit_of_nat_iff)
    then have w: "(word_of_nat i :: u16) = 2 ^ n XOR word_of_nat j" unfolding j(2) by (simp add: disjunctive_add_eq_xor)
    show ?thesis unfolding t w crc_byte_def crc_bits_xor unfolding crc_byte_def [symmetric] crc_table_bits [OF tab n]
      using Suc.IH [of j] j(1) n by simp
  qed
qed

lemma fcstab_table: "crc_table 0x8408 fcstab"
  by code_simp

definition uscrc_tab :: "u16 list" where
  "uscrc_tab = map2 (\<lambda>hi lo. push_bit 8 (ucast hi) OR ucast lo) USCRCHi USCRCLo"

lemma uscrc_table: "crc_table 0xA001 uscrc_tab"
  by code_simp

lemma uscrc_lengths: "length USCRCHi = 256" "length USCRCLo = 256"
  by (simp_all add: USCRCHi_def USCRCLo_def)

lemma mask8: "(0xff :: u16) = mask 8"
  by (simp add: mask_eq_exp_minus_1)

text \<open>One byte by table lookup.\<close>

lemma unat_u8: "unat (b :: u8) < 256"
proof -
  have "unat b < 2 ^ LENGTH(8)" by (rule unsigned_less)
  then show ?thesis by simp
qed

lemma crc_byte_lookup:
  fixes b :: u8
  assumes "crc_table poly tab"
  shows "drop_bit 8 c XOR tab ! unat ((c XOR ucast b) AND 0xff) = crc_byte poly (c XOR ucast b)"
proof -
  let ?x = "c XOR ucast b"
  have "?x AND 0xff = take_bit 8 ?x" unfolding take_bit_eq_mask mask8 ..
  then have "unat (?x AND 0xff) = take_bit 8 (unat ?x)" by (simp only: unsigned_take_bit_eq)
  then have u: "unat (?x AND 0xff) < 2 ^ 8" by (simp only: take_bit_nat_less_exp)
  have e: "tab ! unat (?x AND 0xff) = crc_byte poly (?x AND 0xff)" using crc_table_entry [OF assms order_refl u] by simp
  have "\<not> bit b (8 + n)" for n using bit_imp_le_length [of b "8 + n"] by auto
  then have d: "drop_bit 8 ?x = drop_bit 8 c" by (intro bit_eqI) (auto simp: bit_simps)
  show ?thesis unfolding e crc_byte_split [of poly ?x] d ..
qed

lemma pppfcs16_bitwise: "pppfcs16 fcs cp = crc16 0x8408 fcs cp"
  by (induction cp arbitrary: fcs) (simp_all add: crc16_def crc_byte_lookup [OF fcstab_table])

lemma pppfcs16_append: "pppfcs16 fcs (xs @ ys) = pppfcs16 (pppfcs16 fcs xs) ys"
  by (simp add: pppfcs16_bitwise crc16_def)

text \<open>Appending the complement of the checksum, low byte first, always leads to the same value.\<close>

lemma pppfcs16_residue: "pppfcs16 fcs [ucast (NOT fcs), ucast (drop_bit 8 (NOT fcs))] = 0xf0b8"
proof -
  have i1: "(fcs XOR ucast (ucast (NOT fcs) :: u8)) AND 0xff = 0xff"
    unfolding mask8 by (rule bit_eqI) (auto simp: bit_simps)
  have t: "fcstab ! 255 = 0x0f78" "fcstab ! 135 = 0xf0b7" by (simp_all add: fcstab_def)
  have "((drop_bit 8 fcs XOR k) XOR ucast (ucast (drop_bit 8 (NOT fcs)) :: u8)) AND mask 8 = (k XOR mask 8) AND mask 8" for k :: u16
    by (rule bit_eqI) (auto simp: bit_simps)
  from this [of "0x0f78"] have i2: "((drop_bit 8 fcs XOR 0x0f78) XOR ucast (ucast (drop_bit 8 (NOT fcs)) :: u8)) AND 0xff = 0x87"
    by (simp add: mask8 [symmetric])
  have "drop_bit 8 (drop_bit 8 fcs) = 0" by (rule bit_eqI) (auto simp: bit_simps dest: bit_imp_le_length)
  then have "drop_bit 8 (drop_bit 8 fcs XOR 0x0f78) = 0x0f" by (simp add: drop_bit_xor)
  then show ?thesis by (simp add: i1 t i2)
qed

text \<open>The loop of \<^verbatim>\<open>CRC_16\<close> keeps the two halves of the register.\<close>

lemma uscrc_tab_nth:
  assumes "i < 256"
  shows "ucast (uscrc_tab ! i) = USCRCLo ! i" "ucast (drop_bit 8 (uscrc_tab ! i)) = USCRCHi ! i"
proof -
  have e: "uscrc_tab ! i = push_bit 8 (ucast (USCRCHi ! i)) OR ucast (USCRCLo ! i)"
    using assms by (simp add: uscrc_tab_def uscrc_lengths)
  have "\<not> bit b (8 + n)" for b :: u8 and n using bit_imp_le_length [of b "8 + n"] by auto
  then show "ucast (uscrc_tab ! i) = USCRCLo ! i" "ucast (drop_bit 8 (uscrc_tab ! i)) = USCRCHi ! i"
    unfolding e by (intro bit_eqI; auto simp: bit_simps)+
qed

lemma CRC_16_loop_bitwise:
  "CRC_16_loop (ucast (drop_bit 8 c)) (ucast c) cp = (let r = crc16 0xA001 c cp in (ucast (drop_bit 8 r), ucast r))"
proof (induction cp arbitrary: c)
  case (Cons b cp)
  let ?i = "(ucast c :: u8) XOR b" and ?x = "c XOR ucast b"
  have i: "unat ?i = unat (?x AND 0xff)"
  proof -
    have "ucast ?i = ?x AND 0xff" unfolding mask8 by (rule bit_eqI) (auto simp: bit_simps dest: bit_imp_le_length)
    then have "unat (?x AND 0xff) = unat (ucast ?i :: u16)" by simp
    also have "\<dots> = unat ?i" using unat_u8 [of ?i] by (simp add: unsigned_ucast_eq take_bit_nat_eq_self_iff)
    finally show ?thesis by simp
  qed
  note lt = unat_u8 [of ?i]
  let ?r = "drop_bit 8 c XOR uscrc_tab ! unat ?i"
  have r: "?r = crc_byte 0xA001 ?x" unfolding i by (rule crc_byte_lookup [OF uscrc_table])
  have "drop_bit 8 (drop_bit 8 c) = 0" by (rule bit_eqI) (auto simp: bit_simps dest: bit_imp_le_length)
  then have "drop_bit 8 ?r = drop_bit 8 (uscrc_tab ! unat ?i)" by (simp add: drop_bit_xor)
  then have hi: "USCRCHi ! unat ?i = ucast (drop_bit 8 ?r)" using uscrc_tab_nth(2) [OF lt] by simp
  have "(ucast ?r :: u8) = ucast (drop_bit 8 c) XOR ucast (uscrc_tab ! unat ?i)" by (rule bit_eqI) (auto simp: bit_simps)
  then have lo: "ucast (drop_bit 8 c) XOR USCRCLo ! unat ?i = ucast ?r" using uscrc_tab_nth(1) [OF lt] by simp
  show ?case unfolding CRC_16_loop.simps Let_def hi lo Cons.IH [of ?r, unfolded Let_def] by (simp add: crc16_def r)
qed (simp add: crc16_def)

lemma CRC_16_bitwise: "CRC_16 cp = ucast (crc16 0xA001 0xFFFF cp)"
proof -
  have init: "ucast (drop_bit 8 (0xFFFF :: u16)) = (0xFF :: u8)" "ucast (0xFFFF :: u16) = (0xFF :: u8)" by simp_all
  let ?r = "crc16 0xA001 0xFFFF cp"
  have "CRC_16 cp = push_bit 8 (ucast (ucast (drop_bit 8 ?r) :: u8)) + ucast (ucast ?r :: u8)"
    unfolding CRC_16_def using CRC_16_loop_bitwise [of "0xFFFF" cp, unfolded init] by (simp add: Let_def)
  also have "\<dots> = push_bit 8 (ucast (ucast (drop_bit 8 ?r) :: u8)) OR ucast (ucast ?r :: u8)"
    by (rule disjunctive_add_eq_or, rule bit_eqI) (auto simp: bit_simps)
  also have "\<dots> = ucast ?r" by (rule bit_eqI) (auto simp: bit_simps dest: bit_imp_le_length)
  finally show ?thesis .
qed

text \<open>
  C25. The table-driven checksums compute the bitwise CRCs they stand for: \<^verbatim>\<open>pppfcs16\<close> the reflected CRC of the
  polynomial 0x8408 from any start value, \<^verbatim>\<open>CRC_16\<close> that of 0xA001 from 0xFFFF, for messages of any length.
  A message followed by the complement of its frame check sequence, low byte first, always has the
  check value 0xF0B8, and a message with one altered byte always has another checksum, under both
  checksums.
\<close>

theorem checksums_correct:
  "pppfcs16 fcs data = crc16 0x8408 fcs data
   \<and> CRC_16 data = ucast (crc16 0xA001 0xFFFF data)
   \<and> (let t = NOT (pppfcs16 fcs data) in pppfcs16 fcs (data @ [ucast t, ucast (drop_bit 8 t)]) = 0xf0b8)
   \<and> (a \<noteq> b \<longrightarrow> pppfcs16 fcs (pre @ a # post) \<noteq> pppfcs16 fcs (pre @ b # post) \<and> CRC_16 (pre @ a # post) \<noteq> CRC_16 (pre @ b # post))"
proof (intro conjI impI)
  have top: "bit (0x8408 :: u16) 15" "bit (0xA001 :: u16) 15" by simp_all
  show "pppfcs16 fcs data = crc16 0x8408 fcs data" by (rule pppfcs16_bitwise)
  show "CRC_16 data = ucast (crc16 0xA001 0xFFFF data)" by (rule CRC_16_bitwise)
  show "let t = NOT (pppfcs16 fcs data) in pppfcs16 fcs (data @ [ucast t, ucast (drop_bit 8 t)]) = 0xf0b8"
    unfolding Let_def pppfcs16_append by (rule pppfcs16_residue)
  assume ab: "a \<noteq> b"
  show "pppfcs16 fcs (pre @ a # post) \<noteq> pppfcs16 fcs (pre @ b # post)"
    unfolding pppfcs16_bitwise by (rule crc16_detects [OF top(1) ab])
  have "(ucast x :: u32) = ucast y \<Longrightarrow> x = y" for x y :: u16
  proof (rule bit_eqI)
    fix n assume e: "(ucast x :: u32) = ucast y" and "possible_bit TYPE(u16) n"
    then have "bit (ucast x :: u32) n \<longleftrightarrow> bit (ucast y :: u32) n" "n < 16" by simp_all
    then show "bit x n \<longleftrightarrow> bit y n" by (simp add: bit_simps)
  qed
  then show "CRC_16 (pre @ a # post) \<noteq> CRC_16 (pre @ b # post)"
    unfolding CRC_16_bitwise using crc16_detects [OF top(2) ab, of "0xFFFF" pre post] by blast
qed

theorem checksums_correct_witness:
  "pppfcs16 0xffff [0x31, 0x32, 0x33] \<noteq> pppfcs16 0xffff [0x31, 0x30, 0x33]
   \<and> pppfcs16 0xffff [0x31, 0x32, 0x33, 0x34, 0x35, 0x36, 0x37, 0x38, 0x39] = 0x6f91"
proof -
  have "pppfcs16 0xffff [0x31, 0x32, 0x33, 0x34, 0x35, 0x36, 0x37, 0x38, 0x39] = 0x6f91" by code_simp
  then show ?thesis using checksums_correct [of "0xffff" "[]" "0x32" "0x30" "[0x31]" "[0x33]"] by simp
qed

end
