(* ===== verification/App_Link.thy ===== *)
theory App_Link
  imports App_Checksum
begin

text \<open>
  The link layer of the power line protocol in \<^verbatim>\<open>applications/698.c\<close>: the buffers, the receiver that
  cuts the byte stream of the serial line into frames, the checks and the unpacking of a frame, and the
  packing of the login and heartbeat request.  A pointer into the buffer of a frame is an index.  The
  handling of events of the other tasks between two reads, which works on the transmit buffer only, and
  the output of the received bytes are left out.
\<close>

section \<open>Buffers and frames\<close>

record addr698 =
  sa :: u8
  s_addr :: "u8 list"
  ca :: u8
  s_addr_len :: int

record frame698 =
  head :: u8
  length0 :: u8
  length1 :: u8
  frame_len :: int
  control :: u8
  addr :: addr698
  HCS0 :: u8
  HCS1 :: u8
  usrData :: nat
  usrData_len :: int
  FCS0 :: u8
  FCS1 :: u8
  frame_end :: u8
  frame_apart :: u8
  time_flag_positon :: u32

record char_data =
  frame :: frame698
  priveData :: "u8 list"
  data_space :: nat
  dataSize :: nat

record state698 =
  link_flag :: u8
  connect_flag :: u8
  try_link_type :: int
  heart_beat_time0 :: u8
  heart_beat_time1 :: u8
  last_link_requset_time :: "u8 list"
  own_addr :: addr698
  USART_RX_STA :: u32
  len_left :: int
  len_all :: int
  len_sa :: int
  FE_no :: int
  test_dis_check :: bool

text \<open>
  A byte of the receive buffer.  The index before the first lies in the preceding field of the structure, the
  highest byte of \<^verbatim>\<open>time_flag_positon\<close>.
\<close>

definition byte_at :: "char_data \<Rightarrow> int \<Rightarrow> u8" where
  "byte_at d i = (if i = -1 then ucast (drop_bit 24 (time_flag_positon (frame d))) else priveData d ! nat i)"

definition save_char_point_data :: "char_data \<Rightarrow> nat \<Rightarrow> u8 list \<Rightarrow> int \<times> char_data" where
  "save_char_point_data d position Res =
     (if data_space d > position + length Res
      then (0, d\<lparr>priveData := fold (\<lambda>i p. p[position + i := Res ! i]) [0..<length Res] (priveData d), dataSize := dataSize d + length Res\<rparr>)
      else (- 1, d))"

definition save_hplc_data :: "char_data \<Rightarrow> nat \<Rightarrow> u8 \<Rightarrow> int \<times> char_data" where
  "save_hplc_data d position Res = (0, snd (save_char_point_data d position [Res]))"

definition clear_data :: "state698 \<Rightarrow> char_data \<Rightarrow> state698 \<times> char_data" where
  "clear_data st d =
     (st\<lparr>USART_RX_STA := 0, len_left := 0, len_all := 0, len_sa := 0, FE_no := 0\<rparr>,
      d\<lparr>priveData := replicate (data_space d) 0 @ drop (data_space d) (priveData d), dataSize := 0\<rparr>)"

section \<open>Checks\<close>

abbreviation (input) PPPINITFCS16 :: u16 where "PPPINITFCS16 \<equiv> 0xffff"
abbreviation (input) PPPGOODFCS16 :: u16 where "PPPGOODFCS16 \<equiv> 0xf0b8"

definition HCS_698 :: "u8 list \<Rightarrow> int \<Rightarrow> nat \<Rightarrow> int" where
  "HCS_698 data start n =
     (if start < 0 then - 1
      else if pppfcs16 PPPINITFCS16 (take n (drop (nat start) data)) = PPPGOODFCS16 then 0
      else - 1)"

text \<open>With a negative number of bytes the loop runs over the end of the memory: \<open>None\<close>.\<close>

definition FCS_698 :: "u8 list \<Rightarrow> int \<Rightarrow> int \<Rightarrow> int option" where
  "FCS_698 data start n =
     (if start < 0 then Some (- 1)
      else if n < 0 then None
      else if pppfcs16 PPPINITFCS16 (take (nat n) (drop (nat start) data)) = PPPGOODFCS16 then Some 0
      else Some (- 2))"

text \<open>Appending the check sequence of the first \<open>len\<close> bytes, the start byte apart, and checking it.\<close>

definition tryfcs16 :: "u8 list \<Rightarrow> nat \<Rightarrow> int \<times> u8 list" where
  "tryfcs16 cp len =
     (let trialfcs = NOT (pppfcs16 PPPINITFCS16 (take (len - 1) (drop 1 cp)));
          cp1 = (cp[len := ucast (trialfcs AND 0x00ff)])[len + 1 := ucast (drop_bit 8 trialfcs AND 0x00ff)]
      in (if pppfcs16 PPPINITFCS16 (take (len + 2 - 1) (drop 1 cp1)) = PPPGOODFCS16 then 0 else - 1, cp1))"

section \<open>Unpacking\<close>

definition address_unPackage :: "u8 list \<Rightarrow> addr698 \<Rightarrow> nat \<Rightarrow> int \<times> addr698" where
  "address_unPackage data a start =
     (let a1 = a\<lparr>sa := data ! start, s_addr_len := uint (data ! start AND 0x0f) + 1\<rparr>
      in if s_addr_len a1 < 0 \<or> s_addr_len a1 > 8 then (- 1, a1)
         else
           (let n = nat (s_addr_len a1)
            in (0, a1\<lparr>s_addr := fold (\<lambda>i p. p[i := data ! (start + 1 + i)]) [0..<n] (s_addr a1), ca := data ! (start + 1 + n)\<rparr>)))"

definition unPackage_698 :: "u8 list \<Rightarrow> frame698 \<Rightarrow> int \<Rightarrow> int \<times> frame698" where
  "unPackage_698 data f n =
     (let f1 = f\<lparr>frame_apart := data ! 3 AND 0x20, head := data ! 0, length0 := data ! 1, length1 := data ! 2,
                 frame_len := uint (data ! 2 AND 0x3F) * 256 + uint (data ! 1)\<rparr>
      in if frame_len f1 \<noteq> n - 2 then (- 1, f1)
         else
           (let a = snd (address_unPackage data (addr f1) 4);
                a1 = a\<lparr>s_addr_len := 6\<rparr>;
                f2 = f1\<lparr>control := data ! 3, addr := a1, HCS0 := data ! nat (6 + s_addr_len a1), HCS1 := data ! nat (7 + s_addr_len a1),
                        usrData_len := n - 11 - s_addr_len a1\<rparr>
            in if usrData_len f2 < 0 \<or> usrData_len f2 > 1024 then (- 1, f2)
               else (0, f2\<lparr>usrData := nat (8 + s_addr_len a1), FCS0 := data ! nat (n - 3), FCS1 := data ! nat (n - 2), frame_end := data ! nat (n - 1)\<rparr>)))"

text \<open>\<open>None\<close>: the checksum runs over the end of the memory.\<close>

definition priveData_analysis :: "state698 \<Rightarrow> char_data \<Rightarrow> (int \<times> char_data) option" where
  "priveData_analysis st d =
     (case (if test_dis_check st then Some 0 else FCS_698 (priveData d) 1 (int (dataSize d) - 2)) of
        None \<Rightarrow> None
      | Some r \<Rightarrow>
          (if r \<noteq> 0 then Some (- 1, d)
           else
             (let (r2, f) = unPackage_698 (priveData d) (frame d) (int (dataSize d))
              in Some (if r2 \<noteq> 0 then - 1 else 0, d\<lparr>frame := f\<rparr>))))"

definition judge_meter_no :: "state698 \<Rightarrow> frame698 \<Rightarrow> int" where
  "judge_meter_no st f =
     (if list_all (\<lambda>i. s_addr (addr f) ! i = 0xaa \<or> s_addr (own_addr st) ! i = s_addr (addr f) ! i) [0..<nat (s_addr_len (own_addr st))]
      then 0 else - 1)"

definition hplc_645_addr_receive :: "char_data \<Rightarrow> int" where
  "hplc_645_addr_receive d =
     (let p = priveData d
      in if dataSize d \<ge> 12 then
           (if \<not> (p ! 0 = 0x68 \<and> p ! 7 = 0x68 \<and> p ! 11 = 0x16) then - 1
            else if \<not> (p ! 1 = 0xAA \<and> p ! 8 = 0x13 \<and> p ! 10 = 0xDF) then - 1
            else 1)
         else 0)"

section \<open>The receiver\<close>

text \<open>The state bits of the receiver.\<close>

definition flag :: "state698 \<Rightarrow> u32 \<Rightarrow> bool" where
  "flag st m \<longleftrightarrow> USART_RX_STA st AND m \<noteq> 0"

definition set_flag :: "u32 \<Rightarrow> state698 \<Rightarrow> state698" where
  "set_flag m st = st\<lparr>USART_RX_STA := USART_RX_STA st OR m\<rparr>"

text \<open>
  The result of handling a byte: the receiver returns a value (\<open>Inl\<close>), or it goes on (\<open>Inr\<close>).  The function of the
  source is nested; its parts are the definitions below, from the inside out.
\<close>

type_synonym rx_out = "(int \<times> state698 \<times> char_data) + (state698 \<times> char_data)"

text \<open>The address length, and the check of the frame header once it is complete.\<close>

definition rx_header :: "state698 \<Rightarrow> char_data \<Rightarrow> rx_out" where
  "rx_header st d =
     (if flag st 0x08000000 then Inr (st, d)
      else if flag st 0x10000000 then
        (if int (dataSize d) = 8 + len_sa st then
           (let st1 = set_flag 0x08000000 st
            in if \<not> test_dis_check st1 \<and> HCS_698 (priveData d) 1 (nat (7 + len_sa st1)) < 0
               then (if hplc_645_addr_receive d = 1 then Inl (1, st1, d) else Inr (clear_data st1 d))
               else Inr (st1, d))
         else Inr (st, d))
      else if dataSize d = 5 then
        (let st1 = set_flag 0x10000000 st
         in if priveData d ! 1 = 0xaa \<and> priveData d ! 2 = 0xaa then Inr (st1\<lparr>len_sa := 4\<rparr>, d)
            else if len_all st1 > 1024 then Inl (- 1, clear_data st1 d)
            else Inr (st1\<lparr>len_sa := uint (priveData d ! 4 AND 0x0F) + 1\<rparr>, d))
      else Inr (st, d))"

text \<open>A byte after the length is known.\<close>

definition rx_body :: "state698 \<Rightarrow> char_data \<Rightarrow> rx_out" where
  "rx_body st d =
     (case rx_header st d of
        Inl r \<Rightarrow> Inl r
      | Inr (st1, d1) \<Rightarrow>
          (let st2 = st1\<lparr>len_left := len_left st1 - 1\<rparr>
           in if len_left st2 \<le> 0 then
                (if byte_at d1 (int (dataSize d1) - 1) \<noteq> 0x16 then Inl (- 1, clear_data st2 d1)
                 else Inl (0, set_flag 0x04000000 st2, d1))
              else Inr (st2, d1)))"

definition rx_length :: "state698 \<Rightarrow> char_data \<Rightarrow> rx_out" where
  "rx_length st d =
     (if dataSize d = 3 then
        (let n = uint (priveData d ! 2) * 256 + uint (priveData d ! 1) + 2;
             st1 = (set_flag 0x20000000 st)\<lparr>len_all := n\<rparr>
         in if n < 12 then Inl (- 1, clear_data st1 d) else Inr (st1\<lparr>len_left := n - 3\<rparr>, d))
      else Inr (st, d))"

definition rx_byte :: "u8 \<Rightarrow> state698 \<Rightarrow> char_data \<Rightarrow> rx_out" where
  "rx_byte Res st d =
     (if flag st 0x40000000 then
        (case save_hplc_data d (dataSize d) Res of (r, d1) \<Rightarrow>
           if r < 0 then Inr (clear_data st d1)
           else if flag st 0x20000000 then rx_body st d1
           else rx_length st d1)
      else if Res = 0x68 then
        (case save_hplc_data d (dataSize d) Res of (r, d1) \<Rightarrow>
           let st1 = st\<lparr>FE_no := 0\<rparr>
           in if r < 0 then Inr (clear_data st1 d1) else Inr (set_flag 0x40000000 st1, d1))
      else Inr (st, d))"

text \<open>
  The receive loop over what the serial line delivers: a byte, or nothing for 200 milliseconds.  When the input is
  used up the receiver is still waiting (\<open>Inr\<close>); else the rest of the input is returned.
\<close>

fun get_single_frame_frome_hplc :: "u8 option list \<Rightarrow> nat \<Rightarrow> state698 \<Rightarrow> char_data
    \<Rightarrow> (int \<times> state698 \<times> char_data \<times> u8 option list) + (nat \<times> state698 \<times> char_data)" where
  "get_single_frame_frome_hplc [] waited st d = Inr (waited, st, d)"
| "get_single_frame_frome_hplc (Some Res # line) waited st d =
     (case rx_byte Res st d of
        Inl (r, st1, d1) \<Rightarrow> Inl (r, st1, d1, line)
      | Inr (st1, d1) \<Rightarrow> get_single_frame_frome_hplc line 0 st1 d1)"
| "get_single_frame_frome_hplc (None # line) waited st d =
     (if waited + 1 = 30 then (case clear_data st d of (st1, d1) \<Rightarrow> Inl (- 1, st1, d1, line))
      else get_single_frame_frome_hplc line (waited + 1) st d)"

section \<open>Packing\<close>

definition get_current_time :: "u8 list" where
  "get_current_time = replicate 10 0xfe"

text \<open>Appending bytes, and leaving room for two.\<close>

definition put_bytes :: "u8 list \<Rightarrow> char_data \<Rightarrow> char_data" where
  "put_bytes bs d = snd (save_char_point_data d (dataSize d) bs)"

definition room_for_two :: "char_data \<Rightarrow> char_data" where
  "room_for_two d = d\<lparr>dataSize := dataSize d + 2\<rparr>"

text \<open>The start of a frame up to the header check: the fields of the frame and the bytes.\<close>

definition pack_header :: "u8 \<Rightarrow> u8 \<Rightarrow> u8 \<Rightarrow> u8 list \<Rightarrow> int \<Rightarrow> u8 \<Rightarrow> char_data \<Rightarrow> char_data" where
  "pack_header hd_byte con sa_byte address alen ca_byte d =
     (let d1 = room_for_two (put_bytes [hd_byte] (d\<lparr>dataSize := 0\<rparr>));
          d2 = put_bytes [sa_byte] (put_bytes [con] d1);
          d3 = put_bytes [ca_byte] (put_bytes (take (nat alen) address) d2);
          a = (addr (frame d))\<lparr>sa := sa_byte, s_addr_len := alen, s_addr := take (nat alen) address @ drop (nat alen) (s_addr (addr (frame d))), ca := ca_byte\<rparr>
      in room_for_two (d3\<lparr>frame := (frame d)\<lparr>head := hd_byte, control := con, addr := a\<rparr>\<rparr>))"

text \<open>The end of a frame: the room for the check sequence and the end byte, the length, and the two check sequences.\<close>

definition pack_end :: "nat \<Rightarrow> char_data \<Rightarrow> int \<times> char_data" where
  "pack_end HCS_position d =
     (let FCS_position = dataSize d;
          d1 = put_bytes [0x16] (room_for_two d);
          l0 = word_of_nat ((dataSize d1 - 2) mod 256); l1 = word_of_nat ((dataSize d1 - 2) div 256);
          p1 = ((priveData d1)[1 := l0])[2 := l1];
          (r1, p2) = tryfcs16 p1 HCS_position;
          (r2, p3) = tryfcs16 p2 FCS_position
      in (r2, d1\<lparr>priveData := p3, frame := (frame d1)\<lparr>length0 := l0, length1 := l1, frame_end := 0x16,
            HCS0 := p2 ! HCS_position, HCS1 := p2 ! (HCS_position + 1), FCS0 := p3 ! FCS_position, FCS1 := p3 ! (FCS_position + 1)\<rparr>\<rparr>))"

text \<open>The login request and, once connected, the heartbeat; \<open>1\<close> when it is not yet time, \<open>- 1\<close> when logged in but not connected.\<close>

definition past_time :: "state698 \<Rightarrow> int" where
  "past_time st =
     (let now = (\<lambda>i. uint (get_current_time ! i)); last = (\<lambda>i. uint (last_link_requset_time st ! i))
      in sint (word_of_int ((now 5 - last 5) * 60 * 60 + (now 6 - last 6) * 60 + (now 7 - last 7)) :: 16 word))"

definition link_request_package :: "char_data \<Rightarrow> state698 \<Rightarrow> int \<times> char_data \<times> state698" where
  "link_request_package d st =
     (if past_time st \<ge> uint (heart_beat_time0 st) * 256 + uint (heart_beat_time1 st) - 5 then
        (let d1 = pack_header 0x68 (0x80 OR 0x01) (sa (own_addr st)) (s_addr (own_addr st)) (s_addr_len (own_addr st)) 0x00 d;
             HCS_position = dataSize d1 - 2;
             d2 = put_bytes [1] (d1\<lparr>frame := (frame d1)\<lparr>usrData_len := 0, usrData := nat (8 + s_addr_len (own_addr st))\<rparr>\<rparr>);
             go = (\<lambda>d st. let d5 = put_bytes get_current_time (put_bytes [heart_beat_time1 st] (put_bytes [heart_beat_time0 st] d));
                        (r, d6) = pack_end HCS_position (d5\<lparr>frame := (frame d5)\<lparr>usrData_len := int (dataSize d5) - int HCS_position - 2\<rparr>\<rparr>)
                    in (r, d6, st))
         in if link_flag st = 0 then
              go (put_bytes [1] (put_bytes [0x00] d2)) (st\<lparr>try_link_type := 0, last_link_requset_time := get_current_time\<rparr>)
            else if connect_flag st = 1 then
              go (put_bytes [1] (put_bytes [0x01] d2)) (st\<lparr>try_link_type := 1, last_link_requset_time := get_current_time\<rparr>)
            else (- 1, d2, st))
      else (1, d, st))"

text \<open>The bytes on the line: four bytes 0xFE and the frame.\<close>

definition hplc_tx_frame :: "char_data \<Rightarrow> u8 list" where
  "hplc_tx_frame d = [0xfe, 0xfe, 0xfe, 0xfe] @ take (dataSize d) (priveData d)"

section \<open>Frames\<close>

text \<open>The check sequence of a message, and the frame of a control byte, an address and user data.\<close>

definition fcs_bytes :: "u8 list \<Rightarrow> u8 list" where
  "fcs_bytes xs = (let t = NOT (pppfcs16 PPPINITFCS16 xs) in [ucast t, ucast (drop_bit 8 t)])"

definition frame_header :: "u8 \<Rightarrow> u8 \<Rightarrow> u8 list \<Rightarrow> u8 \<Rightarrow> nat \<Rightarrow> u8 list" where
  "frame_header c s as a n = [word_of_nat (n mod 256), word_of_nat (n div 256), c, s] @ as @ [a]"

definition mk_frame :: "u8 \<Rightarrow> u8 \<Rightarrow> u8 list \<Rightarrow> u8 \<Rightarrow> u8 list \<Rightarrow> u8 list" where
  "mk_frame c s as a user =
     (let h = frame_header c s as a (length as + length user + 9); body = h @ fcs_bytes h @ user
      in 0x68 # body @ fcs_bytes body @ [0x16])"

lemma fcs_bytes_length [simp]: "length (fcs_bytes xs) = 2"
  by (simp add: fcs_bytes_def Let_def)

lemma fcs_bytes_good: "pppfcs16 PPPINITFCS16 (xs @ fcs_bytes xs) = PPPGOODFCS16"
  unfolding pppfcs16_append fcs_bytes_def Let_def by (rule pppfcs16_residue)

text \<open>What the receiver needs of a frame with an address of \<open>k\<close> bytes.\<close>

definition good_frame :: "nat \<Rightarrow> u8 list \<Rightarrow> bool" where
  "good_frame k F \<longleftrightarrow> 11 + k \<le> length F \<and> length F \<le> 1023 \<and> F ! 0 = 0x68 \<and> F ! 2 \<noteq> 0xaa
     \<and> uint (F ! 2) * 256 + uint (F ! 1) + 2 = int (length F) \<and> uint (F ! 4 AND 0x0F) + 1 = int k
     \<and> pppfcs16 PPPINITFCS16 (take (7 + k) (drop 1 F)) = PPPGOODFCS16 \<and> F ! (length F - 1) = 0x16"

lemma good_frameD:
  assumes "good_frame k F"
  shows "11 + k \<le> length F" "length F \<le> 1023" "F ! 0 = 0x68" "F ! 2 \<noteq> 0xaa" "uint (F ! 2) * 256 + uint (F ! 1) + 2 = int (length F)"
    "uint (F ! 4 AND 0x0F) + 1 = int k" "pppfcs16 PPPINITFCS16 (take (7 + k) (drop 1 F)) = PPPGOODFCS16" "F ! (length F - 1) = 0x16"
    "1 \<le> k" "k < length F"
proof -
  show g: "11 + k \<le> length F" "length F \<le> 1023" "F ! 0 = 0x68" "F ! 2 \<noteq> 0xaa" "uint (F ! 2) * 256 + uint (F ! 1) + 2 = int (length F)"
    "uint (F ! 4 AND 0x0F) + 1 = int k" "pppfcs16 PPPINITFCS16 (take (7 + k) (drop 1 F)) = PPPGOODFCS16" "F ! (length F - 1) = 0x16"
    using assms by (simp_all add: good_frame_def)
  show "1 \<le> k" using g(6) uint_ge_0 [of "F ! 4 AND 0x0F"] by linarith
  show "k < length F" using g(1) by linarith
qed

lemma frame_parts:
  assumes "k = length as" "F = mk_frame c s as a user"
  shows "length F = 11 + k + length user" "F ! 0 = 0x68" "F ! 1 = word_of_nat ((k + length user + 9) mod 256)"
    "F ! 2 = word_of_nat ((k + length user + 9) div 256)" "F ! 3 = c" "F ! 4 = s" "take k (drop 5 F) = as" "F ! (5 + k) = a"
    "pppfcs16 PPPINITFCS16 (take (7 + k) (drop 1 F)) = PPPGOODFCS16"
    "pppfcs16 PPPINITFCS16 (take (length F - 2) (drop 1 F)) = PPPGOODFCS16"
    "take (length user) (drop (8 + k) F) = user" "F ! (length F - 1) = 0x16"
proof -
  define h where "h = frame_header c s as a (length as + length user + 9)"
  define b where "b = h @ fcs_bytes h @ user"
  have F: "F = 0x68 # b @ fcs_bytes b @ [0x16]" unfolding assms(2) mk_frame_def h_def b_def Let_def ..
  have lh: "length h = 5 + k" by (simp add: h_def frame_header_def assms(1))
  have lb: "length b = 7 + k + length user" by (simp add: b_def lh)
  show len: "length F = 11 + k + length user" by (simp add: F lb)
  show "F ! 0 = 0x68" by (simp add: F)
  show "F ! 1 = word_of_nat ((k + length user + 9) mod 256)" "F ! 2 = word_of_nat ((k + length user + 9) div 256)" "F ! 3 = c" "F ! 4 = s"
    "take k (drop 5 F) = as" "F ! (5 + k) = a"
    by (simp_all add: F b_def h_def frame_header_def assms(1) nth_append)
  have "take (7 + k) (drop 1 F) = h @ fcs_bytes h" by (simp add: F b_def lh)
  then show "pppfcs16 PPPINITFCS16 (take (7 + k) (drop 1 F)) = PPPGOODFCS16" by (simp only: fcs_bytes_good)
  have "take (length F - 2) (drop 1 F) = b @ fcs_bytes b" unfolding len by (simp add: F lb)
  then show "pppfcs16 PPPINITFCS16 (take (length F - 2) (drop 1 F)) = PPPGOODFCS16" by (simp only: fcs_bytes_good)
  have "8 + k = Suc (length (h @ fcs_bytes h))" by (simp add: lh)
  then have "drop (8 + k) F = drop (length (h @ fcs_bytes h)) ((h @ fcs_bytes h) @ user @ fcs_bytes b @ [0x16])" by (simp only: F b_def drop_Suc_Cons append_assoc)
  then have "drop (8 + k) F = user @ fcs_bytes b @ [0x16]" by (simp only: append_eq_conv_conj [THEN iffD1, OF refl, THEN conjunct2, symmetric])
  then show "take (length user) (drop (8 + k) F) = user" by simp
  show "F ! (length F - 1) = 0x16" unfolding len by (simp add: F lb nth_append)
qed

lemma mk_frame_good:
  assumes "length as = k" "uint (s AND 0x0F) + 1 = int k" "11 + k + length user \<le> 1023"
  shows "good_frame k (mk_frame c s as a user)"
proof -
  let ?F = "mk_frame c s as a user" and ?n = "k + length user + 9"
  note f = frame_parts [of k as "mk_frame c s as a user" c s a user, OF assms(1) [symmetric] refl]
  have n: "?n mod 256 < 256" "?n div 256 < 256" "?n div 256 \<le> 3" using assms(3) by simp_all
  have u: "uint (?F ! 1) = int (?n mod 256)" "uint (?F ! 2) = int (?n div 256)"
    unfolding f(3,4) using n by (simp_all add: uint_nat unat_of_nat)
  have "unat (?F ! 2) \<le> 3" unfolding f(4) using n by (simp add: unat_of_nat)
  then have "?F ! 2 \<noteq> 0xaa" by (intro notI) simp
  moreover have "int (?n div 256) * 256 + int (?n mod 256) + 2 = int (length ?F)"
    unfolding f(1) using div_mult_mod_eq [of ?n 256] by linarith
  ultimately show ?thesis unfolding good_frame_def u using f(1,2,6,9,12) assms by simp
qed

section \<open>Receiving a frame\<close>

definition rx_ready :: "state698 \<Rightarrow> char_data \<Rightarrow> bool" where
  "rx_ready st d \<longleftrightarrow> USART_RX_STA st = 0 \<and> dataSize d = 0 \<and> length (priveData d) = 1024 \<and> data_space d = 1024"

text \<open>State and buffer of the receiver after the first \<open>j\<close> bytes of a frame.\<close>

definition rx_flags :: "nat \<Rightarrow> nat \<Rightarrow> u32" where
  "rx_flags k j = (if j < 3 then 0x40000000 else if j < 5 then 0x60000000 else if j < 8 + k then 0x70000000 else 0x78000000)"

definition rx_state :: "nat \<Rightarrow> nat \<Rightarrow> nat \<Rightarrow> state698 \<Rightarrow> state698" where
  "rx_state k n j st =
     (if j = 0 then st
      else st\<lparr>USART_RX_STA := rx_flags k j, len_left := (if j < 3 then len_left st else int n - int j),
              len_all := (if j < 3 then len_all st else int n), len_sa := (if j < 5 then len_sa st else int k), FE_no := 0\<rparr>)"

definition rx_data :: "u8 list \<Rightarrow> nat \<Rightarrow> char_data \<Rightarrow> char_data" where
  "rx_data F j d = d\<lparr>priveData := take j F @ drop j (priveData d), dataSize := j\<rparr>"

lemma rx_data_sel [simp]:
  "dataSize (rx_data F j d) = j" "data_space (rx_data F j d) = data_space d" "frame (rx_data F j d) = frame d"
  by (simp_all add: rx_data_def)

lemma rx_data_nth: "i < j \<Longrightarrow> j \<le> length F \<Longrightarrow> priveData (rx_data F j d) ! i = F ! i"
  by (simp add: rx_data_def nth_append)

lemma rx_data_slice: "i + m \<le> j \<Longrightarrow> j \<le> length F \<Longrightarrow> take m (drop i (priveData (rx_data F j d))) = take m (drop i F)"
proof -
  assume a: "i + m \<le> j" "j \<le> length F"
  then have "take m (drop i (take j F @ drop j (priveData d))) = take m (drop i (take j F))" by simp
  also have "\<dots> = take m (drop i F)" using a(1) by (simp add: drop_take)
  finally show ?thesis by (simp add: rx_data_def)
qed

lemma save_char_point_data_one:
  "save_char_point_data d position [b] = (if data_space d > position + 1 then (0, d\<lparr>priveData := (priveData d)[position := b], dataSize := dataSize d + 1\<rparr>) else (- 1, d))"
  by (simp add: save_char_point_data_def)

lemma rx_save:
  assumes "rx_ready st d" "j < length F" "length F \<le> 1023"
  shows "save_hplc_data (rx_data F j d) j (F ! j) = (0, rx_data F (Suc j) d)"
proof -
  have "drop j (priveData d) = priveData d ! j # drop (Suc j) (priveData d)" using assms by (simp add: rx_ready_def Cons_nth_drop_Suc)
  then have "(take j F @ drop j (priveData d))[j := F ! j] = take (Suc j) F @ drop (Suc j) (priveData d)"
    using assms(2) by (simp add: list_update_append take_Suc_conv_app_nth)
  then show ?thesis using assms by (simp add: save_hplc_data_def save_char_point_data_one rx_data_def rx_ready_def)
qed

lemma rx_state_flags:
  assumes "0 < j"
  shows "flag (rx_state k n j st) 0x40000000" "flag (rx_state k n j st) 0x20000000 \<longleftrightarrow> 3 \<le> j"
    "flag (rx_state k n j st) 0x10000000 \<longleftrightarrow> 5 \<le> j" "flag (rx_state k n j st) 0x08000000 \<longleftrightarrow> 8 + k \<le> j"
  using assms by (simp_all add: flag_def rx_state_def rx_flags_def)

lemma rx_byte_saved:
  assumes "0 < j" "save_hplc_data d j b = (0, d1)" "dataSize d = j"
  shows "rx_byte b (rx_state k n j st) d = (if 3 \<le> j then rx_body (rx_state k n j st) d1 else rx_length (rx_state k n j st) d1)"
  using assms(2,3) rx_state_flags [OF assms(1), of k n st] by (simp add: rx_byte_def)

lemma rx_step_start:
  assumes "good_frame k F" "rx_ready st d"
  shows "rx_byte (F ! 0) (rx_state k (length F) 0 st) (rx_data F 0 d) = Inr (rx_state k (length F) 1 st, rx_data F 1 d)"
proof -
  note g = good_frameD(2,3) [OF assms(1)]
  have "0 < length F" using good_frameD(10) [OF assms(1)] by linarith
  have s: "save_hplc_data (rx_data F 0 d) 0 0x68 = (0, rx_data F 1 d)" using rx_save [OF assms(2) \<open>0 < length F\<close> g(1)] g(2) by simp
  show ?thesis using assms(2) unfolding rx_byte_def rx_data_sel g(2) s
    by (simp add: rx_state_def flag_def rx_ready_def set_flag_def rx_flags_def)
qed

lemma rx_step_length:
  assumes "good_frame k F" "rx_ready st d" "j = 1 \<or> j = 2"
  shows "rx_byte (F ! j) (rx_state k (length F) j st) (rx_data F j d) = Inr (rx_state k (length F) (Suc j) st, rx_data F (Suc j) d)"
proof -
  note g = good_frameD(1,2,5) [OF assms(1)]
  have s: "save_hplc_data (rx_data F j d) j (F ! j) = (0, rx_data F (Suc j) d)" using rx_save [OF assms(2) _ g(2), of j] g(1) assms(3) by auto
  have n: "uint (priveData (rx_data F 3 d) ! 2) * 256 + uint (priveData (rx_data F 3 d) ! 1) + 2 = int (length F)"
    using g by (simp add: rx_data_nth)
  have j: "0 < j" "\<not> 3 \<le> j" using assms(3) by auto
  note r = rx_byte_saved [OF j(1) s rx_data_sel(1), of k "length F" st, unfolded if_not_P [OF j(2)]]
  from assms(3) show ?thesis
  proof
    assume j: "j = 1"
    show ?thesis using r unfolding j by (simp add: rx_length_def rx_state_def rx_flags_def)
  next
    assume j: "j = 2"
    have "\<not> int (length F) < 12" using g(1) good_frameD(9) [OF assms(1)] by linarith
    then show ?thesis using r n unfolding j by (simp add: rx_length_def rx_state_def rx_flags_def set_flag_def Let_def)
  qed
qed

lemma rx_header_step:
  assumes good: "good_frame k F" and ready: "rx_ready st d" and j: "3 \<le> j" "Suc j \<le> length F"
  shows "rx_header (rx_state k (length F) j st) (rx_data F (Suc j) d)
    = Inr ((rx_state k (length F) (Suc j) st)\<lparr>len_left := int (length F) - int j\<rparr>, rx_data F (Suc j) d)"
proof -
  note g = good_frameD [OF good]
  have j0: "0 < j" using j(1) by simp
  note fl = rx_state_flags [OF j0, of k "length F" st]
  consider "8 + k \<le> j" | "j = 7 + k" | "5 \<le> j" "j < 7 + k" | "j = 4" | "j = 3" using j(1) by linarith
  then show ?thesis
  proof cases
    case 1
    then show ?thesis using fl(4) j(1) by (simp add: rx_header_def rx_state_def rx_flags_def)
  next
    case 2
    have "HCS_698 (priveData (rx_data F (Suc j) d)) 1 (7 + k) = 0"
      using g(7) rx_data_slice [of 1 "7 + k" "Suc j" F d] j(2) 2 by (simp add: HCS_698_def)
    then show ?thesis using fl(3,4) g(9) 2 by (simp add: rx_header_def rx_state_def rx_flags_def set_flag_def Let_def nat_add_distrib)
  next
    case 3
    then show ?thesis using fl(3,4) by (simp add: rx_header_def rx_state_def rx_flags_def)
  next
    case 4
    have p: "priveData (rx_data F 5 d) ! 2 = F ! 2" "priveData (rx_data F 5 d) ! 4 = F ! 4" using g(1) by (simp_all add: rx_data_nth)
    then show ?thesis using fl(3,4) g(2,4,6,9) 4 by (simp add: rx_header_def rx_state_def rx_flags_def set_flag_def Let_def)
  next
    case 5
    then show ?thesis using fl(3,4) g(9) by (simp add: rx_header_def rx_state_def rx_flags_def)
  qed
qed

lemma rx_step_body:
  assumes good: "good_frame k F" and ready: "rx_ready st d" and j: "3 \<le> j" "Suc j < length F"
  shows "rx_byte (F ! j) (rx_state k (length F) j st) (rx_data F j d) = Inr (rx_state k (length F) (Suc j) st, rx_data F (Suc j) d)"
proof -
  have j': "0 < j" "j < length F" "Suc j \<le> length F" using j by simp_all
  note r = rx_byte_saved [OF j'(1) rx_save [OF ready j'(2) good_frameD(2) [OF good]] rx_data_sel(1), of k "length F" st, unfolded if_P [OF j(1)]]
  have "(rx_state k (length F) (Suc j) st)\<lparr>len_left := int (length F) - int j - 1\<rparr> = rx_state k (length F) (Suc j) st"
    using j(1) by (simp add: rx_state_def)
  then show ?thesis unfolding r rx_body_def rx_header_step [OF good ready j(1) j'(3)] using j by (simp add: Let_def)
qed

lemma rx_step_end:
  assumes good: "good_frame k F" and ready: "rx_ready st d"
  shows "\<exists>st'. rx_byte (F ! (length F - 1)) (rx_state k (length F) (length F - 1) st) (rx_data F (length F - 1) d) = Inl (0, st', rx_data F (length F) d)
    \<and> test_dis_check st' = test_dis_check st \<and> own_addr st' = own_addr st"
proof -
  let ?j = "length F - 1"
  note g = good_frameD [OF good]
  have j: "3 \<le> ?j" "0 < ?j" "?j < length F" "Suc ?j \<le> length F" "Suc ?j = length F" using g(1) by linarith+
  note r = rx_byte_saved [OF j(2) rx_save [OF ready j(3) g(2)] rx_data_sel(1), of k "length F" st, unfolded if_P [OF j(1)]]
  have "byte_at (rx_data F (length F) d) (int (length F) - 1) = 0x16"
  proof -
    have "nat (int (length F) - 1) = ?j" "int (length F) - 1 \<noteq> - 1" using j(2) by linarith+
    then show ?thesis using g(8) rx_data_nth [of ?j "length F" F d] j(3) by (simp add: byte_at_def)
  qed
  moreover have "int (length F) - int ?j - 1 \<le> 0" using j(2) by linarith
  ultimately show ?thesis unfolding r rx_body_def rx_header_step [OF good ready j(1,4)] unfolding j(5)
    by (simp add: Let_def set_flag_def rx_state_def)
qed

text \<open>Bytes on the line, each after a number of reads that found nothing.\<close>

definition arrivals :: "(nat \<times> u8) list \<Rightarrow> u8 option list" where
  "arrivals xs = concat (map (\<lambda>(n, b). replicate n None @ [Some b]) xs)"

lemma arrivals_Cons [simp]: "arrivals ((n, b) # xs) = replicate n None @ Some b # arrivals xs" "arrivals [] = []"
  by (simp_all add: arrivals_def)

lemma wait_gap:
  "w + n < 30 \<Longrightarrow> get_single_frame_frome_hplc (replicate n None @ line) w st d = get_single_frame_frome_hplc line (w + n) st d"
  by (induction n arbitrary: w) simp_all

lemma skip_noise:
  assumes "\<not> flag st 0x40000000" "\<forall>(n, b) \<in> set xs. n < 30 \<and> b \<noteq> 0x68"
  shows "get_single_frame_frome_hplc (arrivals xs @ line) 0 st d = get_single_frame_frome_hplc line 0 st d"
  using assms(2)
proof (induction xs)
  case (Cons x xs)
  obtain n b where x: "x = (n, b)" by (cases x)
  have n: "0 + n < 30" "b \<noteq> 0x68" using Cons.prems by (simp_all add: x)
  have "rx_byte b st d = Inr (st, d)" using assms(1) n(2) by (simp add: rx_byte_def)
  then have "get_single_frame_frome_hplc (arrivals (x # xs) @ line) 0 st d = get_single_frame_frome_hplc (arrivals xs @ line) 0 st d"
    using wait_gap [OF n(1)] by (simp add: x)
  then show ?case using Cons by simp
qed simp

lemma receive_rest:
  assumes good: "good_frame k F" and ready: "rx_ready st d"
  shows "j < length F \<Longrightarrow> length gaps = length F - j \<Longrightarrow> \<forall>n \<in> set gaps. n < 30 \<Longrightarrow>
    \<exists>st'. get_single_frame_frome_hplc (arrivals (zip gaps (drop j F)) @ line) 0 (rx_state k (length F) j st) (rx_data F j d)
        = Inl (0, st', rx_data F (length F) d, line) \<and> test_dis_check st' = test_dis_check st \<and> own_addr st' = own_addr st"
proof (induction gaps arbitrary: j)
  case (Cons n gaps)
  let ?st = "rx_state k (length F) j st" and ?d = "rx_data F j d"
  have dr: "drop j F = F ! j # drop (Suc j) F" using Cons.prems(1) by (simp add: Cons_nth_drop_Suc)
  have n: "0 + n < 30" using Cons.prems(3) by simp
  have g: "get_single_frame_frome_hplc (arrivals (zip (n # gaps) (drop j F)) @ line) 0 ?st ?d
      = get_single_frame_frome_hplc (Some (F ! j) # arrivals (zip gaps (drop (Suc j) F)) @ line) n ?st ?d"
    unfolding dr using wait_gap [OF n] by simp
  show ?case
  proof (cases "Suc j < length F")
    case True
    have "rx_byte (F ! j) ?st ?d = Inr (rx_state k (length F) (Suc j) st, rx_data F (Suc j) d)"
    proof -
      consider "j = 0" | "j = 1 \<or> j = 2" | "3 \<le> j" by linarith
      then show ?thesis
        using rx_step_start [OF good ready] rx_step_length [OF good ready] rx_step_body [OF good ready _ True] by cases auto
    qed
    then show ?thesis unfolding g using Cons.IH [OF True] Cons.prems(2,3) by simp
  next
    case False
    then have j: "j = length F - 1" using Cons.prems(1) by simp
    then have "length (n # gaps) = 1" using Cons.prems(2) by (simp only: Cons.prems(2)) (use Cons.prems(1) in simp)
    then have "gaps = []" by simp
    then show ?thesis unfolding g using rx_step_end [OF good ready] j by auto
  qed
qed simp

lemma receive_frame:
  assumes good: "good_frame k F" and ready: "rx_ready st d"
    and noise: "\<forall>(n, b) \<in> set noise. n < 30 \<and> b \<noteq> 0x68" and gaps: "length gaps = length F" "\<forall>n \<in> set gaps. n < 30"
  shows "\<exists>st'. get_single_frame_frome_hplc (arrivals noise @ arrivals (zip gaps F) @ line) 0 st d = Inl (0, st', rx_data F (length F) d, line)
    \<and> test_dis_check st' = test_dis_check st \<and> own_addr st' = own_addr st"
proof -
  have "\<not> flag st 0x40000000" using ready by (simp add: rx_ready_def flag_def)
  from skip_noise [OF this noise]
  have "get_single_frame_frome_hplc (arrivals noise @ arrivals (zip gaps F) @ line) 0 st d = get_single_frame_frome_hplc (arrivals (zip gaps F) @ line) 0 st d"
    by simp
  moreover have "rx_state k (length F) 0 st = st" "rx_data F 0 d = d" using ready by (simp_all add: rx_state_def rx_data_def rx_ready_def)
  moreover have "0 < length F" using good_frameD(10) [OF good] by linarith
  ultimately show ?thesis using receive_rest [OF good ready, of 0 gaps line] gaps by simp
qed

section \<open>Unpacking a received frame\<close>

lemma fold_copy:
  "n \<le> length xs \<Longrightarrow> fold (\<lambda>i p. p[i := f i]) [0..<n] xs = map f [0..<n] @ drop n xs"
proof (induction n)
  case (Suc n)
  then have "drop n xs = xs ! n # drop (Suc n) xs" by (simp add: Cons_nth_drop_Suc)
  then show ?case using Suc by (simp add: list_update_append)
qed simp

lemma map_nth_slice: "i + n \<le> length xs \<Longrightarrow> map (\<lambda>j. xs ! (i + j)) [0..<n] = take n (drop i xs)"
  by (rule nth_equalityI) simp_all

lemma uint_small_byte: "n < 256 \<Longrightarrow> uint (word_of_nat n :: u8) = int n"
  by (simp add: uint_nat unat_of_nat)

lemma uint_low6: "uint w < 64 \<Longrightarrow> uint (w AND 0x3F) = uint w" for w :: u8
proof -
  assume w: "uint w < 64"
  have "w AND 0x3F = take_bit 6 w" by (simp add: take_bit_eq_mask mask_eq_exp_minus_1)
  then have "uint (w AND 0x3F) = take_bit 6 (uint w)" by (simp only: unsigned_take_bit_eq)
  also have "\<dots> = uint w" using w by (simp add: take_bit_int_eq_self)
  finally show ?thesis .
qed

lemma analysis_of_frame:
  assumes six: "length as = 6" and F: "F = mk_frame c s as a user" and s: "uint (s AND 0x0F) = 5"
    and len: "length user \<le> 1006" and d: "take (length F) (priveData d) = F" "dataSize d = length F" "length (s_addr (addr (frame d))) = 8"
  shows "\<exists>f. priveData_analysis st d = Some (0, d\<lparr>frame := f\<rparr>) \<and> control f = c \<and> sa (addr f) = s \<and> take 6 (s_addr (addr f)) = as
    \<and> ca (addr f) = a \<and> s_addr_len (addr f) = 6 \<and> usrData_len f = int (length user) \<and> take (length user) (drop (usrData f) (priveData d)) = user"
proof -
  let ?p = "priveData d" and ?n = "length F"
  note f = frame_parts [OF six [symmetric] F]
  have n: "?n = 17 + length user" using f(1) by simp
  have nth: "?p ! i = F ! i" if "i < ?n" for i using nth_take [OF that, of ?p] d(1) by simp
  have lp: "?n \<le> length ?p" using d(1) by (metis length_take min.absorb_iff2 min.commute min_def nat_le_linear)
  have sl: "take m (drop i ?p) = take m (drop i F)" if "i + m \<le> ?n" for i m
  proof -
    have "take m (drop i (take ?n ?p)) = take m (drop i ?p)" using that by (simp add: drop_take)
    then show ?thesis using d(1) by simp
  qed
  have "FCS_698 ?p 1 (int ?n - 2) = Some 0"
  proof -
    have "nat (int ?n - 2) = ?n - 2" "1 + (?n - 2) \<le> ?n" using n by simp_all
    then show ?thesis using f(10) sl [of 1 "?n - 2"] n by (simp add: FCS_698_def)
  qed
  then have chk: "(if test_dis_check st then Some 0 else FCS_698 ?p 1 (int (dataSize d) - 2)) = Some 0" by (simp add: d(2))
  have u: "uint (?p ! 2 AND 0x3F) * 256 + uint (?p ! 1) = int ?n - 2"
  proof -
    let ?m = "15 + length user"
    have "?p ! 2 = word_of_nat (?m div 256)" "?p ! 1 = word_of_nat (?m mod 256)" using f(3,4) nth [of 1] nth [of 2] n six by (simp_all add: add.commute)
    moreover have "?m div 256 < 64" using len by simp
    ultimately have "uint (?p ! 2) = int (?m div 256)" "uint (?p ! 1) = int (?m mod 256)" "uint (?p ! 2) < 64"
      using uint_small_byte [of "?m div 256"] uint_small_byte [of "?m mod 256"] by simp_all
    then have "uint (?p ! 2 AND 0x3F) = int (?m div 256)" "uint (?p ! 1) = int (?m mod 256)" using uint_low6 [of "?p ! 2"] by simp_all
    then show ?thesis using n div_mult_mod_eq [of ?m 256] by linarith
  qed
  have p: "?p ! 3 = c" "?p ! 4 = s" "?p ! 11 = a" "take 6 (drop 5 ?p) = as" "take (length user) (drop 14 ?p) = user"
    using f(5,6,7,8,11) nth [of 3] nth [of 4] nth [of 11] sl [of 5 6] sl [of 14 "length user"] n by simp_all
  let ?a = "(addr (frame d))\<lparr>sa := s, s_addr_len := 6, s_addr := as @ drop 6 (s_addr (addr (frame d))), ca := a\<rparr>"
  have ad: "address_unPackage ?p (addr (frame d)) 4 = (0, ?a)"
  proof -
    have "map (\<lambda>i. ?p ! (5 + i)) [0..<6] = as" using map_nth_slice [of 5 6 ?p] lp n p(4) by simp
    then have "fold (\<lambda>i q. q[i := ?p ! (5 + i)]) [0..<6] (s_addr (addr (frame d))) = as @ drop 6 (s_addr (addr (frame d)))"
      using fold_copy [of 6 "s_addr (addr (frame d))" "\<lambda>i. ?p ! (5 + i)"] d(3) by simp
    then show ?thesis using p(2,3) s by (simp add: address_unPackage_def Let_def)
  qed
  obtain f where un: "unPackage_698 ?p (frame d) (int ?n) = (0, f)" and pr: "control f = c \<and> sa (addr f) = s \<and> take 6 (s_addr (addr f)) = as
    \<and> ca (addr f) = a \<and> s_addr_len (addr f) = 6 \<and> usrData_len f = int (length user) \<and> take (length user) (drop (usrData f) ?p) = user"
    unfolding unPackage_698_def using u p ad len n six by (simp add: Let_def)
  show ?thesis unfolding priveData_analysis_def chk option.case unfolding d(2) un using pr by (intro exI [of _ f]) simp
qed

section \<open>Any input\<close>

definition rx_wf :: "state698 \<Rightarrow> char_data \<Rightarrow> bool" where
  "rx_wf st d \<longleftrightarrow> length (priveData d) = 1024 \<and> data_space d = 1024 \<and> dataSize d < 1024 \<and> (flag st 0x20000000 \<longrightarrow> 3 \<le> dataSize d)"

text \<open>What holds of a result: the buffer is in order, and a frame reported as complete ends with the end byte.\<close>

definition rx_result_ok :: "char_data \<Rightarrow> rx_out \<Rightarrow> bool" where
  "rx_result_ok d out = (case out of
     Inr (st', d') \<Rightarrow> rx_wf st' d' \<and> frame d' = frame d
   | Inl (r, st', d') \<Rightarrow> rx_wf st' d' \<and> frame d' = frame d \<and> r \<in> {- 1, 0, 1}
       \<and> (r = 0 \<longrightarrow> (if dataSize d' = 0 then byte_at d (- 1) = 0x16 else 3 \<le> dataSize d' \<and> priveData d' ! (dataSize d' - 1) = 0x16)))"

lemma byte_before: "frame d' = frame d \<Longrightarrow> byte_at d' (- 1) = byte_at d (- 1)"
  by (simp add: byte_at_def)

lemma clear_data_wf:
  assumes "rx_wf st d"
  shows "rx_wf (fst (clear_data st d)) (snd (clear_data st d))" "frame (snd (clear_data st d)) = frame d" "dataSize (snd (clear_data st d)) = 0"
    "len_left (fst (clear_data st d)) = 0"
  using assms by (simp_all add: rx_wf_def clear_data_def flag_def)

lemma save_hplc_wf:
  assumes "rx_wf st d" "save_hplc_data d (dataSize d) b = (r, d1)"
  shows "rx_wf st d1" "frame d1 = frame d" "r = 0" "dataSize d \<le> dataSize d1" "0 < dataSize d1 \<or> dataSize d = 1023"
  using assms by (auto simp: rx_wf_def save_hplc_data_def save_char_point_data_one split: if_splits)

lemma rx_wf_sel:
  "rx_wf st d \<Longrightarrow> USART_RX_STA st' AND 0x20000000 = USART_RX_STA st AND 0x20000000 \<Longrightarrow> rx_wf st' d"
  by (simp add: rx_wf_def flag_def)

lemma set_flag_wf:
  assumes "rx_wf st d" "m AND 0x20000000 = 0"
  shows "rx_wf (set_flag m st) d"
  using assms(1) by (rule rx_wf_sel) (simp add: set_flag_def bit.conj_disj_distrib2 assms(2))

lemma rx_header_wf:
  assumes "rx_wf st d" "flag st 0x20000000"
  shows "case rx_header st d of
      Inl (r, st', d') \<Rightarrow> rx_wf st' d' \<and> frame d' = frame d \<and> r \<in> {- 1, 1}
    | Inr (st', d') \<Rightarrow> rx_wf st' d' \<and> frame d' = frame d \<and> (d' = d \<or> dataSize d' = 0 \<and> len_left st' = 0)"
proof -
  have 1: "rx_wf (set_flag 0x08000000 st) d" "rx_wf (set_flag 0x10000000 st) d" by (rule set_flag_wf [OF assms(1)]; simp)+
  have 2: "rx_wf (set_flag 0x10000000 st\<lparr>len_sa := k\<rparr>) d" for k by (rule rx_wf_sel [OF 1(2)]) simp
  note c = clear_data_wf [OF 1(1)] clear_data_wf [OF 1(2)]
  show ?thesis unfolding rx_header_def Let_def
    using assms(1) 1 2 c by (auto split: prod.splits)
qed

lemma rx_body_wf:
  assumes "rx_wf st d" "flag st 0x20000000"
  shows "rx_result_ok d (rx_body st d)"
proof (cases "rx_header st d")
  case (Inl x)
  then show ?thesis using rx_header_wf [OF assms] by (auto simp: rx_body_def rx_result_ok_def)
next
  case (Inr x)
  obtain st1 d1 where x: "x = (st1, d1)" by (cases x)
  have h: "rx_wf st1 d1" "frame d1 = frame d" "d1 = d \<or> dataSize d1 = 0 \<and> len_left st1 = 0"
    using rx_header_wf [OF assms] unfolding Inr x by simp_all
  define st2 where "st2 = st1\<lparr>len_left := len_left st1 - 1\<rparr>"
  have w2: "rx_wf st2 d1" unfolding st2_def by (rule rx_wf_sel [OF h(1)]) simp
  have w3: "rx_wf (set_flag 0x04000000 st2) d1" by (rule set_flag_wf [OF w2]) simp
  have e: "rx_body st d = (if len_left st2 \<le> 0 then
      (if byte_at d1 (int (dataSize d1) - 1) \<noteq> 0x16 then Inl (- 1, clear_data st2 d1) else Inl (0, set_flag 0x04000000 st2, d1))
      else Inr (st2, d1))"
    unfolding rx_body_def Inr x sum.case prod.case Let_def st2_def ..
  have z: "byte_at d1 (int (dataSize d1) - 1) = 0x16 \<Longrightarrow>
      if dataSize d1 = 0 then byte_at d (- 1) = 0x16 else 3 \<le> dataSize d1 \<and> priveData d1 ! (dataSize d1 - 1) = 0x16"
  proof (cases "dataSize d1 = 0")
    case False
    assume b: "byte_at d1 (int (dataSize d1) - 1) = 0x16"
    have "3 \<le> dataSize d1" using False h(3) assms by (auto simp: rx_wf_def)
    then show ?thesis using b by (simp add: byte_at_def nat_diff_distrib)
  qed (simp add: byte_before [OF h(2)])
  show ?thesis unfolding e rx_result_ok_def using w2 w3 h(2) z clear_data_wf [OF w2] by (auto split: prod.splits)
qed

lemma rx_length_wf:
  assumes "rx_wf st d"
  shows "rx_result_ok d (rx_length st d)"
proof (cases "dataSize d = 3")
  case True
  define n where "n = uint (priveData d ! 2) * 256 + uint (priveData d ! 1) + 2"
  define st1 where "st1 = (set_flag 0x20000000 st)\<lparr>len_all := n\<rparr>"
  have w: "rx_wf st1 d" "rx_wf (st1\<lparr>len_left := n - 3\<rparr>) d" using assms True by (simp_all add: rx_wf_def)
  have e: "rx_length st d = (if n < 12 then Inl (- 1, clear_data st1 d) else Inr (st1\<lparr>len_left := n - 3\<rparr>, d))"
    using True by (simp add: rx_length_def Let_def n_def st1_def)
  show ?thesis unfolding e rx_result_ok_def using w clear_data_wf [OF w(1)] by (auto split: prod.splits)
qed (use assms in \<open>simp add: rx_length_def rx_result_ok_def\<close>)

lemma rx_byte_wf:
  assumes "rx_wf st d"
  shows "rx_result_ok d (rx_byte b st d)"
proof -
  obtain r d1 where s: "save_hplc_data d (dataSize d) b = (r, d1)" by fastforce
  note w = save_hplc_wf [OF assms s]
  have t: "rx_result_ok d out = rx_result_ok d1 out" for out
    unfolding rx_result_ok_def w(2) byte_before [OF w(2)] ..
  have f: "rx_wf (set_flag 0x40000000 (st\<lparr>FE_no := 0\<rparr>)) d1"
    by (rule set_flag_wf, rule rx_wf_sel [OF w(1)]) simp_all
  consider "flag st 0x40000000" "flag st 0x20000000" | "flag st 0x40000000" "\<not> flag st 0x20000000"
    | "\<not> flag st 0x40000000" "b = 0x68" | "\<not> flag st 0x40000000" "b \<noteq> 0x68" by blast
  then show ?thesis
  proof cases
    case 1
    then show ?thesis unfolding t using rx_body_wf [OF w(1) 1(2)] by (simp add: rx_byte_def s w(3))
  next
    case 2
    then show ?thesis unfolding t using rx_length_wf [OF w(1)] by (simp add: rx_byte_def s w(3))
  next
    case 3
    then show ?thesis unfolding t using f by (simp add: rx_byte_def s [unfolded 3(2)] w(3) Let_def rx_result_ok_def)
  next
    case 4
    then show ?thesis using assms by (simp add: rx_byte_def rx_result_ok_def)
  qed
qed

section \<open>Sending a frame\<close>

text \<open>The transmit buffer holds these bytes.\<close>

definition holds :: "char_data \<Rightarrow> u8 list \<Rightarrow> bool" where
  "holds d xs \<longleftrightarrow> dataSize d = length xs \<and> length (priveData d) = 1024 \<and> data_space d = 1024 \<and> length xs < 1024 \<and> take (length xs) (priveData d) = xs"

lemma holds_frame [simp]: "holds (d\<lparr>frame := f\<rparr>) xs = holds d xs"
  by (simp add: holds_def)

lemma fold_store:
  "n + length bs \<le> length p \<Longrightarrow> fold (\<lambda>i p. p[n + i := bs ! i]) [0..<length bs] p = take n p @ bs @ drop (n + length bs) p"
proof (induction bs rule: rev_induct)
  case (snoc b bs)
  have "fold (\<lambda>i p. p[n + i := (bs @ [b]) ! i]) [0..<length bs] p = fold (\<lambda>i p. p[n + i := bs ! i]) [0..<length bs] p"
    by (rule fold_cong) (simp_all add: nth_append)
  moreover have "drop (n + length bs) p = p ! (n + length bs) # drop (Suc (n + length bs)) p" using snoc.prems by (simp add: Cons_nth_drop_Suc)
  ultimately show ?case using snoc by (simp add: list_update_append)
qed simp

lemma put_bytes_holds:
  assumes "holds d xs" "length xs + length bs < 1024"
  shows "holds (put_bytes bs d) (xs @ bs)"
  using assms by (simp add: holds_def put_bytes_def save_char_point_data_def fold_store)

lemma room_for_two_holds:
  assumes "holds d xs" "length xs + 2 < 1024"
  shows "\<exists>x y. holds (room_for_two d) (xs @ [x, y])"
proof -
  let ?p = "priveData d"
  have "take (length xs + 2) ?p = take (length xs) ?p @ take 2 (drop (length xs) ?p)" by (rule take_add)
  moreover have "drop (length xs) ?p = ?p ! length xs # ?p ! (length xs + 1) # drop (length xs + 2) ?p"
    using assms by (simp add: holds_def Cons_nth_drop_Suc)
  ultimately have "take (length xs + 2) ?p = take (length xs) ?p @ [?p ! length xs, ?p ! (length xs + 1)]" by simp
  then show ?thesis using assms by (intro exI [of _ "?p ! length xs"] exI [of _ "?p ! (length xs + 1)"]) (simp add: holds_def room_for_two_def)
qed

lemma low_byte_of_fcs: "(ucast (w AND 0x00ff) :: u8) = ucast w" for w :: u16
proof -
  have "w AND 0x00ff = take_bit 8 w" by (simp add: take_bit_eq_mask mask_eq_exp_minus_1)
  then show ?thesis by (intro bit_word_eqI) (simp add: bit_simps)
qed

lemma tryfcs16_appends:
  assumes "1 \<le> length xs"
  shows "tryfcs16 (xs @ [x, y] @ rest) (length xs) = (0, xs @ fcs_bytes (drop 1 xs) @ rest)"
proof -
  let ?m = "drop 1 xs"
  have "take (length xs - 1) (drop 1 (xs @ [x, y] @ rest)) = ?m" using assms by simp
  moreover have "((xs @ [x, y] @ rest)[length xs := a])[length xs + 1 := b] = xs @ [a, b] @ rest" for a b by (simp add: list_update_append)
  moreover have "take (length xs + 2 - 1) (drop 1 (xs @ [a, b] @ rest)) = ?m @ [a, b]" for a b using assms by simp
  ultimately show ?thesis using fcs_bytes_good [of ?m]
    by (simp only: tryfcs16_def Let_def low_byte_of_fcs fcs_bytes_def refl if_True append_Cons append_Nil)
qed

lemma pack_end_holds:
  assumes h: "holds d (0x68 # l0 # l1 # h @ [x, y] @ user)" "length h + length user + 8 < 1024"
    and m: "m = length h + length user + 6"
  defines "H \<equiv> word_of_nat (m mod 256) # word_of_nat (m div 256) # h"
  shows "\<exists>d'. pack_end (length h + 3) d = (0, d') \<and> holds d' (0x68 # H @ fcs_bytes H @ user @ fcs_bytes (H @ fcs_bytes H @ user) @ [0x16])"
proof -
  let ?xs = "0x68 # l0 # l1 # h @ [x, y] @ user"
  obtain u v where r: "holds (room_for_two d) (?xs @ [u, v])" using room_for_two_holds [OF h(1)] h(2) by auto
  define d1 where "d1 = put_bytes [0x16] (room_for_two d)"
  have d1: "holds d1 ((?xs @ [u, v]) @ [0x16])" unfolding d1_def by (rule put_bytes_holds [OF r]) (use h(2) in simp)
  define rest where "rest = drop (dataSize d1) (priveData d1)"
  have p: "priveData d1 = ?xs @ [u, v, 0x16] @ rest" using d1 append_take_drop_id [of "dataSize d1" "priveData d1"] by (simp add: holds_def rest_def)
  have n: "dataSize d1 - 2 = m" "dataSize d = length (0x68 # H @ fcs_bytes H @ user)" using d1 h(1) by (simp_all add: holds_def m H_def)
  have p1: "((priveData d1)[1 := word_of_nat (m mod 256)])[2 := word_of_nat (m div 256)] = (0x68 # H) @ [x, y] @ user @ [u, v, 0x16] @ rest"
    by (simp add: p H_def)
  have l: "length h + 3 = length (0x68 # H)" by (simp add: H_def)
  have t1: "tryfcs16 ((0x68 # H) @ [x, y] @ user @ [u, v, 0x16] @ rest) (length h + 3) = (0, (0x68 # H) @ fcs_bytes H @ user @ [u, v, 0x16] @ rest)"
    unfolding l using tryfcs16_appends [of "0x68 # H"] by simp
  have "tryfcs16 ((0x68 # H @ fcs_bytes H @ user) @ [u, v] @ [0x16] @ rest) (length (0x68 # H @ fcs_bytes H @ user))
      = (0, (0x68 # H @ fcs_bytes H @ user) @ fcs_bytes (drop 1 (0x68 # H @ fcs_bytes H @ user)) @ [0x16] @ rest)"
    by (rule tryfcs16_appends) simp
  then have t2: "tryfcs16 ((0x68 # H) @ fcs_bytes H @ user @ [u, v, 0x16] @ rest) (dataSize d)
      = (0, 0x68 # H @ fcs_bytes H @ user @ fcs_bytes (H @ fcs_bytes H @ user) @ [0x16] @ rest)"
    unfolding n(2) by simp
  have len: "dataSize d1 = length h + length user + 8" "length (priveData d1) = 1024" "data_space d1 = 1024" "length rest = 1024 - dataSize d1"
    using d1 by (simp_all add: holds_def rest_def)
  define W where "W = 0x68 # H @ fcs_bytes H @ user @ fcs_bytes (H @ fcs_bytes H @ user) @ [0x16]"
  have W: "length W = length h + length user + 8" by (simp add: W_def H_def)
  have t2: "tryfcs16 ((0x68 # H) @ fcs_bytes H @ user @ [u, v, 0x16] @ rest) (dataSize d) = (0, W @ rest)"
    unfolding t2 W_def by simp
  show ?thesis unfolding pack_end_def Let_def d1_def [symmetric] n(1) p1 t1 prod.case t2 W_def [symmetric]
    using len h(2) W by (simp add: holds_def)
qed

lemma pack_header_holds:
  assumes d: "length (priveData d) = 1024" "data_space d = 1024" and as: "length (take (nat n) as) = nat n" "nat n \<le> 16"
  shows "\<exists>l0 l1 x y. holds (pack_header 0x68 c s as n a d) (0x68 # l0 # l1 # ([c, s] @ take (nat n) as @ [a]) @ [x, y])"
proof -
  let ?as = "take (nat n) as"
  have h0: "holds (d\<lparr>dataSize := 0\<rparr>) []" using d by (simp add: holds_def)
  have h1: "holds (put_bytes [0x68] (d\<lparr>dataSize := 0\<rparr>)) [0x68]" using put_bytes_holds [OF h0, of "[0x68]"] by simp
  obtain l0 l1 where h2: "holds (room_for_two (put_bytes [0x68] (d\<lparr>dataSize := 0\<rparr>))) [0x68, l0, l1]" using room_for_two_holds [OF h1] by auto
  have h3: "holds (put_bytes [s] (put_bytes [c] (room_for_two (put_bytes [0x68] (d\<lparr>dataSize := 0\<rparr>))))) [0x68, l0, l1, c, s]"
    using put_bytes_holds [OF put_bytes_holds [OF h2, of "[c]"], of "[s]"] by simp
  have h4: "holds (put_bytes [a] (put_bytes ?as (put_bytes [s] (put_bytes [c] (room_for_two (put_bytes [0x68] (d\<lparr>dataSize := 0\<rparr>)))))))
      ([0x68, l0, l1, c, s] @ ?as @ [a])"
    using put_bytes_holds [OF put_bytes_holds [OF h3, of ?as], of "[a]"] as by simp
  obtain x y where "holds (room_for_two (put_bytes [a] (put_bytes ?as (put_bytes [s] (put_bytes [c] (room_for_two (put_bytes [0x68] (d\<lparr>dataSize := 0\<rparr>))))))))
      (([0x68, l0, l1, c, s] @ ?as @ [a]) @ [x, y])"
    using room_for_two_holds [OF h4] as by auto
  then have "holds (pack_header 0x68 c s as n a d) (0x68 # l0 # l1 # ([c, s] @ ?as @ [a]) @ [x, y])"
    unfolding pack_header_def Let_def by (simp add: room_for_two_def holds_def)
  then show ?thesis by blast
qed

text \<open>
  The user data of a link request by the protocol: type, priority, work type, heartbeat period and time.  What the module
  packs, before the link is up and afterwards, has the work type 1 in both cases.
\<close>

abbreviation (input) link_request_load :: u8 where "link_request_load \<equiv> 0"
abbreviation (input) link_request_heart_beat :: u8 where "link_request_heart_beat \<equiv> 1"

definition request_of :: "u8 \<Rightarrow> u8 \<Rightarrow> u8 list \<Rightarrow> state698 \<Rightarrow> u8 list" where
  "request_of piid_acd work_type date_time st = [1, piid_acd, work_type, heart_beat_time0 st, heart_beat_time1 st] @ date_time"

definition request_user :: "state698 \<Rightarrow> u8 list" where
  "request_user st = [1, if link_flag st = 0 then 0 else 1, 1, heart_beat_time0 st, heart_beat_time1 st] @ replicate 10 0xfe"

lemma request_user_of:
  "request_user st = (if link_flag st = 0 then (request_of 0 link_request_load (replicate 10 0xfe) st)[2 := link_request_heart_beat]
     else request_of 1 link_request_heart_beat (replicate 10 0xfe) st)"
  by (simp add: request_user_def request_of_def numeral_2_eq_2)

lemma link_request_frame:
  assumes d: "length (priveData d) = 1024" "data_space d = 1024"
    and as: "s_addr_len (own_addr st) = int k" "k \<le> length (s_addr (own_addr st))" "k \<le> 16"
    and due: "past_time st \<ge> uint (heart_beat_time0 st) * 256 + uint (heart_beat_time1 st) - 5" and up: "link_flag st = 0 \<or> connect_flag st = 1"
  shows "\<exists>d' st'. link_request_package d st = (0, d', st')
    \<and> holds d' (mk_frame 0x81 (sa (own_addr st)) (take k (s_addr (own_addr st))) 0 (request_user st))"
proof -
  define A where "A = take k (s_addr (own_addr st))"
  define h where "h = [0x81, sa (own_addr st)] @ A @ [0]"
  define d1 where "d1 = pack_header 0x68 (0x80 OR 0x01) (sa (own_addr st)) (s_addr (own_addr st)) (s_addr_len (own_addr st)) 0x00 d"
  have lA: "length A = k" using as by (simp add: A_def)
  have "\<exists>l0 l1 x y. holds d1 (0x68 # l0 # l1 # h @ [x, y])"
    using pack_header_holds [OF d, of "s_addr_len (own_addr st)" "s_addr (own_addr st)" "0x80 OR 0x01" "sa (own_addr st)" 0] as lA
    by (simp add: d1_def h_def A_def)
  then obtain l0 l1 x y where d1: "holds d1 (0x68 # l0 # l1 # h @ [x, y])" by blast
  have pos: "dataSize d1 - 2 = length h + 3" using d1 by (simp add: holds_def)
  have lh: "length h \<le> 19" using lA as by (simp add: h_def)
  have pk: "\<exists>d'. pack_end (length h + 3) e = (0, d') \<and> holds d' (mk_frame 0x81 (sa (own_addr st)) A 0 (request_user st))"
    if "holds e (0x68 # l0 # l1 # h @ [x, y] @ request_user st)" for e
  proof -
    have "length h + length (request_user st) + 8 < 1024" using lh by (simp add: request_user_def)
    note p = pack_end_holds [OF that this]
    define m where "m = length A + length (request_user st) + 9"
    have "m = length h + length (request_user st) + 6" by (simp add: h_def m_def)
    from p [OF this] show ?thesis unfolding mk_frame_def frame_header_def Let_def m_def [symmetric] by (simp add: h_def)
  qed
  have put: "holds (put_bytes bs e) (0x68 # l0 # l1 # h @ [x, y] @ us @ bs)"
    if "holds e (0x68 # l0 # l1 # h @ [x, y] @ us)" "length us + length bs \<le> 900" for e us bs
    using put_bytes_holds [OF that(1), of bs] that(2) lh by simp
  have body: "holds (put_bytes get_current_time (put_bytes [heart_beat_time1 st] (put_bytes [heart_beat_time0 st] (put_bytes [1] (put_bytes [w] (put_bytes [1] (d1\<lparr>frame := f\<rparr>)))))))
      (0x68 # l0 # l1 # h @ [x, y] @ request_user st)" if "w = (if link_flag st = 0 then 0 else 1)" for w f
  proof -
    have "holds (put_bytes [1] (d1\<lparr>frame := f\<rparr>)) (0x68 # l0 # l1 # h @ [x, y] @ [1])" using put [of "d1\<lparr>frame := f\<rparr>" "[]" "[1]"] d1 by simp
    note p = put [OF put [OF put [OF put [OF put [OF this, of "[w]"], of "[1]"], of "[heart_beat_time0 st]"], of "[heart_beat_time1 st]"], of get_current_time]
    show ?thesis using p by (simp add: request_user_def get_current_time_def that)
  qed
  define b where "b = put_bytes get_current_time (put_bytes [heart_beat_time1 st] (put_bytes [heart_beat_time0 st] (put_bytes [1]
      (put_bytes [if link_flag st = 0 then 0 else 1] (put_bytes [1] (d1\<lparr>frame := (frame d1)\<lparr>usrData_len := 0, usrData := nat (8 + s_addr_len (own_addr st))\<rparr>\<rparr>))))))"
  define e where "e = b\<lparr>frame := (frame b)\<lparr>usrData_len := int (dataSize b) - int (length h + 3) - 2\<rparr>\<rparr>"
  have "holds e (0x68 # l0 # l1 # h @ [x, y] @ request_user st)" unfolding e_def b_def holds_frame by (rule body) simp
  from pk [OF this] obtain d' where d': "pack_end (length h + 3) e = (0, d')" "holds d' (mk_frame 0x81 (sa (own_addr st)) A 0 (request_user st))" by blast
  have "\<exists>st'. link_request_package d st = (0, d', st')"
    unfolding link_request_package_def d1_def [symmetric] unfolding Let_def pos using due up d'(1) by (cases "link_flag st = 0") (simp_all add: e_def b_def)
  then show ?thesis using d'(2) unfolding A_def by blast
qed

section \<open>The link layer\<close>

lemma receive_and_unpack:
  assumes ready: "rx_ready st d" "length (s_addr (addr (frame d))) = 8"
    and parts: "length as = k" "uint (s AND 0x0F) + 1 = int k" "11 + k + length user \<le> 1023"
    and noise: "\<forall>(n, b) \<in> set noise. n < 30 \<and> b \<noteq> 0x68"
    and gaps: "length gaps = length (mk_frame c s as a user)" "\<forall>n \<in> set gaps. n < 30"
  shows "\<exists>st' d'. get_single_frame_frome_hplc (arrivals noise @ arrivals (zip gaps (mk_frame c s as a user)) @ line) 0 st d = Inl (0, st', d', line)
    \<and> own_addr st' = own_addr st \<and> dataSize d' = length (mk_frame c s as a user)
    \<and> take (dataSize d') (priveData d') = mk_frame c s as a user
    \<and> (k = 6 \<longrightarrow> (\<exists>f. priveData_analysis st' d' = Some (0, d'\<lparr>frame := f\<rparr>)
        \<and> control f = c \<and> sa (addr f) = s \<and> take 6 (s_addr (addr f)) = as \<and> ca (addr f) = a
        \<and> usrData_len f = int (length user) \<and> take (length user) (drop (usrData f) (priveData d')) = user))"
proof -
  let ?F = "mk_frame c s as a user"
  let ?d = "rx_data ?F (length ?F) d"
  from mk_frame_good [OF parts] have good: "good_frame k ?F" .
  obtain st' where r: "get_single_frame_frome_hplc (arrivals noise @ arrivals (zip gaps ?F) @ line) 0 st d = Inl (0, st', ?d, line)"
    "own_addr st' = own_addr st" using receive_frame [OF good ready(1) noise gaps] by blast
  have fr: "frame ?d = frame d" by (simp add: rx_data_def)
  have b: "take (length ?F) (priveData ?d) = ?F" "dataSize ?d = length ?F" by (simp_all add: rx_data_def)
  have "\<exists>f. priveData_analysis st' ?d = Some (0, ?d\<lparr>frame := f\<rparr>)
        \<and> control f = c \<and> sa (addr f) = s \<and> take 6 (s_addr (addr f)) = as \<and> ca (addr f) = a
        \<and> usrData_len f = int (length user) \<and> take (length user) (drop (usrData f) (priveData ?d)) = user" if k: "k = 6"
  proof -
    have "length as = 6" "uint (s AND 0x0F) = 5" "length user \<le> 1006" using parts k by simp_all
    from analysis_of_frame [OF this(1) refl this(2,3) b, unfolded fr, OF ready(2)] show ?thesis by blast
  qed
  then show ?thesis using r b by (intro exI [of _ st'] exI [of _ ?d]) simp
qed

text \<open>
  C28. The receiver delivers the frames that are sent to it.  On a ready receiver, after any bytes other than the start
  byte 0x68 and with any pauses below the timeout of thirty reads, a frame that fits into the receive buffer makes
  \<^verbatim>\<open>get_single_frame_frome_hplc\<close> return 0 with exactly the bytes of the frame in the buffer, and leaves the rest of the
  line alone, whatever the length of the address.  If the address has six bytes, \<^verbatim>\<open>priveData_analysis\<close> accepts the
  buffer and yields the control byte, the addresses and the user data of the frame.
\<close>

theorem frame_received:
  assumes "rx_ready st d" "length (s_addr (addr (frame d))) = 8"
    and "length as = k" "uint (s AND 0x0F) + 1 = int k" "11 + k + length user \<le> 1023"
    and "\<forall>(n, b) \<in> set noise. n < 30 \<and> b \<noteq> 0x68"
    and "length gaps = length (mk_frame c s as a user)" "\<forall>n \<in> set gaps. n < 30"
  shows "\<exists>st' d'. get_single_frame_frome_hplc (arrivals noise @ arrivals (zip gaps (mk_frame c s as a user)) @ line) 0 st d = Inl (0, st', d', line)
    \<and> own_addr st' = own_addr st \<and> dataSize d' = length (mk_frame c s as a user)
    \<and> take (dataSize d') (priveData d') = mk_frame c s as a user
    \<and> (k = 6 \<longrightarrow> (\<exists>f. priveData_analysis st' d' = Some (0, d'\<lparr>frame := f\<rparr>)
        \<and> control f = c \<and> sa (addr f) = s \<and> take 6 (s_addr (addr f)) = as \<and> ca (addr f) = a
        \<and> usrData_len f = int (length user) \<and> take (length user) (drop (usrData f) (priveData d')) = user))"
  by (rule receive_and_unpack [OF assms])

text \<open>A receiver after its start, and the address of the module, for the examples.\<close>

definition addr_example :: addr698 where
  "addr_example = \<lparr>sa = 0x05, s_addr = [1, 2, 3, 4, 5, 6, 0, 0], ca = 0, s_addr_len = 6\<rparr>"

definition data_example :: char_data where
  "data_example = \<lparr>frame = \<lparr>head = 0, length0 = 0, length1 = 0, frame_len = 0, control = 0, addr = addr_example, HCS0 = 0, HCS1 = 0, usrData = 0,
     usrData_len = 0, FCS0 = 0, FCS1 = 0, frame_end = 0, frame_apart = 0, time_flag_positon = 0\<rparr>, priveData = replicate 1024 0, data_space = 1024, dataSize = 0\<rparr>"

definition state_example :: state698 where
  "state_example = \<lparr>link_flag = 0, connect_flag = 0, try_link_type = 0, heart_beat_time0 = 0, heart_beat_time1 = 60,
     last_link_requset_time = replicate 10 0, own_addr = addr_example, USART_RX_STA = 0, len_left = 0, len_all = 0, len_sa = 0, FE_no = 0, test_dis_check = False\<rparr>"

lemma ready_example: "rx_ready state_example data_example" "length (s_addr (addr (frame data_example))) = 8" "rx_wf state_example data_example"
  by (simp_all add: rx_ready_def rx_wf_def flag_def state_example_def data_example_def addr_example_def)

theorem frame_received_witness:
  "\<exists>st' d'. get_single_frame_frome_hplc (arrivals [(3, 0xfe), (0, 0x16)] @ arrivals (zip (replicate 19 29) (mk_frame 0x43 0x05 [1, 2, 3, 4, 5, 6] 0x10 [5, 1])) @ [None]) 0
      state_example data_example = Inl (0, st', d', [None])
    \<and> own_addr st' = own_addr state_example \<and> dataSize d' = length (mk_frame 0x43 0x05 [1, 2, 3, 4, 5, 6] 0x10 [5, 1])
    \<and> take (dataSize d') (priveData d') = mk_frame 0x43 0x05 [1, 2, 3, 4, 5, 6] 0x10 [5, 1]
    \<and> ((6 :: nat) = 6 \<longrightarrow> (\<exists>f. priveData_analysis st' d' = Some (0, d'\<lparr>frame := f\<rparr>)
        \<and> control f = 0x43 \<and> sa (addr f) = 0x05 \<and> take 6 (s_addr (addr f)) = [1, 2, 3, 4, 5, 6] \<and> ca (addr f) = 0x10
        \<and> usrData_len f = int (length [5 :: u8, 1]) \<and> take (length [5 :: u8, 1]) (drop (usrData f) (priveData d')) = [5, 1]))"
proof (rule frame_received [OF ready_example(1,2)])
  show "length (replicate 19 (29 :: nat)) = length (mk_frame 0x43 0x05 [1, 2, 3, 4, 5, 6] 0x10 [5, 1])"
    using frame_parts(1) [OF refl refl, of "0x43" "0x05" "[1, 2, 3, 4, 5, 6]" "0x10" "[5, 1]"] by simp
qed simp_all

text \<open>
  C29. The request of the module arrives: when the heartbeat is due and the link is not yet up, or the connection
  stands, \<^verbatim>\<open>link_request_package\<close> returns 0 and the bytes \<^verbatim>\<open>hplc_tx_frame\<close> puts on the line, four bytes 0xFE and the
  frame, are received by a ready receiver at the other end, at any pace below the timeout, as a link request of the
  module's address.  The user data of a heartbeat are those of the protocol.  Those of a login differ from them in one
  byte: the work type is that of a heartbeat, 1, where \<^verbatim>\<open>698.h\<close> has 0 for a login.  The time is always ten bytes 0xFE.
\<close>

theorem link_request_delivered:
  assumes tx: "length (priveData t) = 1024" "data_space t = 1024"
    and own: "s_addr_len (own_addr me) = 6" "length (s_addr (own_addr me)) = 8" "uint (sa (own_addr me) AND 0x0F) = 5"
    and due: "past_time me \<ge> uint (heart_beat_time0 me) * 256 + uint (heart_beat_time1 me) - 5" "link_flag me = 0 \<or> connect_flag me = 1"
    and ready: "rx_ready st d" "length (s_addr (addr (frame d))) = 8" and gaps: "length gaps = 36" "\<forall>n \<in> set gaps. n < 30"
  shows "\<exists>t' me' st' d' f. link_request_package t me = (0, t', me') \<and> length (hplc_tx_frame t') = 36
    \<and> get_single_frame_frome_hplc (arrivals (zip gaps (hplc_tx_frame t'))) 0 st d = Inl (0, st', d', [])
    \<and> priveData_analysis st' d' = Some (0, d'\<lparr>frame := f\<rparr>)
    \<and> control f = 0x81 \<and> sa (addr f) = sa (own_addr me) \<and> take 6 (s_addr (addr f)) = take 6 (s_addr (own_addr me)) \<and> ca (addr f) = 0
    \<and> take 15 (drop (usrData f) (priveData d'))
        = (if link_flag me = 0 then (request_of 0 link_request_load (replicate 10 0xfe) me)[2 := link_request_heart_beat]
           else request_of 1 link_request_heart_beat (replicate 10 0xfe) me)"
proof -
  let ?F = "mk_frame 0x81 (sa (own_addr me)) (take 6 (s_addr (own_addr me))) 0 (request_user me)" and ?as = "take 6 (s_addr (own_addr me))"
  have as: "length ?as = 6" using own by simp
  have u: "length (request_user me) = 15" by (simp add: request_user_def)
  have lF: "length ?F = 32" using frame_parts(1) [OF refl refl, of "0x81" "sa (own_addr me)" ?as 0 "request_user me"] as u by simp
  obtain t' me' where t: "link_request_package t me = (0, t', me')" "holds t' ?F"
    using link_request_frame [OF tx, of me 6] own due by auto
  have h: "hplc_tx_frame t' = replicate 4 0xfe @ ?F" using t(2) by (simp add: hplc_tx_frame_def holds_def numeral_eq_Suc)
  have g: "arrivals (zip gaps (hplc_tx_frame t')) = arrivals (zip (take 4 gaps) (replicate 4 0xfe)) @ arrivals (zip (drop 4 gaps) ?F) @ []"
    unfolding h zip_append2 by (simp add: arrivals_def)
  have n: "\<forall>(n, b) \<in> set (zip (take 4 gaps) (replicate 4 (0xfe :: u8))). n < 30 \<and> b \<noteq> 0x68"
  proof (clarify)
    fix n and b :: u8
    assume "(n, b) \<in> set (zip (take 4 gaps) (replicate 4 (0xfe :: u8)))"
    from set_zip_leftD [OF this] set_zip_rightD [OF this] show "n < 30 \<and> b \<noteq> 0x68" using gaps(2) by (auto dest: in_set_takeD)
  qed
  have "length (drop 4 gaps) = length ?F" "\<forall>n \<in> set (drop 4 gaps). n < 30" using gaps lF by (simp_all add: in_set_dropD)
  moreover have "uint (sa (own_addr me) AND 0x0F) + 1 = int 6" "11 + 6 + length (request_user me) \<le> 1023" using own(3) u by simp_all
  ultimately have "\<exists>st' d' f. get_single_frame_frome_hplc (arrivals (zip gaps (hplc_tx_frame t'))) 0 st d = Inl (0, st', d', [])
    \<and> priveData_analysis st' d' = Some (0, d'\<lparr>frame := f\<rparr>) \<and> control f = 0x81 \<and> sa (addr f) = sa (own_addr me)
    \<and> take 6 (s_addr (addr f)) = ?as \<and> ca (addr f) = 0 \<and> take 15 (drop (usrData f) (priveData d')) = request_user me"
    unfolding g using receive_and_unpack [OF ready as _ _ n, of _ _ "drop 4 gaps" "0x81" 0 "[]"] u by fastforce
  then
  obtain st' d' f where "get_single_frame_frome_hplc (arrivals (zip gaps (hplc_tx_frame t'))) 0 st d = Inl (0, st', d', [])"
    "priveData_analysis st' d' = Some (0, d'\<lparr>frame := f\<rparr>)" "control f = 0x81" "sa (addr f) = sa (own_addr me)" "take 6 (s_addr (addr f)) = ?as" "ca (addr f) = 0"
    "take 15 (drop (usrData f) (priveData d')) = request_user me"
    by blast
  moreover have "length (hplc_tx_frame t') = 36" unfolding h using lF by simp
  ultimately show ?thesis using t(1) unfolding request_user_of by blast
qed

theorem link_request_delivered_witness:
  "\<exists>t' me' st' d' f. link_request_package data_example state_example = (0, t', me') \<and> length (hplc_tx_frame t') = 36
    \<and> get_single_frame_frome_hplc (arrivals (zip (replicate 36 1) (hplc_tx_frame t'))) 0 state_example data_example = Inl (0, st', d', [])
    \<and> priveData_analysis st' d' = Some (0, d'\<lparr>frame := f\<rparr>)
    \<and> control f = 0x81 \<and> sa (addr f) = sa (own_addr state_example) \<and> take 6 (s_addr (addr f)) = take 6 (s_addr (own_addr state_example)) \<and> ca (addr f) = 0
    \<and> take 15 (drop (usrData f) (priveData d'))
        = (if link_flag state_example = 0 then (request_of 0 link_request_load (replicate 10 0xfe) state_example)[2 := link_request_heart_beat]
           else request_of 1 link_request_heart_beat (replicate 10 0xfe) state_example)"
proof (rule link_request_delivered [OF _ _ _ _ _ _ _ ready_example(1,2)])
  show "past_time state_example \<ge> uint (heart_beat_time0 state_example) * 256 + uint (heart_beat_time1 state_example) - 5"
    by code_simp
qed (simp_all add: data_example_def state_example_def addr_example_def)

text \<open>
  C31. A damaged frame is refused: when one byte of a frame between the start byte and the end byte differs from what was
  sent, \<^verbatim>\<open>priveData_analysis\<close> returns -1 and changes nothing.
\<close>

theorem damaged_frame_refused:
  assumes F: "F = mk_frame c s as a user" and i: "1 \<le> i" "i < length F - 1" "b \<noteq> F ! i"
    and d: "take (length F) (priveData d) = F[i := b]" "dataSize d = length F" and st: "\<not> test_dis_check st"
  shows "priveData_analysis st d = Some (- 1, d)"
proof -
  let ?n = "length F" and ?m = "take (length F - 2) (drop 1 F)"
  note f = frame_parts [OF refl F]
  have lm: "length ?m = ?n - 2" using f(1) by simp
  have "take (?n - 2) (drop 1 (priveData d)) = take (?n - 2) (drop 1 (take ?n (priveData d)))" using f(1) by (simp add: drop_take)
  also have "\<dots> = ?m[i - 1 := b]" unfolding d(1) using i(1) by (simp add: drop_update_swap take_update_swap)
  also have "\<dots> = take (i - 1) ?m @ b # drop i ?m" using i lm by (simp add: upd_conv_take_nth_drop)
  finally have p: "take (?n - 2) (drop 1 (priveData d)) = take (i - 1) ?m @ b # drop i ?m" .
  have "?m = take (i - 1) ?m @ ?m ! (i - 1) # drop i ?m" using i lm id_take_nth_drop [of "i - 1" ?m] by simp
  moreover have "?m ! (i - 1) = F ! i" using i by simp
  ultimately have "pppfcs16 PPPINITFCS16 (take (i - 1) ?m @ F ! i # drop i ?m) = PPPGOODFCS16" using f(10) by simp
  moreover have "bit (0x8408 :: u16) 15" by simp
  ultimately have "pppfcs16 PPPINITFCS16 (take (?n - 2) (drop 1 (priveData d))) \<noteq> PPPGOODFCS16"
    unfolding p pppfcs16_bitwise using crc16_detects [OF _ i(3), of "0x8408"] by metis
  moreover have "nat (int ?n - 2) = ?n - 2" "\<not> int ?n - 2 < 0" using f(1) by simp_all
  ultimately have "FCS_698 (priveData d) 1 (int (dataSize d) - 2) = Some (- 2)" by (simp add: FCS_698_def d(2))
  then show ?thesis using st by (simp add: priveData_analysis_def)
qed

theorem damaged_frame_refused_witness:
  "priveData_analysis state_example (data_example\<lparr>priveData := (mk_frame 0x43 0x05 [1, 2, 3, 4, 5, 6] 0x10 [5, 1])[3 := 0x44], dataSize := 19\<rparr>)
    = Some (- 1, data_example\<lparr>priveData := (mk_frame 0x43 0x05 [1, 2, 3, 4, 5, 6] 0x10 [5, 1])[3 := 0x44], dataSize := 19\<rparr>)"
proof -
  note f = frame_parts(1,5) [OF refl refl, of "0x43" "0x05" "[1, 2, 3, 4, 5, 6]" "0x10" "[5, 1]"]
  show ?thesis
    by (rule damaged_frame_refused [OF refl, where i = 3 and c = "0x43" and s = "0x05" and as = "[1, 2, 3, 4, 5, 6]" and a = "0x10" and user = "[5, 1]" and b = "0x44"])
      (use f in \<open>simp_all add: state_example_def\<close>)
qed

lemma complete_frame_checkable:
  assumes "3 \<le> dataSize d"
  shows "priveData_analysis st d \<noteq> None"
  using assms by (simp add: priveData_analysis_def FCS_698_def split: prod.split)

lemma empty_frame_out_of_bounds:
  assumes "dataSize d = 0" "\<not> test_dis_check st"
  shows "priveData_analysis st d = None"
  using assms by (simp add: priveData_analysis_def FCS_698_def)

text \<open>
  A frame whose header check fails clears the buffer, and the same call goes on to the test of the end byte, which it
  reads in front of the buffer: when the end byte stands there, the frame is reported as complete.
\<close>

lemma bad_header_reported:
  assumes "flag st 0x10000000" "\<not> flag st 0x08000000" "int (dataSize d) = 8 + len_sa st" "\<not> test_dis_check st"
    and "HCS_698 (priveData d) 1 (nat (7 + len_sa st)) < 0" "hplc_645_addr_receive d \<noteq> 1" "byte_at d (- 1) = 0x16"
  shows "\<exists>st' d'. rx_body st d = Inl (0, st', d') \<and> dataSize d' = 0"
  using assms by (simp add: rx_body_def rx_header_def Let_def set_flag_def clear_data_def byte_at_def)

text \<open>
  C30. The receiver on any input: whatever the line delivers, the buffer keeps its size, the number of bytes in it stays
  below the size, and a length has been taken over only from a buffer with at least three bytes; the result is -1,
  0 or 1.  A result of 0 comes with at least three bytes of which the last is the end byte, and the analysis of the
  buffer stays within the buffer, with one exception: when the byte in front of the buffer is the end byte, 0 may also be
  returned with an empty buffer, and then the checksum of the analysis runs out of the buffer.
\<close>

theorem receiver_well_formed:
  assumes "rx_wf st d"
  shows "case get_single_frame_frome_hplc line waited st d of
      Inr (_, st', d') \<Rightarrow> rx_wf st' d'
    | Inl (r, st', d', rest) \<Rightarrow> rx_wf st' d' \<and> r \<in> {- 1, 0, 1} \<and> (\<exists>used. line = used @ rest)
        \<and> (r = 0 \<longrightarrow>
             (if dataSize d' = 0 then byte_at d (- 1) = 0x16 \<and> (\<not> test_dis_check st' \<longrightarrow> priveData_analysis st' d' = None)
              else 3 \<le> dataSize d' \<and> priveData d' ! (dataSize d' - 1) = 0x16 \<and> priveData_analysis st' d' \<noteq> None))"
  using assms
proof (induction line waited st d rule: get_single_frame_frome_hplc.induct)
  case (2 Res line waited st d)
  note ok = rx_byte_wf [OF "2.prems"(1), of Res]
  show ?case
  proof (cases "rx_byte Res st d")
    case (Inl x)
    obtain r st1 d1 where x: "x = (r, st1, d1)" by (cases x)
    have "r = 0 \<Longrightarrow> if dataSize d1 = 0 then byte_at d (- 1) = 0x16 else 3 \<le> dataSize d1 \<and> priveData d1 ! (dataSize d1 - 1) = 0x16"
      using ok unfolding Inl x rx_result_ok_def sum.case prod.case by blast
    then show ?thesis using ok complete_frame_checkable [of d1 st1] empty_frame_out_of_bounds [of d1 st1]
      unfolding rx_result_ok_def by (auto simp: Inl x)
  next
    case (Inr x)
    obtain st1 d1 where x: "x = (st1, d1)" by (cases x)
    have h: "rx_wf st1 d1" "frame d1 = frame d" using ok unfolding Inr x rx_result_ok_def by simp_all
    from "2.IH" [OF Inr x [symmetric] h(1)] show ?thesis
      by (auto simp: Inr x byte_before [OF h(2)] intro: exI [of _ "Some Res # _"] split: sum.splits prod.splits if_splits)
  qed
next
  case (3 line waited st d)
  have c: "rx_wf (fst (clear_data st d)) (snd (clear_data st d))" by (rule clear_data_wf [OF "3.prems"(1)])
  show ?case
  proof (cases "waited + 1 = 30")
    case True
    then show ?thesis using c by (auto split: prod.splits)
  next
    case False
    from "3.IH" [OF False "3.prems"] False show ?thesis
      by (auto intro: exI [of _ "None # _"] split: sum.splits prod.splits if_splits)
  qed
qed simp

theorem receiver_well_formed_witness:
  "case get_single_frame_frome_hplc [Some 0x68, None, Some 0xff, Some 0x68] 0 state_example data_example of
      Inr (_, st', d') \<Rightarrow> rx_wf st' d'
    | Inl (r, st', d', rest) \<Rightarrow> rx_wf st' d' \<and> r \<in> {- 1, 0, 1} \<and> (\<exists>used. [Some 0x68, None, Some 0xff, Some 0x68] = used @ rest)
        \<and> (r = 0 \<longrightarrow>
             (if dataSize d' = 0 then byte_at data_example (- 1) = 0x16 \<and> (\<not> test_dis_check st' \<longrightarrow> priveData_analysis st' d' = None)
              else 3 \<le> dataSize d' \<and> priveData d' ! (dataSize d' - 1) = 0x16 \<and> priveData_analysis st' d' \<noteq> None))"
  by (rule receiver_well_formed [OF ready_example(3)])

end
