(* ===== verification/App_Codec.thy ===== *)
theory App_Codec
  imports RT_Prelude "HOL-Library.Product_Lexorder"
begin

text \<open>
  The conversions of \<^verbatim>\<open>applications/global.c\<close>: packed decimals, hexadecimal strings and the time stamp
  in seconds.  A character is its byte; a string is given without its terminating zero.
\<close>

section \<open>Packed decimals\<close>

definition BCD_toInt :: "u8 list \<Rightarrow> u8 list \<Rightarrow> nat \<Rightarrow> u8 list" where
  "BCD_toInt data1 data2 len = fold (\<lambda>i d. d[i := data2 ! i - drop_bit 4 (data2 ! i) * 6]) [0..<len] data1"

definition Int_toBCD :: "u8 list \<Rightarrow> u8 list \<Rightarrow> nat \<Rightarrow> u8 list" where
  "Int_toBCD data1 data2 len = fold (\<lambda>i d. d[i := data2 ! i + data2 ! i div 10 * 6]) [0..<len] data1"

section \<open>Hexadecimal strings\<close>

abbreviation (input) digit :: "u8 \<Rightarrow> bool" where
  "digit c \<equiv> c \<le> 0x39 \<and> c \<ge> 0x30"

abbreviation (input) letter :: "u8 \<Rightarrow> bool" where
  "letter c \<equiv> c \<le> 0x46 \<and> c \<ge> 0x41"

text \<open>The first loop: the number of digits, an 8-bit count, or nothing when another character is met.\<close>

fun str2bcd_count :: "u8 list \<Rightarrow> u8 \<Rightarrow> u8 option" where
  "str2bcd_count [] bnum = Some bnum"
| "str2bcd_count (c # p) bnum =
     (if digit c \<or> letter c then str2bcd_count p (bnum + 1)
      else if c = 0 then Some bnum
      else None)"

definition str2bcd_byte :: "u8 \<Rightarrow> u8 \<Rightarrow> u8" where
  "str2bcd_byte c d =
     (if digit c \<and> digit d then (push_bit 4 (c - 0x30) AND 0xf0) OR ((d - 0x30) AND 0x0f)
      else if digit c \<and> letter d then (push_bit 4 (c - 0x30) AND 0xf0) OR ((d - 0x37) AND 0x0f)
      else if letter c \<and> digit d then (push_bit 4 (c - 0x37) AND 0xf0) OR ((d - 0x30) AND 0x0f)
      else (push_bit 4 (c - 0x37) AND 0xf0) OR ((d - 0x37) AND 0x0f))"

definition str2bcd :: "u8 list \<Rightarrow> u8 list \<Rightarrow> u8 \<times> u8 list" where
  "str2bcd src dest =
     (case str2bcd_count src 0 of
        None \<Rightarrow> (1, dest[0 := 0])
      | Some bnum \<Rightarrow>
          (0, fold (\<lambda>i d. d[i := str2bcd_byte (src ! (2 * i)) (src ! (2 * i + 1))]) [0..<unat (bnum div 2)] (dest[0 := 0])))"

definition bcd2str_pair :: "u8 \<Rightarrow> u8 \<times> u8" where
  "bcd2str_pair b =
     (let t1 = drop_bit 4 b AND 0x0f; t2 = b AND 0x0f
      in if t1 \<le> 0x09 \<and> t2 \<le> 0x09 then ((drop_bit 4 b AND 0x0f) + 0x30, (b AND 0x0f) + 0x30)
         else if t1 \<le> 0x09 \<and> t2 \<ge> 0x0A \<and> t2 \<le> 0x0F then ((drop_bit 4 b AND 0x0f) + 0x30, (b AND 0x0f) + 0x37)
         else if t1 \<ge> 0x0A \<and> t1 \<le> 0x0F \<and> t2 \<le> 0x09 then ((drop_bit 4 b AND 0x0f) + 0x37, (b AND 0x0f) + 0x30)
         else ((drop_bit 4 b AND 0x0f) + 0x37, (b AND 0x0f) + 0x37))"

definition bcd2str :: "u8 list \<Rightarrow> u8 list \<Rightarrow> nat \<Rightarrow> u8 \<times> u8 list" where
  "bcd2str src dest count =
     (0, (fold (\<lambda>i d. (d[2 * i := fst (bcd2str_pair (src ! i))])[2 * i + 1 := snd (bcd2str_pair (src ! i))]) [0..<count] (dest[0 := 0x30]))[2 * count := 0])"

section \<open>Time stamps\<close>

definition Month_Length :: "nat list" where
  "Month_Length = [31, 28, 31, 30, 31, 30, 31, 31, 30, 31, 30, 31]"

definition gYearTable :: "nat list" where
  "gYearTable =
     [0, 366, 731, 1096, 1461, 1827, 2192, 2557, 2922, 3288,
      3653, 4018, 4383, 4749, 5114, 5479, 5844, 6210, 6575, 6940,
      7305, 7671, 8036, 8401, 8766, 9132, 9497, 9862, 10227, 10593,
      10958, 11323, 11688, 12054, 12419, 12784, 13149, 13515, 13880, 14245,
      14610, 14976, 15341, 15706, 16071, 16437, 16802, 17167, 17532, 17898,
      18263, 18628, 18993, 19359, 19724, 20089, 20454, 20820, 21185, 21550,
      21915, 22281, 22646, 23011, 23376, 23742, 24107, 24472, 24837, 25203,
      25568, 25933, 26298, 26664, 27029, 27394, 27759, 28125, 28490, 28855,
      29220, 29586, 29951, 30316, 30681, 31047, 31412, 31777, 32142, 32508,
      32873, 33238, 33603, 33969, 34334, 34699, 35064, 35430, 35795, 36160]"

definition gMonthTable1 :: "nat list" where
  "gMonthTable1 = [0, 31, 59, 90, 120, 151, 181, 212, 243, 273, 304, 334]"

definition gMonthTable2 :: "nat list" where
  "gMonthTable2 = [0, 31, 60, 91, 121, 152, 182, 213, 244, 274, 305, 335]"

text \<open>The value of a packed byte, computed in an 8-bit variable.\<close>

definition bcd_value :: "u8 \<Rightarrow> u8" where
  "bcd_value b = b div 16 * 10 + b mod 16"

text \<open>A year past the table or a month that is none reads outside the tables: \<open>None\<close>.\<close>

definition timebin2long :: "u8 list \<Rightarrow> u32 option" where
  "timebin2long buf =
     (let year = unat (bcd_value (buf ! 5)); month = unat (bcd_value (buf ! 4))
      in if year \<ge> length gYearTable \<or> month = 0 \<or> month > 12 then None
         else
           (let t0 = word_of_nat (gYearTable ! year) :: u32;
                t1 = t0 + word_of_nat ((if year mod 4 = 0 then gMonthTable2 else gMonthTable1) ! (month - 1));
                t2 = (t1 + ucast (bcd_value (buf ! 3) - 1)) * 24;
                t3 = (t2 + ucast (bcd_value (buf ! 2))) * 60;
                t4 = (t3 + ucast (bcd_value (buf ! 1))) * 60
            in Some (t4 + ucast (bcd_value (buf ! 0)))))"

section \<open>Array loops\<close>

lemma fold_update:
  "n \<le> length xs \<Longrightarrow> fold (\<lambda>i d. d[i := f i]) [0..<n] xs = map f [0..<n] @ drop n xs"
proof (induction n)
  case (Suc n)
  then have "drop n xs = xs ! n # drop (Suc n) xs" by (simp add: Cons_nth_drop_Suc)
  then show ?case using Suc by (simp add: list_update_append)
qed simp

lemma concat_pairs_length [simp]: "length (concat (map (\<lambda>i. [g i, h i]) [0..<n])) = 2 * n"
  by (induction n) simp_all

lemma fold_update_pairs:
  "2 * n \<le> length xs \<Longrightarrow> fold (\<lambda>i d. (d[2 * i := g i])[2 * i + 1 := h i]) [0..<n] xs
     = concat (map (\<lambda>i. [g i, h i]) [0..<n]) @ drop (2 * n) xs"
proof (induction n)
  case (Suc n)
  then have "drop (2 * n) xs = xs ! (2 * n) # xs ! (2 * n + 1) # drop (2 * Suc n) xs" by (simp add: Cons_nth_drop_Suc)
  then show ?case using Suc by (simp add: list_update_append)
qed simp

lemma concat_pairs_nth:
  assumes "i < n"
  shows "concat (map (\<lambda>i. [g i, h i]) [0..<n]) ! (2 * i) = g i" "concat (map (\<lambda>i. [g i, h i]) [0..<n]) ! (2 * i + 1) = h i"
  using assms by (induction n) (auto simp: nth_append less_Suc_eq)

section \<open>Packed decimals\<close>

lemma unat_byte: "unat (b :: u8) < 256"
proof -
  have "unat b < 2 ^ LENGTH(8)" by (rule unsigned_less)
  then show ?thesis by simp
qed

lemma byte_eqI: "unat a = unat b \<Longrightarrow> a = b" for a b :: u8
  by (rule unsigned_word_eqI)

text \<open>A byte both of whose halves are decimal digits.\<close>

definition is_bcd :: "u8 \<Rightarrow> bool" where
  "is_bcd b \<longleftrightarrow> unat b div 16 \<le> 9 \<and> unat b mod 16 \<le> 9"

definition to_bcd :: "u8 \<Rightarrow> u8" where
  "to_bcd v = v + v div 10 * 6"

definition from_bcd :: "u8 \<Rightarrow> u8" where
  "from_bcd b = b - drop_bit 4 b * 6"

lemma unat_to_bcd: "unat v < 100 \<Longrightarrow> unat (to_bcd v) = 16 * (unat v div 10) + unat v mod 10"
proof -
  assume v: "unat v < 100"
  then have q: "unat v div 10 * 6 < 256" "unat v + unat v div 10 * 6 < 256" by linarith+
  have "unat (v div 10 * 6) = unat v div 10 * 6" using q(1) by (simp add: unat_word_ariths unat_div)
  then have "unat (to_bcd v) = unat v + unat v div 10 * 6" using q(2) by (simp add: to_bcd_def unat_word_ariths)
  then show ?thesis using div_mult_mod_eq [of "unat v" 10] by linarith
qed

lemma unat_from_bcd: "is_bcd b \<Longrightarrow> unat (from_bcd b) = 10 * (unat b div 16) + unat b mod 16"
proof -
  assume b: "is_bcd b"
  have d: "unat (drop_bit 4 b) = unat b div 16" by (simp add: drop_bit_eq_div unat_div)
  have q: "unat b div 16 * 6 < 256" using b by (simp add: is_bcd_def)
  have "unat (drop_bit 4 b * 6) = unat b div 16 * 6" using q by (simp add: unat_word_ariths d)
  moreover have "drop_bit 4 b * 6 \<le> b" using calculation by (simp add: word_le_nat_alt)
  ultimately have "unat (from_bcd b) = unat b - unat b div 16 * 6" by (simp add: from_bcd_def unat_sub)
  then show ?thesis using div_mult_mod_eq [of "unat b" 16] by linarith
qed

lemma to_from_bcd:
  "unat v < 100 \<Longrightarrow> is_bcd (to_bcd v)" "unat v < 100 \<Longrightarrow> from_bcd (to_bcd v) = v" "is_bcd b \<Longrightarrow> to_bcd (from_bcd b) = b"
proof -
  assume v: "unat v < 100"
  then have q: "unat v div 10 \<le> 9" "unat v mod 10 \<le> 9" by linarith+
  then show t: "is_bcd (to_bcd v)" by (simp add: is_bcd_def unat_to_bcd [OF v])
  have "unat (from_bcd (to_bcd v)) = unat v" unfolding unat_from_bcd [OF t] unat_to_bcd [OF v] using q(2) by simp
  then show "from_bcd (to_bcd v) = v" by (rule byte_eqI)
next
  assume b: "is_bcd b"
  then have "unat (from_bcd b) < 100" by (simp add: unat_from_bcd [OF b]) (simp add: is_bcd_def)
  then have "unat (to_bcd (from_bcd b)) = unat b" using b by (simp add: unat_to_bcd unat_from_bcd [OF b]) (simp add: is_bcd_def)
  then show "to_bcd (from_bcd b) = b" by (rule byte_eqI)
qed

section \<open>Hexadecimal strings\<close>

definition hexchar :: "u8 \<Rightarrow> u8" where
  "hexchar t = (if t \<le> 9 then t + 0x30 else t + 0x37)"

definition hexval :: "u8 \<Rightarrow> u8" where
  "hexval c = (if digit c then c - 0x30 else c - 0x37)"

definition is_hex :: "u8 \<Rightarrow> bool" where
  "is_hex c \<longleftrightarrow> digit c \<or> letter c"

lemma byte_in_range: "m \<le> unat t \<Longrightarrow> unat t < n \<Longrightarrow> t \<in> set (map word_of_nat [m..<n])" for t :: u8
  unfolding list.set_map by (rule image_eqI [of _ _ "unat t"]) simp_all

lemma nibble_hex:
  assumes "t < 16"
  shows "hexval (hexchar t) = t" "is_hex (hexchar t)" "hexchar t \<noteq> 0"
proof -
  have "unat t < 16" using assms by (simp add: word_less_nat_alt)
  then have t: "t \<in> set (map word_of_nat [0..<16])" by (intro byte_in_range) simp_all
  have "list_all (\<lambda>t. hexval (hexchar t) = t \<and> is_hex (hexchar t) \<and> hexchar t \<noteq> 0) (map word_of_nat [0..<16])" by code_simp
  from bspec [OF this [unfolded list_all_iff] t] show "hexval (hexchar t) = t" "is_hex (hexchar t)" "hexchar t \<noteq> 0" by simp_all
qed

lemma hex_nibble:
  assumes "is_hex c"
  shows "hexval c < 16" "hexchar (hexval c) = c"
proof -
  have "0x30 \<le> unat c" "unat c < 0x47" using assms by (auto simp: is_hex_def word_le_nat_alt)
  then have c: "c \<in> set (map word_of_nat [0x30..<0x47])" by (rule byte_in_range)
  have "list_all (\<lambda>c. is_hex c \<longrightarrow> hexval c < 16 \<and> hexchar (hexval c) = c) (map word_of_nat [0x30..<0x47])" by code_simp
  from bspec [OF this [unfolded list_all_iff] c] assms show "hexval c < 16" "hexchar (hexval c) = c" by simp_all
qed

lemma mask4: "(0x0f :: u8) = mask 4" "(0xf0 :: u8) = push_bit 4 (mask 4)"
  by (simp_all add: mask_eq_exp_minus_1)

lemma nibble_iff: "t < 16 \<longleftrightarrow> t AND 0x0f = t" for t :: u8
proof -
  have "t AND 0x0f = take_bit 4 t" unfolding mask4 take_bit_eq_mask ..
  moreover have "take_bit 4 t = t \<longleftrightarrow> take_bit 4 (unat t) = unat t" by (metis unsigned_take_bit_eq unsigned_word_eqI)
  ultimately show ?thesis by (simp add: word_less_nat_alt take_bit_nat_eq_self_iff)
qed

text \<open>A byte and its two halves.\<close>

definition join :: "u8 \<Rightarrow> u8 \<Rightarrow> u8" where
  "join h l = (push_bit 4 h AND 0xf0) OR (l AND 0x0f)"

lemma halves_small: "drop_bit 4 b < (16 :: u8)" "b AND 0x0f < (16 :: u8)"
  unfolding nibble_iff mask4 by (rule bit_eqI; auto simp: bit_simps dest: bit_imp_le_length)+

lemma join_halves: "join (drop_bit 4 b) (b AND 0x0f) = b"
  unfolding join_def mask4 by (rule bit_eqI) (auto simp: bit_simps)

lemma halves_join:
  assumes "h < 16" "l < 16"
  shows "drop_bit 4 (join h l) = h" "join h l AND 0x0f = l"
proof -
  have "h = h AND mask 4" "l = l AND mask 4" using assms by (simp_all add: nibble_iff mask4)
  then have "bit h n \<Longrightarrow> n < 4" "bit l n \<Longrightarrow> n < 4" for n by (metis bit_and_iff bit_mask_iff)+
  then show "drop_bit 4 (join h l) = h" "join h l AND 0x0f = l"
    unfolding join_def mask4 by (intro bit_eqI; fastforce simp: bit_simps)+
qed

lemma str2bcd_byte_hex: "is_hex c \<Longrightarrow> is_hex d \<Longrightarrow> str2bcd_byte c d = join (hexval c) (hexval d)"
  by (auto simp: str2bcd_byte_def join_def hexval_def is_hex_def)

lemma bcd2str_pair_hex: "bcd2str_pair b = (hexchar (drop_bit 4 b), hexchar (b AND 0x0f))"
proof -
  have "drop_bit 4 b AND 0x0f = drop_bit 4 b" using halves_small(1) nibble_iff by simp
  moreover have "9 < t \<Longrightarrow> 10 \<le> t" "t < 16 \<Longrightarrow> t \<le> 15" for t :: u8 by (simp_all add: word_less_nat_alt word_le_nat_alt)
  ultimately show ?thesis using halves_small [of b] by (auto simp: bcd2str_pair_def hexchar_def Let_def not_le)
qed

text \<open>The digits are counted up to the terminating zero.\<close>

lemma str2bcd_count_hex:
  "\<forall>c \<in> set cs. is_hex c \<Longrightarrow> rest = [] \<or> hd rest = 0 \<Longrightarrow> str2bcd_count (cs @ rest) n = Some (n + word_of_nat (length cs))"
proof (induction cs arbitrary: n)
  case Nil
  then show ?case by (cases rest) auto
next
  case (Cons c cs)
  then have "digit c \<or> letter c" by (simp add: is_hex_def)
  then show ?case using Cons by (simp add: add_ac)
qed

lemma str2bcd_count_bad: "str2bcd_count cs n = None \<longleftrightarrow> (\<exists>c \<in> set (takeWhile (\<lambda>c. c \<noteq> 0) cs). \<not> is_hex c)"
  by (induction cs arbitrary: n) (auto simp: is_hex_def)

lemma str2bcd_hex:
  assumes hex: "\<forall>c \<in> set cs. is_hex c" and len: "length cs = 2 * n" "n < 128" "n \<le> length dest" "0 < n"
    and rest: "rest = [] \<or> hd rest = 0"
  shows "str2bcd (cs @ rest) dest = (0, map (\<lambda>i. join (hexval (cs ! (2 * i))) (hexval (cs ! (2 * i + 1)))) [0..<n] @ drop n dest)"
proof -
  have "unat (word_of_nat (2 * n) :: u8) = 2 * n" using len(2) by (simp only: unat_of_nat) simp
  then have "unat (word_of_nat (2 * n) div 2 :: u8) = n" by (simp only: unat_div) simp
  then have c: "str2bcd_count (cs @ rest) 0 = Some (word_of_nat (2 * n))" "unat (word_of_nat (2 * n) div 2 :: u8) = n"
    using str2bcd_count_hex [OF hex rest, of 0] len(1) by simp_all
  let ?f = "\<lambda>i. str2bcd_byte ((cs @ rest) ! (2 * i)) ((cs @ rest) ! (2 * i + 1))"
  have "?f i = join (hexval (cs ! (2 * i))) (hexval (cs ! (2 * i + 1)))" if "i < n" for i
    using that len(1) hex by (simp add: nth_append str2bcd_byte_hex)
  then have m: "map ?f [0..<n] = map (\<lambda>i. join (hexval (cs ! (2 * i))) (hexval (cs ! (2 * i + 1)))) [0..<n]" by simp
  have "fold (\<lambda>i d. d[i := ?f i]) [0..<n] (dest[0 := 0]) = map ?f [0..<n] @ drop n (dest[0 := 0])" using len(3) by (intro fold_update) simp
  also have "drop n (dest[0 := 0]) = drop n dest" using len(4) by simp
  finally show ?thesis unfolding str2bcd_def c(1) option.case c(2) m by simp
qed

lemma bcd2str_hex:
  assumes "n = length xs" "2 * n < length dest"
  shows "bcd2str xs dest n = (0, concat (map (\<lambda>i. [hexchar (drop_bit 4 (xs ! i)), hexchar (xs ! i AND 0x0f)]) [0..<n]) @ 0 # drop (2 * n + 1) dest)"
proof -
  have "drop (2 * n) (dest[0 := 0x30]) = dest[0 := 0x30] ! (2 * n) # drop (2 * n + 1) (dest[0 := 0x30])"
    using Cons_nth_drop_Suc [of "2 * n" "dest[0 := 0x30]"] assms(2) by simp
  then show ?thesis using assms(2) fold_update_pairs [of n "dest[0 := 0x30]"]
    by (simp add: bcd2str_def bcd2str_pair_hex list_update_append)
qed

section \<open>Time stamps\<close>

definition year_length :: "nat \<Rightarrow> nat" where
  "year_length y = (if y mod 4 = 0 then 366 else 365)"

definition month_length :: "nat \<Rightarrow> nat \<Rightarrow> nat" where
  "month_length y m = Month_Length ! (m - 1) + (if m = 2 \<and> y mod 4 = 0 then 1 else 0)"

definition days_before_year :: "nat \<Rightarrow> nat" where
  "days_before_year y = sum_list (map year_length [0..<y])"

definition days_before_month :: "nat \<Rightarrow> nat \<Rightarrow> nat" where
  "days_before_month y m = sum_list (map (month_length y) [1..<m])"

lemma year_table_step:
  assumes "y < 99"
  shows "gYearTable ! Suc y = gYearTable ! y + year_length y"
proof -
  have l: "length gYearTable = 100" by (simp add: gYearTable_def)
  have "list_all (\<lambda>(y, a, b). b = a + year_length y) (zip [0..<99] (zip gYearTable (tl gYearTable)))"
    unfolding gYearTable_def year_length_def by (simp add: upt_conv_Cons)
  moreover have "zip [0..<99] (zip gYearTable (tl gYearTable)) ! y = (y, gYearTable ! y, gYearTable ! Suc y)"
    using assms l by (simp add: nth_tl)
  moreover have "y < length (zip [0..<99] (zip gYearTable (tl gYearTable)))" using assms l by simp
  ultimately show ?thesis unfolding list_all_length by fastforce
qed

lemma year_table: "y < 100 \<Longrightarrow> gYearTable ! y = days_before_year y"
proof (induction y)
  case (Suc y)
  have "gYearTable ! Suc y = gYearTable ! y + year_length y" using year_table_step [of y] Suc.prems by simp
  then show ?case using Suc by (simp add: days_before_year_def)
qed (simp add: gYearTable_def days_before_year_def)

lemma month_tables:
  assumes "1 \<le> m" "m \<le> 12"
  shows "(if y mod 4 = 0 then gMonthTable2 else gMonthTable1) ! (m - 1) = days_before_month y m"
proof -
  have "list_all (\<lambda>m. (if y mod 4 = 0 then gMonthTable2 else gMonthTable1) ! (m - 1) = days_before_month y m) [1..<13]"
    by (simp add: gMonthTable1_def gMonthTable2_def days_before_month_def month_length_def Month_Length_def upt_conv_Cons)
  moreover have "m \<in> set [1..<13]" using assms by (simp only: set_upt atLeastLessThan_iff) simp
  ultimately show ?thesis by (simp only: list_all_iff)
qed

text \<open>The date and time a buffer of packed bytes stands for, and the seconds from the first of January 2000 to it.\<close>

definition bcd_nat :: "u8 \<Rightarrow> nat" where
  "bcd_nat b = 10 * (unat b div 16) + unat b mod 16"

definition stamp :: "u8 list \<Rightarrow> nat \<times> nat \<times> nat \<times> nat \<times> nat \<times> nat" where
  "stamp buf = (bcd_nat (buf ! 5), bcd_nat (buf ! 4), bcd_nat (buf ! 3), bcd_nat (buf ! 2), bcd_nat (buf ! 1), bcd_nat (buf ! 0))"

definition date_ok :: "nat \<times> nat \<times> nat \<times> nat \<times> nat \<times> nat \<Rightarrow> bool" where
  "date_ok = (\<lambda>(y, mo, d, h, mi, s). y < 100 \<and> 1 \<le> mo \<and> mo \<le> 12 \<and> 1 \<le> d \<and> d \<le> month_length y mo \<and> h < 24 \<and> mi < 60 \<and> s < 60)"

definition seconds :: "nat \<times> nat \<times> nat \<times> nat \<times> nat \<times> nat \<Rightarrow> nat" where
  "seconds = (\<lambda>(y, mo, d, h, mi, s). (((days_before_year y + days_before_month y mo + (d - 1)) * 24 + h) * 60 + mi) * 60 + s)"

lemma unat_bcd_value: "is_bcd b \<Longrightarrow> unat (bcd_value b) = bcd_nat b" "is_bcd b \<Longrightarrow> bcd_nat b < 100"
proof -
  assume b: "is_bcd b"
  then have q: "unat b div 16 * 10 < 256" "unat b div 16 * 10 + unat b mod 16 < 256" by (auto simp: is_bcd_def)
  have "unat (b div 16 * 10) = unat b div 16 * 10" using q(1) by (simp add: unat_word_ariths unat_div)
  then show "unat (bcd_value b) = bcd_nat b" using q(2) by (simp add: bcd_value_def bcd_nat_def unat_word_ariths unat_mod)
  show "bcd_nat b < 100" using b by (auto simp: is_bcd_def bcd_nat_def)
qed

lemma days_before_year_mono: "y < y' \<Longrightarrow> days_before_year y + year_length y \<le> days_before_year y'"
proof (induction y')
  case (Suc n)
  then show ?case by (cases "y = n") (auto simp: days_before_year_def)
qed simp

lemma days_before_month_mono: "1 \<le> m \<Longrightarrow> m < m' \<Longrightarrow> days_before_month y m + month_length y m \<le> days_before_month y m'"
proof (induction m')
  case (Suc n)
  then show ?case by (cases "m = n") (auto simp: days_before_month_def)
qed simp

lemma days_before_month_13: "days_before_month y 13 = year_length y"
  by (simp add: days_before_month_def month_length_def Month_Length_def year_length_def upt_conv_Cons)

lemma day_in_year:
  assumes "1 \<le> m" "m \<le> 12" "1 \<le> d" "d \<le> month_length y m"
  shows "days_before_month y m + (d - 1) < year_length y"
proof -
  have "days_before_month y m + month_length y m \<le> days_before_month y 13" using assms by (intro days_before_month_mono) simp_all
  then show ?thesis using assms unfolding days_before_month_13 by linarith
qed

lemma days_bound: "date_ok (y, mo, d, h, mi, s) \<Longrightarrow> days_before_year y + days_before_month y mo + (d - 1) < 36525"
proof -
  assume v: "date_ok (y, mo, d, h, mi, s)"
  have "days_before_year y + year_length y \<le> days_before_year 100" using v by (intro days_before_year_mono) (simp add: date_ok_def)
  also have "\<dots> = days_before_year 99 + year_length 99" using upt_Suc_append [of 0 99] by (simp add: days_before_year_def)
  also have "\<dots> = 36525" using year_table [of 99] by (simp add: gYearTable_def year_length_def)
  finally show ?thesis using day_in_year [of mo d y] v by (simp add: date_ok_def)
qed

lemma seconds_bound:
  assumes "date_ok t"
  shows "seconds t < 2 ^ 32"
proof -
  obtain y mo d h mi s where t: "t = (y, mo, d, h, mi, s)" by (cases t)
  have "days_before_year y + days_before_month y mo + (d - 1) < 36525" "h < 24" "mi < 60" "s < 60"
    using assms days_bound by (auto simp: t date_ok_def)
  then show ?thesis by (simp add: t seconds_def)
qed

lemma seconds_less:
  assumes "date_ok t" "date_ok t'" "t < t'"
  shows "seconds t < seconds t'"
proof -
  obtain y mo d h mi s where t: "t = (y, mo, d, h, mi, s)" by (cases t)
  obtain y' mo' d' h' mi' s' where t': "t' = (y', mo', d', h', mi', s')" by (cases t')
  let ?D = "days_before_year y + days_before_month y mo + (d - 1)" and ?D' = "days_before_year y' + days_before_month y' mo' + (d' - 1)"
  have v: "y < 100" "1 \<le> mo" "mo \<le> 12" "1 \<le> d" "d \<le> month_length y mo" "h < 24" "mi < 60" "s < 60"
    and v': "1 \<le> mo'" "1 \<le> d'" "h' < 24" "mi' < 60" "s' < 60" using assms(1,2) by (simp_all add: t t' date_ok_def)
  have "?D < ?D' \<or> ?D = ?D' \<and> (h, mi, s) < (h', mi', s')"
  proof -
    consider "y < y'" | "y = y'" "mo < mo'" | "y = y'" "mo = mo'" "d < d'" | "y = y'" "mo = mo'" "d = d'" "(h, mi, s) < (h', mi', s')"
      using assms(3) by (auto simp: t t' less_prod_def')
    then show ?thesis
    proof cases
      case 1
      then show ?thesis using days_before_year_mono [of y y'] day_in_year [OF v(2-5)] by linarith
    next
      case 2
      have "days_before_month y mo + month_length y mo \<le> days_before_month y mo'" by (rule days_before_month_mono [OF v(2) 2(2)])
      then show ?thesis using v(4,5) unfolding 2(1) by linarith
    next
      case 3
      then have "d - 1 < d' - 1" using v(4) by linarith
      then show ?thesis unfolding 3(1,2) by linarith
    qed simp
  qed
  then show ?thesis using v(6-8) v'(3-5) by (auto simp: t t' seconds_def less_prod_def')
qed

lemma timebin2long_seconds:
  assumes bcd: "\<forall>i < 6. is_bcd (buf ! i)" and ok: "date_ok (stamp buf)"
  shows "timebin2long buf = Some (word_of_nat (seconds (stamp buf)))"
proof -
  let ?v = "\<lambda>i. bcd_nat (buf ! i)"
  have b: "unat (bcd_value (buf ! i)) = ?v i" if "i < 6" for i using unat_bcd_value(1) bcd that by simp
  have u: "(ucast (bcd_value (buf ! i)) :: u32) = word_of_nat (?v i)" if "i < 6" for i unfolding b [OF that, symmetric] by simp
  have b5: "unat (bcd_value (buf ! 5)) = ?v 5" "unat (bcd_value (buf ! 4)) = ?v 4" by (rule b; simp)+
  have u3: "(ucast (bcd_value (buf ! 2)) :: u32) = word_of_nat (?v 2)" "(ucast (bcd_value (buf ! 1)) :: u32) = word_of_nat (?v 1)"
    "(ucast (bcd_value (buf ! 0)) :: u32) = word_of_nat (?v 0)" by (rule u; simp)+
  have y: "?v 5 < 100" and m: "1 \<le> ?v 4" "?v 4 \<le> 12" and d: "1 \<le> ?v 3" using ok by (simp_all add: stamp_def date_ok_def)
  have "1 \<le> bcd_value (buf ! 3)" using d b [of 3] by (simp add: word_le_nat_alt)
  then have "unat (bcd_value (buf ! 3) - 1) = ?v 3 - 1" using b [of 3] by (simp add: unat_sub)
  then have dd: "(ucast (bcd_value (buf ! 3) - 1) :: u32) = word_of_nat (?v 3 - 1)" by (metis of_nat_unat)
  have l: "length gYearTable = 100" by (simp add: gYearTable_def)
  have c: "\<not> (?v 5 \<ge> length gYearTable \<or> ?v 4 = 0 \<or> ?v 4 > 12)" using y m l by simp
  have "timebin2long buf = Some ((((word_of_nat (days_before_year (?v 5)) + word_of_nat (days_before_month (?v 5) (?v 4))
      + word_of_nat (?v 3 - 1)) * 24 + word_of_nat (?v 2)) * 60 + word_of_nat (?v 1)) * 60 + word_of_nat (?v 0))"
    unfolding timebin2long_def Let_def b5 if_not_P [OF c] u3 dd year_table [OF y] month_tables [OF m] ..
  also have "\<dots> = Some (word_of_nat (seconds (stamp buf)))" by (simp add: seconds_def stamp_def)
  finally show ?thesis .
qed

section \<open>Correctness\<close>

lemma is_hex_alt: "is_hex c \<longleftrightarrow> 0x30 \<le> c \<and> c \<le> 0x39 \<or> 0x41 \<le> c \<and> c \<le> 0x46"
  unfolding is_hex_def by blast

lemma BCD_arrays:
  assumes "len \<le> length data1"
  shows "Int_toBCD data1 data2 len = map (\<lambda>i. to_bcd (data2 ! i)) [0..<len] @ drop len data1"
    "BCD_toInt data1 data2 len = map (\<lambda>i. from_bcd (data2 ! i)) [0..<len] @ drop len data1"
  using fold_update [OF assms] by (simp_all add: Int_toBCD_def BCD_toInt_def to_bcd_def from_bcd_def)

lemma hex_string_back:
  assumes "length xs < 128" "xs \<noteq> []" "2 * length xs < length dest" "length xs \<le> length dest2"
  shows "str2bcd (snd (bcd2str xs dest (length xs))) dest2 = (0, xs @ drop (length xs) dest2)"
proof -
  let ?n = "length xs"
  let ?cs = "concat (map (\<lambda>i. [hexchar (drop_bit 4 (xs ! i)), hexchar (xs ! i AND 0x0f)]) [0..<?n])"
  have h: "\<forall>c \<in> set ?cs. is_hex c" using nibble_hex(2) halves_small by auto
  have "map (\<lambda>i. join (hexval (?cs ! (2 * i))) (hexval (?cs ! (2 * i + 1)))) [0..<?n] = map (\<lambda>i. xs ! i) [0..<?n]"
    by (rule map_cong [OF refl]) (simp add: concat_pairs_nth concat_pairs_nth(2) [simplified] nibble_hex(1) halves_small join_halves)
  then have "map (\<lambda>i. join (hexval (?cs ! (2 * i))) (hexval (?cs ! (2 * i + 1)))) [0..<?n] = xs" by (simp add: map_nth)
  then show ?thesis
    unfolding bcd2str_hex [OF refl assms(3)] snd_conv
    using str2bcd_hex [OF h concat_pairs_length assms(1,4), of "0 # drop (2 * ?n + 1) dest"] assms(2) by simp
qed

lemma hex_string_forth:
  assumes "\<forall>c \<in> set cs. is_hex c" "length cs = 2 * n" "0 < n" "n < 128" "n \<le> length dest" "2 * n < length dest2"
  shows "fst (str2bcd cs dest) = 0"
    "snd (bcd2str (take n (snd (str2bcd cs dest))) dest2 n) = cs @ 0 # drop (2 * n + 1) dest2"
proof -
  let ?b = "\<lambda>i. join (hexval (cs ! (2 * i))) (hexval (cs ! (2 * i + 1)))"
  have r: "str2bcd cs dest = (0, map ?b [0..<n] @ drop n dest)"
    using str2bcd_hex [OF assms(1,2,4,5,3), of "[]"] by simp
  then show "fst (str2bcd cs dest) = 0" by simp
  have t: "take n (snd (str2bcd cs dest)) = map ?b [0..<n]" by (simp add: r)
  have v: "is_hex (cs ! (2 * i))" "is_hex (cs ! (2 * i + 1))" if "i < n" for i using that assms(1,2) by simp_all
  have "concat (map (\<lambda>i. [hexchar (drop_bit 4 (map ?b [0..<n] ! i)), hexchar (map ?b [0..<n] ! i AND 0x0f)]) [0..<n])
      = concat (map (\<lambda>i. [cs ! (2 * i), cs ! (2 * i + 1)]) [0..<n])"
    by (rule arg_cong [of _ _ concat], rule map_cong [OF refl]) (simp add: halves_join hex_nibble v v(2) [simplified])
  also have "\<dots> = cs"
  proof (rule nth_equalityI)
    fix k assume "k < length (concat (map (\<lambda>i. [cs ! (2 * i), cs ! (2 * i + 1)]) [0..<n]))"
    then have "k < 2 * n" by simp
    then obtain q where q: "q < n" and k: "k = 2 * q \<or> k = 2 * q + 1" by (intro that [of "k div 2"]) presburger+
    note e = concat_pairs_nth [OF q, of "\<lambda>i. cs ! (2 * i)" "\<lambda>i. cs ! (2 * i + 1)"]
    show "concat (map (\<lambda>i. [cs ! (2 * i), cs ! (2 * i + 1)]) [0..<n]) ! k = cs ! k" using k
    proof
      assume "k = 2 * q"
      then show ?thesis by (simp only: e(1))
    next
      assume "k = 2 * q + 1"
      then show ?thesis by (simp only: e(2))
    qed
  qed (simp add: assms(2))
  finally show "snd (bcd2str (take n (snd (str2bcd cs dest))) dest2 n) = cs @ 0 # drop (2 * n + 1) dest2"
    unfolding t using bcd2str_hex [of n "map ?b [0..<n]" dest2] assms(6) by simp
qed

lemma long_string_cut:
  assumes hex: "\<forall>c \<in> set cs. is_hex c" and n: "length cs = 2 * n" "128 \<le> n" "n < 256" "n \<le> length dest"
  shows "fst (str2bcd cs dest) = 0" "drop (n - 128) (snd (str2bcd cs dest)) = drop (n - 128) (dest[0 := 0])"
proof -
  have c: "str2bcd_count cs 0 = Some (word_of_nat (2 * n))" using str2bcd_count_hex [OF hex, of "[]" 0] n(1) by simp
  have "2 * n mod 256 = 2 * (n - 128)" using n(2,3) by (simp add: mod_if) linarith
  then have "unat (word_of_nat (2 * n) :: u8) = 2 * (n - 128)" by (simp add: unat_of_nat del: of_nat_mult)
  then have u: "unat (word_of_nat (2 * n) div 2 :: u8) = n - 128" by (simp add: unat_div del: of_nat_mult)
  have l: "n - 128 \<le> length (dest[0 := 0])" using n(4) by simp
  show "fst (str2bcd cs dest) = 0" by (simp add: str2bcd_def c)
  show "drop (n - 128) (snd (str2bcd cs dest)) = drop (n - 128) (dest[0 := 0])"
    using fold_update [OF l] by (simp add: str2bcd_def c u del: of_nat_mult)
qed

text \<open>
  C26. The conversions of decimals and strings undo each other.  Numbers below one hundred survive the
  packing into decimal bytes and the unpacking, packed bytes the unpacking and packing, and the rest of the
  target array is kept.  Up to 127 bytes a byte string printed as hexadecimal digits is read back unchanged, and
  so is a string of upper case hexadecimal digits of even length when it is packed and printed again.  From
  128 bytes on the 8-bit digit counter wraps: a string of 2n digits is accepted, but only its first n - 128
  bytes are converted.  A string with any other character is refused with code 1, also one that starts with 0X.
\<close>

theorem conversions_roundtrip:
  assumes dest: "2 * n < length dest" "n \<le> length dest2" and n: "0 < n" "n < 256"
  shows "(length vs = n \<and> (\<forall>v \<in> set vs. unat v < 100) \<longrightarrow>
           BCD_toInt dest2 (Int_toBCD dest2 vs n) n = vs @ drop n dest2)
    \<and> (length bs = n \<and> (\<forall>b \<in> set bs. unat b div 16 \<le> 9 \<and> unat b mod 16 \<le> 9) \<longrightarrow>
           Int_toBCD dest2 (BCD_toInt dest2 bs n) n = bs @ drop n dest2)
    \<and> (n < 128 \<and> length xs = n \<longrightarrow> str2bcd (snd (bcd2str xs dest n)) dest2 = (0, xs @ drop n dest2))
    \<and> (length cs = 2 * n \<and> (\<forall>c \<in> set cs. 0x30 \<le> c \<and> c \<le> 0x39 \<or> 0x41 \<le> c \<and> c \<le> 0x46) \<longrightarrow>
           fst (str2bcd cs dest2) = 0
           \<and> (if n < 128 then take (2 * n + 1) (snd (bcd2str (take n (snd (str2bcd cs dest2))) dest n)) = cs @ [0]
              else drop (n - 128) (snd (str2bcd cs dest2)) = drop (n - 128) (dest2[0 := 0])))
    \<and> (fst (str2bcd s dest2) = 1 \<longleftrightarrow>
         (\<exists>c \<in> set (takeWhile (\<lambda>c. c \<noteq> 0) s). \<not> (0x30 \<le> c \<and> c \<le> 0x39 \<or> 0x41 \<le> c \<and> c \<le> 0x46)))
    \<and> fst (str2bcd (0x30 # 0x58 # s) dest2) = 1"
proof (intro conjI impI)
  assume v: "length vs = n \<and> (\<forall>v \<in> set vs. unat v < 100)"
  have "BCD_toInt dest2 (Int_toBCD dest2 vs n) n = map (\<lambda>i. from_bcd (to_bcd (vs ! i))) [0..<n] @ drop n dest2"
    unfolding BCD_arrays [OF dest(2)] by (simp add: nth_append)
  also have "map (\<lambda>i. from_bcd (to_bcd (vs ! i))) [0..<n] = map (\<lambda>i. vs ! i) [0..<n]"
    by (rule map_cong [OF refl]) (use v in \<open>simp add: to_from_bcd(2)\<close>)
  finally show "BCD_toInt dest2 (Int_toBCD dest2 vs n) n = vs @ drop n dest2" using v by (auto simp: map_nth)
next
  assume b: "length bs = n \<and> (\<forall>b \<in> set bs. unat b div 16 \<le> 9 \<and> unat b mod 16 \<le> 9)"
  have "Int_toBCD dest2 (BCD_toInt dest2 bs n) n = map (\<lambda>i. to_bcd (from_bcd (bs ! i))) [0..<n] @ drop n dest2"
    unfolding BCD_arrays [OF dest(2)] by (simp add: nth_append)
  also have "map (\<lambda>i. to_bcd (from_bcd (bs ! i))) [0..<n] = map (\<lambda>i. bs ! i) [0..<n]"
    by (rule map_cong [OF refl]) (use b in \<open>simp add: to_from_bcd(3) is_bcd_def\<close>)
  finally show "Int_toBCD dest2 (BCD_toInt dest2 bs n) n = bs @ drop n dest2" using b by (auto simp: map_nth)
next
  assume "n < 128 \<and> length xs = n"
  then show "str2bcd (snd (bcd2str xs dest n)) dest2 = (0, xs @ drop n dest2)"
    using hex_string_back [of xs dest dest2] assms by auto
next
  assume c: "length cs = 2 * n \<and> (\<forall>c \<in> set cs. 0x30 \<le> c \<and> c \<le> 0x39 \<or> 0x41 \<le> c \<and> c \<le> 0x46)"
  then have h: "\<forall>c \<in> set cs. is_hex c" unfolding is_hex_alt by blast
  note l = conjunct1 [OF c]
  show "fst (str2bcd cs dest2) = 0"
    using hex_string_forth(1) [OF h l n(1) _ dest(2,1)] long_string_cut(1) [OF h l _ n(2) dest(2)] by (cases "n < 128") simp_all
  show "if n < 128 then take (2 * n + 1) (snd (bcd2str (take n (snd (str2bcd cs dest2))) dest n)) = cs @ [0]
      else drop (n - 128) (snd (str2bcd cs dest2)) = drop (n - 128) (dest2[0 := 0])"
    using hex_string_forth(2) [OF h l n(1) _ dest(2,1)] long_string_cut(2) [OF h l _ n(2) dest(2)] l by simp
next
  have f: "fst (str2bcd s dest2) = 1 \<longleftrightarrow> str2bcd_count s 0 = None" by (cases "str2bcd_count s 0") (simp_all add: str2bcd_def)
  show "fst (str2bcd s dest2) = 1 \<longleftrightarrow>
         (\<exists>c \<in> set (takeWhile (\<lambda>c. c \<noteq> 0) s). \<not> (0x30 \<le> c \<and> c \<le> 0x39 \<or> 0x41 \<le> c \<and> c \<le> 0x46))"
    unfolding f str2bcd_count_bad is_hex_alt ..
  have "str2bcd_count (0x30 # 0x58 # s) 0 = None" unfolding str2bcd_count_bad by (rule bexI [of _ "0x58"]) (simp_all add: is_hex_def)
  then show "fst (str2bcd (0x30 # 0x58 # s) dest2) = 1" by (simp add: str2bcd_def)
qed

theorem conversions_roundtrip_witness:
  "str2bcd (snd (bcd2str [0x4f, 0xa1] [0, 0, 0, 0, 0] 2)) [0, 0] = (0, [0x4f, 0xa1])
   \<and> BCD_toInt [0, 0] (Int_toBCD [0, 0] [59, 7] 2) 2 = [59, 7]"
  using conversions_roundtrip [of 2 "[0, 0, 0, 0, 0]" "[0, 0]" "[59, 7]" "[]" "[0x4f, 0xa1]" "[]" "[]"] by simp

text \<open>
  C27. The time stamp of a valid date and time in packed decimals, year 2000 to 2099, is the number of seconds
  since the first of January 2000 by the calendar with a leap year every fourth year; it does not
  overflow 32 bits, and later times have larger stamps.
\<close>

theorem timestamps_correct:
  assumes "\<forall>i < 6. unat (buf ! i) div 16 \<le> 9 \<and> unat (buf ! i) mod 16 \<le> 9" "date_ok (stamp buf)"
  shows "(\<exists>t. timebin2long buf = Some t \<and> unat t = seconds (stamp buf))
    \<and> ((\<forall>i < 6. unat (buf' ! i) div 16 \<le> 9 \<and> unat (buf' ! i) mod 16 \<le> 9) \<and> date_ok (stamp buf') \<and> stamp buf < stamp buf' \<longrightarrow>
         (\<exists>t t'. timebin2long buf = Some t \<and> timebin2long buf' = Some t' \<and> t < t'))"
proof (intro conjI impI)
  have u: "unat (word_of_nat (seconds x) :: u32) = seconds x" if "date_ok x" for x
    using seconds_bound [OF that] by (simp add: unat_of_nat)
  have b: "\<forall>i < 6. is_bcd (buf ! i)" using assms(1) by (simp add: is_bcd_def)
  note t = timebin2long_seconds [OF b assms(2)]
  show "\<exists>t. timebin2long buf = Some t \<and> unat t = seconds (stamp buf)" using t u [OF assms(2)] by simp
  assume a: "(\<forall>i < 6. unat (buf' ! i) div 16 \<le> 9 \<and> unat (buf' ! i) mod 16 \<le> 9) \<and> date_ok (stamp buf') \<and> stamp buf < stamp buf'"
  then have b': "\<forall>i < 6. is_bcd (buf' ! i)" and ok: "date_ok (stamp buf')" by (simp_all add: is_bcd_def)
  have "word_of_nat (seconds (stamp buf)) < (word_of_nat (seconds (stamp buf')) :: u32)"
    using seconds_less [OF assms(2) ok] a by (simp only: word_less_nat_alt u [OF assms(2)] u [OF ok])
  then show "\<exists>t t'. timebin2long buf = Some t \<and> timebin2long buf' = Some t' \<and> t < t'"
    using t timebin2long_seconds [OF b' ok] by blast
qed

theorem timestamps_correct_witness:
  "\<exists>t t'. timebin2long [0x59, 0x59, 0x23, 0x29, 0x02, 0x20] = Some t \<and> timebin2long [0x00, 0x00, 0x00, 0x01, 0x03, 0x20] = Some t' \<and> t < t'"
proof -
  let ?b = "[0x59, 0x59, 0x23, 0x29, 0x02, 0x20] :: u8 list" and ?b' = "[0x00, 0x00, 0x00, 0x01, 0x03, 0x20] :: u8 list"
  have st: "stamp ?b = (20, 2, 29, 23, 59, 59)" "stamp ?b' = (20, 3, 1, 0, 0, 0)" by (simp_all add: stamp_def bcd_nat_def)
  have ok: "date_ok (stamp ?b)" "date_ok (stamp ?b')" "stamp ?b < stamp ?b'"
    unfolding st by (simp_all add: date_ok_def month_length_def Month_Length_def)
  have p: "\<forall>i < 6. unat (c ! i) div 16 \<le> 9 \<and> unat (c ! i) mod 16 \<le> 9"
    if "length c = 6" "\<forall>x \<in> set c. unat x div 16 \<le> 9 \<and> unat x mod 16 \<le> 9" for c :: "u8 list" using that nth_mem by metis
  have "\<forall>i < 6. unat (?b ! i) div 16 \<le> 9 \<and> unat (?b ! i) mod 16 \<le> 9" by (rule p) simp_all
  moreover have "\<forall>i < 6. unat (?b' ! i) div 16 \<le> 9 \<and> unat (?b' ! i) mod 16 \<le> 9" by (rule p) simp_all
  ultimately show ?thesis using timestamps_correct [of ?b ?b'] ok by blast
qed

end
