(* ===== verification/App_Pile.thy ===== *)
theory App_Pile
  imports RT_Event
begin

text \<open>
  The charging pile of \<^verbatim>\<open>applications/chargepile.c\<close>: the frames the router exchanges with the charging controller over
  the CAN bus, the state machine of a charging session, and the commands of the rest of the firmware.  The global
  variables of the file are the fields of one record.  The frames written to the bus are collected in the field
  \<^verbatim>\<open>can_out\<close>; an access outside an object sets the field \<^verbatim>\<open>wild\<close>.  The pauses between the frames of a long message and the
  log output are not modelled; fields the code only writes are left out.
\<close>

section \<open>State\<close>

datatype CHG_PILE_STATE = state_PowerON | state_WaitVertionCheck | state_WaitPilePara | state_Standby | state_RecChargStartCmd
  | state_ChargStart | state_ChargStartErr | state_ActStartOK | state_ActStartErr | state_ChargStartOK | state_WaitChargeStartFrameAsk
  | state_Charging | state_ToCheck | state_AutoCheck | state_ActStopOK | state_ActStopErr | state_WaitStop | state_ErrStop | state_ChargEnd
  | state_Update | state_UpdateData | state_WaitChargeStopFrameAsk

text \<open>The frames that have a resend flag and a resend counter.\<close>

datatype frame_kind = F_ChargeStart | F_ChargeStop | F_Timing | F_TimingAck | F_VertionCheck | F_VertionCheckAck | F_ChargeParaInfo
  | F_ChargeServeOnOff | F_ChargeServeOnOffAck | F_ElecLock | F_ElecLockAck | F_PowerAdjust | F_PowerAdjustAck | F_PileParaInfoAck
  | F_ChargeStartStateAck | F_ChargeStopStateAck | F_YcSendData | F_YxBackupSendData | F_SendErrorState | F_UpdateBeginAck
  | F_DataSendReqAck | F_DataSendAck | F_UpdateCheckAck | F_ResetAck

record STR_SYSTEM_TIME =
  Second :: u8
  Minute :: u8
  Hour :: u8
  Day :: u8
  Week :: u8
  Month :: u8
  Year :: u8

record STR_STATE_SYSTEM =
  ChargIdent :: u8
  DeviceType :: u8
  ReplyState :: u8
  LdSwitch :: u8
  RecStatus :: u8
  RecCount :: u8
  SendCount :: u8
  reaonIdent :: u8
  ConfIdent :: u8
  StartReson :: u8
  StopReson :: u8
  ResetAct :: u8

record STR_YC =
  ChargVa :: u16
  ChargVb :: u16
  ChargVc :: u16
  ChargIa :: u16
  ChargIb :: u16
  ChargIc :: u16
  V_cp1 :: u16
  yc_Addition :: u16
  Tempt1 :: u8
  Tempt2 :: u8
  Tempt3 :: u8
  Tempt4 :: u8

record CHG_YC =
  MesNum :: u8
  Electricity :: u16
  ChrgTime :: u16
  chg_Addition :: u16
  TotalCheck :: u16

record STR_YX =
  WorkState :: u8
  yx_TotalFau :: u8
  TotalAlm :: u8
  ConnState :: u8
  StopEctFau :: u8
  ArresterFau :: u8
  GunOut :: u8
  ChgTemptOVFau :: u8
  VOVWarn :: u8
  VLVWarn :: u8
  OutConState :: u8
  PilotFau :: u8
  ACConFau :: u8
  OutCurrAla :: u8
  OverCurrFau :: u8
  ACCirFau :: u8
  LockState :: u8
  LockFauState :: u8
  GunTemptOVFau :: u8
  CC :: u8
  CP :: u8
  PEFau :: u8
  DooropenFau :: u8
  ChgTemptOVAla :: u8
  GunTemptOVAla :: u8
  Contactoradjoin :: u8
  GenAlaFau :: u8
  OthWarnNum :: u8
  OthWarnVal :: u8

record CHG_UPDATE =
  UpdateConfIdent :: u8
  NoDownloadReason :: u8
  MessageNum :: u8
  FrameNum :: u8
  ValDataLen :: u16
  AdditionUp :: u16
  RevCheckUp :: u16
  ErrResendCount :: u8

record Update_TypeDef =
  PileNum :: "u8 list"
  App_Mark :: u32
  Update_Package_No :: u32
  file_totalNo :: u32
  file_ByteNo :: u32
  Update_Confirm :: u32
  Update_Message_No :: u8
  AdditionAll :: u32

record ChargPilePara_TypeDef =
  para_PWM_Duty :: u32
  para_StartReson :: u32
  para_StopReson :: u32

record rt_can_msg =
  can_id :: "29 word"
  can_data :: "u8 list"

record pile =
  ChgState :: CHG_PILE_STATE
  PWM_Duty :: u32
  TotalFau :: u32
  StrStateSystem :: STR_STATE_SYSTEM
  ReSendFlag :: "frame_kind \<Rightarrow> u8"
  ReSendCnt :: "frame_kind \<Rightarrow> u8"
  lock_Num :: u8
  Elelock :: u8
  strYC :: STR_YC
  chgYC :: CHG_YC
  strYX :: STR_YX
  chgUpdate :: CHG_UPDATE
  STR_ProgramUpdate :: Update_TypeDef
  STMFLASH_BUFF :: "u8 list"
  STMFLASH_LENTH :: u32
  ChgErrData :: "bool list"
  software_date :: "u8 list"
  uiVolOverAlm :: u32
  uiVolUnderAlm :: u32
  uiCurAlm :: u32
  STR_ChargPilePara :: ChargPilePara_TypeDef
  System_Time_STR :: STR_SYSTEM_TIME
  WaitStop_time :: u16
  RunTime :: u32
  can_heart_count :: u32
  tempanalog :: u8
  ChargePileEvent :: nat
  CAN_Heart_Tx :: "timer_ref option"
  CAN_250ms_Tx :: "timer_ref option"
  pk :: kernel
  can_out :: "rt_can_msg list"
  reset_done :: bool
  wild :: bool

definition pile_wild :: "pile \<Rightarrow> pile" where
  "pile_wild p = p\<lparr>wild := True\<rparr>"

definition sys :: "(STR_STATE_SYSTEM \<Rightarrow> STR_STATE_SYSTEM) \<Rightarrow> pile \<Rightarrow> pile" where
  "sys f p = p\<lparr>StrStateSystem := f (StrStateSystem p)\<rparr>"

definition set_state :: "CHG_PILE_STATE \<Rightarrow> pile \<Rightarrow> pile" where
  "set_state x p = p\<lparr>ChgState := x\<rparr>"

definition set_resend :: "frame_kind \<Rightarrow> u8 \<Rightarrow> pile \<Rightarrow> pile" where
  "set_resend k v p = p\<lparr>ReSendFlag := (ReSendFlag p)(k := v)\<rparr>"

definition set_resend_cnt :: "frame_kind \<Rightarrow> u8 \<Rightarrow> pile \<Rightarrow> pile" where
  "set_resend_cnt k v p = p\<lparr>ReSendCnt := (ReSendCnt p)(k := v)\<rparr>"

section \<open>Sending\<close>

definition lo8 :: "'a::len word \<Rightarrow> u8" where
  "lo8 w = ucast w"

definition hi8 :: "'a::len word \<Rightarrow> u8" where
  "hi8 w = ucast (drop_bit 8 w)"

definition sum16 :: "u8 list \<Rightarrow> u16" where
  "sum16 bs = fold (\<lambda>b a. a + ucast b) bs 0"

definition tx_id :: "u8 \<Rightarrow> u8 \<Rightarrow> 29 word" where
  "tx_id PriorityLeve SendCmd = push_bit 26 (ucast PriorityLeve) + push_bit 16 (ucast SendCmd) + push_bit 8 0xF6 + 0x8A"

text \<open>The message on the bus always has eight bytes; those past the length are zero.\<close>

definition CAN1_Send_Msg :: "29 word \<Rightarrow> u8 list \<Rightarrow> nat \<Rightarrow> pile \<Rightarrow> pile" where
  "CAN1_Send_Msg i buf len p = p\<lparr>can_out := can_out p @ [\<lparr>can_id = i, can_data = take len buf @ replicate (8 - len) 0\<rparr>]\<rparr>"

text \<open>The buffer of a message is a variable on the stack: what is not assigned is whatever lies there, the argument \<^verbatim>\<open>junk\<close>.\<close>

definition fill :: "u8 list \<Rightarrow> u8 list \<Rightarrow> u8 list" where
  "fill xs junk = xs @ drop (length xs) junk"

definition ask_resend :: "frame_kind \<Rightarrow> u8 \<Rightarrow> pile \<Rightarrow> pile" where
  "ask_resend k Resend p = (if Resend = 1 then set_resend_cnt k 0 (set_resend k 1 p) else p)"

abbreviation (input) ident :: "pile \<Rightarrow> u8" where "ident p \<equiv> ChargIdent (StrStateSystem p)"

definition send_ChargeStartFrame :: "u8 \<Rightarrow> u8 list \<Rightarrow> pile \<Rightarrow> pile" where
  "send_ChargeStartFrame Resend junk p =
     ask_resend F_ChargeStart Resend (CAN1_Send_Msg (tx_id 4 0x01) (fill [ident p, LdSwitch (StrStateSystem p)] junk) 2 p)"

definition send_ChargeStopFrame :: "u8 \<Rightarrow> u8 list \<Rightarrow> pile \<Rightarrow> pile" where
  "send_ChargeStopFrame Resend junk p =
     ask_resend F_ChargeStop Resend (CAN1_Send_Msg (tx_id 4 0x03) (fill [ident p, StopReson (StrStateSystem p)] junk) 2 p)"

definition time_data :: "pile \<Rightarrow> u8 list" where
  "time_data p =
     (let t = System_Time_STR p; temp1 = (ucast (Second t) * 1000 :: u16)
      in [ident p, lo8 temp1, hi8 temp1, Minute t AND 0x3F, Hour t AND 0x1F, push_bit 5 (Week t) + (Day t AND 0x1F), Month t AND 0x0F, Year t AND 0x7F])"

definition send_TimingFrame :: "u8 \<Rightarrow> u8 list \<Rightarrow> pile \<Rightarrow> pile" where
  "send_TimingFrame Resend junk p = ask_resend F_Timing Resend (CAN1_Send_Msg (tx_id 6 0x05) (fill (time_data p) junk) 8 p)"

definition send_TimingFrameAck :: "u8 \<Rightarrow> u8 list \<Rightarrow> pile \<Rightarrow> pile" where
  "send_TimingFrameAck Resend junk p = ask_resend F_TimingAck Resend (CAN1_Send_Msg (tx_id 6 0x06) (fill (time_data p) junk) 8 p)"

definition Pro_Version :: u16 where
  "Pro_Version = 0x0110"

definition send_VertionCheckFrame :: "u8 \<Rightarrow> u8 list \<Rightarrow> pile \<Rightarrow> pile" where
  "send_VertionCheckFrame Resend junk p =
     ask_resend F_VertionCheck Resend (CAN1_Send_Msg (tx_id 6 0x07) (fill [ident p, lo8 Pro_Version, hi8 Pro_Version] junk) 3 p)"

definition send_ChargeParaInfoFrame :: "u8 \<Rightarrow> u8 list \<Rightarrow> pile \<Rightarrow> pile" where
  "send_ChargeParaInfoFrame Resend junk p =
     ask_resend F_ChargeParaInfo Resend
       (CAN1_Send_Msg (tx_id 6 0x09) (fill (ident p # map ((!) (PileNum (STR_ProgramUpdate p))) [1..<8]) junk) 8 p)"

definition send_ChargeServeOnOffFrame :: "u8 \<Rightarrow> u8 list \<Rightarrow> pile \<Rightarrow> pile" where
  "send_ChargeServeOnOffFrame Resend junk p =
     ask_resend F_ChargeServeOnOff Resend (CAN1_Send_Msg (tx_id 4 0x0B) (fill [ident p, 0x02] junk) 2 p)"

definition send_ChargeServeOnOffFrameAck :: "u8 \<Rightarrow> u8 list \<Rightarrow> pile \<Rightarrow> pile" where
  "send_ChargeServeOnOffFrameAck Resend junk p =
     ask_resend F_ChargeServeOnOffAck Resend (CAN1_Send_Msg (tx_id 4 0x0C) (fill [ident p] junk) 4 p)"

definition send_ElecLockFrame :: "u8 \<Rightarrow> u8 list \<Rightarrow> pile \<Rightarrow> pile" where
  "send_ElecLockFrame Resend junk p =
     ask_resend F_ElecLock Resend (CAN1_Send_Msg (tx_id 4 0x0D) (fill [ident p, lock_Num p, Elelock p] junk) 3 p)"

definition send_ElecLockFrameAck :: "u8 \<Rightarrow> u8 list \<Rightarrow> pile \<Rightarrow> pile" where
  "send_ElecLockFrameAck Resend junk p =
     ask_resend F_ElecLockAck Resend
       (CAN1_Send_Msg (tx_id 4 0x0E)
         (fill [ident p, lock_Num p, Elelock p, ReplyState (StrStateSystem p), reaonIdent (StrStateSystem p)] junk) 5 p)"

definition send_PowerAdjustFrame :: "u8 \<Rightarrow> u8 list \<Rightarrow> pile \<Rightarrow> pile" where
  "send_PowerAdjustFrame Resend junk p = ask_resend F_PowerAdjust Resend (CAN1_Send_Msg (tx_id 4 0x0F) (fill [ident p] junk) 4 p)"

definition send_PowerAdjustFrameAck :: "u8 \<Rightarrow> u8 list \<Rightarrow> pile \<Rightarrow> pile" where
  "send_PowerAdjustFrameAck Resend junk p =
     ask_resend F_PowerAdjustAck Resend
       (CAN1_Send_Msg (tx_id 4 0x10) (junk[0 := ident p, 4 := ReplyState (StrStateSystem p), 5 := reaonIdent (StrStateSystem p)]) 6 p)"

definition send_ChargeStartStateFrameAck :: "u8 \<Rightarrow> u8 list \<Rightarrow> pile \<Rightarrow> pile" where
  "send_ChargeStartStateFrameAck Resend junk p =
     ask_resend F_ChargeStartStateAck Resend
       (CAN1_Send_Msg (tx_id 4 0x12) (fill [ident p, LdSwitch (StrStateSystem p), ReplyState (StrStateSystem p)] junk) 3 p)"

definition send_ChargeStopStateFrameAck :: "u8 \<Rightarrow> u8 list \<Rightarrow> pile \<Rightarrow> pile" where
  "send_ChargeStopStateFrameAck Resend junk p =
     ask_resend F_ChargeStopStateAck Resend
       (CAN1_Send_Msg (tx_id 4 0x14) (fill [ident p, StopReson (StrStateSystem p), ReplyState (StrStateSystem p)] junk) 3 p)"

text \<open>The telemetry message: four frames with the running sum of their bytes at the end.\<close>

definition yc_frames :: "pile \<Rightarrow> u8 list list \<times> u16" where
  "yc_frames p =
     (let y = strYC p;
          b1 = [1, 4, 0x15, 0, ident p, lo8 (ChargVa y), hi8 (ChargVa y), lo8 (ChargVb y)];
          b2 = [2, hi8 (ChargVb y), lo8 (ChargVc y), hi8 (ChargVc y), lo8 (ChargIa y), hi8 (ChargIa y), lo8 (ChargIb y), hi8 (ChargIb y)];
          b3 = [3, lo8 (ChargIc y), hi8 (ChargIc y), lo8 (Electricity (chgYC p)), hi8 (Electricity (chgYC p)), lo8 (ChrgTime (chgYC p)),
                hi8 (ChrgTime (chgYC p))];
          a = sum16 (tl b1) + sum16 (tl b2) + sum16 (tl b3)
      in ([b1, b2, b3 @ [lo8 a], [4, hi8 a]], a))"

definition send_frames :: "29 word \<Rightarrow> u8 list list \<Rightarrow> pile \<Rightarrow> pile" where
  "send_frames i bs p = fold (\<lambda>b. CAN1_Send_Msg i b (length b)) bs p"

definition send_YcSendDataFrame :: "pile \<Rightarrow> pile" where
  "send_YcSendDataFrame p =
     (case yc_frames p of (bs, a) \<Rightarrow> send_frames (tx_id 6 0x31) bs (p\<lparr>strYC := (strYC p)\<lparr>yc_Addition := a\<rparr>\<rparr>))"

abbreviation (input) CanOffLine_FAULT :: u32 where "CanOffLine_FAULT \<equiv> 0x2000"

definition send_HeartSendFrame :: "u8 list \<Rightarrow> pile \<Rightarrow> pile" where
  "send_HeartSendFrame junk p =
     sys (\<lambda>x. x\<lparr>SendCount := SendCount x + 1\<rparr>)
       (CAN1_Send_Msg (tx_id 6 0x40)
         (fill [ident p, SendCount (StrStateSystem p), (if TotalFau p AND CanOffLine_FAULT = CanOffLine_FAULT then 1 else 0), 2] junk) 4 p)"

primrec flag_bits :: "nat \<Rightarrow> bool list \<Rightarrow> u8" where
  "flag_bits k [] = 0"
| "flag_bits k (b # bs) = (if b then push_bit k 1 else 0) OR flag_bits (Suc k) bs"

definition send_SendErrorStateFrame :: "u8 \<Rightarrow> u8 list \<Rightarrow> pile \<Rightarrow> pile" where
  "send_SendErrorStateFrame Resend junk p =
     ask_resend F_SendErrorState Resend
       (CAN1_Send_Msg (tx_id 4 0x51) (fill [ident p, flag_bits 1 (take 7 (ChgErrData p)), flag_bits 0 (drop 7 (ChgErrData p))] junk) 3 p)"

text \<open>The configuration of the pile: six frames, again with the sum of their bytes.\<close>

definition CrjPileVersion :: "u8 list" where
  "CrjPileVersion = [0x56, 0x31, 0x2E, 0x30, 0x2E, 0x30, 0x35, 0]"

definition digit_pair :: "u8 \<Rightarrow> u8 \<Rightarrow> u8" where
  "digit_pair a b = push_bit 4 (a - 0x30) OR (b - 0x30)"

definition para_frames :: "pile \<Rightarrow> u8 list list \<times> u16" where
  "para_frames p =
     (let v = CrjPileVersion; d = software_date p;
          b1 = [1, 6, 0x25, 0, ident p, 0xEA, 3, 0];
          b2 = [2, 0, 0x80, 0x52, 2, 0xEA, 3, 0];
          b3 = [3, 0, 0x17, 0x20, 0x34, 0x12, 0x78, 0x56];
          b4 = [4, 0x34, 0x12, 0, 1, digit_pair (v ! 5) (v ! 6), v ! 3 - 0x30, v ! 1 - 0x30];
          b5 = [5, digit_pair (d ! 6) (d ! 7), digit_pair (d ! 4) (d ! 5), digit_pair (d ! 0) (d ! 1), digit_pair (d ! 2) (d ! 3),
                lo8 (uiVolOverAlm p), hi8 (uiVolOverAlm p), lo8 (uiVolUnderAlm p)];
          b6 = [6, hi8 (uiVolUnderAlm p), lo8 (uiCurAlm p div 10), hi8 (uiCurAlm p div 10), 0, 0];
          a = sum16 (tl b1) + sum16 (tl b2) + sum16 (tl b3) + sum16 (tl b4) + sum16 (tl b5) + sum16 (tl b6)
      in ([b1, b2, b3, b4, b5, b6 @ [lo8 a, hi8 a]], a))"

definition send_PileParaInfoFrameAck :: "u8 \<Rightarrow> pile \<Rightarrow> pile" where
  "send_PileParaInfoFrameAck Resend p =
     ask_resend F_PileParaInfoAck Resend
       (case para_frames p of (bs, a) \<Rightarrow> send_frames (tx_id 6 0x61) bs (p\<lparr>strYC := (strYC p)\<lparr>yc_Addition := a\<rparr>\<rparr>))"

definition send_UpdateBeginFrameAck :: "u8 \<Rightarrow> u8 list \<Rightarrow> pile \<Rightarrow> pile" where
  "send_UpdateBeginFrameAck Resend junk p =
     ask_resend F_UpdateBeginAck Resend
       (CAN1_Send_Msg (tx_id 4 0x71)
         (fill [ident p, DeviceType (StrStateSystem p), UpdateConfIdent (chgUpdate p), NoDownloadReason (chgUpdate p)] junk) 4 p)"

definition send_DataSendReqFrameAck :: "u8 \<Rightarrow> u8 list \<Rightarrow> pile \<Rightarrow> pile" where
  "send_DataSendReqFrameAck Resend junk p =
     (let u = STR_ProgramUpdate p
      in ask_resend F_DataSendReqAck Resend
           (CAN1_Send_Msg (tx_id 4 0x73)
             (fill [ident p, DeviceType (StrStateSystem p), 0, lo8 (file_totalNo u), hi8 (file_totalNo u), lo8 (Update_Package_No u),
                    hi8 (Update_Package_No u)] junk) 7 p))"

definition send_DataSendFrameAck :: "u8 \<Rightarrow> u8 list \<Rightarrow> pile \<Rightarrow> pile" where
  "send_DataSendFrameAck Resend junk p =
     (let u = STR_ProgramUpdate p
      in ask_resend F_DataSendAck Resend
           (CAN1_Send_Msg (tx_id 4 0x75)
             (fill [ident p, DeviceType (StrStateSystem p), UpdateConfIdent (chgUpdate p), NoDownloadReason (chgUpdate p), lo8 (Update_Package_No u),
                    hi8 (Update_Package_No u)] junk) 6 p))"

definition send_UpdateCheckFrameAck :: "u8 \<Rightarrow> u8 list \<Rightarrow> pile \<Rightarrow> pile" where
  "send_UpdateCheckFrameAck Resend junk p =
     ask_resend F_UpdateCheckAck Resend
       (CAN1_Send_Msg (tx_id 4 0x77)
         (fill [ident p, DeviceType (StrStateSystem p), UpdateConfIdent (chgUpdate p), NoDownloadReason (chgUpdate p)] junk) 4 p)"

definition send_ResetFrameAck :: "u8 \<Rightarrow> u8 list \<Rightarrow> pile \<Rightarrow> pile" where
  "send_ResetFrameAck Resend junk p =
     ask_resend F_ResetAck Resend (CAN1_Send_Msg (tx_id 4 0x79) (fill [ident p, DeviceType (StrStateSystem p), 0xAA] junk) 3 p)"

definition Inform_Communicate_Can :: "u8 \<Rightarrow> u8 \<Rightarrow> u8 list \<Rightarrow> pile \<Rightarrow> pile" where
  "Inform_Communicate_Can SendCmd Resend junk p =
     (if SendCmd = 0x01 then send_ChargeStartFrame Resend junk p
      else if SendCmd = 0x03 then send_ChargeStopFrame Resend junk p
      else if SendCmd = 0x05 then send_TimingFrame Resend junk p
      else if SendCmd = 0x06 then send_TimingFrameAck Resend junk p
      else if SendCmd = 0x07 then send_VertionCheckFrame Resend junk p
      else if SendCmd = 0x09 then send_ChargeParaInfoFrame Resend junk p
      else if SendCmd = 0x0B then send_ChargeServeOnOffFrame Resend junk p
      else if SendCmd = 0x0C then send_ChargeServeOnOffFrameAck Resend junk p
      else if SendCmd = 0x0D then send_ElecLockFrame Resend junk p
      else if SendCmd = 0x0E then send_ElecLockFrameAck Resend junk p
      else if SendCmd = 0x0F then send_PowerAdjustFrame Resend junk p
      else if SendCmd = 0x10 then send_PowerAdjustFrameAck Resend junk p
      else if SendCmd = 0x12 then send_ChargeStartStateFrameAck Resend junk p
      else if SendCmd = 0x14 then send_ChargeStopStateFrameAck Resend junk p
      else if SendCmd = 0x31 then send_YcSendDataFrame p
      else if SendCmd = 0x40 then send_HeartSendFrame junk p
      else if SendCmd = 0x51 then send_SendErrorStateFrame Resend junk p
      else if SendCmd = 0x61 then send_PileParaInfoFrameAck Resend p
      else if SendCmd = 0x71 then send_UpdateBeginFrameAck Resend junk p
      else if SendCmd = 0x73 then send_DataSendReqFrameAck Resend junk p
      else if SendCmd = 0x75 then send_DataSendFrameAck Resend junk p
      else if SendCmd = 0x77 then send_UpdateCheckFrameAck Resend junk p
      else if SendCmd = 0x79 then send_ResetFrameAck Resend junk p
      else p)"

section \<open>Receiving\<close>

text \<open>The handler of each frame, on the eight bytes of the message.\<close>

definition rx_ChargeStopFrameAck :: "u8 list \<Rightarrow> pile \<Rightarrow> pile" where
  "rx_ChargeStopFrameAck d p =
     (if ReSendFlag p F_ChargeStop = 1 then p
      else (set_state state_WaitStop (sys (\<lambda>x. x\<lparr>ChargIdent := d ! 0\<rparr>) (set_resend F_ChargeStop 1 p)))\<lparr>WaitStop_time := 0\<rparr>)"

definition time_valid :: "u8 list \<Rightarrow> STR_SYSTEM_TIME \<Rightarrow> bool" where
  "time_valid d t \<longleftrightarrow>
     (unat (d ! 1) + unat (d ! 2) * 256) div 1000 \<le> 60 \<and> d ! 3 AND 0x3F < 60 \<and> d ! 4 AND 0x1F < 24 \<and> d ! 5 AND 0x1F \<le> 31 \<and> 1 \<le> d ! 5 AND 0x1F
     \<and> d ! 6 AND 0x0F \<le> 12 \<and> 1 \<le> d ! 6 AND 0x0F \<and> d ! 7 AND 0x7F < 100 \<and> d ! 3 AND 0x3F \<noteq> Minute t"

definition rx_TimingFrame :: "u8 list \<Rightarrow> u8 list \<Rightarrow> pile \<Rightarrow> pile" where
  "rx_TimingFrame junk d p =
     (if ReSendFlag p F_TimingAck = 1 then p
      else
        (let p1 = sys (\<lambda>x. x\<lparr>ChargIdent := d ! 0\<rparr>) p;
             p2 = (if time_valid d (System_Time_STR p1)
                   then p1\<lparr>System_Time_STR := \<lparr>Second = of_nat ((unat (d ! 1) + unat (d ! 2) * 256) div 1000), Minute = d ! 3 AND 0x3F,
                             Hour = d ! 4 AND 0x1F, Day = d ! 5 AND 0x1F, Week = d ! 5 AND 0xE0, Month = d ! 6 AND 0x0F, Year = d ! 7 AND 0x7F\<rparr>\<rparr>
                   else p1)
         in Inform_Communicate_Can 0x06 1 junk p2))"

definition rx_VertionCheckFrameAck :: "u8 list \<Rightarrow> pile \<Rightarrow> pile" where
  "rx_VertionCheckFrameAck d p =
     (if ReSendFlag p F_VertionCheck = 1 then p
      else
        (let p1 = sys (\<lambda>x. x\<lparr>ChargIdent := d ! 0\<rparr>) p
         in if ChgState p1 = state_WaitVertionCheck \<and> Pro_Version = push_bit 8 (ucast (d ! 2)) + ucast (d ! 1)
            then set_resend F_VertionCheck 1 (set_state state_WaitPilePara p1)
            else p1))"

definition rx_ChargeParaInfoFrameAck :: "u8 list \<Rightarrow> pile \<Rightarrow> pile" where
  "rx_ChargeParaInfoFrameAck d p =
     (if ReSendFlag p F_ChargeParaInfo = 1 then p
      else
        (let p1 = sys (\<lambda>x. x\<lparr>ChargIdent := d ! 0\<rparr>) p
         in if d ! 1 = 0
            then set_resend_cnt F_YcSendData 0 (set_resend F_YcSendData 1 (set_resend_cnt F_VertionCheckAck 0 (set_resend F_VertionCheckAck 0
                   (set_state state_Standby (p1\<lparr>strYX := (strYX p1)\<lparr>WorkState := 0\<rparr>\<rparr>)))))
            else p1))"

definition rx_ChargeServeOnOffFrame :: "u8 list \<Rightarrow> u8 list \<Rightarrow> pile \<Rightarrow> pile" where
  "rx_ChargeServeOnOffFrame junk d p = (if ReSendFlag p F_ChargeServeOnOffAck = 1 then p else Inform_Communicate_Can 0x0C 1 junk p)"

definition rx_ElecLockFrame :: "u8 list \<Rightarrow> u8 list \<Rightarrow> pile \<Rightarrow> pile" where
  "rx_ElecLockFrame junk d p =
     (if ReSendFlag p F_ElecLockAck = 1 then p
      else
        (let p1 = (sys (\<lambda>x. x\<lparr>ChargIdent := d ! 0\<rparr>) p)\<lparr>lock_Num := d ! 1, Elelock := d ! 2\<rparr>;
             p2 = (if d ! 1 < 1 \<or> d ! 1 > 2 then sys (\<lambda>x. x\<lparr>ReplyState := 1, reaonIdent := 1\<rparr>) p1 else p1)
         in Inform_Communicate_Can 0x0E 1 junk p2))"

definition rx_PowerAdjustFrame :: "u8 list \<Rightarrow> u8 list \<Rightarrow> pile \<Rightarrow> pile" where
  "rx_PowerAdjustFrame junk d p =
     (if ReSendFlag p F_PowerAdjustAck = 1 then p
      else Inform_Communicate_Can 0x10 0 junk (sys (\<lambda>x. x\<lparr>ChargIdent := d ! 0\<rparr>) p))"

abbreviation (input) ChargeStartOK_EVENT :: u32 where "ChargeStartOK_EVENT \<equiv> 0x01"
abbreviation (input) ChargeStartER_EVENT :: u32 where "ChargeStartER_EVENT \<equiv> 0x02"
abbreviation (input) ChargeStopOK_EVENT :: u32 where "ChargeStopOK_EVENT \<equiv> 0x04"
abbreviation (input) ChargeStopER_EVENT :: u32 where "ChargeStopER_EVENT \<equiv> 0x08"
abbreviation (input) SetPowerOK_EVENT :: u32 where "SetPowerOK_EVENT \<equiv> 0x10"
abbreviation (input) SetPowerER_EVENT :: u32 where "SetPowerER_EVENT \<equiv> 0x20"

definition send_pile_event :: "u32 \<Rightarrow> pile \<Rightarrow> pile" where
  "send_pile_event v p = p\<lparr>pk := snd (rt_event_send (ChargePileEvent p) v (pk p))\<rparr>"

definition rx_ChargeStartStateFrame :: "u8 list \<Rightarrow> u8 list \<Rightarrow> pile \<Rightarrow> pile" where
  "rx_ChargeStartStateFrame junk d p =
     (if ReSendFlag p F_ChargeStartStateAck = 1 then p
      else
        (let p1 = sys (\<lambda>x. x\<lparr>ChargIdent := d ! 0, LdSwitch := d ! 1, ConfIdent := d ! 2, StartReson := d ! 3\<rparr>) p;
             p2 = (if ConfIdent (StrStateSystem p1) = 0
                   then send_pile_event ChargeStartOK_EVENT (set_state state_Charging (Inform_Communicate_Can 0x12 0 junk p1))
                   else p1)
         in set_resend F_ChargeStartStateAck 1 p2))"

definition rx_ChargeStopStateFrame :: "u8 list \<Rightarrow> u8 list \<Rightarrow> pile \<Rightarrow> pile" where
  "rx_ChargeStopStateFrame junk d p =
     (if ReSendFlag p F_ChargeStopStateAck = 1 then p
      else
        (let p1 = sys (\<lambda>x. x\<lparr>ChargIdent := d ! 0, StopReson := d ! 1, ConfIdent := d ! 2\<rparr>) p;
             p2 = (if ConfIdent (StrStateSystem p1) = 0
                   then send_pile_event ChargeStopOK_EVENT (set_state state_ChargEnd (Inform_Communicate_Can 0x14 0 junk p1))
                   else p1)
         in set_resend F_ChargeStopStateAck 1 p2))"

text \<open>Two bytes of a frame as a number, low byte first.\<close>

definition le16 :: "u8 \<Rightarrow> u8 \<Rightarrow> u16" where
  "le16 l h = push_bit 8 (ucast h) + ucast l"

definition add_chg :: "u8 list \<Rightarrow> CHG_YC \<Rightarrow> CHG_YC" where
  "add_chg bs y = y\<lparr>chg_Addition := chg_Addition y + sum16 bs\<rparr>"

definition rx_YcRecDataFrame :: "u8 list \<Rightarrow> pile \<Rightarrow> pile" where
  "rx_YcRecDataFrame d p =
     (let p1 = p\<lparr>chgYC := (chgYC p)\<lparr>MesNum := d ! 0\<rparr>\<rparr>
      in if d ! 0 = 1 then
           (sys (\<lambda>x. x\<lparr>ChargIdent := d ! 4\<rparr>) p1)
             \<lparr>strYC := (strYC p1)\<lparr>ChargVa := le16 (d ! 5) (d ! 6)\<rparr>, tempanalog := d ! 7,
              chgYC := add_chg (tl d) ((chgYC p1)\<lparr>chg_Addition := 0\<rparr>)\<rparr>
         else if d ! 0 = 2 then
           p1\<lparr>strYC := (strYC p1)\<lparr>ChargVb := le16 (tempanalog p1) (d ! 1), ChargVc := le16 (d ! 2) (d ! 3), ChargIa := le16 (d ! 4) (d ! 5),
                                ChargIb := push_bit 7 (ucast (d ! 7)) + ucast (d ! 6)\<rparr>,
              chgYC := add_chg (tl d) (chgYC p1)\<rparr>
         else if d ! 0 = 3 then
           p1\<lparr>strYC := (strYC p1)\<lparr>ChargIc := le16 (d ! 1) (d ! 2), V_cp1 := le16 (d ! 3) (d ! 4), Tempt1 := d ! 7\<rparr>,
              PWM_Duty := ucast (le16 (d ! 5) (d ! 6)) div 10, chgYC := add_chg (tl d) (chgYC p1)\<rparr>
         else if d ! 0 = 4 then
           p1\<lparr>strYC := (strYC p1)\<lparr>Tempt2 := d ! 1, Tempt3 := d ! 2, Tempt4 := d ! 3\<rparr>,
              chgYC := add_chg (take 3 (tl d)) ((chgYC p1)\<lparr>TotalCheck := le16 (d ! 4) (d ! 5)\<rparr>)\<rparr>
         else p1)"

definition bit_of :: "u8 \<Rightarrow> nat \<Rightarrow> u8" where
  "bit_of b k = drop_bit k b AND 1"

definition rx_YxRecDataFrame :: "u8 list \<Rightarrow> pile \<Rightarrow> pile" where
  "rx_YxRecDataFrame d p =
     (sys (\<lambda>x. x\<lparr>ChargIdent := d ! 0\<rparr>) p)
       \<lparr>strYX := \<lparr>WorkState = d ! 1 AND 3, yx_TotalFau = bit_of (d ! 1) 2, TotalAlm = bit_of (d ! 1) 3, ConnState = bit_of (d ! 1) 4,
          StopEctFau = bit_of (d ! 1) 5, ArresterFau = bit_of (d ! 1) 6, GunOut = bit_of (d ! 1) 7,
          ChgTemptOVFau = bit_of (d ! 2) 0, VOVWarn = bit_of (d ! 2) 1, VLVWarn = bit_of (d ! 2) 2, OutConState = bit_of (d ! 2) 3,
          PilotFau = bit_of (d ! 2) 4, ACConFau = bit_of (d ! 2) 5, OutCurrAla = bit_of (d ! 2) 6, OverCurrFau = bit_of (d ! 2) 7,
          ACCirFau = bit_of (d ! 3) 0, LockState = bit_of (d ! 3) 1, LockFauState = bit_of (d ! 3) 2, GunTemptOVFau = bit_of (d ! 3) 3,
          CC = bit_of (d ! 3) 4, CP = drop_bit 5 (d ! 3) AND 3, PEFau = bit_of (d ! 3) 7,
          DooropenFau = bit_of (d ! 4) 0, ChgTemptOVAla = bit_of (d ! 4) 1, GunTemptOVAla = bit_of (d ! 4) 2, Contactoradjoin = bit_of (d ! 4) 3,
          GenAlaFau = d ! 5, OthWarnNum = d ! 6, OthWarnVal = d ! 7\<rparr>\<rparr>"

definition rx_HeartRecFrame :: "u8 list \<Rightarrow> pile \<Rightarrow> pile" where
  "rx_HeartRecFrame d p = sys (\<lambda>x. x\<lparr>ChargIdent := d ! 0, RecCount := d ! 1, RecStatus := d ! 2\<rparr>) p"

definition rx_PileParaInfoFrame :: "u8 list \<Rightarrow> u8 list \<Rightarrow> pile \<Rightarrow> pile" where
  "rx_PileParaInfoFrame junk d p = (if ReSendFlag p F_PileParaInfoAck = 1 then p else Inform_Communicate_Can 0x61 0 junk p)"

text \<open>The frames of a program update.  The two timers of the file stop for an update and start again when it fails.\<close>

definition stop_timer :: "timer_ref option \<Rightarrow> pile \<Rightarrow> pile" where
  "stop_timer t p = (case t of None \<Rightarrow> pile_wild p | Some r \<Rightarrow> p\<lparr>pk := snd (rt_timer_stop r (pk p))\<rparr>)"

definition start_timer :: "timer_ref option \<Rightarrow> pile \<Rightarrow> pile" where
  "start_timer t p = (case t of None \<Rightarrow> pile_wild p | Some r \<Rightarrow> p\<lparr>pk := snd (rt_timer_start r (pk p))\<rparr>)"

definition rx_UpdateBeginFrame :: "u8 list \<Rightarrow> pile \<Rightarrow> pile" where
  "rx_UpdateBeginFrame d p =
     (if ReSendFlag p F_UpdateBeginAck = 1 then p
      else if ChgState p = state_Standby \<and> App_Mark (STR_ProgramUpdate p) = 0 then
        stop_timer (CAN_250ms_Tx p) (stop_timer (CAN_Heart_Tx p) (sys (\<lambda>x. x\<lparr>ChargIdent := d ! 0, DeviceType := d ! 1\<rparr>) p))
      else p)"

definition rx_DataSendReqFrame :: "u8 list \<Rightarrow> pile \<Rightarrow> pile" where
  "rx_DataSendReqFrame d p =
     (if ChgState p = state_Update then
        (sys (\<lambda>x. x\<lparr>ChargIdent := d ! 0, DeviceType := d ! 1\<rparr>) p)
          \<lparr>STR_ProgramUpdate := (STR_ProgramUpdate p)\<lparr>file_totalNo := ucast (le16 (d ! 2) (d ! 3)),
             file_ByteNo := push_bit 24 (ucast (d ! 7)) + push_bit 16 (ucast (d ! 6)) + push_bit 8 (ucast (d ! 5)) + ucast (d ! 4)\<rparr>\<rparr>
      else p)"

text \<open>Bytes are copied to the buffer without a check: past its end the store is a wild one.\<close>

definition upd_prog :: "(Update_TypeDef \<Rightarrow> Update_TypeDef) \<Rightarrow> pile \<Rightarrow> pile" where
  "upd_prog f p = p\<lparr>STR_ProgramUpdate := f (STR_ProgramUpdate p)\<rparr>"

definition upd_chg :: "(CHG_UPDATE \<Rightarrow> CHG_UPDATE) \<Rightarrow> pile \<Rightarrow> pile" where
  "upd_chg f p = p\<lparr>chgUpdate := f (chgUpdate p)\<rparr>"

definition buff_append :: "u8 list \<Rightarrow> pile \<Rightarrow> pile" where
  "buff_append bs p =
     (let n = unat (STMFLASH_LENTH p); buf = STMFLASH_BUFF p
      in if n + length bs \<le> length buf then p\<lparr>STMFLASH_BUFF := take n buf @ bs @ drop (n + length bs) buf\<rparr> else pile_wild p)"

definition data_first :: "u8 list \<Rightarrow> pile \<Rightarrow> pile" where
  "data_first d p =
     (let p1 = sys (\<lambda>x. x\<lparr>ChargIdent := d ! 4, DeviceType := d ! 5\<rparr>) (upd_chg (\<lambda>u. u\<lparr>FrameNum := d ! 1, ValDataLen := le16 (d ! 2) (d ! 3)\<rparr>) p);
          p2 = buff_append [d ! 6, d ! 7] p1
      in upd_prog (\<lambda>u. u\<lparr>Update_Message_No := Update_Message_No u + 1, AdditionAll := AdditionAll u + ucast (d ! 6) + ucast (d ! 7)\<rparr>)
           (upd_chg (\<lambda>u. u\<lparr>AdditionUp := sum16 (tl d)\<rparr>) (p2\<lparr>STMFLASH_LENTH := STMFLASH_LENTH p2 + 2\<rparr>)))"

text \<open>A wrong sum: the data are asked for again, twice; then the update is given up.\<close>

definition data_refused :: "u8 list \<Rightarrow> pile \<Rightarrow> pile" where
  "data_refused junk p =
     (let p1 = (upd_chg (\<lambda>u. u\<lparr>ErrResendCount := ErrResendCount u + 1\<rparr>) p);
          p2 = upd_chg (\<lambda>u. u\<lparr>UpdateConfIdent := 1, NoDownloadReason := 1\<rparr>) (p1\<lparr>STMFLASH_LENTH := 0\<rparr>)
      in if ErrResendCount (chgUpdate p1) \<ge> 3 then
           (let p3 = upd_prog (\<lambda>u. u\<lparr>Update_Message_No := 0, Update_Package_No := 1\<rparr>) p2;
                p4 = Inform_Communicate_Can 0x75 0 junk p3;
                p5 = Inform_Communicate_Can 0x51 0 junk (upd_prog (\<lambda>u. u\<lparr>App_Mark := 0\<rparr>) p4);
                p6 = set_state state_Standby (upd_chg (\<lambda>u. u\<lparr>ErrResendCount := 0\<rparr>) p5)
            in start_timer (CAN_250ms_Tx p6) (start_timer (CAN_Heart_Tx p6) p6))
         else upd_prog (\<lambda>u. u\<lparr>Update_Message_No := 1\<rparr>) (Inform_Communicate_Can 0x75 0 junk p2))"

definition data_last :: "u8 list \<Rightarrow> u8 list \<Rightarrow> pile \<Rightarrow> pile" where
  "data_last junk d p =
     (let n = ucast (ValDataLen (chgUpdate p)) - STMFLASH_LENTH p
      in if n > 7 then pile_wild p
         else
           (let p1 = buff_append (take (unat n) (tl d)) p;
                len = ucast (ValDataLen (chgUpdate p)) - 2;
                p2 = p1\<lparr>STMFLASH_LENTH := len\<rparr>
            in if unat len + 1 \<ge> length (STMFLASH_BUFF p2) then pile_wild p2
               else
                 (let body = drop 2 (take (unat len) (STMFLASH_BUFF p2));
                      p3 = upd_chg (\<lambda>u. u\<lparr>AdditionUp := AdditionUp u + sum16 body,
                                           RevCheckUp := le16 (STMFLASH_BUFF p2 ! unat len) (STMFLASH_BUFF p2 ! (unat len + 1))\<rparr>)
                             (upd_prog (\<lambda>u. u\<lparr>AdditionAll := AdditionAll u + fold (\<lambda>b a. a + ucast b) body 0\<rparr>) p2)
                  in if AdditionUp (chgUpdate p3) = RevCheckUp (chgUpdate p3) then p3 else data_refused junk p3)))"

definition rx_DataSendFrame :: "u8 list \<Rightarrow> u8 list \<Rightarrow> pile \<Rightarrow> pile" where
  "rx_DataSendFrame junk d p =
     (let p1 = upd_chg (\<lambda>u. u\<lparr>MessageNum := d ! 0\<rparr>) p; no = Update_Message_No (STR_ProgramUpdate p1)
      in if d ! 0 = 1 then data_first d p1
         else if d ! 0 = no then
           (if FrameNum (chgUpdate p1) = no then data_last junk d p1
            else
              (let p2 = buff_append (tl d) p1
               in upd_prog (\<lambda>u. u\<lparr>Update_Message_No := Update_Message_No u + 1\<rparr>) (p2\<lparr>STMFLASH_LENTH := STMFLASH_LENTH p2 + 7\<rparr>)))
         else p1)"

definition rx_UpdateCheckFrame :: "u8 list \<Rightarrow> u8 list \<Rightarrow> pile \<Rightarrow> pile" where
  "rx_UpdateCheckFrame junk d p =
     (let p1 = sys (\<lambda>x. x\<lparr>ChargIdent := d ! 0, DeviceType := d ! 1\<rparr>) p;
          ok = (AdditionAll (STR_ProgramUpdate p1)
                = push_bit 24 (ucast (d ! 5)) + push_bit 16 (ucast (d ! 4)) + push_bit 8 (ucast (d ! 3)) + ucast (d ! 2));
          p2 = upd_prog (\<lambda>u. u\<lparr>Update_Confirm := (if ok then 0 else 1)\<rparr>)
                 (upd_chg (\<lambda>u. u\<lparr>UpdateConfIdent := (if ok then 0 else 1), NoDownloadReason := (if ok then 0 else 1)\<rparr>) p1)
      in Inform_Communicate_Can 0x77 0 junk p2)"

definition rx_ResetFrame :: "u8 list \<Rightarrow> u8 list \<Rightarrow> pile \<Rightarrow> pile" where
  "rx_ResetFrame junk d p =
     (let p1 = sys (\<lambda>x. x\<lparr>ChargIdent := d ! 0, DeviceType := d ! 1, ResetAct := d ! 2\<rparr>) p
      in if d ! 2 = 0xAA then (Inform_Communicate_Can 0x79 0 junk p1)\<lparr>reset_done := True\<rparr> else p1)"

text \<open>The dispatch on the command in the identifier of the message.\<close>

definition rx_cmd :: "rt_can_msg \<Rightarrow> u8" where
  "rx_cmd m = ucast (drop_bit 16 (can_id m) AND 0xFF)"

definition handle_frame :: "u8 list \<Rightarrow> u8 \<Rightarrow> u8 list \<Rightarrow> pile \<Rightarrow> pile" where
  "handle_frame junk cmd d p =
     (if cmd = 0x04 then rx_ChargeStopFrameAck d p
      else if cmd = 0x05 then rx_TimingFrame junk d p
      else if cmd = 0x08 then rx_VertionCheckFrameAck d p
      else if cmd = 0x0A then rx_ChargeParaInfoFrameAck d p
      else if cmd = 0x0B then rx_ChargeServeOnOffFrame junk d p
      else if cmd = 0x0D then rx_ElecLockFrame junk d p
      else if cmd = 0x0F then rx_PowerAdjustFrame junk d p
      else if cmd = 0x11 then rx_ChargeStartStateFrame junk d p
      else if cmd = 0x13 then rx_ChargeStopStateFrame junk d p
      else if cmd = 0x30 then rx_YcRecDataFrame d p
      else if cmd = 0x32 then rx_YxRecDataFrame d p
      else if cmd = 0x41 then rx_HeartRecFrame d p
      else if cmd = 0x52 then sys (\<lambda>x. x\<lparr>ChargIdent := d ! 0\<rparr>) p
      else if cmd = 0x60 then rx_PileParaInfoFrame junk d p
      else if cmd = 0x70 then rx_UpdateBeginFrame d p
      else if cmd = 0x72 then rx_DataSendReqFrame d p
      else if cmd = 0x74 then rx_DataSendFrame junk d p
      else if cmd = 0x76 then rx_UpdateCheckFrame junk d p
      else if cmd = 0x78 then rx_ResetFrame junk d p
      else p)"

definition CAN_V110_RecProtocal :: "u8 list \<Rightarrow> rt_can_msg \<Rightarrow> pile \<Rightarrow> pile" where
  "CAN_V110_RecProtocal junk m p =
     (let p1 = handle_frame junk (rx_cmd m) (can_data m) p
      in p1\<lparr>can_heart_count := 0, TotalFau := TotalFau p1 AND NOT CanOffLine_FAULT\<rparr>)"

section \<open>Commands and the thread\<close>

abbreviation (input) Cmd_ChargeStart :: u32 where "Cmd_ChargeStart \<equiv> 0"
abbreviation (input) Cmd_ChargeStartResp :: u32 where "Cmd_ChargeStartResp \<equiv> 1"
abbreviation (input) Cmd_ChargeStop :: u32 where "Cmd_ChargeStop \<equiv> 2"
abbreviation (input) Cmd_ChargeStopResp :: u32 where "Cmd_ChargeStopResp \<equiv> 3"
abbreviation (input) Cmd_SetPower :: u32 where "Cmd_SetPower \<equiv> 4"
abbreviation (input) Cmd_GetPower :: u32 where "Cmd_GetPower \<equiv> 5"
abbreviation (input) Cmd_SetPowerResp :: u32 where "Cmd_SetPowerResp \<equiv> 6"

text \<open>A command with the structure of the caller, which may be the null pointer; the result is 0 for success.\<close>

definition ChargepileDataGetSet ::
  "u32 \<Rightarrow> ChargPilePara_TypeDef option \<Rightarrow> pile \<Rightarrow> u8 \<times> ChargPilePara_TypeDef option \<times> pile" where
  "ChargepileDataGetSet cmd para p =
     (if cmd = Cmd_ChargeStart then
        (if ChgState p = state_Standby then (0, para, set_state state_ChargStart p) else (1, para, p))
      else if cmd = Cmd_ChargeStartResp then
        (case para of None \<Rightarrow> (0, None, pile_wild p) | Some x \<Rightarrow> (0, Some (x\<lparr>para_StartReson := para_StartReson (STR_ChargPilePara p)\<rparr>), p))
      else if cmd = Cmd_ChargeStop then
        (if ChgState p = state_Charging then (0, para, set_state state_ToCheck p) else (1, para, p))
      else if cmd = Cmd_ChargeStopResp then
        (case para of None \<Rightarrow> (0, None, pile_wild p) | Some x \<Rightarrow> (0, Some (x\<lparr>para_StopReson := para_StopReson (STR_ChargPilePara p)\<rparr>), p))
      else if cmd = Cmd_SetPower then
        (case para of None \<Rightarrow> (0, None, pile_wild p)
         | Some x \<Rightarrow> (0, para, p\<lparr>STR_ChargPilePara := (STR_ChargPilePara p)\<lparr>para_PWM_Duty := para_PWM_Duty x\<rparr>\<rparr>))
      else if cmd = Cmd_GetPower then
        (case para of None \<Rightarrow> (0, None, pile_wild p) | Some x \<Rightarrow> (0, Some (x\<lparr>para_PWM_Duty := para_PWM_Duty (STR_ChargPilePara p)\<rparr>), p))
      else if cmd = 7 \<or> cmd = 8 then (0, para, p)
      else (1, para, p))"

text \<open>Start-up of the thread, one turn of its loop, and the one-second timer.\<close>

definition chargepile_thread_begin :: "pile \<Rightarrow> pile" where
  "chargepile_thread_begin p =
     sys (\<lambda>x. x\<lparr>LdSwitch := 1\<rparr>) (set_state state_WaitVertionCheck (p\<lparr>strYC := (strYC p)\<lparr>ChargVa := 2200, ChargVb := 2200, ChargVc := 2200\<rparr>\<rparr>))"

definition self_command :: "pile \<Rightarrow> pile" where
  "self_command p =
     (if ChgState p = state_Standby \<and> RunTime p mod 5 = 0 then snd (snd (ChargepileDataGetSet Cmd_ChargeStart None p))
      else if ChgState p = state_Charging \<and> RunTime p mod 10 = 0 then snd (snd (ChargepileDataGetSet Cmd_ChargeStop None p))
      else p)"

text \<open>
  A turn of the loop sends what the state asks for and then assigns the next state.  The receiving thread has the higher priority and
  may handle frames between the two, so that they are definitions of their own; the case is chosen before the frame is sent.
\<close>

definition chargepile_thread_send :: "u8 list \<Rightarrow> pile \<Rightarrow> pile" where
  "chargepile_thread_send junk p =
     (case ChgState p of
        state_WaitVertionCheck \<Rightarrow> Inform_Communicate_Can 0x07 0 junk p
      | state_WaitPilePara \<Rightarrow> Inform_Communicate_Can 0x09 0 junk p
      | state_ChargStart \<Rightarrow> Inform_Communicate_Can 0x01 0 junk p
      | state_ToCheck \<Rightarrow> Inform_Communicate_Can 0x03 0 junk p
      | _ \<Rightarrow> p)"

definition chargepile_thread_assign :: "CHG_PILE_STATE \<Rightarrow> pile \<Rightarrow> pile" where
  "chargepile_thread_assign x p =
     (case x of
        state_ChargStart \<Rightarrow> set_state state_WaitChargeStartFrameAsk p
      | state_ToCheck \<Rightarrow> set_state state_WaitChargeStartFrameAsk p
      | state_ChargEnd \<Rightarrow>
          set_state state_Standby (set_resend F_YxBackupSendData 1 (set_resend F_YcSendData 1 (p\<lparr>ReSendFlag := (\<lambda>_. 0), ReSendCnt := (\<lambda>_. 0)\<rparr>)))
      | _ \<Rightarrow> p)"

definition chargepile_thread_turn :: "u8 list \<Rightarrow> (u8 list \<times> rt_can_msg) list \<Rightarrow> pile \<Rightarrow> pile" where
  "chargepile_thread_turn junk fs p =
     (let p1 = self_command p
      in chargepile_thread_assign (ChgState p1) (fold (\<lambda>(j, m). CAN_V110_RecProtocal j m) fs (chargepile_thread_send junk p1)))"

definition CAN_Heart_Tx_callback :: "pile \<Rightarrow> pile" where
  "CAN_Heart_Tx_callback p = p\<lparr>RunTime := RunTime p + 1, WaitStop_time := WaitStop_time p + 1\<rparr>"

section \<open>Frame facts\<close>

lemmas send_defs = send_ChargeStartFrame_def send_ChargeStopFrame_def send_TimingFrame_def send_TimingFrameAck_def send_VertionCheckFrame_def
  send_ChargeParaInfoFrame_def send_ChargeServeOnOffFrame_def send_ChargeServeOnOffFrameAck_def send_ElecLockFrame_def send_ElecLockFrameAck_def
  send_PowerAdjustFrame_def send_PowerAdjustFrameAck_def send_ChargeStartStateFrameAck_def send_ChargeStopStateFrameAck_def
  send_YcSendDataFrame_def send_HeartSendFrame_def send_SendErrorStateFrame_def send_PileParaInfoFrameAck_def send_UpdateBeginFrameAck_def
  send_DataSendReqFrameAck_def send_DataSendFrameAck_def send_UpdateCheckFrameAck_def send_ResetFrameAck_def

definition same_core :: "pile \<Rightarrow> pile \<Rightarrow> bool" where
  "same_core p q \<longleftrightarrow> ChgState q = ChgState p \<and> pk q = pk p \<and> ChargePileEvent q = ChargePileEvent p \<and> RunTime q = RunTime p
     \<and> System_Time_STR q = System_Time_STR p \<and> wild q = wild p"

lemma same_core_refl [simp]: "same_core p p"
  by (simp add: same_core_def)

lemma same_core_send [simp]: "same_core p (CAN1_Send_Msg i b n q) = same_core p q"
  by (simp add: same_core_def CAN1_Send_Msg_def)

lemma same_core_resend [simp]: "same_core p (ask_resend k r q) = same_core p q"
  by (simp add: same_core_def ask_resend_def set_resend_def set_resend_cnt_def)

lemma same_core_sys [simp]: "same_core p (sys f q) = same_core p q"
  by (simp add: same_core_def sys_def)

lemma same_core_yc [simp]: "same_core p (q\<lparr>strYC := y\<rparr>) = same_core p q"
  by (simp add: same_core_def)

lemma same_core_frames [simp]: "same_core p (send_frames i bs q) = same_core p q"
  by (induction bs arbitrary: q) (simp_all add: send_frames_def)

lemma inform_core: "same_core p (Inform_Communicate_Can c r junk p)"
  by (simp add: Inform_Communicate_Can_def send_defs Let_def split: prod.split)

lemma inform_sel [simp]:
  "ChgState (Inform_Communicate_Can c r junk p) = ChgState p" "pk (Inform_Communicate_Can c r junk p) = pk p"
  "ChargePileEvent (Inform_Communicate_Can c r junk p) = ChargePileEvent p" "RunTime (Inform_Communicate_Can c r junk p) = RunTime p"
  "System_Time_STR (Inform_Communicate_Can c r junk p) = System_Time_STR p" "wild (Inform_Communicate_Can c r junk p) = wild p"
  using inform_core [of p c r junk] by (simp_all add: same_core_def)

text \<open>The resend flags, when no resend is asked for.\<close>

lemma send_flags [simp]:
  "ReSendFlag (CAN1_Send_Msg i b n q) = ReSendFlag q" "ReSendFlag (ask_resend k 0 q) = ReSendFlag q" "ReSendFlag (sys f q) = ReSendFlag q"
  by (simp_all add: CAN1_Send_Msg_def ask_resend_def sys_def)

lemma send_frames_flags [simp]: "ReSendFlag (send_frames i bs q) = ReSendFlag q"
  by (induction bs arbitrary: q) (simp_all add: send_frames_def)

lemma inform_flags [simp]: "ReSendFlag (Inform_Communicate_Can c 0 junk p) = ReSendFlag p"
  by (simp add: Inform_Communicate_Can_def send_defs Let_def split: prod.split)

lemma pile_sel [simp]:
  "ChgState (sys f p) = ChgState p" "pk (sys f p) = pk p" "ChargePileEvent (sys f p) = ChargePileEvent p" "RunTime (sys f p) = RunTime p"
  "ChgState (set_resend k v p) = ChgState p" "pk (set_resend k v p) = pk p" "ChargePileEvent (set_resend k v p) = ChargePileEvent p"
  "ReSendFlag (set_resend k v p) = (ReSendFlag p)(k := v)" "ReSendFlag (set_resend_cnt k v p) = ReSendFlag p"
  "ChgState (set_resend_cnt k v p) = ChgState p" "pk (set_resend_cnt k v p) = pk p" "ChargePileEvent (set_resend_cnt k v p) = ChargePileEvent p"
  "ChgState (set_state x p) = x" "pk (set_state x p) = pk p" "ChargePileEvent (set_state x p) = ChargePileEvent p" "ReSendFlag (set_state x p) = ReSendFlag p"
  "RunTime (set_state x p) = RunTime p" "RunTime (set_resend k v p) = RunTime p" "RunTime (set_resend_cnt k v p) = RunTime p"
  "ChgState (send_pile_event e p) = ChgState p" "ReSendFlag (send_pile_event e p) = ReSendFlag p" "ChargePileEvent (send_pile_event e p) = ChargePileEvent p"
  "ChgState (pile_wild p) = ChgState p" "ReSendFlag (pile_wild p) = ReSendFlag p" "pk (pile_wild p) = pk p" "ChargePileEvent (pile_wild p) = ChargePileEvent p"
  by (simp_all add: sys_def set_resend_def set_resend_cnt_def set_state_def send_pile_event_def pile_wild_def)

lemma upd_sel [simp]:
  "ChgState (upd_prog f p) = ChgState p" "ChgState (upd_chg g p) = ChgState p" "ChgState (buff_append bs p) = ChgState p"
  "ChgState (stop_timer t p) = ChgState p" "ChgState (start_timer t p) = ChgState p"
  by (simp_all add: upd_prog_def upd_chg_def buff_append_def stop_timer_def start_timer_def Let_def split: option.split)

section \<open>The states of a session\<close>

datatype pile_event = Turn "u8 list" | Preempted "u8 list" "(u8 list \<times> rt_can_msg) list" | Frame "u8 list" rt_can_msg | Command u32 "ChargPilePara_TypeDef option" | Second_passed

fun pile_step :: "pile_event \<Rightarrow> pile \<Rightarrow> pile" where
  "pile_step (Turn junk) p = chargepile_thread_turn junk [] p"
| "pile_step (Preempted junk fs) p = chargepile_thread_turn junk fs p"
| "pile_step (Frame junk m) p = CAN_V110_RecProtocal junk m p"
| "pile_step (Command c para) p = snd (snd (ChargepileDataGetSet c para p))"
| "pile_step Second_passed p = CAN_Heart_Tx_callback p"

definition pile_run :: "pile_event list \<Rightarrow> pile \<Rightarrow> pile" where
  "pile_run es p = fold pile_step es p"

lemma pile_run_simps [simp]: "pile_run [] p = p" "pile_run (e # es) p = pile_run es (pile_step e p)" "pile_run (es @ fs) p = pile_run fs (pile_run es p)"
  by (simp_all add: pile_run_def)

text \<open>Where a step can lead: what the thread and the commands do, and what a frame does.\<close>

fun own_next :: "CHG_PILE_STATE \<Rightarrow> CHG_PILE_STATE set" where
  "own_next state_Standby = {state_Standby, state_ChargStart, state_WaitChargeStartFrameAsk}"
| "own_next state_ChargStart = {state_ChargStart, state_WaitChargeStartFrameAsk}"
| "own_next state_Charging = {state_Charging, state_ToCheck, state_WaitChargeStartFrameAsk}"
| "own_next state_ToCheck = {state_ToCheck, state_WaitChargeStartFrameAsk}"
| "own_next state_ChargEnd = {state_ChargEnd, state_Standby}"
| "own_next x = {x}"

definition frame_next :: "u8 \<Rightarrow> CHG_PILE_STATE \<Rightarrow> CHG_PILE_STATE set" where
  "frame_next cmd x =
     (if cmd = 0x04 then {x, state_WaitStop}
      else if cmd = 0x08 then (if x = state_WaitVertionCheck then {x, state_WaitPilePara} else {x})
      else if cmd = 0x0A \<or> cmd = 0x74 then {x, state_Standby}
      else if cmd = 0x11 then {x, state_Charging}
      else if cmd = 0x13 then {x, state_ChargEnd}
      else {x})"

lemmas turn_defs = chargepile_thread_turn_def chargepile_thread_send_def chargepile_thread_assign_def self_command_def ChargepileDataGetSet_def

lemma turn_next: "ChgState (chargepile_thread_turn junk [] p) \<in> own_next (ChgState p)"
  by (cases "ChgState p") (auto simp: turn_defs Let_def)

lemma command_next: "ChgState (snd (snd (ChargepileDataGetSet c para p))) \<in> own_next (ChgState p)"
  by (cases "ChgState p"; cases para) (auto simp: ChargepileDataGetSet_def)

lemma data_refused_state [simp]:
  "ChgState (data_refused junk p) = (if ErrResendCount (chgUpdate p) + 1 \<ge> 3 then state_Standby else ChgState p)"
  by (simp add: data_refused_def upd_chg_def [of "\<lambda>u. u\<lparr>ErrResendCount := ErrResendCount u + 1\<rparr>"] Let_def)

lemma data_next: "ChgState (rx_DataSendFrame junk d p) \<in> {ChgState p, state_Standby}"
proof -
  have first: "ChgState (data_first d q) = ChgState q" for q
    by (simp add: data_first_def Let_def)
  have last: "ChgState (data_last junk d q) \<in> {ChgState q, state_Standby}" for q
    by (simp add: data_last_def Let_def)
  show ?thesis using first last [of "upd_chg (\<lambda>u. u\<lparr>MessageNum := d ! 0\<rparr>) p"] by (simp add: rx_DataSendFrame_def Let_def)
qed

lemmas rx_defs = rx_ChargeStopFrameAck_def rx_TimingFrame_def rx_VertionCheckFrameAck_def rx_ChargeParaInfoFrameAck_def rx_ChargeServeOnOffFrame_def
  rx_ElecLockFrame_def rx_PowerAdjustFrame_def rx_ChargeStartStateFrame_def rx_ChargeStopStateFrame_def rx_YcRecDataFrame_def rx_YxRecDataFrame_def
  rx_HeartRecFrame_def rx_PileParaInfoFrame_def rx_UpdateBeginFrame_def rx_DataSendReqFrame_def rx_UpdateCheckFrame_def rx_ResetFrame_def

lemma frame_next_ok: "ChgState (CAN_V110_RecProtocal junk m p) \<in> frame_next (rx_cmd m) (ChgState p)"
proof -
  have "ChgState (handle_frame junk c d p) \<in> frame_next c (ChgState p)" for c d
  proof (cases "c = 0x74")
    case True
    then show ?thesis using data_next [of junk d p] by (simp add: handle_frame_def frame_next_def)
  next
    case False
    then show ?thesis unfolding handle_frame_def frame_next_def by (simp add: rx_defs Let_def)
  qed
  then show ?thesis by (simp add: CAN_V110_RecProtocal_def Let_def)
qed

text \<open>Frames between the two halves of a turn: where they lead from the states of the first half, or the state the second half assigns.\<close>

fun frames_next :: "(u8 list \<times> rt_can_msg) list \<Rightarrow> CHG_PILE_STATE set \<Rightarrow> CHG_PILE_STATE set" where
  "frames_next [] xs = xs"
| "frames_next ((_, m) # fs) xs = frames_next fs (\<Union>x \<in> xs. frame_next (rx_cmd m) x)"

lemma frames_next_ok: "ChgState p \<in> xs \<Longrightarrow> ChgState (fold (\<lambda>(j, m). CAN_V110_RecProtocal j m) fs p) \<in> frames_next fs xs"
proof (induction fs arbitrary: p xs)
  case (Cons f fs)
  obtain j m where f: "f = (j, m)" by (rule prod.exhaust)
  have "ChgState (CAN_V110_RecProtocal j m p) \<in> (\<Union>x \<in> xs. frame_next (rx_cmd m) x)" using Cons.prems frame_next_ok by blast
  from Cons.IH [OF this] show ?case by (simp add: f)
qed simp

lemma preempted_next: "ChgState (chargepile_thread_turn junk fs p) \<in> own_next (ChgState p) \<union> frames_next fs {ChgState p}"
proof (cases "ChgState (self_command p) \<in> {state_ChargStart, state_ToCheck, state_ChargEnd}")
  case True
  then have "ChgState (chargepile_thread_turn junk fs p) \<in> own_next (ChgState p)"
    by (cases "ChgState p") (auto simp: turn_defs Let_def split: if_splits)
  then show ?thesis ..
next
  case False
  then have s: "ChgState (self_command p) = ChgState p" by (auto simp: self_command_def ChargepileDataGetSet_def split: if_splits)
  have "ChgState (chargepile_thread_send junk (self_command p)) \<in> {ChgState p}"
    unfolding chargepile_thread_send_def s by (cases "ChgState p") (simp_all add: s)
  from frames_next_ok [OF this, of fs]
  have "ChgState (chargepile_thread_turn junk fs p) \<in> frames_next fs {ChgState p}"
    using False s by (cases "ChgState p") (simp_all add: chargepile_thread_turn_def chargepile_thread_assign_def Let_def)
  then show ?thesis ..
qed

definition pile_next :: "pile_event \<Rightarrow> CHG_PILE_STATE \<Rightarrow> CHG_PILE_STATE set" where
  "pile_next e x = (case e of Turn _ \<Rightarrow> own_next x | Preempted _ fs \<Rightarrow> own_next x \<union> frames_next fs {x} | Command _ _ \<Rightarrow> own_next x | Frame _ m \<Rightarrow> frame_next (rx_cmd m) x | Second_passed \<Rightarrow> {x})"

lemma pile_step_next: "ChgState (pile_step e p) \<in> pile_next e (ChgState p)"
  using turn_next preempted_next command_next frame_next_ok by (cases e) (simp_all add: pile_next_def CAN_Heart_Tx_callback_def)

definition session_states :: "CHG_PILE_STATE set" where
  "session_states = {state_WaitVertionCheck, state_WaitPilePara, state_Standby, state_ChargStart, state_WaitChargeStartFrameAsk, state_Charging,
     state_ToCheck, state_WaitStop, state_ChargEnd}"

lemma own_next_states: "x \<in> session_states \<Longrightarrow> own_next x \<subseteq> session_states"
  by (cases x) (auto simp: session_states_def)

lemma frame_next_states: "x \<in> session_states \<Longrightarrow> frame_next c x \<subseteq> session_states"
  by (auto simp: frame_next_def session_states_def)

lemma frames_next_states: "xs \<subseteq> session_states \<Longrightarrow> frames_next fs xs \<subseteq> session_states"
proof (induction fs xs rule: frames_next.induct)
  case (2 j m fs xs)
  have "(\<Union>x \<in> xs. frame_next (rx_cmd m) x) \<subseteq> session_states" using "2.prems" frame_next_states by blast
  from "2.IH" [OF this] show ?case by simp
qed simp

lemma pile_next_states: "x \<in> session_states \<Longrightarrow> pile_next e x \<subseteq> session_states"
  using own_next_states [of x] frame_next_states [of x] frames_next_states [of "{x}"] by (cases e) (simp_all add: pile_next_def)

lemma pile_run_states: "ChgState p \<in> session_states \<Longrightarrow> ChgState (pile_run es p) \<in> session_states"
proof (induction es arbitrary: p)
  case (Cons e es)
  then show ?case using pile_next_states [of "ChgState p" e] pile_step_next [of e p] by auto
qed simp

text \<open>C37.  Whatever the thread, the bus, the timer and the commands do, and in whatever order, the pile follows the table of
  \<^verbatim>\<open>pile_next\<close>: only the start status frame makes it charge, only the stop status frame ends the charging, and the commands
  and the thread take it no further than to waiting for those.  From the start-up on it stays in nine of the twenty-two states;
  the state that waits for the answer to a stop, and those of an update, are never reached.\<close>

theorem pile_states:
  "ChgState (pile_step e p) \<in> pile_next e (ChgState p)
   \<and> ChgState (pile_run es (chargepile_thread_begin p))
       \<in> {state_WaitVertionCheck, state_WaitPilePara, state_Standby, state_ChargStart, state_WaitChargeStartFrameAsk, state_Charging,
          state_ToCheck, state_WaitStop, state_ChargEnd}"
proof -
  have "ChgState (chargepile_thread_begin p) \<in> session_states" by (simp add: chargepile_thread_begin_def session_states_def)
  from pile_run_states [OF this] show ?thesis using pile_step_next unfolding session_states_def by blast
qed

section \<open>A charging session\<close>

text \<open>What may happen at any time: a second passes, telemetry, status, heartbeat or error frames come in.\<close>

definition quiet :: "pile_event \<Rightarrow> bool" where
  "quiet e \<longleftrightarrow> (case e of Second_passed \<Rightarrow> True | Frame _ m \<Rightarrow> rx_cmd m \<in> {0x30, 0x32, 0x41, 0x52} | _ \<Rightarrow> False)"

definition sent_cmds :: "pile \<Rightarrow> u8 list" where
  "sent_cmds p = map rx_cmd (can_out p)"

definition session_view :: "pile \<Rightarrow> CHG_PILE_STATE \<times> (frame_kind \<Rightarrow> u8) \<times> kernel \<times> nat \<times> u8 list" where
  "session_view p = (ChgState p, ReSendFlag p, pk p, ChargePileEvent p, sent_cmds p)"

lemma quiet_step: "quiet e \<Longrightarrow> session_view (pile_step e p) = session_view p"
  by (cases e)
    (auto simp: quiet_def session_view_def sent_cmds_def CAN_V110_RecProtocal_def handle_frame_def CAN_Heart_Tx_callback_def rx_YcRecDataFrame_def
      rx_YxRecDataFrame_def rx_HeartRecFrame_def sys_def Let_def)

lemma quiet_run: "\<forall>e \<in> set es. quiet e \<Longrightarrow> session_view (pile_run es p) = session_view p"
  by (induction es arbitrary: p) (simp_all add: quiet_step)

lemma tx_id_cmds [simp]:
  "rx_cmd \<lparr>can_id = tx_id 4 0x01, can_data = d\<rparr> = 0x01" "rx_cmd \<lparr>can_id = tx_id 4 0x03, can_data = d\<rparr> = 0x03"
  "rx_cmd \<lparr>can_id = tx_id 4 0x12, can_data = d\<rparr> = 0x12" "rx_cmd \<lparr>can_id = tx_id 4 0x14, can_data = d\<rparr> = 0x14"
  "rx_cmd \<lparr>can_id = tx_id 6 0x05, can_data = d\<rparr> = 0x05" "rx_cmd \<lparr>can_id = tx_id 6 0x30, can_data = d\<rparr> = 0x30"
  by (simp_all add: rx_cmd_def tx_id_def)

lemma sent_send [simp]: "sent_cmds (CAN1_Send_Msg i b n p) = sent_cmds p @ [ucast (drop_bit 16 i AND 0xFF)]"
  by (simp add: sent_cmds_def CAN1_Send_Msg_def rx_cmd_def)

lemma sent_sel [simp]:
  "sent_cmds (ask_resend k r p) = sent_cmds p" "sent_cmds (set_state x p) = sent_cmds p" "sent_cmds (sys f p) = sent_cmds p"
  "sent_cmds (send_pile_event v p) = sent_cmds p" "sent_cmds (set_resend k b p) = sent_cmds p"
  "sent_cmds (p\<lparr>ReSendFlag := f1, ReSendCnt := g\<rparr>) = sent_cmds p" "sent_cmds (p\<lparr>can_heart_count := h, TotalFau := u\<rparr>) = sent_cmds p"
  by (simp_all add: sent_cmds_def ask_resend_def set_resend_def set_resend_cnt_def set_state_def sys_def send_pile_event_def)

lemma sent_time: "sent_cmds (p\<lparr>System_Time_STR := t\<rparr>) = sent_cmds p"
  by (simp add: sent_cmds_def)

lemma sent_inform:
  "sent_cmds (Inform_Communicate_Can 0x01 r junk p) = sent_cmds p @ [0x01]" "sent_cmds (Inform_Communicate_Can 0x03 r junk p) = sent_cmds p @ [0x03]"
  "sent_cmds (Inform_Communicate_Can 0x12 r junk p) = sent_cmds p @ [0x12]" "sent_cmds (Inform_Communicate_Can 0x14 r junk p) = sent_cmds p @ [0x14]"
  "sent_cmds (Inform_Communicate_Can 0x06 r junk p) = sent_cmds p @ [0x06]"
  by (simp_all add: Inform_Communicate_Can_def send_defs tx_id_def)

lemma pk_send_event [simp]: "pk (send_pile_event v p) = snd (rt_event_send (ChargePileEvent p) v (pk p))"
  by (simp add: send_pile_event_def)

text \<open>The steps of a session.\<close>

lemma view_start:
  "ChgState p = state_Standby \<Longrightarrow>
   session_view (pile_step (Command Cmd_ChargeStart a) p) = (state_ChargStart, ReSendFlag p, pk p, ChargePileEvent p, sent_cmds p)"
  by (simp add: session_view_def ChargepileDataGetSet_def)

lemma view_stop:
  "ChgState p = state_Charging \<Longrightarrow>
   session_view (pile_step (Command Cmd_ChargeStop a) p) = (state_ToCheck, ReSendFlag p, pk p, ChargePileEvent p, sent_cmds p)"
  by (simp add: session_view_def ChargepileDataGetSet_def)

lemma view_turn:
  "ChgState p = state_ChargStart \<Longrightarrow>
   session_view (pile_step (Turn junk) p) = (state_WaitChargeStartFrameAsk, ReSendFlag p, pk p, ChargePileEvent p, sent_cmds p @ [0x01])"
  "ChgState p = state_ToCheck \<Longrightarrow>
   session_view (pile_step (Turn junk) p) = (state_WaitChargeStartFrameAsk, ReSendFlag p, pk p, ChargePileEvent p, sent_cmds p @ [0x03])"
  "ChgState p = state_ChargEnd \<Longrightarrow>
   session_view (pile_step (Turn junk) p)
     = (state_Standby, (\<lambda>_. 0)(F_YcSendData := 1, F_YxBackupSendData := 1), pk p, ChargePileEvent p, sent_cmds p)"
  by (simp_all add: session_view_def turn_defs sent_inform Let_def)

lemma view_started:
  assumes "rx_cmd m = 0x11" "can_data m ! 2 = 0" "ReSendFlag p F_ChargeStartStateAck \<noteq> 1"
  shows "session_view (pile_step (Frame junk m) p)
    = (state_Charging, (ReSendFlag p)(F_ChargeStartStateAck := 1), snd (rt_event_send (ChargePileEvent p) ChargeStartOK_EVENT (pk p)), ChargePileEvent p,
       sent_cmds p @ [0x12])"
  using assms
  by (simp add: session_view_def CAN_V110_RecProtocal_def handle_frame_def rx_ChargeStartStateFrame_def sent_inform Let_def)
    (simp add: sys_def)

lemma view_stopped:
  assumes "rx_cmd m = 0x13" "can_data m ! 2 = 0" "ReSendFlag p F_ChargeStopStateAck \<noteq> 1"
  shows "session_view (pile_step (Frame junk m) p)
    = (state_ChargEnd, (ReSendFlag p)(F_ChargeStopStateAck := 1), snd (rt_event_send (ChargePileEvent p) ChargeStopOK_EVENT (pk p)), ChargePileEvent p,
       sent_cmds p @ [0x14])"
  using assms
  by (simp add: session_view_def CAN_V110_RecProtocal_def handle_frame_def rx_ChargeStopStateFrame_def sent_inform Let_def)
    (simp add: sys_def)

definition waiting :: "pile_event \<Rightarrow> bool" where
  "waiting e \<longleftrightarrow> quiet e \<or> (case e of Turn _ \<Rightarrow> True | _ \<Rightarrow> False)"

lemma waiting_step:
  assumes "waiting e" "ChgState p = state_WaitChargeStartFrameAsk"
  shows "session_view (pile_step e p) = session_view p"
  using assms quiet_step [of e p] by (cases e) (simp_all add: waiting_def quiet_def turn_defs Let_def)

lemma waiting_run:
  assumes "\<forall>e \<in> set es. waiting e" "ChgState p = state_WaitChargeStartFrameAsk"
  shows "session_view (pile_run es p) = session_view p"
  using assms
proof (induction es arbitrary: p)
  case (Cons e es)
  have v: "session_view (pile_step e p) = session_view p" using Cons.prems by (intro waiting_step) simp_all
  then have "ChgState (pile_step e p) = state_WaitChargeStartFrameAsk" using Cons.prems(2) by (simp add: session_view_def)
  then show ?case using Cons.IH [of "pile_step e p"] Cons.prems(1) v by simp
qed simp

text \<open>The two halves of a session.\<close>

lemma session_begins:
  assumes "ChgState p = state_Standby" "ReSendFlag p F_ChargeStartStateAck \<noteq> 1" "\<forall>e \<in> set q. waiting e" "rx_cmd m = 0x11" "can_data m ! 2 = 0"
  shows "session_view (pile_run ([Command Cmd_ChargeStart a, Turn j] @ q @ [Frame j' m]) p)
    = (state_Charging, (ReSendFlag p)(F_ChargeStartStateAck := 1), snd (rt_event_send (ChargePileEvent p) ChargeStartOK_EVENT (pk p)), ChargePileEvent p,
       sent_cmds p @ [0x01, 0x12])"
proof -
  let ?p1 = "pile_step (Command Cmd_ChargeStart a) p"
  have v1: "session_view ?p1 = (state_ChargStart, ReSendFlag p, pk p, ChargePileEvent p, sent_cmds p)" using assms(1) by (rule view_start)
  let ?p2 = "pile_step (Turn j) ?p1"
  have v2: "session_view ?p2 = (state_WaitChargeStartFrameAsk, ReSendFlag p, pk p, ChargePileEvent p, sent_cmds p @ [0x01])"
    using view_turn(1) [of ?p1 j] v1 by (simp add: session_view_def)
  let ?p3 = "pile_run q ?p2"
  have v3: "session_view ?p3 = session_view ?p2" using assms(3) v2 by (intro waiting_run) (simp_all add: session_view_def)
  show ?thesis using view_started [OF assms(4,5), of ?p3 j'] assms(2) v2 v3 by (simp add: session_view_def)
qed

lemma session_ends:
  assumes "ChgState p = state_Charging" "ReSendFlag p F_ChargeStopStateAck \<noteq> 1" "\<forall>e \<in> set q. waiting e" "rx_cmd m = 0x13" "can_data m ! 2 = 0"
    and q': "\<forall>e \<in> set q'. quiet e"
  shows "session_view (pile_run ([Command Cmd_ChargeStop a, Turn j] @ q @ [Frame j' m] @ q' @ [Turn j'']) p)
    = (state_Standby, (\<lambda>_. 0)(F_YcSendData := 1, F_YxBackupSendData := 1), snd (rt_event_send (ChargePileEvent p) ChargeStopOK_EVENT (pk p)),
       ChargePileEvent p, sent_cmds p @ [0x03, 0x14])"
proof -
  let ?p1 = "pile_step (Command Cmd_ChargeStop a) p"
  have v1: "session_view ?p1 = (state_ToCheck, ReSendFlag p, pk p, ChargePileEvent p, sent_cmds p)" using assms(1) by (rule view_stop)
  let ?p2 = "pile_step (Turn j) ?p1"
  have v2: "session_view ?p2 = (state_WaitChargeStartFrameAsk, ReSendFlag p, pk p, ChargePileEvent p, sent_cmds p @ [0x03])"
    using view_turn(2) [of ?p1 j] v1 by (simp add: session_view_def)
  let ?p3 = "pile_run q ?p2"
  have v3: "session_view ?p3 = session_view ?p2" using assms(3) v2 by (intro waiting_run) (simp_all add: session_view_def)
  let ?p4 = "pile_run q' (pile_step (Frame j' m) ?p3)"
  have v4: "session_view ?p4 = (state_ChargEnd, (ReSendFlag p)(F_ChargeStopStateAck := 1),
      snd (rt_event_send (ChargePileEvent p) ChargeStopOK_EVENT (pk p)), ChargePileEvent p, sent_cmds p @ [0x03, 0x14])"
    using view_stopped [OF assms(4,5), of ?p3 j'] assms(2) v2 v3 quiet_run [OF q', of "pile_step (Frame j' m) ?p3"] by (simp add: session_view_def)
  show ?thesis using view_turn(3) [of ?p4 j''] v4 by (simp add: session_view_def)
qed

text \<open>C36.  A charging session runs to its end.  A start command to a pile in standby sends the start frame; when the controller
  reports success the pile is charging, and the success is answered and signalled.  A stop command sends the stop frame; when the
  controller reports the stop, it is answered and signalled, and one turn later the pile is in standby with the flags of the session
  cleared, ready for the next one.  Telemetry, status, heartbeat and error frames, passing seconds and, while an answer is awaited, turns of the
  thread may come in between.\<close>

theorem charging_session:
  assumes "ChgState p = state_Standby" "ReSendFlag p F_ChargeStartStateAck \<noteq> 1" "ReSendFlag p F_ChargeStopStateAck \<noteq> 1"
    and "\<forall>e \<in> set q1. waiting e" "\<forall>e \<in> set q2. quiet e" "\<forall>e \<in> set q3. waiting e" "\<forall>e \<in> set q4. quiet e"
    and "rx_cmd m1 = 0x11" "can_data m1 ! 2 = 0" "rx_cmd m2 = 0x13" "can_data m2 ! 2 = 0"
    and p1: "p1 = pile_run ([Command Cmd_ChargeStart a, Turn j1] @ q1 @ [Frame j2 m1]) p"
    and p2: "p2 = pile_run (q2 @ [Command Cmd_ChargeStop b, Turn j3] @ q3 @ [Frame j4 m2] @ q4 @ [Turn j5]) p1"
  shows "ChgState p1 = state_Charging \<and> sent_cmds p1 = sent_cmds p @ [0x01, 0x12]
    \<and> pk p1 = snd (rt_event_send (ChargePileEvent p) ChargeStartOK_EVENT (pk p))
    \<and> ChgState p2 = state_Standby \<and> sent_cmds p2 = sent_cmds p1 @ [0x03, 0x14]
    \<and> pk p2 = snd (rt_event_send (ChargePileEvent p) ChargeStopOK_EVENT (pk p1))
    \<and> ReSendFlag p2 F_ChargeStartStateAck = 0 \<and> ReSendFlag p2 F_ChargeStopStateAck = 0"
proof -
  have v1: "session_view p1 = (state_Charging, (ReSendFlag p)(F_ChargeStartStateAck := 1),
      snd (rt_event_send (ChargePileEvent p) ChargeStartOK_EVENT (pk p)), ChargePileEvent p, sent_cmds p @ [0x01, 0x12])"
    unfolding p1 using assms(1,2,4,8,9) by (rule session_begins)
  have v: "session_view (pile_run q2 p1) = session_view p1" using assms(5) by (rule quiet_run)
  have c: "ChgState (pile_run q2 p1) = state_Charging" "ReSendFlag (pile_run q2 p1) F_ChargeStopStateAck \<noteq> 1"
    using v v1 assms(3) by (simp_all add: session_view_def)
  have "p2 = pile_run ([Command Cmd_ChargeStop b, Turn j3] @ q3 @ [Frame j4 m2] @ q4 @ [Turn j5]) (pile_run q2 p1)" by (simp add: p2)
  then show ?thesis using session_ends [OF c assms(6,10,11,7), of b j3 j4 j5] v v1 by (simp add: session_view_def)
qed

text \<open>A pile in a given state, with an event set of the kernel.\<close>

definition demo_pile :: "CHG_PILE_STATE \<Rightarrow> u8 \<Rightarrow> pile" where
  "demo_pile x mins = \<lparr>ChgState = x, PWM_Duty = 0, TotalFau = 0,
     StrStateSystem = \<lparr>ChargIdent = 1, DeviceType = 2, ReplyState = 0, LdSwitch = 1, RecStatus = 0, RecCount = 0, SendCount = 0, reaonIdent = 0,
       ConfIdent = 0, StartReson = 0, StopReson = 0, ResetAct = 0\<rparr>,
     ReSendFlag = (\<lambda>_. 0), ReSendCnt = (\<lambda>_. 0), lock_Num = 0, Elelock = 0,
     strYC = \<lparr>ChargVa = 2200, ChargVb = 2200, ChargVc = 2200, ChargIa = 0, ChargIb = 0, ChargIc = 0, V_cp1 = 0, yc_Addition = 0, Tempt1 = 0, Tempt2 = 0,
       Tempt3 = 0, Tempt4 = 0\<rparr>,
     chgYC = \<lparr>MesNum = 0, Electricity = 0, ChrgTime = 0, chg_Addition = 0, TotalCheck = 0\<rparr>,
     strYX = \<lparr>WorkState = 0, yx_TotalFau = 0, TotalAlm = 0, ConnState = 0, StopEctFau = 0, ArresterFau = 0, GunOut = 0, ChgTemptOVFau = 0, VOVWarn = 0,
       VLVWarn = 0, OutConState = 0, PilotFau = 0, ACConFau = 0, OutCurrAla = 0, OverCurrFau = 0, ACCirFau = 0, LockState = 0, LockFauState = 0,
       GunTemptOVFau = 0, CC = 0, CP = 0, PEFau = 0, DooropenFau = 0, ChgTemptOVAla = 0, GunTemptOVAla = 0, Contactoradjoin = 0, GenAlaFau = 0,
       OthWarnNum = 0, OthWarnVal = 0\<rparr>,
     chgUpdate = \<lparr>UpdateConfIdent = 0, NoDownloadReason = 0, MessageNum = 0, FrameNum = 0, ValDataLen = 0, AdditionUp = 0, RevCheckUp = 0,
       ErrResendCount = 0\<rparr>,
     STR_ProgramUpdate = \<lparr>PileNum = replicate 8 0, App_Mark = 0, Update_Package_No = 0, file_totalNo = 0, file_ByteNo = 0, Update_Confirm = 0,
       Update_Message_No = 0, AdditionAll = 0\<rparr>,
     STMFLASH_BUFF = replicate 1026 0, STMFLASH_LENTH = 0, ChgErrData = replicate 12 False, software_date = replicate 8 0, uiVolOverAlm = 0,
     uiVolUnderAlm = 0, uiCurAlm = 0, STR_ChargPilePara = \<lparr>para_PWM_Duty = 0, para_StartReson = 0, para_StopReson = 0\<rparr>,
     System_Time_STR = \<lparr>Second = 30, Minute = mins, Hour = 12, Day = 15, Week = 3, Month = 8, Year = 19\<rparr>, WaitStop_time = 0, RunTime = 1,
     can_heart_count = 0, tempanalog = 0, ChargePileEvent = 2, CAN_Heart_Tx = None, CAN_250ms_Tx = None, pk = demo_system, can_out = [],
     reset_done = False, wild = False\<rparr>"

lemma demo_pile_sel [simp]:
  "ChgState (demo_pile x n) = x" "ReSendFlag (demo_pile x n) = (\<lambda>_. 0)" "can_out (demo_pile x n) = []" "sent_cmds (demo_pile x n) = []"
  "System_Time_STR (demo_pile x n) = \<lparr>Second = 30, Minute = n, Hour = 12, Day = 15, Week = 3, Month = 8, Year = 19\<rparr>"
  by (simp_all add: demo_pile_def sent_cmds_def)

definition demo_msg :: "u8 \<Rightarrow> u8 \<Rightarrow> rt_can_msg" where
  "demo_msg cmd conf = \<lparr>can_id = tx_id 4 cmd, can_data = [1, 1, conf, 0, 0, 0, 0, 0]\<rparr>"

lemma demo_msg_cmd: "rx_cmd (demo_msg 0x11 c) = 0x11" "rx_cmd (demo_msg 0x13 c) = 0x13"
  by (simp_all add: rx_cmd_def demo_msg_def tx_id_def)

theorem charging_session_witness:
  "\<exists>p1 p2. p1 = pile_run ([Command Cmd_ChargeStart None, Turn []] @ [Second_passed, Turn []] @ [Frame [] (demo_msg 0x11 0)]) (demo_pile state_Standby 0)
     \<and> ChgState p1 = state_Charging \<and> sent_cmds p1 = [0x01, 0x12]
     \<and> p2 = pile_run ([] @ [Command Cmd_ChargeStop None, Turn []] @ [] @ [Frame [] (demo_msg 0x13 0)] @ [Second_passed] @ [Turn []]) p1
     \<and> ChgState p2 = state_Standby \<and> sent_cmds p2 = [0x01, 0x12, 0x03, 0x14]"
proof -
  have h: "\<forall>e \<in> set [Second_passed, Turn []]. waiting e" "\<forall>e \<in> set []. quiet e" "\<forall>e \<in> set []. waiting e" "\<forall>e \<in> set [Second_passed]. quiet e"
    "can_data (demo_msg 0x11 0) ! 2 = 0" "can_data (demo_msg 0x13 0) ! 2 = 0"
    by (simp_all add: waiting_def quiet_def demo_msg_def)
  show ?thesis
    using charging_session [OF _ _ _ h(1-4) demo_msg_cmd(1) h(5) demo_msg_cmd(2) h(6) refl refl,
        of "demo_pile state_Standby 0" None "[]" "[]" None "[]" "[]" "[]"]
    by (intro exI conjI; (rule refl)?) auto
qed

text \<open>A report of a failed start.\<close>

definition retry :: "pile_event \<Rightarrow> bool" where
  "retry e \<longleftrightarrow> waiting e \<or> (case e of Command _ _ \<Rightarrow> True | Frame _ m \<Rightarrow> rx_cmd m = 0x11 | _ \<Rightarrow> False)"

lemma retry_step:
  assumes "retry e" "ChgState p = state_WaitChargeStartFrameAsk" "ReSendFlag p F_ChargeStartStateAck = 1"
  shows "session_view (pile_step e p) = session_view p"
proof -
  have "session_view (snd (snd (ChargepileDataGetSet c para p))) = session_view p" for c para
    using assms(2) by (cases para) (simp_all add: ChargepileDataGetSet_def session_view_def sent_cmds_def pile_wild_def)
  moreover have "session_view (CAN_V110_RecProtocal j m p) = session_view p" if "rx_cmd m = 0x11" for j m
    using assms(3) that by (simp add: CAN_V110_RecProtocal_def handle_frame_def rx_ChargeStartStateFrame_def session_view_def Let_def)
  ultimately show ?thesis using assms(1) waiting_step [OF _ assms(2), of e] by (cases e) (auto simp: retry_def)
qed

lemma retry_run:
  assumes "\<forall>e \<in> set es. retry e" "ChgState p = state_WaitChargeStartFrameAsk" "ReSendFlag p F_ChargeStartStateAck = 1"
  shows "session_view (pile_run es p) = session_view p"
  using assms
proof (induction es arbitrary: p)
  case (Cons e es)
  have v: "session_view (pile_step e p) = session_view p" using Cons.prems by (intro retry_step) simp_all
  then have "ChgState (pile_step e p) = state_WaitChargeStartFrameAsk" "ReSendFlag (pile_step e p) F_ChargeStartStateAck = 1"
    using Cons.prems(2,3) by (simp_all add: session_view_def)
  then show ?case using Cons.IH [of "pile_step e p"] Cons.prems(1) v by simp
qed simp

text \<open>
  A start that is reported while the thread has sent the start frame and not yet assigned the state it waits in: the thread overwrites the
  state of the report, the report is marked as received, and the pile waits although it charges.
\<close>

lemma early_report_overwritten:
  assumes "ChgState p = state_ChargStart" "ReSendFlag p F_ChargeStartStateAck \<noteq> 1" "rx_cmd m = 0x11" "can_data m ! 2 = 0"
  shows "session_view (pile_step (Preempted j [(j', m)]) p)
    = (state_WaitChargeStartFrameAsk, (ReSendFlag p)(F_ChargeStartStateAck := 1),
       snd (rt_event_send (ChargePileEvent p) ChargeStartOK_EVENT (pk p)), ChargePileEvent p, sent_cmds p @ [0x01, 0x12])"
proof -
  let ?p1 = "Inform_Communicate_Can 0x01 0 j p"
  have "session_view ?p1 = (state_ChargStart, ReSendFlag p, pk p, ChargePileEvent p, sent_cmds p @ [0x01])"
    using assms(1) by (simp add: session_view_def sent_inform)
  then show ?thesis using view_started [OF assms(3,4), of ?p1 j'] assms(1,2) by (simp add: session_view_def turn_defs Let_def)
qed

text \<open>C38.  A report of a failed start is neither answered nor signalled, and the pile stays where it waits for the start: the report only marks
  the start status frame as received.  From then on every further start status frame is taken for a repetition, also one that reports success, and
  serves, as every frame, only to clear the count of missed heartbeats and their fault.
  Whatever start status frames, commands, turns, seconds and telemetry come, the state, the frames sent and the kernel stay the same; a
  command to start or to stop is refused and changes nothing, and a command to set the power is accepted and sets only the stored duty.\<close>

theorem failed_start_sticks:
  assumes "ChgState p = state_WaitChargeStartFrameAsk" "ReSendFlag p F_ChargeStartStateAck \<noteq> 1" "rx_cmd m = 0x11" "can_data m ! 2 \<noteq> 0"
    and "\<forall>e \<in> set es. retry e" and p': "p' = pile_run (Frame j m # es) p"
  shows "ChgState p' = state_WaitChargeStartFrameAsk \<and> sent_cmds p' = sent_cmds p \<and> pk p' = pk p
    \<and> (rx_cmd m' = 0x11 \<longrightarrow> CAN_V110_RecProtocal j' m' p' = p'\<lparr>can_heart_count := 0, TotalFau := TotalFau p' AND NOT 0x2000\<rparr>)
    \<and> ChargepileDataGetSet Cmd_ChargeStart a p' = (1, a, p') \<and> ChargepileDataGetSet Cmd_ChargeStop a p' = (1, a, p')
    \<and> ChargepileDataGetSet Cmd_SetPower (Some x) p'
        = (0, Some x, p'\<lparr>STR_ChargPilePara := (STR_ChargPilePara p')\<lparr>para_PWM_Duty := para_PWM_Duty x\<rparr>\<rparr>)"
proof -
  let ?p1 = "pile_step (Frame j m) p"
  have v: "session_view ?p1 = (state_WaitChargeStartFrameAsk, (ReSendFlag p)(F_ChargeStartStateAck := 1), pk p, ChargePileEvent p, sent_cmds p)"
    using assms(1-4) by (simp add: session_view_def CAN_V110_RecProtocal_def handle_frame_def rx_ChargeStartStateFrame_def Let_def) (simp add: sys_def)
  have "session_view (pile_run es ?p1) = session_view ?p1" using assms(5) v by (intro retry_run) (simp_all add: session_view_def)
  then have w: "ChgState p' = state_WaitChargeStartFrameAsk" "sent_cmds p' = sent_cmds p" "pk p' = pk p" "ReSendFlag p' F_ChargeStartStateAck = 1"
    using v by (simp_all add: p' session_view_def)
  have "CAN_V110_RecProtocal j' m' p' = p'\<lparr>can_heart_count := 0, TotalFau := TotalFau p' AND NOT 0x2000\<rparr>" if "rx_cmd m' = 0x11"
    using w(4) that by (simp add: CAN_V110_RecProtocal_def handle_frame_def rx_ChargeStartStateFrame_def Let_def)
  with w show ?thesis by (simp add: ChargepileDataGetSet_def)
qed

theorem failed_start_sticks_witness:
  "ChgState (pile_run [Frame [] (demo_msg 0x11 1), Frame [] (demo_msg 0x11 0), Command Cmd_ChargeStart None] (demo_pile state_WaitChargeStartFrameAsk 0))
     = state_WaitChargeStartFrameAsk"
proof -
  have h: "can_data (demo_msg 0x11 1) ! 2 \<noteq> 0" "\<forall>e \<in> set [Frame [] (demo_msg 0x11 0), Command Cmd_ChargeStart None]. retry e"
    by (simp_all add: demo_msg_def [of _ 1] retry_def demo_msg_cmd)
  show ?thesis using failed_start_sticks [OF _ _ demo_msg_cmd(1) h refl, of "demo_pile state_WaitChargeStartFrameAsk 0" "[]"] by simp
qed

text \<open>The thread gives the commands itself: a pile in standby starts a session in every fifth second, and one that charges stops in every tenth.\<close>

lemma pile_commands_itself:
  "ChgState p = state_Standby \<Longrightarrow> RunTime p mod 5 = 0 \<Longrightarrow> sent_cmds (pile_step (Turn j) p) = sent_cmds p @ [0x01]"
  "ChgState p = state_Charging \<Longrightarrow> RunTime p mod 10 = 0 \<Longrightarrow> sent_cmds (pile_step (Turn j) p) = sent_cmds p @ [0x03]"
  by (simp_all add: turn_defs sent_inform Let_def)

section \<open>Setting the clock\<close>

lemma lo_hi: "unat (lo8 w) + unat (hi8 w) * 256 = unat w" for w :: u16
proof -
  have "unat w < 256 * 256" using unsigned_less [of w] by simp
  then have "unat w div 256 < 256" by (rule less_mult_imp_div_less)
  then have "unat (hi8 w) = unat w div 256" by (simp add: hi8_def unsigned_ucast_eq unsigned_drop_bit_eq take_bit_eq_mod drop_bit_eq_div unat_div)
  moreover have "unat (lo8 w) = unat w mod 256" by (simp add: lo8_def unsigned_ucast_eq take_bit_eq_mod)
  ultimately show ?thesis by (metis mod_div_decomp mult.commute add.commute)
qed

lemma and_mask_same: "w < 2 ^ n \<Longrightarrow> n < 8 \<Longrightarrow> w AND mask n = w" for w :: u8
  by (rule less_mask_eq)

lemma masks8: "(0x3F :: u8) = mask 6" "(0x1F :: u8) = mask 5" "(0x0F :: u8) = mask 4" "(0x7F :: u8) = mask 7"
  by (simp_all add: mask_eq_exp_minus_1)

lemma week_day: "\<forall>a \<in> set [0..<8]. \<forall>b \<in> set [0..<32]. (push_bit 5 (of_nat a) + of_nat b :: u8) AND 0x1F = of_nat b
    \<and> (push_bit 5 (of_nat a) + of_nat b :: u8) AND 0xE0 = push_bit 5 (of_nat a)"
  by code_simp

definition proper_time :: "STR_SYSTEM_TIME \<Rightarrow> bool" where
  "proper_time t \<longleftrightarrow> Second t < 60 \<and> Minute t < 60 \<and> Hour t < 24 \<and> 1 \<le> Day t \<and> Day t \<le> 31 \<and> Week t < 8 \<and> 1 \<le> Month t \<and> Month t \<le> 12 \<and> Year t < 100"

lemma week_day_byte:
  assumes "Week t < 8" "Day t \<le> 31"
  shows "(push_bit 5 (Week t) + (Day t AND 0x1F)) AND 0x1F = Day t" "(push_bit 5 (Week t) + (Day t AND 0x1F)) AND 0xE0 = push_bit 5 (Week t)"
proof -
  have "Day t < 2 ^ 5" using assms(2) by (simp add: word_less_nat_alt word_le_nat_alt)
  then have d: "Day t AND 0x1F = Day t" unfolding masks8 by (rule and_mask_same) simp
  have "unat (Week t) \<in> set [0..<8]" "unat (Day t) \<in> set [0..<32]" using assms by (simp_all add: word_less_nat_alt word_le_nat_alt)
  with week_day have "(push_bit 5 (of_nat (unat (Week t))) + of_nat (unat (Day t)) :: u8) AND 0x1F = of_nat (unat (Day t))
    \<and> (push_bit 5 (of_nat (unat (Week t))) + of_nat (unat (Day t)) :: u8) AND 0xE0 = push_bit 5 (of_nat (unat (Week t)))" by blast
  then show "(push_bit 5 (Week t) + (Day t AND 0x1F)) AND 0x1F = Day t" "(push_bit 5 (Week t) + (Day t AND 0x1F)) AND 0xE0 = push_bit 5 (Week t)"
    by (simp_all add: d)
qed

lemma seconds_byte:
  assumes "Second t < 60"
  shows "(unat (lo8 (ucast (Second t) * 1000 :: u16)) + unat (hi8 (ucast (Second t) * 1000 :: u16)) * 256) div 1000 = unat (Second t)"
proof -
  have s: "unat (Second t) < 60" using assms by (simp add: word_less_nat_alt)
  then have "unat (ucast (Second t) * 1000 :: u16) = unat (Second t) * 1000" by (simp add: unat_word_ariths unsigned_ucast_eq take_bit_eq_mod)
  then show ?thesis unfolding lo_hi by simp
qed

text \<open>C39.  A time that one side sends is the time the other side sets its clock to, except for the day of the week: the receiver takes
  the three bits from the byte without moving them down, and so stores 32 times the number of the day.  The receiver answers with its
  new time.\<close>

theorem clock_set:
  assumes "proper_time (System_Time_STR q)" "Minute (System_Time_STR q) \<noteq> Minute (System_Time_STR p)" "ReSendFlag p F_TimingAck \<noteq> 1"
  shows "\<exists>m. can_out (Inform_Communicate_Can 0x05 r j q) = can_out q @ [m]
    \<and> System_Time_STR (CAN_V110_RecProtocal junk m p) = (System_Time_STR q)\<lparr>Week := 32 * Week (System_Time_STR q)\<rparr>
    \<and> sent_cmds (CAN_V110_RecProtocal junk m p) = sent_cmds p @ [0x06]"
proof -
  define t where "t = System_Time_STR q"
  let ?m = "\<lparr>can_id = tx_id 6 0x05, can_data = time_data q\<rparr>"
  have out: "can_out (Inform_Communicate_Can 0x05 r j q) = can_out q @ [?m]"
    by (simp add: Inform_Communicate_Can_def send_TimingFrame_def ask_resend_def set_resend_def set_resend_cnt_def CAN1_Send_Msg_def fill_def time_data_def Let_def)
  have b: "Second t < 60" "Minute t < 60" "Hour t < 24" "1 \<le> Day t" "Day t \<le> 31" "Week t < 8" "1 \<le> Month t" "Month t \<le> 12" "Year t < 100"
    using assms(1) by (simp_all add: proper_time_def t_def)
  have m: "Minute t AND 0x3F = Minute t" "Hour t AND 0x1F = Hour t" "Month t AND 0x0F = Month t" "Year t AND 0x7F = Year t"
    unfolding masks8 using b by (auto intro!: and_mask_same simp: word_less_nat_alt word_le_nat_alt)
  have d: "time_data q = [ident q, lo8 (ucast (Second t) * 1000 :: u16), hi8 (ucast (Second t) * 1000 :: u16), Minute t, Hour t,
      push_bit 5 (Week t) + (Day t AND 0x1F), Month t, Year t]" by (simp add: time_data_def t_def [symmetric] m Let_def)
  have v: "time_valid (time_data q) (System_Time_STR p)"
    using b assms(2) seconds_byte [OF b(1)] week_day_byte [OF b(6,5)] m
    by (simp add: time_valid_def d t_def [symmetric] word_less_nat_alt word_le_nat_alt)
  have w: "push_bit 5 (Week t) = 32 * Week t" by (simp add: push_bit_eq_mult)
  have "System_Time_STR (CAN_V110_RecProtocal junk ?m p) = t\<lparr>Week := 32 * Week t\<rparr>"
    using assms(3) v seconds_byte [OF b(1)] week_day_byte [OF b(6,5)] m w
    by (simp add: CAN_V110_RecProtocal_def handle_frame_def rx_TimingFrame_def sys_def Let_def d)
  moreover have "sent_cmds (CAN_V110_RecProtocal junk ?m p) = sent_cmds p @ [0x06]"
    using assms(3) by (simp add: CAN_V110_RecProtocal_def handle_frame_def rx_TimingFrame_def sent_inform sent_time Let_def)
  ultimately show ?thesis using out unfolding t_def by blast
qed

theorem clock_set_witness:
  "\<exists>m. can_out (Inform_Communicate_Can 0x05 0 [] (demo_pile state_Standby 45)) = [m]
    \<and> System_Time_STR (CAN_V110_RecProtocal [] m (demo_pile state_Standby 0))
        = \<lparr>Second = 30, Minute = 45, Hour = 12, Day = 15, Week = 96, Month = 8, Year = 19\<rparr>"
proof -
  have h: "proper_time (System_Time_STR (demo_pile state_Standby 45))" "Minute (System_Time_STR (demo_pile state_Standby 45)) \<noteq> Minute (System_Time_STR (demo_pile state_Standby 0))"
    "ReSendFlag (demo_pile state_Standby 0) F_TimingAck \<noteq> 1" by (simp_all add: proper_time_def)
  show ?thesis using clock_set [OF h, of 0 "[]" "[]"] by auto
qed

end
