(* ===== verification/Spec2Isabelle.thy ===== *)
theory Spec2Isabelle
  imports RT_Mutex RT_Event RT_Mailbox RT_Queue RT_Startup RT_Ringbuffer RT_Driver_Ipc RT_Workqueue RT_Device App_Link App_Codec App_Pile
begin

text \<open>
  A verification development of the firmware of the energy router LEM-4361A: the RT-Thread 4.0 kernel and parts of its driver
  framework, the start-up of the board, and the protocol code of the application.

  \<^bold>\<open>The program.\<close>  The kernel (\<^verbatim>\<open>src/\<close>, \<^verbatim>\<open>include/\<close>) runs threads by fixed priority on one processor.  Threads, timers, semaphores,
  mutexes, event sets, mailboxes, message queues, memory pools and devices are objects with a name and a type in the object
  registry; the queues they stand in are intrusive lists; dynamic objects live on the heap of the small memory manager.  A thread
  that has to wait is suspended in the queue of an object, and its own timer ends the wait.  The drivers
  (\<^verbatim>\<open>components/drivers/\<close>) add ring buffers, data queues, completions, work queues and wait queues.  The application
  (\<^verbatim>\<open>bsp/stm32f407-lem-4361a/applications/\<close>) talks to the power line module in frames of the protocol of \<^verbatim>\<open>698.c\<close> and to the charging
  controller in CAN frames (\<^verbatim>\<open>chargepile.c\<close>), and reports the progress of a charging session through an event set of the kernel.

  \<^bold>\<open>The state.\<close>  \<^verbatim>\<open>RT_Prelude\<close> has the machine integers, the error codes and the shared lemmas; \<^verbatim>\<open>RT_Kernel\<close> has the structures of
  \<^verbatim>\<open>include/rtdef.h\<close> as records and the record \<^verbatim>\<open>kernel\<close> of all kernel variables.  A structure is named by its address.  An
  operation takes the kernel and returns it with its result.  A failed \<^verbatim>\<open>RT_ASSERT\<close> and the use of a wild pointer set the field
  \<^verbatim>\<open>kpanic\<close>, which stays set; that \<^verbatim>\<open>kpanic\<close> is unchanged is therefore the statement that neither happens.  A call that may wait ends at
  the call of the scheduler with the outcome \<^verbatim>\<open>Blocked\<close>, and a second definition, with the suffix \<^verbatim>\<open>_end\<close>, is the rest of it after the
  thread has been woken; between them anything may happen.  A stretch of code with the interrupts disabled is one step.

  \<^bold>\<open>The kernel.\<close>
  \<^item> \<^verbatim>\<open>RT_List\<close> (\<^verbatim>\<open>include/rtservice.h\<close>): the doubly linked lists on their pointers.  The interface \<^verbatim>\<open>list_store\<close> is interpreted on the pointers
    and on functional lists, and sequences of operations give the same on both, which is why the rest uses functional lists.
  \<^item> \<^verbatim>\<open>RT_Kservice\<close> and \<^verbatim>\<open>RT_Bytes\<close> (\<^verbatim>\<open>src/kservice.c\<close>): find-first-set, and the memory and string routines, the optimised
    ones equal to byte-wise references.
  \<^item> \<^verbatim>\<open>RT_Mem\<close>, \<^verbatim>\<open>RT_Heap_Inv\<close>, \<^verbatim>\<open>RT_Heap\<close> (\<^verbatim>\<open>src/mem.c\<close>): the allocator, the invariant that its blocks tile the heap and that free
    neighbours are merged, and the interface \<^verbatim>\<open>allocator\<close> with its interpretation; any sequence of calls is safe.
  \<^item> \<^verbatim>\<open>RT_Object\<close> (\<^verbatim>\<open>src/object.c\<close>), \<^verbatim>\<open>RT_Scheduler\<close> (\<^verbatim>\<open>src/scheduler.c\<close>), \<^verbatim>\<open>RT_Thread\<close> (\<^verbatim>\<open>src/thread.c\<close>): the invariant \<^verbatim>\<open>sched_ok\<close> ties the
    states of the threads, the ready queues, the bitmap and the wait queues together; the scheduler always runs a thread of the
    highest priority, and the operations on threads keep the invariant.
  \<^item> \<^verbatim>\<open>RT_Timer\<close>, \<^verbatim>\<open>RT_Clock\<close> (\<^verbatim>\<open>src/timer.c\<close>, \<^verbatim>\<open>src/clock.c\<close>, \<^verbatim>\<open>src/irq.c\<close>): timers sorted by distance from the present, across the
    wrap-around of the tick; a timer runs at its tick, and a periodic one again and again.
  \<^item> \<^verbatim>\<open>RT_IpcList\<close>, \<^verbatim>\<open>RT_Sem\<close>, \<^verbatim>\<open>RT_Mutex\<close>, \<^verbatim>\<open>RT_Event\<close>, \<^verbatim>\<open>RT_Mailbox\<close>, \<^verbatim>\<open>RT_Queue\<close> (\<^verbatim>\<open>src/ipc.c\<close>), \<^verbatim>\<open>RT_Mempool\<close> (\<^verbatim>\<open>src/mempool.c\<close>): the wait queues
    and, for each object, what every branch of its operations does to the object, the threads and the scheduler.
  \<^item> \<^verbatim>\<open>RT_Idle\<close> (\<^verbatim>\<open>src/idle.c\<close>, and the release of signals of \<^verbatim>\<open>src/signal.c\<close>) cleans up dead threads.  \<^verbatim>\<open>RT_Device\<close> (\<^verbatim>\<open>src/device.c\<close>)
    counts the users of a device, for any driver that leaves the count, the stand-alone flag and the open bit to the device layer.
  \<^item> \<^verbatim>\<open>RT_Startup\<close> (\<^verbatim>\<open>src/components.c\<close>, \<^verbatim>\<open>drv_common.c\<close>, \<^verbatim>\<open>src/signal.c\<close>): from the cold state to the first thread, whereby all the
    invariants above are established.

  \<^bold>\<open>The drivers.\<close>  \<^verbatim>\<open>RT_Fifo\<close> has the interface \<^verbatim>\<open>bounded_fifo\<close> of a bounded queue and its extension \<^verbatim>\<open>urgent_fifo\<close>, with what
  follows for any run; mailboxes, message queues, ring buffers (\<^verbatim>\<open>RT_Ringbuffer\<close>) and data queues (\<^verbatim>\<open>RT_Driver_Ipc\<close>) interpret it.
  \<^verbatim>\<open>RT_Driver_Ipc\<close> also has the completions, \<^verbatim>\<open>RT_Workqueue\<close> the work queues and \<^verbatim>\<open>RT_Waitqueue\<close> the wait queues of devices.

  \<^bold>\<open>The application.\<close>
  \<^item> \<^verbatim>\<open>App_Checksum\<close> and \<^verbatim>\<open>App_Codec\<close> (\<^verbatim>\<open>global.c\<close>, \<^verbatim>\<open>698.h\<close>, \<^verbatim>\<open>698.c\<close>): the table-driven checksums equal the bitwise ones and detect an
    altered byte; conversions are inverse to each other; time stamps follow the calendar.
  \<^item> \<^verbatim>\<open>App_Link\<close> (\<^verbatim>\<open>698.c\<close>): the receiver of the power line module, the checks and the unpacking of a frame, and the link requests;
    a frame that fits into the receive buffer is received, after any bytes other than the start byte and with any pauses below the
    timeout, and a damaged one is refused; on arbitrary input the receiver stays within its buffer, with the one exception stated.
  \<^item> \<^verbatim>\<open>App_Pile\<close> (\<^verbatim>\<open>chargepile.c\<close>): the frames of the charging controller, the state machine of a session and the commands; the states
    that can be reached, a whole session, and where a failed start leaves it.  A turn of the thread is one step, in which the receiving
    thread may handle frames after the sending and before the next state is assigned.  The CAN driver is taken to accept every message.
  This theory adds the way of a report from the CAN bus through the pile and the event set to the thread that waits for it.

  \<^bold>\<open>Bounds and loops.\<close>  Loops over lists are structural recursions.  Loops whose end depends on the state are
  \<^theory_text>\<open>partial_function (option)\<close>, and the theorems about them state that they return.  Words keep the width of
  the source; sizes and addresses are natural numbers below \<^verbatim>\<open>2 ^ 32\<close>, with the wrap-around written out.  There is no fuel.
  Where a theorem needs a counter not to overflow (the nested takes of a mutex, a 16-bit semaphore value or queue index) the bound is a
  hypothesis; the users of a device, the items of a data queue and the digits of a string are followed past the end of their counters.

  \<^bold>\<open>Parameters.\<close>  Callbacks (timeout functions, thread entries, hooks, clean-up functions, works, wake functions), the entry points of
  device drivers and the initialisation functions of components are arguments.  What a theorem expects of them is a named hypothesis, such
  as \<^verbatim>\<open>driver_sane\<close> and \<^verbatim>\<open>driver_ok\<close>.

  \<^bold>\<open>Not modelled.\<close>  Context switches, stacks and interrupt entry are assembler (\<^verbatim>\<open>libcpu/\<close>); the HAL and CMSIS libraries and the drivers of the
  board work on hardware registers.  The multi-core branches, \<^verbatim>\<open>memheap.c\<close>, \<^verbatim>\<open>slab.c\<close> and the module loader are not configured.  The delivery
  of signals rewrites the stack of a thread.  The hooks of the kernel are configured, but nothing in the build sets one.  Formatted printing, the shell and the screen only produce output.  The file systems, the
  network, the C library and the POSIX layer are separate subsystems the modelled code does not call.  Of the application, the services of
  \<^verbatim>\<open>698.c\<close> above the link layer, the storage in files, the Bluetooth and security modules, the meter and the analogue inputs are not modelled, nor are
  the threads of the energy control and the strategy, which only exchange the commands and events of \<^verbatim>\<open>App_Pile\<close> with it.
\<close>

section \<open>From the bus to the waiting thread\<close>

lemma start_report:
  assumes "rx_cmd m = 0x11" "can_data m ! 2 = 0" "ReSendFlag p F_ChargeStartStateAck \<noteq> 1"
  shows "ChgState (CAN_V110_RecProtocal junk m p) = state_Charging"
    and "pk (CAN_V110_RecProtocal junk m p) = snd (rt_event_send (ChargePileEvent p) ChargeStartOK_EVENT (pk p))"
  using view_started [OF assms, of junk] by (simp_all add: session_view_def)

text \<open>C40.  When the charging controller reports on the CAN bus that charging has started, the thread that waits for it in
  \<^verbatim>\<open>rt_event_recv\<close> is woken and receives the event with success; the pile is charging, the event is taken out of the set, and the
  invariants of the event set and of the scheduler hold.\<close>

theorem start_report_wakes_thread:
  assumes ok: "event_ok (ChargePileEvent p) (pk p)" "sched_ok {} (pk p)" "current (pk p) = Some c"
    and u: "tlists (pk p) (Suspend (Evt (ChargePileEvent p))) = [u]" "event_set (threads (pk p) u) = ChargeStartOK_EVENT"
      "event_info (threads (pk p) u) = RT_EVENT_FLAG_OR OR RT_EVENT_FLAG_CLEAR" "error (threads (pk p) u) = RT_EOK"
    and m: "rx_cmd m = 0x11" "can_data m ! 2 = 0" "ReSendFlag p F_ChargeStartStateAck \<noteq> 1"
    and p': "p' = CAN_V110_RecProtocal junk m p"
  shows "ChgState p' = state_Charging \<and> state_of (pk p') u \<in> {RT_THREAD_READY, RT_THREAD_RUNNING}
    \<and> rt_event_recv_end u (pk p') = (RT_EOK, Some ChargeStartOK_EVENT)
    \<and> evt_set (events (pk p') (ChargePileEvent p)) = evt_set (events (pk p) (ChargePileEvent p)) AND NOT ChargeStartOK_EVENT
    \<and> event_ok (ChargePileEvent p) (pk p') \<and> sched_ok {} (pk p') \<and> kpanic (pk p') = kpanic (pk p)"
proof -
  let ?e = "ChargePileEvent p" and ?have = "evt_set (events (pk p) (ChargePileEvent p)) OR 1"
  have k: "pk p' = snd (rt_event_send ?e 1 (pk p))" "ChgState p' = state_Charging" using start_report [OF m] by (simp_all add: p')
  have got: "1 AND ?have = 1" by (simp add: bit.conj_disj_distrib)
  have left: "?have AND NOT 1 = evt_set (events (pk p) ?e) AND NOT 1" by (simp add: bit.conj_disj_distrib2)
  have flags: "(2 OR 4 :: u8) AND 1 = 0" "(2 OR 4 :: u8) AND 2 \<noteq> 0" "(2 OR 4 :: u8) AND 4 \<noteq> 0" by simp_all
  have out: "serve (\<lambda>u. event_info (threads (pk p) u)) (\<lambda>u. event_set (threads (pk p) u)) [u] ?have = ([(u, 1)], ?have AND NOT 1)"
    using u(2,3) got by (simp add: satisfied_def flags)
  show ?thesis
    using event_send_facts [OF ok, of 1] k u(1,4) left unfolding u(1) out by (simp add: case_prod_beta rt_event_recv_end_def)
qed

text \<open>The witness: thread 3 waits for the start of charging in the event set 2, thread 1 runs.\<close>

definition demo_start_waiter :: pile where
  "demo_start_waiter = (demo_pile state_WaitChargeStartFrameAsk 0)\<lparr>ChargePileEvent := 2,
     pk := upd_thread 3 (\<lambda>y. y\<lparr>event_set := 1, event_info := 6\<rparr>) (demo_waits (Suspend (Evt 2)))\<rparr>"

theorem start_report_wakes_thread_witness:
  "\<exists>p'. p' = CAN_V110_RecProtocal [] (demo_msg 0x11 0) demo_start_waiter \<and> ChgState p' = state_Charging
     \<and> rt_event_recv_end 3 (pk p') = (RT_EOK, Some 1)"
proof -
  let ?k = "upd_thread 3 (\<lambda>y. y\<lparr>event_set := 1, event_info := 6\<rparr>) (demo_waits (Suspend (Evt 2)))"
  have o: "pk demo_start_waiter = ?k" "ChargePileEvent demo_start_waiter = 2" "ReSendFlag demo_start_waiter F_ChargeStartStateAck \<noteq> 1"
    by (simp_all add: demo_start_waiter_def demo_pile_def)
  have k: "events ?k = events demo_system" "current ?k = Some 1" "objs ?k = objs demo_system"
    "event_set (threads ?k 3) = 1" "event_info (threads ?k 3) = 2 OR 4" "error (threads ?k 3) = RT_EOK"
    "tlists ?k (Suspend (Evt 2)) = [3]" "thread_ok u ?k" for u
    by (simp_all add: demo_waits_lists demo_waiter)
  have s: "sched_ok {} ?k"
    by (rule sched_ok_threads [OF demo_waits_sched [of "Suspend (Evt 2)"]]) (simp_all add: upd_thread_def)
  have e: "event_ok 2 ?k"
    by (simp add: event_ok_def is_event_def rt_object_get_type_def k demo_types demo_waiter demo_waits_lists satisfied_def)
  have d: "can_data (demo_msg 0x11 0) ! 2 = 0" by (simp add: demo_msg_def)
  show ?thesis
    using start_report_wakes_thread [of demo_start_waiter 1 3 "demo_msg 0x11 0" _ "[]", OF _ _ _ _ _ _ _ demo_msg_cmd(1) d o(3) refl] s e k
    by (simp add: o)
qed

end
